(* ===== verification/Prelude.thy ===== *)
theory Prelude
  imports Main "HOL-Library.Word" "HOL-Library.Multiset"
begin

unbundle bit_operations_syntax

text \<open>
  What every component of the development shares: the fixed-size integers of
  \<^verbatim>\<open>cachelot/common.h\<close>, the application errors of \<^verbatim>\<open>cachelot/error.h\<close>, and the
  generic facts about words, lists and multisets that the component proofs rest on.
\<close>

subsection \<open>Fixed-size integers\<close>

type_synonym u8 = "8 word"
type_synonym u16 = "16 word"
type_synonym u32 = "32 word"
type_synonym u64 = "64 word"

subsection \<open>Application errors\<close>

datatype cachelot_error_code =
    unknown_error | out_of_memory | numeric_convert | numeric_overflow | key_too_long
  | item_too_big | not_implemented | incomplete_request | broken_request

text \<open>Errors are values: a call that throws is \<open>Inl\<close> of what it throws.\<close>

datatype exn =
    System_error cachelot_error_code
  | Bad_alloc
  | Invalid_argument string
  | Length_error string

type_synonym 'a result = "exn + 'a"

subsection \<open>Collections of facts\<close>

named_theorems word_nat \<open>values of word expressions as natural numbers\<close>

subsection \<open>Words\<close>

lemma unat_word_lt [simp]: "unat (w :: 'a::len word) < 2 ^ LENGTH('a)"
  by (rule unsigned_less)

lemma unat_u32_lt [simp]: "unat (w :: u32) < 4294967296"
  using unat_word_lt [of w] by simp

lemma unat_eqI: "unat a = unat b \<Longrightarrow> a = b"
  by (simp add: word_unat_eq_iff)

lemma unat_pos_iff [simp]: "0 < unat w \<longleftrightarrow> w \<noteq> 0"
  by (metis neq0_conv unat_0 unat_eqI)

lemma unat_and_mask [word_nat]:
  "unat (w AND mask k) = unat w mod 2 ^ k" for w :: "'a::len word"
proof -
  have "unat (w AND mask k) = take_bit k (unat w)"
    by (simp flip: take_bit_eq_mask add: unsigned_take_bit_eq)
  then show ?thesis by (simp add: take_bit_eq_mod)
qed

lemma unat_add_lt [word_nat]:
  "unat a + unat b < 2 ^ LENGTH('a) \<Longrightarrow> unat (a + b) = unat a + unat b" for a b :: "'a::len word"
  by (simp add: unat_word_ariths)

lemma unat_Suc_lt [word_nat]:
  "unat a + 1 < 2 ^ LENGTH('a) \<Longrightarrow> unat (a + 1) = unat a + 1" for a :: "'a::len word"
  by (simp add: unat_word_ariths)

lemma unat_diff_le [word_nat]: "b \<le> a \<Longrightarrow> unat (a - b) = unat a - unat b"
  by (simp add: unat_sub)

lemma unat_drop_bit_div: "unat (drop_bit k w) = unat w div 2 ^ k" for w :: "'a::len word"
  by (subst unat_drop_bit_eq) (rule drop_bit_eq_div)

lemma unat_minus1 [word_nat]: "unat (- 1 :: 'a::len word) = 2 ^ LENGTH('a) - 1"
  by (simp add: unsigned_minus_1_eq_mask mask_eq_exp_minus_1)

subsection \<open>Positions in a circular array\<close>

text \<open>The nonlinear part of the arithmetic of a circular array of \<open>n\<close> slots.\<close>

lemma mod_add_self_diff:
  "d < n \<Longrightarrow> p < n \<Longrightarrow> (p + n - d) mod n = (if d \<le> p then p - d else p + n - d)" for n :: nat
  by (auto simp: mod_if)

subsection \<open>Lists and multisets\<close>

lemma mset_update_swap:
  "i < length xs \<Longrightarrow> add_mset (xs ! i) (mset (xs[i := x])) = add_mset x (mset xs)"
  by (simp add: mset_update)

lemma zip_update2:
  "(zip xs ys)[i := (x, y)] = zip (xs[i := x]) (ys[i := y])"
  by (simp add: update_zip)

end
