(* ===== verification/Slice.thy ===== *)
theory Slice
  imports Prelude
begin

text \<open>
  \<^verbatim>\<open>cachelot/slice.h\<close>: a range of bytes given by two addresses in a memory \<open>M\<close>; \<^verbatim>\<open>nullptr\<close> is the
  address 0. Each operation is stated on the addresses, as the code has it, and shown to act on the
  bytes of the range as an operation on byte lists: \<open>split_bytes\<close>, \<open>endswith_bytes\<close> and so on, which the
  server's theories use for slices.
\<close>

section \<open>Slices\<close>

record slice =
  m_begin :: nat
  m_end :: nat

type_synonym memory = "nat \<Rightarrow> u8"

definition slice_new :: slice where
  "slice_new = \<lparr>m_begin = 0, m_end = 0\<rparr>"

definition slice_range :: "nat \<Rightarrow> nat \<Rightarrow> slice" where
  "slice_range range_begin range_end = \<lparr>m_begin = range_begin, m_end = range_end\<rparr>"

definition slice_of_length :: "nat \<Rightarrow> nat \<Rightarrow> slice" where
  "slice_of_length range_begin range_length = \<lparr>m_begin = range_begin, m_end = range_begin + range_length\<rparr>"

definition slice_nth :: "slice \<Rightarrow> nat \<Rightarrow> nat" where
  "slice_nth s index = m_begin s + index"

definition slice_at :: "memory \<Rightarrow> slice \<Rightarrow> nat \<Rightarrow> u8" where
  "slice_at M s index = M (slice_nth s index)"

definition slice_length :: "slice \<Rightarrow> nat" where
  "slice_length s = m_end s - m_begin s"

definition slice_empty :: "slice \<Rightarrow> bool" where
  "slice_empty s \<longleftrightarrow> m_begin s = m_end s"

definition slice_bool :: "slice \<Rightarrow> bool" where
  "slice_bool s \<longleftrightarrow> \<not> slice_empty s"

text \<open>The bytes of the range, which is also what \<^verbatim>\<open>str\<close> returns.\<close>

definition slice_str :: "memory \<Rightarrow> slice \<Rightarrow> u8 list" where
  "slice_str M s = map M [m_begin s..<m_end s]"

definition slice_equal :: "memory \<Rightarrow> slice \<Rightarrow> slice \<Rightarrow> bool" where
  "slice_equal M s other =
     (if slice_length s = slice_length other
      then (if m_begin s = m_begin other \<and> m_end s = m_end other then True else slice_str M s = slice_str M other)
      else False)"

definition slice_unequal :: "memory \<Rightarrow> slice \<Rightarrow> slice \<Rightarrow> bool" where
  "slice_unequal M s other \<longleftrightarrow> \<not> slice_equal M s other"

text \<open>\<^verbatim>\<open>std::search\<close>: the first position where the bytes of the second range start, the end of the first
  range if there is none.\<close>

definition std_search :: "memory \<Rightarrow> nat \<Rightarrow> nat \<Rightarrow> u8 list \<Rightarrow> nat" where
  "std_search M b e w = (case find (\<lambda>p. map M [p..<p + length w] = w) [b..<Suc e - length w] of Some p \<Rightarrow> p | None \<Rightarrow> e)"

definition search :: "memory \<Rightarrow> slice \<Rightarrow> slice \<Rightarrow> slice" where
  "search M s what =
     (if slice_length what \<le> slice_length s
      then (if m_begin s \<le> m_begin what \<and> m_end what \<le> m_end s then what
            else let pos = std_search M (m_begin s) (m_end s) (slice_str M what)
                 in if pos \<noteq> m_end s then slice_of_length pos (slice_length what) else slice_new)
      else slice_new)"

definition contains :: "memory \<Rightarrow> slice \<Rightarrow> slice \<Rightarrow> bool" where
  "contains M s subrange = (if slice_bool (search M s subrange) then True else False)"

definition contains_addr :: "slice \<Rightarrow> nat \<Rightarrow> bool" where
  "contains_addr s b \<longleftrightarrow> m_begin s \<le> b \<and> b < m_end s"

definition startswith :: "memory \<Rightarrow> slice \<Rightarrow> slice \<Rightarrow> bool" where
  "startswith M s what \<longleftrightarrow> m_begin (search M s what) = m_begin s"

definition split_at_addr :: "slice \<Rightarrow> nat \<Rightarrow> slice \<times> slice" where
  "split_at_addr s at = (slice_range (m_begin s) at, slice_range at (m_end s))"

definition split_at :: "slice \<Rightarrow> nat \<Rightarrow> slice \<times> slice" where
  "split_at s index = split_at_addr s (slice_nth s index)"

definition endswith :: "memory \<Rightarrow> slice \<Rightarrow> slice \<Rightarrow> bool" where
  "endswith M s what =
     (if slice_length what \<le> slice_length s
      then (case split_at s (slice_length s - slice_length what) of (_, xtail) \<Rightarrow> slice_equal M xtail what)
      else False)"

definition subslice :: "slice \<Rightarrow> nat \<Rightarrow> nat \<Rightarrow> slice" where
  "subslice s index len = slice_of_length (slice_nth s index) len"

definition rtrim_n :: "slice \<Rightarrow> nat \<Rightarrow> slice" where
  "rtrim_n s n = subslice s 0 (slice_length s - n)"

definition split :: "memory \<Rightarrow> slice \<Rightarrow> slice \<Rightarrow> slice \<times> slice" where
  "split M s separator =
     (let found_sep = search M s separator in
      if slice_bool found_sep then (slice_range (m_begin s) (m_begin found_sep), slice_range (m_end found_sep) (m_end s))
      else (s, slice_new))"

text \<open>The separator is a parameter of the function, at some address \<open>a\<close> of the stack.\<close>

definition split_char :: "memory \<Rightarrow> slice \<Rightarrow> nat \<Rightarrow> slice \<times> slice" where
  "split_char M s a = split M s (slice_of_length a 1)"

section \<open>The same on byte lists\<close>

definition find_bytes :: "u8 list \<Rightarrow> u8 list \<Rightarrow> nat option" where
  "find_bytes w xs = find (\<lambda>i. take (length w) (drop i xs) = w) [0..<Suc (length xs) - length w]"

definition split_bytes :: "u8 list \<Rightarrow> u8 list \<Rightarrow> u8 list \<times> u8 list" where
  "split_bytes w xs =
     (if w = [] then (xs, [])
      else (case find_bytes w xs of None \<Rightarrow> (xs, []) | Some i \<Rightarrow> (take i xs, drop (i + length w) xs)))"

definition endswith_bytes :: "u8 list \<Rightarrow> u8 list \<Rightarrow> bool" where
  "endswith_bytes w xs \<longleftrightarrow> length w \<le> length xs \<and> drop (length xs - length w) xs = w"

text \<open>Neither range lies within the other: the shortcut of \<^verbatim>\<open>search\<close> for a part of the range itself is not
  taken. This is so for a separator in static memory or on the stack.\<close>

definition apart :: "slice \<Rightarrow> slice \<Rightarrow> bool" where
  "apart s w \<longleftrightarrow> m_begin s \<le> m_end s \<and> m_begin w \<le> m_end w \<and> \<not> (m_begin s \<le> m_begin w \<and> m_end w \<le> m_end s)"

section \<open>Facts about byte lists\<close>

lemma find_SomeD: "find P xs = Some x \<Longrightarrow> P x \<and> x \<in> set xs"
  by (auto simp: find_Some_iff)

lemma find_upt_first:
  assumes "find P [a..<b] = Some i"
  shows "a \<le> i" and "i < b" and "P i" and "\<And>j. a \<le> j \<Longrightarrow> j < i \<Longrightarrow> \<not> P j"
proof -
  obtain k where k: "k < length [a..<b]" "P ([a..<b] ! k)" "i = [a..<b] ! k" "\<forall>j<k. \<not> P ([a..<b] ! j)"
    using assms by (auto simp: find_Some_iff)
  show "a \<le> i" "i < b" "P i" using k(1-3) by auto
  fix j assume j: "a \<le> j" "j < i"
  then have "j - a < k" "[a..<b] ! (j - a) = j" using k(1,3) by auto
  then show "\<not> P j" using k(4) by metis
qed

lemma find_bytes_Some:
  assumes "find_bytes w xs = Some i"
  shows "xs = take i xs @ w @ drop (i + length w) xs" and "i + length w \<le> length xs"
    and "\<And>j. j < i \<Longrightarrow> take (length w) (drop j xs) \<noteq> w"
proof -
  note f = find_upt_first [OF assms [unfolded find_bytes_def]]
  show "i + length w \<le> length xs" using f(2) by simp
  have "drop i xs = take (length w) (drop i xs) @ drop (i + length w) xs"
    by (metis append_take_drop_id drop_drop add.commute)
  then show "xs = take i xs @ w @ drop (i + length w) xs" using f(3) by (metis append_take_drop_id)
  show "\<And>j. j < i \<Longrightarrow> take (length w) (drop j xs) \<noteq> w" using f(4) by simp
qed

lemma find_bytes_None:
  assumes "find_bytes w xs = None"
  shows "xs \<noteq> a @ w @ b"
proof
  assume xs: "xs = a @ w @ b"
  then have "take (length w) (drop (length a) xs) = w" "length a \<in> set [0..<Suc (length xs) - length w]" by auto
  then show False using assms by (auto simp: find_bytes_def find_None_iff)
qed

lemma find_bytes_append:
  assumes "w \<noteq> []" and "\<And>j. j < length a \<Longrightarrow> take (length w) (drop j (a @ w @ b)) \<noteq> w"
  shows "find_bytes w (a @ w @ b) = Some (length a)"
proof (cases "find_bytes w (a @ w @ b)")
  case None
  then show ?thesis using find_bytes_None by blast
next
  case (Some i)
  then have i: "take (length w) (drop i (a @ w @ b)) = w" "\<And>j. j < i \<Longrightarrow> take (length w) (drop j (a @ w @ b)) \<noteq> w"
    using find_upt_first [OF Some [unfolded find_bytes_def]] by simp_all
  have "\<not> i < length a" using i(1) assms(2) by blast
  moreover have "\<not> length a < i" using i(2) [of "length a"] by auto
  ultimately show ?thesis using Some by simp
qed

text \<open>A separator of one byte.\<close>

lemma find_byte_append: "c \<notin> set a \<Longrightarrow> find_bytes [c] (a @ c # b) = Some (length a)"
  using find_bytes_append [of "[c]" a b] by (auto simp: take_Suc_conv_app_nth nth_append drop_Cons' take_Cons' hd_drop_conv_nth
      dest: nth_mem split: list.splits)

lemma find_byte_None: "c \<notin> set a \<Longrightarrow> find_bytes [c] a = None"
  by (auto simp: find_bytes_def find_None_iff dest!: arg_cong [where f = set] in_set_takeD in_set_dropD)

lemma split_byte_append: "c \<notin> set a \<Longrightarrow> split_bytes [c] (a @ c # b) = (a, b)"
  by (simp add: split_bytes_def find_byte_append)

lemma split_byte_none: "c \<notin> set a \<Longrightarrow> split_bytes [c] a = (a, [])"
  by (simp add: split_bytes_def find_byte_None)

lemma split_bytes_shorter: "split_bytes w xs = (a, b) \<Longrightarrow> length b \<le> length xs \<and> (b \<noteq> [] \<longrightarrow> length b < length xs)"
  by (cases w) (auto simp: split_bytes_def split: if_splits option.splits)

section \<open>The operations on addresses act on the bytes\<close>

lemma slice_str_simps [simp]:
  "slice_str M slice_new = []" "slice_str M (slice_range a b) = map M [a..<b]"
  "slice_str M (slice_of_length a n) = map M [a..<a + n]" "length (slice_str M s) = slice_length s"
  by (simp_all add: slice_str_def slice_new_def slice_range_def slice_of_length_def slice_length_def)

lemma slice_bool_simps [simp]:
  "slice_empty slice_new" "\<not> slice_bool slice_new" "slice_bool (slice_of_length a n) \<longleftrightarrow> n \<noteq> 0"
  by (simp_all add: slice_bool_def slice_empty_def slice_new_def slice_of_length_def)

lemma map_upt_slice: "map M [a..<a + n] = take n (drop i (map M [b..<e]))" if "a = b + i" "a + n \<le> e"
  using that by (simp add: drop_map take_map drop_upt take_upt)

lemma slice_equal_str: "m_begin s \<le> m_end s \<Longrightarrow> m_begin t \<le> m_end t \<Longrightarrow> slice_equal M s t \<longleftrightarrow> slice_str M s = slice_str M t"
  by (auto simp: slice_equal_def slice_str_def slice_length_def dest: map_eq_imp_length_eq)

lemma std_search_str:
  assumes "b \<le> e" and "length w \<le> e - b"
  shows "std_search M b e w = (case find_bytes w (map M [b..<e]) of Some i \<Rightarrow> b + i | None \<Rightarrow> e)"
proof -
  have upt: "[b..<Suc e - length w] = map (\<lambda>i. b + i) [0..<Suc (e - b) - length w]"
    using assms map_add_upt [of b "Suc (e - b) - length w"] by (simp add: Suc_diff_le add.commute)
  have eq: "map M [b + i..<b + i + length w] = take (length w) (drop i (map M [b..<e]))" if "i < Suc (e - b) - length w" for i
    using that assms by (intro map_upt_slice) simp_all
  have "find (\<lambda>p. map M [p..<p + length w] = w) (map (\<lambda>i. b + i) ks) = map_option (\<lambda>i. b + i) (find (\<lambda>i. take (length w) (drop i (map M [b..<e])) = w) ks)"
    if "set ks \<subseteq> {..<Suc (e - b) - length w}" for ks
    using that eq by (induction ks) simp_all
  from this [of "[0..<Suc (e - b) - length w]", OF equalityD1, OF atLeast0LessThan [THEN trans [OF set_upt]]] show ?thesis
    unfolding std_search_def upt find_bytes_def by (auto split: option.splits)
qed

lemma search_str:
  assumes "apart s w" and "slice_str M w \<noteq> []"
  shows "search M s w = (case find_bytes (slice_str M w) (slice_str M s) of
      None \<Rightarrow> slice_new | Some i \<Rightarrow> slice_of_length (m_begin s + i) (slice_length w))"
proof (cases "slice_length w \<le> slice_length s")
  case True
  then have "std_search M (m_begin s) (m_end s) (slice_str M w) = (case find_bytes (slice_str M w) (slice_str M s) of Some i \<Rightarrow> m_begin s + i | None \<Rightarrow> m_end s)"
    using std_search_str [of "m_begin s" "m_end s" "slice_str M w" M] assms(1)
    by (simp add: apart_def slice_str_def [of M s] slice_length_def)
  moreover have "m_begin s + i \<noteq> m_end s" if "find_bytes (slice_str M w) (slice_str M s) = Some i" for i
    using find_bytes_Some(2) [OF that] assms by (auto simp: slice_length_def apart_def slice_str_def)
  ultimately show ?thesis using True assms(1) unfolding search_def apart_def Let_def by (auto split: option.splits)
next
  case False
  then have "find_bytes (slice_str M w) (slice_str M s) = None" by (simp add: find_bytes_def)
  then show ?thesis using False by (simp add: search_def)
qed

lemma split_str:
  assumes "apart s w"
  shows "map_prod (slice_str M) (slice_str M) (split M s w) = split_bytes (slice_str M w) (slice_str M s)"
proof (cases "slice_str M w = []")
  case True
  then have "m_begin w = m_end w" using assms by (auto simp: slice_str_def apart_def)
  then have "\<not> slice_bool (search M s w)"
    using assms by (simp add: search_def Let_def slice_bool_def slice_empty_def slice_new_def slice_of_length_def slice_length_def)
  then show ?thesis using True by (simp add: split_def Let_def split_bytes_def)
next
  case False
  then have w: "m_begin w < m_end w" by (simp add: slice_str_def)
  note sw = search_str [OF assms False]
  show ?thesis
  proof (cases "find_bytes (slice_str M w) (slice_str M s)")
    case None
    then show ?thesis using False sw by (simp add: split_def split_bytes_def)
  next
    case (Some i)
    have "m_begin s + i + slice_length w \<le> m_end s"
      using find_bytes_Some(2) [OF Some] assms by (auto simp: slice_length_def apart_def)
    then have "map M [m_begin s..<m_begin s + i] = take i (slice_str M s)"
      "map M [m_begin s + i + slice_length w..<m_end s] = drop (i + slice_length w) (slice_str M s)"
      by (simp_all add: slice_str_def take_map drop_map take_upt drop_upt add.assoc)
    moreover have "slice_length w \<noteq> 0" using w by (simp add: slice_length_def)
    moreover have "m_begin (slice_of_length a n) = a" "m_end (slice_of_length a n) = a + n" for a n
      by (simp_all add: slice_of_length_def)
    ultimately show ?thesis using Some False sw by (simp add: split_def split_bytes_def Let_def)
  qed
qed

lemma endswith_str:
  assumes "m_begin s \<le> m_end s" and "m_begin w \<le> m_end w"
  shows "endswith M s w \<longleftrightarrow> endswith_bytes (slice_str M w) (slice_str M s)"
proof (cases "slice_length w \<le> slice_length s")
  case True
  let ?at = "slice_nth s (slice_length s - slice_length w)"
  have at: "m_begin s \<le> ?at" "?at \<le> m_end s" using assms(1) by (simp_all add: slice_nth_def slice_length_def)
  have "slice_equal M (slice_range ?at (m_end s)) w \<longleftrightarrow> slice_str M (slice_range ?at (m_end s)) = slice_str M w"
    using at(2) assms(2) by (intro slice_equal_str) (simp_all add: slice_range_def)
  also have "slice_str M (slice_range ?at (m_end s)) = drop (slice_length s - slice_length w) (slice_str M s)"
    by (simp add: slice_str_def [of M s] drop_map drop_upt slice_nth_def)
  finally show ?thesis using True by (simp add: endswith_def endswith_bytes_def split_at_def split_at_addr_def)
qed (simp add: endswith_def endswith_bytes_def)

lemma rtrim_n_str: "m_begin s \<le> m_end s \<Longrightarrow> slice_str M (rtrim_n s n) = take (slice_length s - n) (slice_str M s)"
  by (simp add: rtrim_n_def subslice_def slice_nth_def slice_str_def [of M s] take_map take_upt slice_length_def)

section \<open>Properties\<close>

text \<open>A slice is split at the first occurrence of a separator that lies elsewhere in memory: the bytes of the two
  pieces with those of the separator between them are the bytes of the slice, and the separator does not
  occur before; a slice in which the separator does not occur comes back whole with an empty rest.\<close>

theorem split_at_first_occurrence:
  assumes "apart s w" and "slice_str M w \<noteq> []" and "split M s w = (x, y)"
  shows "slice_str M s = slice_str M x @ slice_str M w @ slice_str M y
      \<and> (\<forall>j < slice_length x. take (slice_length w) (drop j (slice_str M s)) \<noteq> slice_str M w)
    \<or> x = s \<and> slice_empty y \<and> (\<forall>a b. slice_str M s \<noteq> a @ slice_str M w @ b)"
proof (cases "find_bytes (slice_str M w) (slice_str M s)")
  case None
  then have "x = s" "slice_empty y" using search_str [OF assms(1,2)] assms(3) by (auto simp: split_def)
  then show ?thesis using find_bytes_None [OF None] by blast
next
  case (Some i)
  then have "slice_str M x = take i (slice_str M s)" "slice_str M y = drop (i + slice_length w) (slice_str M s)"
    using split_str [OF assms(1), of M] assms(2,3) by (simp_all add: split_bytes_def)
  moreover from this(1) have "slice_length x = min i (slice_length s)" by (metis length_take min.commute slice_str_simps(4))
  ultimately show ?thesis using find_bytes_Some [OF Some] by simp
qed

theorem split_at_first_occurrence_witness:
  "\<exists>M s w x y. split M s w = (x, y) \<and> slice_str M s = [103, 101, 116, 32, 107, 32, 107] \<and> slice_str M w = [32]
    \<and> slice_str M s = slice_str M x @ slice_str M w @ slice_str M y"
proof -
  define M :: memory where "M a = (if a < 10 then 32 else [103, 101, 116, 32, 107, 32, 107] ! (a - 10))" for a
  define s w where "s = slice_of_length 10 7" and "w = slice_of_length 1 1"
  have str: "slice_str M s = [103, 101, 116, 32, 107, 32, 107]" "slice_str M w = [32]"
    by (simp_all add: s_def w_def M_def upt_rec)
  have ap: "apart s w" by (simp add: s_def w_def apart_def slice_of_length_def)
  obtain x y where xy: "split M s w = (x, y)" by (cases "split M s w")
  have "slice_str M s = [103, 101, 116] @ slice_str M w @ [107, 32, 107]" using str by simp
  then have "slice_str M s = slice_str M x @ slice_str M w @ slice_str M y"
    using split_at_first_occurrence [OF ap _ xy] str(2) by (metis not_Cons_self2)
  then show ?thesis using str xy by blast
qed

text \<open>A default-constructed slice claims to start with every slice, and no slice contains the empty one.\<close>

theorem null_slice_starts_with_anything:
  "startswith M slice_new (slice_of_length b n) \<and> \<not> contains M s slice_new"
proof
  show "startswith M slice_new (slice_of_length b n)"
    by (simp add: startswith_def search_def slice_new_def slice_length_def slice_of_length_def Let_def std_search_def)
  show "\<not> contains M s slice_new"
    by (simp add: contains_def search_def slice_bool_def slice_empty_def slice_new_def slice_of_length_def slice_length_def Let_def)
qed

end
