(* ===== verification/IO_Buffer.thy ===== *)
theory IO_Buffer
  imports Slice
begin

text \<open>
  \<^verbatim>\<open>server/io_buffer.h\<close>: the growing buffer of a connection. The field \<open>m_data\<close> is the memory of the
  buffer, \<open>None\<close> for the null pointer, and a slice of the buffer counts its addresses from there. The
  parameter \<open>ra\<close> stands for \<^verbatim>\<open>realloc\<close>: the contents of the memory it finds for a size, \<open>None\<close> if there is
  none; the old bytes are copied over it. A write to memory that is not there, or a read of it, is \<open>None\<close>. Sizes are natural
  numbers: none of them exceeds twice the maximal size of a buffer, and no difference is negative.
\<close>

section \<open>The buffer\<close>

definition default_min_buffer_size :: nat where
  "default_min_buffer_size = 500"

definition default_max_buffer_size :: nat where
  "default_max_buffer_size = 1024 * 1024 * 30"

record io_buffer =
  m_max_size :: nat
  m_data :: "u8 list option"
  m_capacity_of :: nat
  m_read_pos :: nat
  m_write_pos :: nat

type_synonym reallocation = "nat \<Rightarrow> u8 list option"

definition available :: "io_buffer \<Rightarrow> nat" where
  "available b = m_capacity_of b - m_write_pos b"

definition non_read :: "io_buffer \<Rightarrow> nat" where
  "non_read b = m_write_pos b - m_read_pos b"

definition capacity_advice :: "nat \<Rightarrow> io_buffer \<Rightarrow> nat" where
  "capacity_advice at_least b =
     (let grow_factor = max at_least (max (m_capacity_of b * 2 - available b) default_min_buffer_size)
      in min (m_capacity_of b + grow_factor) (m_max_size b))"

definition realloc_data :: "reallocation \<Rightarrow> u8 list option \<Rightarrow> nat \<Rightarrow> u8 list option" where
  "realloc_data ra old n = map_option (\<lambda>f. case old of None \<Rightarrow> f | Some d \<Rightarrow> take n d @ drop (length d) f) (ra n)"

text \<open>When \<^verbatim>\<open>realloc\<close> fails the pointer is lost before the exception is thrown.\<close>

definition ensure_capacity :: "reallocation \<Rightarrow> nat \<Rightarrow> io_buffer \<Rightarrow> unit result \<times> io_buffer" where
  "ensure_capacity ra at_least b =
     (if available b \<ge> at_least then (Inr (), b)
      else let new_capacity = capacity_advice at_least b in
        if new_capacity - m_write_pos b \<ge> at_least
        then (case realloc_data ra (m_data b) new_capacity of
                Some d \<Rightarrow> (Inr (), b\<lparr>m_data := Some d, m_capacity_of := new_capacity\<rparr>)
              | None \<Rightarrow> (Inl Bad_alloc, b\<lparr>m_data := None\<rparr>))
        else (Inl (Length_error ''maximal IO buffer capacity exceeded''), b))"

definition io_buffer_new :: "reallocation \<Rightarrow> nat \<Rightarrow> nat \<Rightarrow> io_buffer result" where
  "io_buffer_new ra initial_size max_size =
     (let b = \<lparr>m_max_size = max_size, m_data = None, m_capacity_of = 0, m_read_pos = 0, m_write_pos = 0\<rparr> in
      if initial_size > 0 then (case ensure_capacity ra initial_size b of (Inl e, _) \<Rightarrow> Inl e | (Inr _, b') \<Rightarrow> Inr b')
      else Inr b)"

definition buf_bytes :: "io_buffer \<Rightarrow> slice \<Rightarrow> u8 list option" where
  "buf_bytes b s =
     (if m_end s \<le> m_begin s then Some []
      else case m_data b of
          None \<Rightarrow> None
        | Some d \<Rightarrow> if m_end s \<le> length d then Some (take (m_end s - m_begin s) (drop (m_begin s) d)) else None)"

definition confirm_read :: "nat \<Rightarrow> io_buffer \<Rightarrow> slice \<times> io_buffer" where
  "confirm_read num_bytes b = (slice_of_length (m_read_pos b) num_bytes, b\<lparr>m_read_pos := m_read_pos b + num_bytes\<rparr>)"

definition read_savepoint :: "io_buffer \<Rightarrow> nat" where
  "read_savepoint b = m_read_pos b"

definition rollback_read_transaction :: "nat \<Rightarrow> io_buffer \<Rightarrow> io_buffer" where
  "rollback_read_transaction savepoint b = b\<lparr>m_read_pos := savepoint\<rparr>"

definition read_all :: "io_buffer \<Rightarrow> slice \<times> io_buffer" where
  "read_all b = confirm_read (non_read b) b"

definition try_read_until :: "u8 list \<Rightarrow> io_buffer \<Rightarrow> (slice \<times> io_buffer) option" where
  "try_read_until terminator b =
     map_option (\<lambda>search_range. case find_bytes terminator search_range of
         Some i \<Rightarrow> confirm_read (i + length terminator) b
       | None \<Rightarrow> (slice_new, b))
       (buf_bytes b (slice_of_length (m_read_pos b) (non_read b)))"

definition begin_write :: "reallocation \<Rightarrow> nat \<Rightarrow> io_buffer \<Rightarrow> nat result \<times> io_buffer" where
  "begin_write ra at_least b = (case ensure_capacity ra at_least b of
      (Inl e, b') \<Rightarrow> (Inl e, b')
    | (Inr _, b') \<Rightarrow> (Inr (m_write_pos b'), b'))"

definition confirm_write :: "nat \<Rightarrow> io_buffer \<Rightarrow> io_buffer" where
  "confirm_write num_bytes b = b\<lparr>m_write_pos := m_write_pos b + num_bytes\<rparr>"

definition write_savepoint :: "io_buffer \<Rightarrow> nat" where
  "write_savepoint b = m_write_pos b"

definition rollback_write_transaction :: "nat \<Rightarrow> io_buffer \<Rightarrow> io_buffer" where
  "rollback_write_transaction savepoint b = b\<lparr>m_write_pos := savepoint\<rparr>"

definition buf_reset :: "io_buffer \<Rightarrow> io_buffer" where
  "buf_reset b = b\<lparr>m_read_pos := 0, m_write_pos := 0\<rparr>"

definition compact :: "io_buffer \<Rightarrow> io_buffer option" where
  "compact b =
     (if m_read_pos b = m_write_pos b then Some (b\<lparr>m_read_pos := 0, m_write_pos := 0\<rparr>)
      else let left_unread = m_write_pos b - m_read_pos b in
        map_option (\<lambda>d. b\<lparr>m_data := Some (take left_unread (drop (m_read_pos b) d) @ drop left_unread d),
            m_read_pos := 0, m_write_pos := left_unread\<rparr>) (m_data b))"

text \<open>\<^verbatim>\<open>memcpy\<close> to a position of the buffer, and the two phases of a write around it.\<close>

definition buf_store :: "nat \<Rightarrow> u8 list \<Rightarrow> io_buffer \<Rightarrow> io_buffer option" where
  "buf_store dest src b =
     (if src = [] then Some b
      else case m_data b of
          None \<Rightarrow> None
        | Some d \<Rightarrow> if dest + length src \<le> length d
            then Some (b\<lparr>m_data := Some (take dest d @ src @ drop (dest + length src) d)\<rparr>) else None)"

definition buf_write :: "reallocation \<Rightarrow> nat \<Rightarrow> u8 list \<Rightarrow> io_buffer \<Rightarrow> (unit result \<times> io_buffer) option" where
  "buf_write ra at_least src b = (case begin_write ra at_least b of
      (Inl e, b') \<Rightarrow> Some (Inl e, b')
    | (Inr dest, b') \<Rightarrow> map_option (\<lambda>b''. (Inr (), confirm_write (length src) b'')) (buf_store dest src b'))"

section \<open>Invariant and contents\<close>

definition buffer_ok :: "io_buffer \<Rightarrow> bool" where
  "buffer_ok b \<longleftrightarrow> m_read_pos b \<le> m_write_pos b \<and> m_write_pos b \<le> m_capacity_of b \<and> m_capacity_of b \<le> m_max_size b
     \<and> m_capacity_of b = (case m_data b of None \<Rightarrow> 0 | Some d \<Rightarrow> length d)"

definition realloc_ok :: "reallocation \<Rightarrow> bool" where
  "realloc_ok ra \<longleftrightarrow> (\<forall>n f. ra n = Some f \<longrightarrow> length f = n)"

definition buf_data :: "io_buffer \<Rightarrow> u8 list" where
  "buf_data b = (case m_data b of None \<Rightarrow> [] | Some d \<Rightarrow> d)"

definition written :: "io_buffer \<Rightarrow> u8 list" where
  "written b = take (m_write_pos b) (buf_data b)"

definition unread :: "io_buffer \<Rightarrow> u8 list" where
  "unread b = drop (m_read_pos b) (written b)"

text \<open>A user writes bytes, reads some or up to a terminator, and compacts. A run gives the bytes that were
  accepted and those that were read.\<close>

datatype buf_op = Put "u8 list" | Take nat | Take_until "u8 list" | Tidy

fun buf_step :: "reallocation \<Rightarrow> buf_op \<Rightarrow> io_buffer \<Rightarrow> (u8 list \<times> u8 list \<times> io_buffer) option" where
  "buf_step ra (Put bs) b = map_option (\<lambda>(r, b'). case r of Inr _ \<Rightarrow> (bs, [], b') | Inl _ \<Rightarrow> ([], [], b')) (buf_write ra (length bs) bs b)"
| "buf_step ra (Take n) b = (case confirm_read (min n (non_read b)) b of (s, b') \<Rightarrow> map_option (\<lambda>out. ([], out, b')) (buf_bytes b' s))"
| "buf_step ra (Take_until t) b = Option.bind (try_read_until t b) (\<lambda>(s, b'). map_option (\<lambda>out. ([], out, b')) (buf_bytes b' s))"
| "buf_step ra Tidy b = map_option (\<lambda>b'. ([], [], b')) (compact b)"

fun buf_run :: "reallocation \<Rightarrow> buf_op list \<Rightarrow> io_buffer \<Rightarrow> (u8 list \<times> u8 list \<times> io_buffer) option" where
  "buf_run ra [] b = Some ([], [], b)"
| "buf_run ra (op # ops) b = Option.bind (buf_step ra op b) (\<lambda>(ins, outs, b1).
     map_option (\<lambda>(ins', outs', b2). (ins @ ins', outs @ outs', b2)) (buf_run ra ops b1))"

lemma buffer_okD:
  assumes "buffer_ok b"
  shows "m_read_pos b \<le> m_write_pos b" and "m_write_pos b \<le> m_capacity_of b" and "m_capacity_of b \<le> m_max_size b"
    and "length (buf_data b) = m_capacity_of b" and "length (written b) = m_write_pos b" and "length (unread b) = non_read b"
  using assms by (auto simp: buffer_ok_def buf_data_def written_def unread_def non_read_def split: option.splits)

lemma buf_bytes_written:
  assumes "buffer_ok b" and "m_end s \<le> m_write_pos b"
  shows "buf_bytes b s = Some (take (m_end s - m_begin s) (drop (m_begin s) (written b)))"
proof (cases "m_end s \<le> m_begin s")
  case False
  then have "0 < m_capacity_of b" using assms buffer_okD(2) [OF assms(1)] by simp
  then obtain d where d: "m_data b = Some d" "length d = m_capacity_of b"
    using assms(1) by (auto simp: buffer_ok_def split: option.splits)
  then show ?thesis using False assms(2) buffer_okD(2) [OF assms(1)]
    by (simp add: buf_bytes_def written_def buf_data_def drop_take min_def)
qed (simp add: buf_bytes_def)

lemma unread_bytes:
  assumes "buffer_ok b"
  shows "buf_bytes b (slice_of_length (m_read_pos b) (non_read b)) = Some (unread b)"
  using buf_bytes_written [OF assms, of "slice_of_length (m_read_pos b) (non_read b)"] buffer_okD [OF assms]
  by (simp add: slice_of_length_def non_read_def unread_def)

lemma confirm_read_ok:
  assumes "buffer_ok b" and "n \<le> non_read b" and "confirm_read n b = (s, b')"
  shows "buffer_ok b'" and "unread b = take n (unread b) @ unread b'" and "buf_bytes b' s = Some (take n (unread b))"
    and "written b' = written b" and "buf_bytes b s = Some (take n (unread b))" and "m_max_size b' = m_max_size b"
proof -
  have b': "b' = b\<lparr>m_read_pos := m_read_pos b + n\<rparr>" "s = slice_of_length (m_read_pos b) n"
    using assms(3) by (simp_all add: confirm_read_def)
  show ok: "buffer_ok b'" using assms(1,2) by (auto simp: b' buffer_ok_def non_read_def)
  show w: "written b' = written b" by (simp add: b' written_def buf_data_def)
  show "unread b = take n (unread b) @ unread b'"
    by (simp add: unread_def w) (simp add: b' add.commute append_take_drop_id [symmetric] flip: drop_drop)
  show "buf_bytes b' s = Some (take n (unread b))"
    using buf_bytes_written [OF ok, of s] assms(2) buffer_okD(1) [OF assms(1)]
    by (simp add: b' slice_of_length_def unread_def w [unfolded b'] non_read_def)
  show "buf_bytes b s = Some (take n (unread b))"
    using buf_bytes_written [OF assms(1), of s] assms(2) buffer_okD(1) [OF assms(1)]
    by (simp add: b' slice_of_length_def unread_def non_read_def)
  show "m_max_size b' = m_max_size b" by (simp add: b')
qed

lemma try_read_until_ok:
  assumes "buffer_ok b" and "t \<noteq> []"
  shows "try_read_until t b = Some (case find_bytes t (unread b) of
      Some i \<Rightarrow> confirm_read (i + length t) b | None \<Rightarrow> (slice_new, b))"
  using unread_bytes [OF assms(1)] by (simp add: try_read_until_def split: option.splits)

lemma compact_ok:
  assumes "buffer_ok b"
  obtains b' where "compact b = Some b'" and "buffer_ok b'" and "unread b' = unread b" and "m_read_pos b' = 0"
    and "m_max_size b' = m_max_size b"
proof (cases "m_read_pos b = m_write_pos b")
  case True
  then show ?thesis using that [of "b\<lparr>m_read_pos := 0, m_write_pos := 0\<rparr>"] assms
    by (simp add: compact_def buffer_ok_def unread_def written_def split: option.splits)
next
  case False
  then obtain d where d: "m_data b = Some d" "length d = m_capacity_of b"
    using assms by (auto simp: buffer_ok_def split: option.splits)
  let ?n = "m_write_pos b - m_read_pos b"
  define b' where "b' = b\<lparr>m_data := Some (take ?n (drop (m_read_pos b) d) @ drop ?n d), m_read_pos := 0, m_write_pos := ?n\<rparr>"
  have c: "compact b = Some b'" using False d(1) by (simp add: compact_def b'_def Let_def)
  note w = buffer_okD [OF assms]
  have "buffer_ok b'" using w(1-3) d by (auto simp: buffer_ok_def b'_def)
  moreover have "unread b' = unread b" using w(1,2) d by (simp add: unread_def written_def buf_data_def b'_def drop_take)
  ultimately show ?thesis using that [OF c] by (simp add: b'_def)
qed

lemma advice_enough:
  assumes "buffer_ok b" and "available b < n"
  shows "n \<le> capacity_advice n b - m_write_pos b \<longleftrightarrow> m_write_pos b + n \<le> m_max_size b"
    and "capacity_advice n b \<le> m_max_size b" and "m_capacity_of b \<le> capacity_advice n b"
  using buffer_okD(1-3) [OF assms(1)] assms(2) by (auto simp: capacity_advice_def available_def Let_def)

text \<open>Growing fails only beyond the maximal size or without memory, and keeps all that was written.\<close>

lemma ensure_capacity_ok:
  assumes ok: "buffer_ok b" and ra: "realloc_ok ra"
  obtains (enough) b' where "ensure_capacity ra n b = (Inr (), b')" and "buffer_ok b'" and "n \<le> available b'"
      and "written b' = written b" and "m_read_pos b' = m_read_pos b" and "m_write_pos b' = m_write_pos b" and "m_max_size b' = m_max_size b"
      and "m_write_pos b + n \<le> m_max_size b"
  | (too_long) "ensure_capacity ra n b = (Inl (Length_error ''maximal IO buffer capacity exceeded''), b)"
      and "m_max_size b < m_write_pos b + n"
  | (no_memory) "ensure_capacity ra n b = (Inl Bad_alloc, b\<lparr>m_data := None\<rparr>)" and "ra (capacity_advice n b) = None"
proof (cases "n \<le> available b")
  case True
  then show ?thesis using enough [of b] ok buffer_okD(2,3) [OF ok] by (simp add: ensure_capacity_def available_def)
next
  case False
  then have av: "available b < n" by simp
  let ?c = "capacity_advice n b"
  note adv = advice_enough [OF ok av]
  show ?thesis
  proof (cases "m_write_pos b + n \<le> m_max_size b")
    case fits: True
    show ?thesis
    proof (cases "ra ?c")
      case None
      then show ?thesis using no_memory False fits adv(1) by (simp add: ensure_capacity_def realloc_data_def Let_def)
    next
      case (Some f)
      then have f: "length f = ?c" using ra by (simp add: realloc_ok_def)
      define d' where "d' = (case m_data b of None \<Rightarrow> f | Some d \<Rightarrow> take ?c d @ drop (length d) f)"
      have d': "length d' = ?c" "take (m_write_pos b) d' = written b"
        using f adv(3) ok by (auto simp: d'_def buffer_ok_def written_def buf_data_def split: option.splits)
      define b' where "b' = b\<lparr>m_data := Some d', m_capacity_of := ?c\<rparr>"
      have e: "ensure_capacity ra n b = (Inr (), b')"
        using False fits adv(1) Some by (simp add: ensure_capacity_def realloc_data_def d'_def b'_def Let_def)
      have "buffer_ok b'" using adv(2,3) buffer_okD(1,2) [OF ok] d'(1) by (simp add: buffer_ok_def b'_def)
      moreover have "n \<le> available b'" using adv(1) fits by (simp add: available_def b'_def)
      moreover have "written b' = written b" using d'(2) by (simp add: written_def buf_data_def b'_def)
      ultimately show ?thesis using enough [OF e] fits by (simp add: b'_def)
    qed
  next
    case long: False
    then show ?thesis using too_long False adv(1) by (simp add: ensure_capacity_def Let_def)
  qed
qed

text \<open>A write appends its bytes.\<close>

lemma buf_write_ok:
  assumes ok: "buffer_ok b" and ra: "realloc_ok ra" and len: "length src \<le> n"
  obtains (wrote) b' where "buf_write ra n src b = Some (Inr (), b')" and "buffer_ok b'" and "written b' = written b @ src"
      and "m_read_pos b' = m_read_pos b" and "m_max_size b' = m_max_size b"
  | (too_long) "buf_write ra n src b = Some (Inl (Length_error ''maximal IO buffer capacity exceeded''), b)"
      and "m_max_size b < m_write_pos b + n"
  | (no_memory) "buf_write ra n src b = Some (Inl Bad_alloc, b\<lparr>m_data := None\<rparr>)" and "ra (capacity_advice n b) = None"
  using ok ra
proof (cases rule: ensure_capacity_ok [where n = n])
  case (enough b1)
  note w = buffer_okD [OF enough(2)]
  show ?thesis
  proof (cases "src = []")
    case True
    then have "buf_write ra n src b = Some (Inr (), b1)"
      using enough(1) by (simp add: buf_write_def begin_write_def buf_store_def confirm_write_def)
    then show ?thesis using wrote [of b1] enough True by simp
  next
    case False
    have "0 < length src" using False by simp
    then have sp: "m_write_pos b1 + length src \<le> m_capacity_of b1" "0 < m_capacity_of b1"
      using enough(3) len w(2) unfolding available_def by linarith+
    then obtain d where d: "m_data b1 = Some d" "length d = m_capacity_of b1"
      using enough(2) by (auto simp: buffer_ok_def split: option.splits)
    let ?p = "m_write_pos b1"
    define b' where "b' = b1\<lparr>m_data := Some (take ?p d @ src @ drop (?p + length src) d), m_write_pos := ?p + length src\<rparr>"
    have "buf_write ra n src b = Some (Inr (), b')"
      using enough(1) d sp(1) False by (simp add: buf_write_def begin_write_def buf_store_def confirm_write_def b'_def)
    moreover have "buffer_ok b'" using w(1-3) d sp by (auto simp: buffer_ok_def b'_def)
    moreover have "written b' = written b1 @ src" using d sp(1) by (simp add: written_def buf_data_def b'_def)
    ultimately show ?thesis using wrote [of b'] enough(4,5,7) by (simp add: b'_def)
  qed
qed (use too_long no_memory in \<open>simp_all add: buf_write_def begin_write_def\<close>)

lemma buffer_new_ok:
  assumes "realloc_ok ra" and "io_buffer_new ra n m = Inr b"
  shows "buffer_ok b" and "written b = []" and "m_read_pos b = 0" and "m_max_size b = m"
proof -
  let ?b = "\<lparr>m_max_size = m, m_data = None, m_capacity_of = 0, m_read_pos = 0, m_write_pos = 0\<rparr>"
  have ok: "buffer_ok ?b" "written ?b = []" by (simp_all add: buffer_ok_def written_def buf_data_def)
  from ok(1) assms(1) have "buffer_ok b \<and> written b = [] \<and> m_read_pos b = 0 \<and> m_max_size b = m"
    by (cases rule: ensure_capacity_ok [where n = n])
      (use ok assms(2) in \<open>auto simp: io_buffer_new_def Let_def split: if_splits\<close>)
  then show "buffer_ok b" "written b = []" "m_read_pos b = 0" "m_max_size b = m" by simp_all
qed

section \<open>The buffer is a queue\<close>

lemma unread_written:
  assumes "buffer_ok b" and "written b' = written b @ src" and "m_read_pos b' = m_read_pos b"
  shows "unread b' = unread b @ src"
  using buffer_okD(1,5) [OF assms(1)] assms(2,3) by (simp add: unread_def)

lemma buf_step_ok:
  assumes ok: "buffer_ok b" and ra: "realloc_ok ra" "\<And>n. ra n \<noteq> None" and op: "op \<noteq> Take_until []"
  obtains ins outs b' where "buf_step ra op b = Some (ins, outs, b')" and "buffer_ok b'" and "unread b @ ins = outs @ unread b'"
proof (cases op)
  case (Put bs)
  from ok ra(1) order_refl show ?thesis
  proof (cases rule: buf_write_ok [where src = bs])
    case (wrote b')
    then show ?thesis using that [of bs "[]" b'] Put unread_written [OF ok wrote(3,4)] by simp
  next
    case too_long
    then show ?thesis using that [of "[]" "[]" b] Put ok by simp
  next
    case no_memory
    then show ?thesis using ra(2) by blast
  qed
next
  case (Take n)
  obtain s b' where c: "confirm_read (min n (non_read b)) b = (s, b')" by (cases "confirm_read (min n (non_read b)) b")
  note r = confirm_read_ok [OF ok _ c]
  show ?thesis using that [of "[]" "take (min n (non_read b)) (unread b)" b'] Take c r(1-3) by simp
next
  case (Take_until t)
  then have t: "t \<noteq> []" using op by simp
  show ?thesis
  proof (cases "find_bytes t (unread b)")
    case None
    then show ?thesis using that [of "[]" "[]" b] Take_until try_read_until_ok [OF ok t] ok by (simp add: buf_bytes_def slice_new_def)
  next
    case (Some i)
    obtain s b' where c: "confirm_read (i + length t) b = (s, b')" by (cases "confirm_read (i + length t) b")
    have "i + length t \<le> non_read b" using find_bytes_Some(2) [OF Some] buffer_okD(6) [OF ok] by simp
    note r = confirm_read_ok [OF ok this c]
    show ?thesis using that [of "[]" "take (i + length t) (unread b)" b'] Take_until c r(1-3) try_read_until_ok [OF ok t] Some by simp
  qed
next
  case Tidy
  obtain b' where "compact b = Some b'" "buffer_ok b'" "unread b' = unread b" by (rule compact_ok [OF ok])
  then show ?thesis using that [of "[]" "[]" b'] Tidy by simp
qed

lemma buf_run_ok:
  assumes "buffer_ok b" and "realloc_ok ra" and "\<And>n. ra n \<noteq> None" and "Take_until [] \<notin> set ops"
  shows "\<exists>ins outs b'. buf_run ra ops b = Some (ins, outs, b') \<and> buffer_ok b' \<and> unread b @ ins = outs @ unread b'"
  using assms(1,4)
proof (induction ops arbitrary: b)
  case (Cons op ops)
  obtain ins outs b1 where s: "buf_step ra op b = Some (ins, outs, b1)" "buffer_ok b1" "unread b @ ins = outs @ unread b1"
    using buf_step_ok [OF Cons.prems(1) assms(2,3), of op] Cons.prems(2) by auto
  obtain ins' outs' b' where r: "buf_run ra ops b1 = Some (ins', outs', b')" "buffer_ok b'" "unread b1 @ ins' = outs' @ unread b'"
    using Cons.IH [OF s(2)] Cons.prems(2) by auto
  have "unread b @ ins @ ins' = (outs @ outs') @ unread b'" using s(3) r(3) by (metis append.assoc)
  then show ?case using s(1) r(1,2) by simp
qed simp



end
