(* ===== verification/Bits.thy ===== *)
theory Bits
  imports Prelude
begin

text \<open>
  \<^verbatim>\<open>cachelot/bits.h\<close>: bit manipulation, powers of two and alignment, on words.
  \<open>clz\<close> and \<open>ffs\<close> are the compiler's intrinsics, by their documented meaning
  (\<open>clz\<close> is the number of leading zero bits, \<open>ffs\<close> one plus the number of the
  lowest set bit, 0 for 0).
\<close>

section \<open>Definitions\<close>

definition clz :: "'a::len word \<Rightarrow> nat" where
  "clz w = length (takeWhile (\<lambda>i. \<not> bit w i) (rev [0..<LENGTH('a)]))"

definition ffs :: "'a::len word \<Rightarrow> nat" where
  "ffs w = (if w = 0 then 0 else Suc (length (takeWhile (\<lambda>i. \<not> bit w i) [0..<LENGTH('a)])))"

definition is_set :: "u32 \<Rightarrow> nat \<Rightarrow> bool" where
  "is_set v bitno \<longleftrightarrow> v AND push_bit bitno 1 \<noteq> 0"

definition is_unset :: "u32 \<Rightarrow> nat \<Rightarrow> bool" where
  "is_unset v bitno \<longleftrightarrow> \<not> is_set v bitno"

definition bit_set :: "'a::len word \<Rightarrow> nat \<Rightarrow> 'a word" where
  "bit_set v bitno = v OR push_bit bitno 1"

definition bit_unset :: "'a::len word \<Rightarrow> nat \<Rightarrow> 'a word" where
  "bit_unset v bitno = v AND NOT (push_bit bitno 1)"

definition bit_flip :: "'a::len word \<Rightarrow> nat \<Rightarrow> 'a word" where
  "bit_flip v bitno = v XOR push_bit bitno 1"

definition most_significant :: "'a::len word \<Rightarrow> nat" where
  "most_significant v = LENGTH('a) - clz v - 1"

definition least_significant :: "'a::len word \<Rightarrow> nat" where
  "least_significant v = ffs v - 1"

definition ispow2 :: "'a::len word \<Rightarrow> bool" where
  "ispow2 n \<longleftrightarrow> n = 0 \<or> n AND (n - 1) = 0"

definition pow2 :: "nat \<Rightarrow> 'a::len word" where
  "pow2 k = push_bit k 1"

definition log2u :: "'a::len word \<Rightarrow> nat" where
  "log2u v = most_significant v"

definition roundup_pow2 :: "'a::len word \<Rightarrow> 'a word" where
  "roundup_pow2 v = (if ispow2 v then v else pow2 (log2u v + 1))"

definition unaligned_bytes :: "u64 \<Rightarrow> u64 \<Rightarrow> u64" where
  "unaligned_bytes sz alignment = ((sz + (alignment - 1)) AND (- alignment)) - sz"

section \<open>Single bits\<close>

lemma word_eq_0_iff_bits: "w = 0 \<longleftrightarrow> (\<forall>i < LENGTH('a). \<not> bit w i)" for w :: "'a::len word"
  by (auto simp: bit_eq_iff dest: bit_imp_le_length)

lemma is_set_iff: "is_set v i \<longleftrightarrow> bit v i"
  by (auto simp: is_set_def word_eq_0_iff_bits bit_simps dest: bit_imp_le_length)

lemma bit_bit_set [simp]: "i < LENGTH('a) \<Longrightarrow> bit (bit_set v i) j \<longleftrightarrow> bit v j \<or> i = j"
  for v :: "'a::len word"
  by (auto simp: bit_set_def bit_simps)

lemma bit_bit_unset [simp]: "bit (bit_unset v i) j \<longleftrightarrow> bit v j \<and> i \<noteq> j" for v :: "'a::len word"
  by (auto simp: bit_unset_def bit_simps dest: bit_imp_le_length)

lemma bit_bit_flip: "i < LENGTH('a) \<Longrightarrow> bit (bit_flip v i) j \<longleftrightarrow> (bit v j \<noteq> (i = j))"
  for v :: "'a::len word"
  by (auto simp: bit_flip_def bit_simps dest: bit_imp_le_length)

section \<open>Most and least significant bit\<close>

lemma takeWhile_upt_least:
  assumes "\<exists>i < n. P i"
  defines "l \<equiv> length (takeWhile (\<lambda>i. \<not> P i) [0..<n])"
  shows "l < n" and "P l" and "\<forall>i < l. \<not> P i"
proof -
  from assms(1) obtain i where "i < n" and "P i" by blast
  then have "takeWhile (\<lambda>i. \<not> P i) [0..<n] \<noteq> [0..<n]"
    by (auto simp: takeWhile_eq_all_conv)
  then have "l \<noteq> n"
    unfolding l_def by (metis diff_zero length_upt take_all_iff takeWhile_eq_take order_refl)
  moreover have "l \<le> n"
    unfolding l_def by (metis diff_zero length_takeWhile_le length_upt)
  ultimately show l: "l < n" by simp
  then have "\<not> \<not> P ([0..<n] ! l)"
    unfolding l_def by (intro nth_length_takeWhile) simp
  with l show "P l" by simp
  show "\<forall>i < l. \<not> P i"
  proof (intro allI impI)
    fix i assume "i < l"
    then have "[0..<n] ! i = takeWhile (\<lambda>i. \<not> P i) [0..<n] ! i"
      unfolding l_def by (simp add: takeWhile_nth)
    also have "\<not> P \<dots>"
      using \<open>i < l\<close> unfolding l_def by (metis (lifting) nth_mem set_takeWhileD)
    finally show "\<not> P i" using \<open>i < l\<close> l by simp
  qed
qed

lemma takeWhile_rev_upt_greatest:
  assumes "\<exists>i < n. P i"
  defines "m \<equiv> n - length (takeWhile (\<lambda>i. \<not> P i) (rev [0..<n])) - 1"
  shows "m < n" and "P m" and "\<forall>i < n. m < i \<longrightarrow> \<not> P i"
proof -
  let ?c = "length (takeWhile (\<lambda>i. \<not> P (n - 1 - i)) [0..<n])"
  have rev_upt_map: "rev [0..<n] = map (\<lambda>i. n - 1 - i) [0..<n]"
    by (rule nth_equalityI) (simp_all add: rev_nth)
  have c: "length (takeWhile (\<lambda>i. \<not> P i) (rev [0..<n])) = ?c"
    by (simp add: rev_upt_map takeWhile_map comp_def)
  have ex: "\<exists>i < n. P (n - 1 - i)"
  proof -
    from assms(1) obtain i where "i < n" "P i" by blast
    then have "n - 1 - i < n \<and> P (n - 1 - (n - 1 - i))" by auto
    then show ?thesis by blast
  qed
  note least = takeWhile_upt_least [of n "\<lambda>i. P (n - 1 - i)", OF ex]
  have m: "m = n - 1 - ?c" unfolding m_def c by simp
  show "m < n" using least(1) m by simp
  show "P m" using least(2) m by simp
  show "\<forall>i < n. m < i \<longrightarrow> \<not> P i"
  proof (intro allI impI)
    fix i assume "i < n" "m < i"
    then have "n - 1 - i < ?c" using least(1) m by linarith
    with least(3) have "\<not> P (n - 1 - (n - 1 - i))" by blast
    with \<open>i < n\<close> show "\<not> P i" by simp
  qed
qed

lemma nonzero_has_bit: "w \<noteq> 0 \<Longrightarrow> \<exists>i < LENGTH('a). bit w i" for w :: "'a::len word"
  by (auto simp: word_eq_0_iff_bits)

lemma most_significant_bit:
  fixes w :: "'a::len word"
  assumes "w \<noteq> 0"
  shows "most_significant w < LENGTH('a)" and "bit w (most_significant w)"
    and "most_significant w < i \<Longrightarrow> \<not> bit w i"
  using takeWhile_rev_upt_greatest [OF nonzero_has_bit [OF assms]] bit_imp_le_length [of w i]
  by (auto simp: most_significant_def clz_def)

lemma least_significant_bit:
  fixes w :: "'a::len word"
  assumes "w \<noteq> 0"
  shows "least_significant w < LENGTH('a)" and "bit w (least_significant w)"
    and "i < least_significant w \<Longrightarrow> \<not> bit w i"
  using takeWhile_upt_least [OF nonzero_has_bit [OF assms]] assms
  by (auto simp: least_significant_def ffs_def)

lemma most_significant_bounds:
  fixes w :: "'a::len word"
  assumes "w \<noteq> 0"
  shows "2 ^ most_significant w \<le> unat w" and "unat w < 2 ^ Suc (most_significant w)"
proof -
  let ?m = "most_significant w"
  note ms = most_significant_bit [OF assms]
  have "bit (unat w) ?m" using ms(2) by (simp add: bit_unsigned_iff)
  then have "\<not> unat w < 2 ^ ?m" by (metis bit_take_bit_iff less_irrefl take_bit_nat_eq_self)
  then show "2 ^ ?m \<le> unat w" by simp
  have "take_bit (Suc ?m) w = w"
    using ms(3) by (auto simp: bit_eq_iff bit_take_bit_iff less_Suc_eq_le not_le [symmetric])
  then have "unat w = take_bit (Suc ?m) (unat w)"
    by (metis unsigned_take_bit_eq)
  then show "unat w < 2 ^ Suc ?m" by (metis take_bit_nat_less_exp)
qed

lemma most_significant_unique:
  "2 ^ k \<le> unat w \<Longrightarrow> unat w < 2 ^ Suc k \<Longrightarrow> most_significant w = k" for w :: "'a::len word"
proof -
  assume lo: "2 ^ k \<le> unat w" and hi: "unat w < 2 ^ Suc k"
  then have "w \<noteq> 0" by auto
  from most_significant_bounds [OF this] lo hi
  have "(2::nat) ^ most_significant w < 2 ^ Suc k" and "(2::nat) ^ k < 2 ^ Suc (most_significant w)"
    by (meson order_le_less_trans)+
  then have "most_significant w < Suc k \<and> k < Suc (most_significant w)"
    by (meson nat_power_less_imp_less zero_less_numeral)
  then show ?thesis by simp
qed

section \<open>Powers of two\<close>

lemma unat_pow2 [word_nat]: "k < LENGTH('a) \<Longrightarrow> unat (pow2 k :: 'a::len word) = 2 ^ k"
proof -
  assume "k < LENGTH('a)"
  moreover have "(pow2 k :: 'a word) = of_nat (2 ^ k)" by (simp add: pow2_def push_bit_of_1)
  ultimately show ?thesis by (simp only: unat_of_nat) simp
qed

lemma log2u_pow2: "k < LENGTH('a) \<Longrightarrow> log2u (pow2 k :: 'a::len word) = k"
  by (simp add: log2u_def most_significant_unique unat_pow2)

lemma ispow2_iff:
  "ispow2 (n :: 'a::len word) \<longleftrightarrow> n = 0 \<or> (\<exists>k < LENGTH('a). n = pow2 k)"
proof -
  have "n AND (n - 1) = 0 \<longleftrightarrow> (\<exists>k < LENGTH('a). n = pow2 k)" if "n \<noteq> 0"
  proof -
    let ?m = "most_significant n"
    note ms = most_significant_bit [OF that] and bd = most_significant_bounds [OF that]
    have pm: "unat (pow2 ?m :: 'a word) = 2 ^ ?m" using ms(1) by (rule unat_pow2)
    show ?thesis
    proof
      assume and0: "n AND (n - 1) = 0"
      have "n = pow2 ?m"
      proof (rule ccontr)
        assume "n \<noteq> pow2 ?m"
        then have "unat n \<noteq> 2 ^ ?m" using pm by (metis unat_eqI)
        moreover have "unat (n - 1) = unat n - 1"
          using that by (simp add: unat_minus_one)
        ultimately have "2 ^ ?m \<le> unat (n - 1)" and "unat (n - 1) < 2 ^ Suc ?m"
          using bd by auto
        then have "most_significant (n - 1) = ?m" and "n - 1 \<noteq> 0"
          by (auto intro: most_significant_unique)
        with ms(2) most_significant_bit(2) [of "n - 1"] have "bit (n AND (n - 1)) ?m"
          by (simp add: bit_and_iff)
        with and0 show False by simp
      qed
      with ms(1) show "\<exists>k < LENGTH('a). n = pow2 k" by blast
    next
      assume "\<exists>k < LENGTH('a). n = pow2 k"
      then obtain k where k: "k < LENGTH('a)" "n = pow2 k" by blast
      have "n AND (n - 1) = n AND mask k"
        by (simp add: k pow2_def mask_eq_exp_minus_1 push_bit_of_1)
      also have "\<dots> = 0"
        by (auto simp: k pow2_def word_eq_0_iff_bits bit_simps)
      finally show "n AND (n - 1) = 0" .
    qed
  qed
  then show ?thesis by (auto simp: ispow2_def)
qed

lemma roundup_pow2_bounds:
  fixes v :: "'a::len word"
  assumes "v \<noteq> 0" and "unat v \<le> 2 ^ (LENGTH('a) - 1)"
  shows "\<exists>k < LENGTH('a). roundup_pow2 v = pow2 k" and "unat v \<le> unat (roundup_pow2 v)"
    and "unat (roundup_pow2 v) < 2 * unat v"
proof -
  let ?m = "most_significant v"
  note bd = most_significant_bounds [OF assms(1)]
  have main: "(\<exists>k < LENGTH('a). roundup_pow2 v = pow2 k) \<and> unat v \<le> unat (roundup_pow2 v)
    \<and> unat (roundup_pow2 v) < 2 * unat v"
  proof (cases "ispow2 v")
    case True
    with assms(1) show ?thesis by (auto simp: roundup_pow2_def ispow2_iff)
  next
    case False
    have m1: "?m < LENGTH('a)" using assms(1) by (rule most_significant_bit)
    have "unat v \<noteq> 2 ^ ?m"
      using False m1 by (metis ispow2_iff unat_eqI unat_pow2)
    with bd have "(2::nat) ^ ?m < 2 ^ (LENGTH('a) - 1)" using assms(2) by linarith
    then have "Suc ?m < LENGTH('a)"
      by (metis less_diff_conv nat_power_less_imp_less zero_less_numeral add.commute plus_1_eq_Suc)
    then have "unat (pow2 (Suc ?m) :: 'a word) = 2 ^ Suc ?m" by (rule unat_pow2)
    moreover have "roundup_pow2 v = pow2 (Suc ?m)" using False by (simp add: roundup_pow2_def log2u_def)
    ultimately show ?thesis
      using \<open>Suc ?m < LENGTH('a)\<close> bd \<open>unat v \<noteq> 2 ^ ?m\<close> by auto
  qed
  show "\<exists>k < LENGTH('a). roundup_pow2 v = pow2 k" and "unat v \<le> unat (roundup_pow2 v)"
    and "unat (roundup_pow2 v) < 2 * unat v"
    using main by blast+
qed

section \<open>Alignment\<close>

lemma and_minus_pow2:
  "k < LENGTH('a) \<Longrightarrow> unat (w AND - pow2 k) = unat w - unat w mod 2 ^ k" for w :: "'a::len word"
proof -
  assume "k < LENGTH('a)"
  have "- pow2 k = NOT (mask k :: 'a word)"
    by (simp add: pow2_def push_bit_of_1 mask_eq_exp_minus_1 minus_eq_not_minus_1)
  then have split: "w = (w AND - pow2 k) OR (w AND mask k)" and disj: "(w AND - pow2 k) AND (w AND mask k) = 0"
    by (auto simp: bit_eq_iff bit_simps)
  have "w = (w AND - pow2 k) + (w AND mask k)"
    using split disj by (metis disjunctive_add_eq_or)
  moreover have "w AND mask k \<le> w" by (simp add: word_and_le2)
  ultimately have "unat (w AND - pow2 k) = unat w - unat (w AND mask k)"
    by (metis add_diff_cancel_right' unat_diff_le)
  then show ?thesis by (simp add: unat_and_mask)
qed

lemma unaligned_bytes_eq:
  assumes "k < 64" and "unat sz + 2 ^ k \<le> 2 ^ 64"
  shows "unat (unaligned_bytes sz (pow2 k)) = (2 ^ k - unat sz mod 2 ^ k) mod 2 ^ k"
proof -
  let ?a = "2 ^ k :: nat"
  have "unat (pow2 k - 1 :: u64) = ?a - 1"
    using assms(1) unat_pow2 [of k, where 'a = 64] by (subst unat_minus_one) auto
  then have sum: "unat (sz + (pow2 k - 1)) = unat sz + ?a - 1"
    using assms(2) by (subst unat_add_lt) simp_all
  let ?q = "unat sz div ?a" and ?r = "unat sz mod ?a"
  have sz: "unat sz = ?q * ?a + ?r" by (rule div_mult_mod_eq [symmetric])
  have r: "?r < ?a" by simp
  have up: "unat ((sz + (pow2 k - 1)) AND - pow2 k) = unat sz + (?a - ?r) mod ?a"
  proof (cases "?r = 0")
    case True
    then have "unat sz + ?a - 1 = ?q * ?a + (?a - 1)" using sz by simp
    then have "(unat sz + ?a - 1) mod ?a = ?a - 1" by (simp only: mod_mult_self3) simp
    with True show ?thesis using assms(1) by (simp add: and_minus_pow2 sum)
  next
    case False
    then have "unat sz + ?a - 1 = (?q + 1) * ?a + (?r - 1)" using sz by simp
    moreover have "?r - 1 < ?a" using r by linarith
    then have "((?q + 1) * ?a + (?r - 1)) mod ?a = ?r - 1"
      by (simp only: mod_mult_self3 mod_less)
    ultimately have "(unat sz + ?a - 1) mod ?a = ?r - 1" by (simp only:)
    with False r sz show ?thesis using assms(1) by (simp add: and_minus_pow2 sum)
  qed
  then show ?thesis
    unfolding unaligned_bytes_def by (subst unat_diff_le) (simp_all add: word_le_nat_alt)
qed

end
