(* ===== verification/Intrusive_List.thy ===== *)
theory Intrusive_List
  imports Prelude
begin

text \<open>
  \<^verbatim>\<open>cachelot/intrusive_list.h\<close>: the circular doubly linked list whose links are members of the
  items. The heap holds \<^verbatim>\<open>prev\<close> and \<^verbatim>\<open>next\<close> of every node, the node \<open>d\<close> is the list's
  \<^verbatim>\<open>dummy_link\<close>, an item is named by its node, and every assignment of the code is a heap update,
  in the code's order. \<open>is_list h d xs\<close> says that the ring at \<open>d\<close> holds the items \<open>xs\<close>;
  the operations on \<open>xs\<close> that the other components use are the \<open>l_\<close> functions.
\<close>

section \<open>The operations on the links\<close>

record 'n links =
  node_prev :: "'n \<Rightarrow> 'n"
  node_next :: "'n \<Rightarrow> 'n"

definition set_prev :: "'n \<Rightarrow> 'n \<Rightarrow> 'n links \<Rightarrow> 'n links" where
  "set_prev n v h = h\<lparr>node_prev := (node_prev h)(n := v)\<rparr>"

definition set_next :: "'n \<Rightarrow> 'n \<Rightarrow> 'n links \<Rightarrow> 'n links" where
  "set_next n v h = h\<lparr>node_next := (node_next h)(n := v)\<rparr>"

definition il_init :: "'n \<Rightarrow> 'n links \<Rightarrow> 'n links" where
  "il_init d h = set_next d d (set_prev d d h)"

definition il_front :: "'n \<Rightarrow> 'n links \<Rightarrow> 'n" where
  "il_front d h = node_next h d"

definition il_back :: "'n \<Rightarrow> 'n links \<Rightarrow> 'n" where
  "il_back d h = node_prev h d"

definition il_push_front :: "'n \<Rightarrow> 'n \<Rightarrow> 'n links \<Rightarrow> 'n links" where
  "il_push_front d link h =
     (let h1 = set_next link (node_next h d) h;
          h2 = set_prev (node_next h1 link) link h1;
          h3 = set_prev link d h2
      in set_next d link h3)"

definition il_push_back :: "'n \<Rightarrow> 'n \<Rightarrow> 'n links \<Rightarrow> 'n links" where
  "il_push_back d link h =
     (let h1 = set_prev link (node_prev h d) h;
          h2 = set_next (node_prev h1 link) link h1;
          h3 = set_next link d h2
      in set_prev d link h3)"

definition il_unlink :: "'n \<Rightarrow> 'n links \<Rightarrow> 'n links" where
  "il_unlink link h =
     (let h1 = set_next (node_prev h link) (node_next h link) h
      in set_prev (node_next h1 link) (node_prev h1 link) h1)"

definition il_pop_front :: "'n \<Rightarrow> 'n links \<Rightarrow> 'n \<times> 'n links" where
  "il_pop_front d h = (let link = node_next h d in (link, il_unlink link h))"

definition il_pop_back :: "'n \<Rightarrow> 'n links \<Rightarrow> 'n \<times> 'n links" where
  "il_pop_back d h = (let link = node_prev h d in (link, il_unlink link h))"

definition il_remove :: "'n \<Rightarrow> 'n links \<Rightarrow> 'n links" where
  "il_remove link h = il_unlink link h"

definition il_is_head :: "'n \<Rightarrow> 'n \<Rightarrow> 'n links \<Rightarrow> bool" where
  "il_is_head d link h \<longleftrightarrow> link = node_next h d"

definition il_move_front :: "'n \<Rightarrow> 'n \<Rightarrow> 'n links \<Rightarrow> 'n links" where
  "il_move_front d link h =
     (if il_is_head d link h then h
      else let p = node_prev h link;
               h1 = set_next (node_prev h p) link h;
               h2 = set_prev link (node_prev h1 p) h1;
               n = node_next h2 link;
               h3 = set_prev n p h2;
               h4 = set_next p n h3;
               h5 = set_prev p link h4
           in set_next link p h5)"

definition il_is_linked :: "'n \<Rightarrow> 'n links \<Rightarrow> bool" where
  "il_is_linked link h \<longleftrightarrow> node_next h link \<noteq> link \<and> node_prev h link \<noteq> link"

partial_function (option) has_loop :: "'n \<Rightarrow> 'n \<Rightarrow> 'n links \<Rightarrow> 'n \<Rightarrow> bool option" where
  "has_loop d link h node =
     (if node_next h node \<noteq> d
      then if node_next h node = link then Some True else has_loop d link h (node_next h node)
      else Some False)"

definition il_has :: "'n \<Rightarrow> 'n \<Rightarrow> 'n links \<Rightarrow> bool option" where
  "il_has d link h = (if \<not> il_is_linked link h then Some False else has_loop d link h d)"

definition il_empty :: "'n \<Rightarrow> 'n links \<Rightarrow> bool" where
  "il_empty d h \<longleftrightarrow> node_next h d = d"

declare has_loop.simps [code]

section \<open>The list a ring represents\<close>

fun linked :: "'n links \<Rightarrow> 'n list \<Rightarrow> bool" where
  "linked h (a # b # r) \<longleftrightarrow> node_next h a = b \<and> node_prev h b = a \<and> linked h (b # r)"
| "linked h _ \<longleftrightarrow> True"

definition is_list :: "'n links \<Rightarrow> 'n \<Rightarrow> 'n list \<Rightarrow> bool" where
  "is_list h d xs \<longleftrightarrow> distinct (d # xs) \<and> linked h (d # xs @ [d])"

text \<open>The operations on the list of items. \<^verbatim>\<open>move_front\<close> exchanges an item with its predecessor.\<close>

definition l_push_front :: "'a \<Rightarrow> 'a list \<Rightarrow> 'a list" where
  "l_push_front x xs = x # xs"

definition l_push_back :: "'a \<Rightarrow> 'a list \<Rightarrow> 'a list" where
  "l_push_back x xs = xs @ [x]"

definition l_remove :: "'a \<Rightarrow> 'a list \<Rightarrow> 'a list" where
  "l_remove x xs = remove1 x xs"

fun l_move_front :: "'a \<Rightarrow> 'a list \<Rightarrow> 'a list" where
  "l_move_front x (a # b # r) = (if x = a then a # b # r else if x = b then b # a # r else a # l_move_front x (b # r))"
| "l_move_front x xs = xs"

section \<open>Links and lists\<close>

lemma links_simps [simp]:
  "node_prev (set_prev n v h) = (node_prev h)(n := v)" "node_next (set_prev n v h) = node_next h"
  "node_next (set_next n v h) = (node_next h)(n := v)" "node_prev (set_next n v h) = node_prev h"
  by (simp_all add: set_prev_def set_next_def)

lemma linked_append: "linked h (xs @ a # ys) \<longleftrightarrow> linked h (xs @ [a]) \<and> linked h (a # ys)"
proof (induction xs)
  case (Cons x xs)
  then show ?case by (cases xs) auto
qed simp

lemma linked_cong:
  assumes "linked h ys" and "\<And>n. n \<in> set (butlast ys) \<Longrightarrow> node_next h' n = node_next h n"
    and "\<And>n. n \<in> set (tl ys) \<Longrightarrow> node_prev h' n = node_prev h n"
  shows "linked h' ys"
  using assms by (induction h ys rule: linked.induct) auto

lemma linked_ends:
  assumes "is_list h d xs"
  shows "node_next h d = hd (xs @ [d])" and "node_prev h d = last (d # xs)"
proof -
  show "node_next h d = hd (xs @ [d])" using assms by (cases xs) (auto simp: is_list_def)
  show "node_prev h d = last (d # xs)"
  proof (cases xs rule: rev_cases)
    case (snoc ys y)
    then have "linked h ((d # ys) @ y # [d])" using assms by (simp add: is_list_def)
    then have "linked h (y # [d])" by (rule linked_append [THEN iffD1, THEN conjunct2])
    then show ?thesis using snoc by simp
  qed (use assms in \<open>simp add: is_list_def\<close>)
qed

lemma is_list_push_front:
  assumes "is_list h d xs" and "x \<notin> set xs" and "x \<noteq> d"
  shows "is_list (il_push_front d x h) d (l_push_front x xs)"
proof (cases xs)
  case Nil
  then show ?thesis using assms by (auto simp: is_list_def il_push_front_def l_push_front_def Let_def)
next
  case (Cons a r)
  then have h: "linked h (a # r @ [d])" "node_next h d = a" "distinct (d # a # r)"
    using assms(1) by (auto simp: is_list_def)
  have "linked (il_push_front d x h) (a # r @ [d])"
    using h assms(2,3) Cons by (intro linked_cong [OF h(1)]) (auto simp: il_push_front_def Let_def butlast_append)
  then show ?thesis using h assms(2,3) Cons
    by (auto simp: is_list_def l_push_front_def il_push_front_def Let_def)
qed

lemma is_list_push_back:
  assumes "is_list h d xs" and "x \<notin> set xs" and "x \<noteq> d"
  shows "is_list (il_push_back d x h) d (l_push_back x xs)"
proof (cases xs rule: rev_cases)
  case Nil
  then show ?thesis using assms by (auto simp: is_list_def il_push_back_def l_push_back_def Let_def)
next
  case (snoc r a)
  then have h: "linked h (d # r @ [a])" "distinct (d # a # r)"
    using assms(1) linked_append [of h "d # r" a "[d]"] by (auto simp: is_list_def)
  have p: "node_prev h d = a" using linked_ends(2) [OF assms(1)] snoc by simp
  have "linked (il_push_back d x h) (d # r @ [a])"
    using h p assms(2,3) snoc by (intro linked_cong [OF h(1)]) (auto simp: il_push_back_def Let_def butlast_append)
  moreover have "linked (il_push_back d x h) (a # [x, d])"
    using h p assms(2,3) snoc by (auto simp: il_push_back_def Let_def)
  ultimately have "linked (il_push_back d x h) (d # (r @ [a, x]) @ [d])"
    using linked_append [of _ "d # r" a "[x, d]"] by simp
  then show ?thesis using h assms(2,3) snoc by (auto simp: is_list_def l_push_back_def)
qed

text \<open>Where an item stands in the ring: between its predecessor and its successor.\<close>

lemma is_list_split:
  assumes "is_list h d (as @ x # bs)"
  obtains us p n vs where "d # as = us @ [p]" and "bs @ [d] = n # vs" and "linked h (us @ [p])"
    and "linked h (n # vs)" and "node_prev h x = p" and "node_next h x = n"
    and "distinct (us @ [p])" and "distinct (n # vs)" and "tl (us @ [p]) = as" and "butlast (n # vs) = bs"
    and "p \<in> insert d (set as)" and "n \<in> insert d (set bs)"
proof -
  obtain us p where up: "d # as = us @ [p]" by (cases "d # as" rule: rev_cases) auto
  obtain n vs where nv: "bs @ [d] = n # vs" by (cases "bs @ [d]") auto
  have dist: "distinct (d # as @ x # bs)" using assms by (simp add: is_list_def)
  have "d # (as @ x # bs) @ [d] = us @ p # x # n # vs" using up nv by (metis append_Cons append_assoc append_Nil)
  then have "linked h (us @ p # x # n # vs)" using assms by (simp add: is_list_def)
  then have l: "linked h (us @ [p])" "linked h (p # x # n # vs)" using linked_append by metis+
  have d: "distinct (us @ [p])" "distinct (n # vs)"
    unfolding up [symmetric] nv [symmetric] using dist by auto
  have t: "tl (us @ [p]) = as" "butlast (n # vs) = bs" unfolding up [symmetric] nv [symmetric] by simp_all
  have "p \<in> set (d # as)" "n \<in> set (bs @ [d])" unfolding up nv by simp_all
  then have m: "p \<in> insert d (set as)" "n \<in> insert d (set bs)" by simp_all
  have x: "node_prev h x = p" "node_next h x = n" and l3: "linked h (n # vs)" using l(2) by simp_all
  show ?thesis by (rule that [OF up nv l(1) l3 x d t m])
qed

lemma is_list_unlink:
  assumes "is_list h d (as @ x # bs)"
  shows "is_list (il_unlink x h) d (as @ bs)"
proof -
  obtain us p n vs where s: "d # as = us @ [p]" "bs @ [d] = n # vs" "linked h (us @ [p])" "linked h (n # vs)"
      "node_prev h x = p" "node_next h x = n" "distinct (us @ [p])" "distinct (n # vs)" "tl (us @ [p]) = as"
      "butlast (n # vs) = bs" "p \<in> insert d (set as)" "n \<in> insert d (set bs)"
    using assms by (rule is_list_split)
  have dist: "distinct (d # as @ x # bs)" using assms by (simp add: is_list_def)
  let ?h = "il_unlink x h"
  have eq: "?h = set_prev n p (set_next p n h)" using s(5,6) by (simp add: il_unlink_def Let_def)
  have "linked ?h (us @ [p])"
    using s(7,9,12) dist by (intro linked_cong [OF s(3)]) (auto simp: eq)
  moreover have "linked ?h (n # vs)"
    using s(8,10,11) dist by (intro linked_cong [OF s(4)]) (auto simp: eq simp del: butlast.simps)
  moreover have "node_next ?h p = n \<and> node_prev ?h n = p" by (simp add: eq)
  ultimately have "linked ?h (us @ p # n # vs)" using linked_append [of ?h us p "n # vs"] by simp
  moreover have "d # (as @ bs) @ [d] = us @ p # n # vs" using s(1,2) by (metis append_Cons append_assoc append_Nil)
  ultimately show ?thesis using dist by (auto simp: is_list_def)
qed

lemma is_list_remove:
  assumes "is_list h d xs" and "x \<in> set xs"
  shows "is_list (il_remove x h) d (l_remove x xs)"
proof -
  obtain as bs where xs: "xs = as @ x # bs" "x \<notin> set as" using assms(2) by (meson split_list_first)
  then have "l_remove x xs = as @ bs" by (simp add: l_remove_def remove1_append)
  then show ?thesis using is_list_unlink assms(1) xs(1) by (metis il_remove_def)
qed

lemma l_move_front_append:
  "x \<notin> set as \<Longrightarrow> x \<noteq> p \<Longrightarrow> l_move_front x (as @ p # x # bs) = as @ x # p # bs"
proof (induction as)
  case (Cons a as)
  then show ?case by (cases as) auto
qed simp

lemma l_move_front_hd: "l_move_front x (x # xs) = x # xs"
  by (cases xs) auto

lemma is_list_move_front:
  assumes "is_list h d xs" and "x \<in> set xs"
  shows "is_list (il_move_front d x h) d (l_move_front x xs)"
proof (cases "x = hd xs")
  case True
  then obtain ys where "xs = x # ys" using assms(2) by (cases xs) auto
  then show ?thesis using assms(1) linked_ends(1) [OF assms(1)]
    by (simp add: il_move_front_def il_is_head_def l_move_front_hd)
next
  case False
  obtain cs bs where xs: "xs = cs @ x # bs" "x \<notin> set cs" using assms(2) by (meson split_list_first)
  then obtain as p where cs: "cs = as @ [p]" using False by (cases cs rule: rev_cases) auto
  then have xs: "xs = as @ p # x # bs" "x \<notin> set as" "x \<noteq> p" using xs by auto
  have dist: "distinct (d # as @ p # x # bs)" using assms(1) xs by (simp add: is_list_def)
  obtain us q n vs where s: "d # as = us @ [q]" "(x # bs) @ [d] = n # vs" "linked h (us @ [q])" "linked h (n # vs)"
      "node_prev h p = q" "node_next h p = n" "distinct (us @ [q])" "tl (us @ [q]) = as" "q \<in> insert d (set as)"
    using is_list_split [of h d as p "x # bs"] assms(1) xs(1) by metis
  have nx: "n = x" "vs = bs @ [d]" using s(2) by auto
  obtain m ws where m: "bs @ [d] = m # ws" by (cases "bs @ [d]") auto
  have mm: "m \<in> insert d (set bs)" "distinct (m # ws)" "butlast (m # ws) = bs"
    unfolding m [symmetric] using dist arg_cong [OF m, of set] by auto
  have "linked h ((d # as) @ p # x # m # ws)" using assms(1) xs(1) m by (simp add: is_list_def)
  then have "linked h (p # x # m # ws)" by (rule linked_append [THEN iffD1, THEN conjunct2])
  then have lx: "node_next h x = m" "node_prev h x = p" "linked h (m # ws)" by simp_all
  have nh: "\<not> il_is_head d x h"
    using linked_ends(1) [OF assms(1)] False xs(1) by (auto simp: il_is_head_def hd_append)
  let ?h = "il_move_front d x h"
  have ne: "x \<noteq> q" "m \<noteq> x" "m \<noteq> p" "p \<noteq> q" using dist mm(1) s(9) by auto
  have eq: "?h = set_next x p (set_prev p x (set_next p m (set_prev m p (set_prev x q (set_next q x h)))))"
    using nh lx(1,2) s(5) ne xs(3) by (simp add: il_move_front_def Let_def)
  have us: "set us \<subseteq> insert d (set as)" using arg_cong [OF s(1), of set] by auto
  have "linked ?h (us @ [q])"
    using s(7-9) mm(1) dist us by (intro linked_cong [OF s(3)]) (auto simp: eq)
  moreover have ws: "set ws \<subseteq> insert d (set bs)" using arg_cong [OF m, of set] by auto
  moreover have "linked ?h (m # ws)"
    using mm s(9) dist ws by (intro linked_cong [OF lx(3)]) (auto simp: eq simp del: butlast.simps)
  moreover have "node_next ?h q = x \<and> node_prev ?h x = q \<and> node_next ?h x = p \<and> node_prev ?h p = x
      \<and> node_next ?h p = m \<and> node_prev ?h m = p" using ne xs(3) by (auto simp: eq)
  ultimately have "linked ?h (us @ q # x # p # m # ws)"
    using linked_append [of ?h us q "x # p # m # ws"] by simp
  moreover have "d # (as @ x # p # bs) @ [d] = us @ q # x # p # m # ws"
    using s(1) m by (metis append_Cons append_assoc append_Nil)
  moreover have "l_move_front x xs = as @ x # p # bs" using xs by (simp add: l_move_front_append)
  ultimately show ?thesis using dist by (auto simp: is_list_def)
qed

lemma has_loop_spec:
  assumes "linked h (a # ys @ [d])" and "d \<notin> set ys"
  shows "has_loop d x h a = Some (x \<in> set ys)"
  using assms
proof (induction ys arbitrary: a)
  case Nil
  then show ?case by (subst has_loop.simps) simp
next
  case (Cons y ys)
  then have "has_loop d x h y = Some (x \<in> set ys)" by simp
  with Cons.prems show ?case by (subst has_loop.simps) auto
qed

lemma il_has_spec:
  assumes "is_list h d xs" and "x \<noteq> d" and "x \<in> set xs \<or> il_is_linked x h"
  shows "il_has d x h = Some (x \<in> set xs)"
proof -
  have "has_loop d x h d = Some (x \<in> set xs)"
    using assms(1) by (intro has_loop_spec) (auto simp: is_list_def)
  moreover have "il_is_linked x h"
  proof (cases "x \<in> set xs")
    case True
    then obtain as bs where "xs = as @ x # bs" by (meson split_list)
    then obtain us p n vs where "node_prev h x = p" "node_next h x = n"
        "p \<in> insert d (set as)" "n \<in> insert d (set bs)" "distinct (d # as @ x # bs)"
      using is_list_split [of h d as x bs] assms(1) by (metis is_list_def)
    with assms(2) show ?thesis by (auto simp: il_is_linked_def)
  qed (use assms(3) in simp)
  ultimately show ?thesis by (simp add: il_has_def)
qed

lemma is_list_init: "is_list (il_init d h) d []"
  by (simp add: is_list_def il_init_def)

section \<open>The contract of a list of items\<close>

text \<open>
  What the clients of the list rely on: \<open>repr h xs\<close> relates the heap to the list, and every operation
  acts on the heap as the list function of the same name.
\<close>

locale item_list =
  fixes repr :: "'h \<Rightarrow> 'a list \<Rightarrow> bool" and item :: "'a \<Rightarrow> bool"
    and front_item :: "'h \<Rightarrow> 'a" and back_item :: "'h \<Rightarrow> 'a" and empty :: "'h \<Rightarrow> bool"
    and push_front :: "'a \<Rightarrow> 'h \<Rightarrow> 'h" and push_back :: "'a \<Rightarrow> 'h \<Rightarrow> 'h"
    and remove :: "'a \<Rightarrow> 'h \<Rightarrow> 'h" and move_front :: "'a \<Rightarrow> 'h \<Rightarrow> 'h"
  assumes repr_distinct: "repr h xs \<Longrightarrow> distinct xs"
    and front_law: "repr h xs \<Longrightarrow> xs \<noteq> [] \<Longrightarrow> front_item h = hd xs"
    and back_law: "repr h xs \<Longrightarrow> xs \<noteq> [] \<Longrightarrow> back_item h = last xs"
    and empty_law: "repr h xs \<Longrightarrow> empty h \<longleftrightarrow> xs = []"
    and push_front_law: "repr h xs \<Longrightarrow> item x \<Longrightarrow> x \<notin> set xs \<Longrightarrow> repr (push_front x h) (l_push_front x xs)"
    and push_back_law: "repr h xs \<Longrightarrow> item x \<Longrightarrow> x \<notin> set xs \<Longrightarrow> repr (push_back x h) (l_push_back x xs)"
    and remove_law: "repr h xs \<Longrightarrow> x \<in> set xs \<Longrightarrow> repr (remove x h) (l_remove x xs)"
    and move_front_law: "repr h xs \<Longrightarrow> x \<in> set xs \<Longrightarrow> repr (move_front x h) (l_move_front x xs)"
    and repr_item: "repr h xs \<Longrightarrow> x \<in> set xs \<Longrightarrow> item x"
begin

text \<open>The step of the page list on eviction: the last item becomes the first.\<close>

lemma rotate_back:
  assumes "repr h xs" and "xs \<noteq> []"
  shows "repr (push_front (back_item h) (remove (back_item h) h)) (last xs # butlast xs)"
proof -
  have b: "back_item h = last xs" "last xs \<in> set xs" using back_law assms by auto
  obtain ys y where xs: "xs = ys @ [y]" using assms(2) by (cases xs rule: rev_cases) auto
  have d: "y \<notin> set ys" using repr_distinct [OF assms(1)] xs by simp
  then have rm: "l_remove y xs = ys" by (simp add: l_remove_def xs remove1_append)
  have "repr (remove y h) ys" using remove_law [OF assms(1), of y] rm xs by simp
  then have "repr (push_front y (remove y h)) (y # ys)"
    using push_front_law [of _ ys y] d repr_item [OF assms(1), of y] xs by (simp add: l_push_front_def)
  then show ?thesis using b(1) xs by simp
qed

text \<open>Moving an item to the front moves it one place, and \<open>n\<close> such calls move it \<open>n\<close> places.\<close>

lemma move_front_times:
  assumes "repr h (as @ bs @ x # cs)" and "n = length bs"
  shows "repr ((move_front x ^^ n) h) (as @ x # bs @ cs)"
  using assms
proof (induction bs arbitrary: h n cs rule: rev_induct)
  case (snoc b bs)
  have d: "distinct (as @ bs @ b # x # cs)" using repr_distinct [OF snoc.prems(1)] by simp
  then have "l_move_front x ((as @ bs) @ b # x # cs) = (as @ bs) @ x # b # cs"
    by (intro l_move_front_append) auto
  then have "repr (move_front x h) (as @ bs @ x # (b # cs))"
    using move_front_law [OF snoc.prems(1), of x] by simp
  then have "repr ((move_front x ^^ length bs) (move_front x h)) (as @ x # bs @ b # cs)"
    by (rule snoc.IH) simp
  then show ?case using snoc.prems(2) by (simp add: funpow_swap1)
qed simp

end

interpretation il: item_list "\<lambda>h. is_list h d" "\<lambda>x. x \<noteq> d" "il_front d" "il_back d" "il_empty d"
    "il_push_front d" "il_push_back d" "il_remove" "il_move_front d"
  for d :: 'n
proof unfold_locales
  fix h xs and x :: 'n
  assume r: "is_list h d xs"
  show "distinct xs" using r by (simp add: is_list_def)
  show "xs \<noteq> [] \<Longrightarrow> il_front d h = hd xs" using linked_ends [OF r] by (simp add: il_front_def)
  show "xs \<noteq> [] \<Longrightarrow> il_back d h = last xs" using linked_ends [OF r] by (simp add: il_back_def)
  show "il_empty d h \<longleftrightarrow> xs = []"
    using linked_ends [OF r] r by (cases xs) (auto simp: il_empty_def is_list_def)
  show "x \<noteq> d \<Longrightarrow> x \<notin> set xs \<Longrightarrow> is_list (il_push_front d x h) d (l_push_front x xs)"
    using r by (intro is_list_push_front)
  show "x \<noteq> d \<Longrightarrow> x \<notin> set xs \<Longrightarrow> is_list (il_push_back d x h) d (l_push_back x xs)"
    using r by (intro is_list_push_back)
  show "x \<in> set xs \<Longrightarrow> is_list (il_remove x h) d (l_remove x xs)" using r by (rule is_list_remove)
  show "x \<in> set xs \<Longrightarrow> is_list (il_move_front d x h) d (l_move_front x xs)" using r by (rule is_list_move_front)
  show "x \<in> set xs \<Longrightarrow> x \<noteq> d" using r by (auto simp: is_list_def)
qed

section \<open>Properties of the list\<close>

text \<open>C21: the pointer manipulations of every operation that changes a list implement the operation on
  the list of items: pushing at either end, removing any item, and moving an item, which exchanges it
  with its predecessor; the result is again a well-formed ring.\<close>

theorem intrusive_list_refines:
  assumes "is_list h d xs"
  shows "(x \<notin> set xs \<and> x \<noteq> d \<longrightarrow> is_list (il_push_front d x h) d (x # xs) \<and> is_list (il_push_back d x h) d (xs @ [x]))
    \<and> (x \<in> set xs \<longrightarrow> is_list (il_remove x h) d (remove1 x xs) \<and> is_list (il_move_front d x h) d (l_move_front x xs)
        \<and> il_has d x h = Some True)
    \<and> (xs \<noteq> [] \<longrightarrow> fst (il_pop_front d h) = hd xs \<and> is_list (snd (il_pop_front d h)) d (tl xs)
        \<and> fst (il_pop_back d h) = last xs \<and> is_list (snd (il_pop_back d h)) d (butlast xs))
    \<and> (il_empty d h \<longleftrightarrow> xs = [])"
proof (intro conjI impI)
  assume ne: "xs \<noteq> []"
  have "is_list (snd (il_pop_front d h)) d (tl xs)"
    using is_list_unlink [of h d "[]" "hd xs" "tl xs"] assms ne linked_ends(1) [OF assms]
    by (simp add: il_pop_front_def Let_def)
  moreover have "is_list (snd (il_pop_back d h)) d (butlast xs)"
    using is_list_unlink [of h d "butlast xs" "last xs" "[]"] assms ne linked_ends(2) [OF assms]
    by (simp add: il_pop_back_def Let_def)
  ultimately show "fst (il_pop_front d h) = hd xs" and "is_list (snd (il_pop_front d h)) d (tl xs)"
    and "fst (il_pop_back d h) = last xs" and "is_list (snd (il_pop_back d h)) d (butlast xs)"
    using linked_ends [OF assms] ne by (simp_all add: il_pop_front_def il_pop_back_def Let_def)
next
  assume x: "x \<notin> set xs \<and> x \<noteq> d"
  show "is_list (il_push_front d x h) d (x # xs)" and "is_list (il_push_back d x h) d (xs @ [x])"
    using il.push_front_law [OF assms, of x] il.push_back_law [OF assms, of x] x
    by (simp_all add: l_push_front_def l_push_back_def)
next
  assume x: "x \<in> set xs"
  show "is_list (il_remove x h) d (remove1 x xs)" using il.remove_law [OF assms x] by (simp add: l_remove_def)
  show "is_list (il_move_front d x h) d (l_move_front x xs)" by (rule il.move_front_law [OF assms x])
  show "il_has d x h = Some True" using il_has_spec [OF assms, of x] x il.repr_item [OF assms x] by simp
qed (use il.empty_law [OF assms] in simp)

theorem intrusive_list_refines_witness:
  "is_list (il_push_front 0 (1 :: nat) (il_init 0 \<lparr>node_prev = (\<lambda>_. 7), node_next = (\<lambda>_. 7)\<rparr>)) 0 [1]
   \<and> il_empty 0 (il_init 0 \<lparr>node_prev = (\<lambda>_. 7 :: nat), node_next = (\<lambda>_. 7)\<rparr>)"
  using intrusive_list_refines [OF is_list_init [of 0 "\<lparr>node_prev = (\<lambda>_. 7 :: nat), node_next = (\<lambda>_. 7)\<rparr>"], of 1]
  by simp

end
