(* ===== verification/Pages.thy ===== *)
theory Pages
  imports Bits Intrusive_List
begin

text \<open>
  Class \<^verbatim>\<open>memalloc::pages\<close> of \<^verbatim>\<open>cachelot/memalloc-inl.h\<close>: the arena is split into pages of
  equal size, kept in a list by last access. Addresses and sizes of type \<^verbatim>\<open>size_t\<close> are natural
  numbers (the arena lies in the address space); a page is named by its number, the \<^verbatim>\<open>page_info\<close>
  pointers of the code, and the intrusive list of pages is the list it represents
  (\<open>Intrusive_List.intrusive_list_refines\<close>). The cast of an offset to a 32-bit \<^verbatim>\<open>unsigned\<close> is
  written out.
\<close>

section \<open>The pages and their operations\<close>

record page_info =
  num_hits :: u64
  num_evictions :: u64

record pages =
  pg_size :: nat
  num_pages :: nat
  arena_begin :: nat
  arena_end :: nat
  log2_page_size :: nat
  all_pages :: "page_info list"
  lru_pages :: "nat list"

definition pages_new :: "nat \<Rightarrow> nat \<Rightarrow> nat \<Rightarrow> pages" where
  "pages_new the_page_size the_arena_begin the_arena_end =
     (let n = (the_arena_end - the_arena_begin) div the_page_size in
      \<lparr>pg_size = the_page_size, num_pages = n, arena_begin = the_arena_begin, arena_end = the_arena_end,
       log2_page_size = log2u (of_nat the_page_size :: u64),
       all_pages = replicate n \<lparr>num_hits = 0, num_evictions = 0\<rparr>,
       lru_pages = fold l_push_front [0..<n] []\<rparr>)"

definition pages_valid_addr :: "pages \<Rightarrow> nat \<Rightarrow> bool" where
  "pages_valid_addr p ptr \<longleftrightarrow> arena_begin p \<le> ptr \<and> ptr < arena_end p"

definition page_no_from_addr :: "pages \<Rightarrow> nat \<Rightarrow> nat" where
  "page_no_from_addr p ptr = ((ptr - arena_begin p) mod 2 ^ 32) div 2 ^ log2_page_size p"

definition page_info_from_addr :: "pages \<Rightarrow> nat \<Rightarrow> page_info" where
  "page_info_from_addr p ptr = all_pages p ! page_no_from_addr p ptr"

definition page_boundaries_from_addr :: "pages \<Rightarrow> nat \<Rightarrow> nat \<times> nat" where
  "page_boundaries_from_addr p ptr =
     (let page_begin = arena_begin p + page_no_from_addr p ptr * pg_size p
      in (page_begin, page_begin + pg_size p))"

definition pages_touch :: "pages \<Rightarrow> nat \<Rightarrow> pages" where
  "pages_touch p ptr =
     (let page = page_no_from_addr p ptr; info = page_info_from_addr p ptr in
      p\<lparr>all_pages := (all_pages p)[page := info\<lparr>num_hits := num_hits info + 1\<rparr>],
        lru_pages := l_move_front page (lru_pages p)\<rparr>)"

definition page_to_reuse :: "pages \<Rightarrow> (nat \<times> nat) option \<times> pages" where
  "page_to_reuse p =
     (let least_used = last (lru_pages p); info = all_pages p ! least_used;
          p' = p\<lparr>all_pages := (all_pages p)[least_used := info\<lparr>num_evictions := num_evictions info + 1\<rparr>],
                 lru_pages := l_push_front least_used (l_remove least_used (lru_pages p))\<rparr>
      in case find (\<lambda>page_no. least_used = page_no) [0..<num_pages p] of
           Some page_no \<Rightarrow> let page_begin = arena_begin p + page_no * pg_size p
                            in (Some (page_begin, page_begin + pg_size p), p')
         | None \<Rightarrow> (None, p'))"

section \<open>Invariant\<close>

definition pages_inv :: "pages \<Rightarrow> bool" where
  "pages_inv p \<longleftrightarrow> pg_size p = 2 ^ log2_page_size p \<and> arena_end p = arena_begin p + num_pages p * pg_size p
     \<and> 0 < num_pages p \<and> pg_size p dvd arena_begin p
     \<and> length (all_pages p) = num_pages p \<and> distinct (lru_pages p) \<and> set (lru_pages p) = {..<num_pages p}"

text \<open>Consecutive evictions, with no access between them.\<close>

fun reuse_pages :: "nat \<Rightarrow> pages \<Rightarrow> (nat \<times> nat) option list \<times> pages" where
  "reuse_pages 0 p = ([], p)"
| "reuse_pages (Suc n) p = (case page_to_reuse p of (r, p') \<Rightarrow> case reuse_pages n p' of (rs, p'') \<Rightarrow> (r # rs, p''))"

lemma fold_push_front: "fold l_push_front xs ys = rev xs @ ys"
  by (induction xs arbitrary: ys) (simp_all add: l_push_front_def)

lemma pages_new_inv:
  assumes "ps = 2 ^ k" and "k < 64" and "e = b + n * ps" and "0 < n" and "ps dvd b"
  shows "pages_inv (pages_new ps b e)" and "num_pages (pages_new ps b e) = n"
    and "lru_pages (pages_new ps b e) = rev [0..<n]"
proof -
  have "(of_nat ps :: u64) = pow2 k" by (simp add: assms(1) pow2_def push_bit_of_1)
  then have "log2u (of_nat ps :: u64) = k" using log2u_pow2 [of k, where 'a = 64] assms(2) by simp
  moreover have n: "(e - b) div ps = n" using assms(1,3) by simp
  ultimately show "pages_inv (pages_new ps b e)" "num_pages (pages_new ps b e) = n"
    "lru_pages (pages_new ps b e) = rev [0..<n]"
    using assms by (auto simp: pages_inv_def pages_new_def Let_def fold_push_front)
qed

lemma pages_invD:
  assumes "pages_inv p"
  shows "pg_size p = 2 ^ log2_page_size p" and "arena_end p = arena_begin p + num_pages p * pg_size p"
    and "0 < num_pages p" and "pg_size p dvd arena_begin p" and "length (all_pages p) = num_pages p"
    and "distinct (lru_pages p)" and "set (lru_pages p) = {..<num_pages p}" and "0 < pg_size p"
proof -
  show size: "pg_size p = 2 ^ log2_page_size p" using assms unfolding pages_inv_def by blast
  show "0 < pg_size p" unfolding size by simp
qed (use assms in \<open>unfold pages_inv_def, blast+\<close>)

lemma page_no_correct:
  assumes "pages_inv p" and "pages_valid_addr p ptr" and "arena_end p - arena_begin p \<le> 2 ^ 32"
  shows "page_no_from_addr p ptr = (ptr - arena_begin p) div pg_size p" and "page_no_from_addr p ptr < num_pages p"
proof -
  note i = pages_invD [OF assms(1)]
  have off: "ptr - arena_begin p < num_pages p * pg_size p" "ptr - arena_begin p < 2 ^ 32"
    using assms(2,3) i(2) unfolding pages_valid_addr_def by linarith+
  show eq: "page_no_from_addr p ptr = (ptr - arena_begin p) div pg_size p"
    using off(2) unfolding page_no_from_addr_def i(1) by simp
  show "page_no_from_addr p ptr < num_pages p"
    unfolding eq using off(1) by (simp add: less_mult_imp_div_less)
qed

lemma page_boundaries_correct:
  assumes "pages_inv p" and "pages_valid_addr p ptr" and "arena_end p - arena_begin p \<le> 2 ^ 32"
    and "k < num_pages p" and "arena_begin p + k * pg_size p \<le> ptr" and "ptr < arena_begin p + k * pg_size p + pg_size p"
  shows "page_no_from_addr p ptr = k"
    and "page_boundaries_from_addr p ptr = (arena_begin p + k * pg_size p, arena_begin p + k * pg_size p + pg_size p)"
proof -
  have "(ptr - arena_begin p) div pg_size p = k"
    using assms(5,6) by (intro div_nat_eqI) (auto simp: algebra_simps)
  then show no: "page_no_from_addr p ptr = k" using page_no_correct(1) [OF assms(1-3)] by simp
  show "page_boundaries_from_addr p ptr = (arena_begin p + k * pg_size p, arena_begin p + k * pg_size p + pg_size p)"
    by (simp add: page_boundaries_from_addr_def no Let_def)
qed

lemma set_l_move_front [simp]: "set (l_move_front x xs) = set xs"
  by (induction x xs rule: l_move_front.induct) auto

lemma distinct_l_move_front [simp]: "distinct (l_move_front x xs) = distinct xs"
  by (induction x xs rule: l_move_front.induct) auto

lemma pages_touch_simps [simp]:
  "pg_size (pages_touch p ptr) = pg_size p" "num_pages (pages_touch p ptr) = num_pages p"
  "arena_begin (pages_touch p ptr) = arena_begin p" "arena_end (pages_touch p ptr) = arena_end p"
  "log2_page_size (pages_touch p ptr) = log2_page_size p"
  by (simp_all add: pages_touch_def Let_def)

lemma pages_touch_inv: "pages_inv p \<Longrightarrow> pages_inv (pages_touch p ptr)"
  unfolding pages_inv_def by (simp add: pages_touch_def Let_def cong: conj_cong)

lemma find_upt: "n < m \<Longrightarrow> find (\<lambda>i. n = i) [0..<m] = Some n"
  by (simp add: find_Some_iff) (rule exI [of _ n], simp)

lemma page_to_reuse_spec:
  assumes "pages_inv p"
  obtains k p' where "lru_pages p = butlast (lru_pages p) @ [k]" and "k < num_pages p"
    and "page_to_reuse p = (Some (arena_begin p + k * pg_size p, arena_begin p + k * pg_size p + pg_size p), p')"
    and "pages_inv p'" and "lru_pages p' = k # butlast (lru_pages p)" and "arena_begin p' = arena_begin p"
    and "arena_end p' = arena_end p" and "pg_size p' = pg_size p" and "num_pages p' = num_pages p"
proof -
  note i = pages_invD [OF assms]
  have ne: "lru_pages p \<noteq> []" using i(3,7) by (metis empty_iff empty_set lessThan_iff)
  obtain xs k where lru: "lru_pages p = xs @ [k]" using ne by (cases "lru_pages p" rule: rev_cases) auto
  have k: "k < num_pages p" "k \<notin> set xs" "set xs \<subseteq> {..<num_pages p}" "distinct xs"
    using i(6,7) lru by auto
  have set: "insert k (set xs) = {..<num_pages p}" using i(7) lru by simp
  let ?p = "p\<lparr>all_pages := (all_pages p)[k := (all_pages p ! k)\<lparr>num_evictions := num_evictions (all_pages p ! k) + 1\<rparr>],
      lru_pages := k # xs\<rparr>"
  have "l_push_front k (l_remove k (lru_pages p)) = k # xs"
    using k lru by (simp add: l_push_front_def l_remove_def remove1_append)
  then have "page_to_reuse p = (Some (arena_begin p + k * pg_size p, arena_begin p + k * pg_size p + pg_size p), ?p)"
    using k lru by (simp add: page_to_reuse_def Let_def find_upt)
  moreover have "pages_inv ?p" using i k set unfolding pages_inv_def by simp
  ultimately show ?thesis using that [of k ?p] lru k by simp
qed

lemma reuse_pages_spec:
  assumes "pages_inv p" and "lru_pages p = xs @ ys"
  shows "\<exists>p'. reuse_pages (length ys) p = (map (\<lambda>k. Some (arena_begin p + k * pg_size p,
      arena_begin p + k * pg_size p + pg_size p)) (rev ys), p') \<and> pages_inv p' \<and> lru_pages p' = ys @ xs"
  using assms
proof (induction ys arbitrary: p xs rule: rev_induct)
  case (snoc y ys)
  obtain k p1 where r: "lru_pages p = butlast (lru_pages p) @ [k]" "k < num_pages p"
      "page_to_reuse p = (Some (arena_begin p + k * pg_size p, arena_begin p + k * pg_size p + pg_size p), p1)"
      "pages_inv p1" "lru_pages p1 = k # butlast (lru_pages p)" "arena_begin p1 = arena_begin p"
      "arena_end p1 = arena_end p" "pg_size p1 = pg_size p" "num_pages p1 = num_pages p"
    by (rule page_to_reuse_spec [OF snoc.prems(1)])
  have k: "k = y" and b: "butlast (lru_pages p) = xs @ ys" using r(1) snoc.prems(2) by (simp_all add: butlast_append)
  then have "lru_pages p1 = (y # xs) @ ys" using r(5) by simp
  from snoc.IH [OF r(4) this] r(3,6,8) k show ?case by auto
qed simp

section \<open>Properties of the pages\<close>

text \<open>in an arena of at most 4 GiB the page of an address is the one whose boundaries enclose it,
  and its number is in range.\<close>

theorem page_of_address:
  assumes "pages_inv p" and "pages_valid_addr p ptr" and "arena_end p - arena_begin p \<le> 2 ^ 32"
  shows "page_no_from_addr p ptr < num_pages p \<and>
    (case page_boundaries_from_addr p ptr of (b, e) \<Rightarrow> b \<le> ptr \<and> ptr < e \<and> arena_begin p \<le> b \<and> e \<le> arena_end p)"
proof -
  let ?k = "page_no_from_addr p ptr" and ?o = "ptr - arena_begin p"
  note no = page_no_correct [OF assms]
  note i = pages_invD [OF assms(1)]
  have "?k * pg_size p \<le> ?o" "?o < ?k * pg_size p + pg_size p"
    unfolding no(1) using dividend_less_div_times [OF i(8), of ?o] by (simp_all add: add.commute)
  moreover have "arena_begin p \<le> ptr" using assms(2) by (simp add: pages_valid_addr_def)
  moreover have "?k * pg_size p + pg_size p \<le> num_pages p * pg_size p"
    using no(2) by (metis Suc_leI add.commute mult_Suc mult_le_mono1)
  ultimately show ?thesis using no(2) i(2) by (simp add: page_boundaries_from_addr_def Let_def) linarith
qed

theorem page_of_address_witness:
  "page_no_from_addr (pages_new 256 1024 2048) 1300 < 4"
proof -
  have "pages_inv (pages_new 256 1024 2048)" "num_pages (pages_new 256 1024 2048) = 4"
    by (rule pages_new_inv [of 256 8 2048 1024 4]; simp)+
  then show ?thesis
    using page_of_address [of "pages_new 256 1024 2048" 1300] by (simp add: pages_valid_addr_def pages_new_def Let_def)
qed

text \<open>in a larger arena the number is computed from the low 32 bits of the offset, so an address at
  or above 4 GiB is taken for one in the first 4 GiB: \<^verbatim>\<open>touch\<close> and the boundary checks of merging
  then use the wrong page.\<close>

theorem page_of_address_wraps:
  assumes "pages_inv p" and "log2_page_size p \<le> 32" and "arena_begin p + 2 ^ 32 \<le> ptr"
  shows "page_no_from_addr p ptr = page_no_from_addr p (ptr - 2 ^ 32) \<and> page_no_from_addr p ptr \<noteq> (ptr - arena_begin p) div pg_size p"
proof -
  let ?o = "ptr - arena_begin p" and ?k = "log2_page_size p"
  obtain r where r: "?o = r + 2 ^ 32" "ptr - 2 ^ 32 - arena_begin p = r"
    using that [of "ptr - 2 ^ 32 - arena_begin p"] assms(3) by simp
  have eq: "page_no_from_addr p ptr = page_no_from_addr p (ptr - 2 ^ 32)"
    unfolding page_no_from_addr_def r by simp
  have "page_no_from_addr p ptr \<le> r div 2 ^ ?k"
    unfolding page_no_from_addr_def r by (simp add: div_le_mono)
  also have "\<dots> < (r + 2 ^ 32) div 2 ^ ?k"
  proof -
    have e: "(2 :: nat) ^ 32 = 2 ^ (32 - ?k) * 2 ^ ?k" using assms(2) by (simp flip: power_add)
    have "(r + 2 ^ 32) div 2 ^ ?k = 2 ^ (32 - ?k) + r div 2 ^ ?k" unfolding e by (rule div_mult_self1) simp
    then show ?thesis by simp
  qed
  finally have "page_no_from_addr p ptr < ?o div pg_size p"
    unfolding pages_invD(1) [OF assms(1)] r(1) .
  with eq show ?thesis by simp
qed

theorem page_of_address_wraps_witness:
  "page_no_from_addr (pages_new (2 ^ 20) 0 (2 ^ 33)) (2 ^ 32) = 0"
proof -
  have "pages_inv (pages_new (2 ^ 20) 0 (2 ^ 33))" by (rule pages_new_inv [of _ 20 _ _ "2 ^ 13"]) simp_all
  moreover have "log2_page_size (pages_new (2 ^ 20) 0 (2 ^ 33)) = 20"
    by (simp add: pages_new_def Let_def) code_simp
  ultimately show ?thesis
    using page_of_address_wraps [of "pages_new (2 ^ 20) 0 (2 ^ 33)" "2 ^ 32"]
    by (simp add: pages_new_def Let_def page_no_from_addr_def)
qed

text \<open>The eviction order. The page reused is the last of the list and becomes its first; as many
  evictions as there are pages, with no access between them, reuse every page once, from the least to
  the most recently used one.\<close>

theorem reuse_is_round_robin:
  assumes "pages_inv p"
  shows "\<exists>p'. reuse_pages (num_pages p) p = (map (\<lambda>k. Some (arena_begin p + k * pg_size p,
      arena_begin p + k * pg_size p + pg_size p)) (rev (lru_pages p)), p') \<and> pages_inv p'
    \<and> lru_pages p' = lru_pages p \<and> set (lru_pages p) = {..<num_pages p}"
proof -
  have "length (lru_pages p) = num_pages p"
    using pages_invD(6,7) [OF assms] by (metis card_lessThan distinct_card)
  then show ?thesis using reuse_pages_spec [OF assms, of "[]" "lru_pages p"] pages_invD(7) [OF assms] by auto
qed

theorem reuse_is_round_robin_witness:
  "\<exists>p'. reuse_pages 2 (pages_new 256 1024 1536) = ([Some (1024, 1280), Some (1280, 1536)], p')"
proof -
  have p: "pages_inv (pages_new 256 1024 1536)" "num_pages (pages_new 256 1024 1536) = 2"
      "lru_pages (pages_new 256 1024 1536) = rev [0..<2]"
    by (rule pages_new_inv [of 256 8 1536 1024 2]; simp)+
  have q: "arena_begin (pages_new 256 1024 1536) = 1024" "pg_size (pages_new 256 1024 1536) = 256"
    by (simp_all add: pages_new_def Let_def)
  have m: "map (\<lambda>k. Some (1024 + k * 256, 1024 + k * 256 + 256)) (rev (rev [0..<2])) = [Some (1024, 1280), Some (1280, 1536 :: nat)]"
    by (simp add: upt_rec)
  obtain p' where "reuse_pages 2 (pages_new 256 1024 1536)
      = (map (\<lambda>k. Some (1024 + k * 256, 1024 + k * 256 + 256)) (rev (rev [0..<2])), p')"
    using reuse_is_round_robin [OF p(1)] unfolding p(2,3) q by blast
  then show ?thesis unfolding m by (rule exI)
qed

end
