(* ===== verification/Stats.thy ===== *)
theory Stats
  imports Prelude
begin

text \<open>
  \<^verbatim>\<open>cachelot/stats.h\<close> and \<^verbatim>\<open>stats.cpp\<close>: the counters of the cache and of the allocator. The
  members of the two groups of \<^verbatim>\<open>struct stats\<close> are datatypes of names, a group of counters is a
  function from names to values, and \<^verbatim>\<open>STAT_INCR\<close> and \<^verbatim>\<open>STAT_DECR\<close> saturate.
\<close>

datatype mem_stat =
    mem_num_malloc | mem_num_free | mem_num_realloc | mem_num_alloc_errors | mem_num_realloc_errors
  | mem_used_memory | mem_total_requested | mem_total_served | mem_total_unserved
  | mem_total_realloc_requested | mem_total_realloc_served | mem_total_realloc_unserved
  | mem_num_free_table_hits | mem_num_free_table_weak_hits | mem_limit_maxbytes | mem_page_size
  | mem_evictions

datatype cache_stat =
    cmd_get | get_hits | get_misses | cmd_set | set_new | set_existing | cmd_add | add_stored
  | add_not_stored | cmd_replace | replace_stored | replace_not_stored | cmd_cas | cas_misses
  | cas_stored | cas_badval | cmd_delete | delete_hits | delete_misses | cmd_touch | touch_hits
  | touch_misses | cmd_incr | incr_hits | incr_misses | cmd_decr | decr_hits | decr_misses
  | cmd_append | append_stored | append_misses | cmd_prepend | prepend_stored | prepend_misses
  | cmd_flush | hash_capacity | curr_items

record stats =
  cache_stats :: "cache_stat \<Rightarrow> u64"
  hash_is_expanding :: bool
  mem_stats :: "mem_stat \<Rightarrow> u64"

definition no_overflow_increment :: "u64 \<Rightarrow> u64 \<Rightarrow> u64" where
  "no_overflow_increment v delta = (if - 1 - delta \<ge> v then v + delta else - 1)"

definition no_overflow_decrement :: "u64 \<Rightarrow> u64 \<Rightarrow> u64" where
  "no_overflow_decrement v delta = (if 0 + delta \<le> v then v - delta else 0)"

definition stat_incr :: "'s \<Rightarrow> u64 \<Rightarrow> ('s \<Rightarrow> u64) \<Rightarrow> 's \<Rightarrow> u64" where
  "stat_incr name delta st = st(name := no_overflow_increment (st name) delta)"

definition stat_decr :: "'s \<Rightarrow> u64 \<Rightarrow> ('s \<Rightarrow> u64) \<Rightarrow> 's \<Rightarrow> u64" where
  "stat_decr name delta st = st(name := no_overflow_decrement (st name) delta)"

definition stat_set :: "'s \<Rightarrow> u64 \<Rightarrow> ('s \<Rightarrow> u64) \<Rightarrow> 's \<Rightarrow> u64" where
  "stat_set name v st = st(name := v)"

definition ResetStats :: stats where
  "ResetStats = \<lparr>cache_stats = (\<lambda>_. 0), hash_is_expanding = False, mem_stats = (\<lambda>_. 0)\<rparr>"

lemma unat_no_overflow_increment:
  "unat (no_overflow_increment v delta) = min (unat v + unat delta) (2 ^ 64 - 1)"
proof -
  have m: "unat (- 1 - delta :: u64) = 2 ^ 64 - 1 - unat delta"
    by (subst unat_diff_le) (simp_all add: unat_minus1)
  have d: "unat delta < 2 ^ 64" "unat v < 2 ^ 64" using unat_word_lt [of delta] unat_word_lt [of v] by simp_all
  show ?thesis
  proof (cases "v \<le> - 1 - delta")
    case True
    then have "unat v + unat delta < 2 ^ 64" using m d by (simp add: word_le_nat_alt)
    with True show ?thesis by (simp add: no_overflow_increment_def unat_add_lt)
  next
    case False
    then have "2 ^ 64 - 1 < unat v + unat delta" using m d by (simp add: word_le_nat_alt)
    with False show ?thesis by (simp add: no_overflow_increment_def unat_minus1)
  qed
qed

lemma unat_no_overflow_decrement: "unat (no_overflow_decrement v delta) = unat v - unat delta"
  by (auto simp: no_overflow_decrement_def unat_diff_le word_le_nat_alt)

end
