(* ===== verification/Free_Blocks.thy ===== *)
theory Free_Blocks
  imports Bits Intrusive_List Stats
begin

text \<open>
  Class \<^verbatim>\<open>memalloc::free_blocks_by_size\<close> of \<^verbatim>\<open>cachelot/memalloc-inl.h\<close>: the table of free
  blocks by size class with its two bit indexes, on a 64-bit platform. A block is named by its address;
  the size in a block's header is read through the argument \<open>size_of\<close>. The intrusive list of a size
  class is the list it represents (\<open>Intrusive_List.intrusive_list_refines\<close>), a position is the pair of
  \<^verbatim>\<open>pow_index\<close> and \<^verbatim>\<open>sub_index\<close>, and a search that runs forever is \<open>None\<close>.
\<close>

section \<open>The table and its operations\<close>

definition num_sub_cells_per_power :: nat where
  "num_sub_cells_per_power = 32"

definition first_power_of_2 :: nat where
  "first_power_of_2 = 8"

definition small_block_boundary :: u32 where
  "small_block_boundary = pow2 first_power_of_2"

definition min_block_diff :: u32 where
  "min_block_diff = small_block_boundary div of_nat num_sub_cells_per_power"

record free_blocks =
  last_power_of_2 :: nat
  num_powers :: nat
  fb_page_size :: nat
  first_level_bit_index :: u32
  second_level_bit_index :: "u32 list"
  size_classes_table :: "nat list list"

type_synonym position = "nat \<times> nat"

fun absolute :: "position \<Rightarrow> nat" where
  "absolute (pow_index, sub_index) = pow_index * num_sub_cells_per_power + sub_index"

definition free_blocks_new :: "nat \<Rightarrow> free_blocks" where
  "free_blocks_new the_page_size =
     (let last_power = log2u (of_nat the_page_size :: u32); n = last_power - first_power_of_2 + 1 in
      \<lparr>last_power_of_2 = last_power, num_powers = n, fb_page_size = the_page_size,
       first_level_bit_index = 0, second_level_bit_index = replicate n 0,
       size_classes_table = replicate (n * num_sub_cells_per_power) []\<rparr>)"

definition position_from_size :: "nat \<Rightarrow> position" where
  "position_from_size requested_size =
     (let sz = of_nat requested_size :: u32 in
      if small_block_boundary \<le> sz
      then let power2_idx = log2u sz;
               sub_block_idx = drop_bit (power2_idx - log2u (of_nat num_sub_cells_per_power :: u32)) sz
                 - of_nat num_sub_cells_per_power
           in (power2_idx - first_power_of_2 + 1, unat sub_block_idx)
      else (0, unat (drop_bit (log2u min_block_diff) sz)))"

definition bit_index_probe :: "free_blocks \<Rightarrow> position \<Rightarrow> bool" where
  "bit_index_probe fb pos \<longleftrightarrow> is_set (first_level_bit_index fb) (fst pos)
     \<and> is_set (second_level_bit_index fb ! fst pos) (snd pos)"

definition bit_index_mark_empty :: "free_blocks \<Rightarrow> position \<Rightarrow> free_blocks" where
  "bit_index_mark_empty fb pos =
     (let w = bit_unset (second_level_bit_index fb ! fst pos) (snd pos);
          fb' = fb\<lparr>second_level_bit_index := (second_level_bit_index fb)[fst pos := w]\<rparr>
      in if w = 0 then fb'\<lparr>first_level_bit_index := bit_unset (first_level_bit_index fb') (fst pos)\<rparr> else fb')"

definition bit_index_mark_non_empty :: "free_blocks \<Rightarrow> position \<Rightarrow> free_blocks" where
  "bit_index_mark_non_empty fb pos =
     fb\<lparr>second_level_bit_index := (second_level_bit_index fb)
          [fst pos := bit_set (second_level_bit_index fb ! fst pos) (snd pos)],
        first_level_bit_index := bit_set (first_level_bit_index fb) (fst pos)\<rparr>"

definition set_all_bits_after :: "nat \<Rightarrow> u32" where
  "set_all_bits_after bitno = NOT (pow2 (bitno + 1) - 1)"

definition next_non_empty :: "free_blocks \<Rightarrow> position \<Rightarrow> position option" where
  "next_non_empty fb current =
     (let next_sub_index_mask = second_level_bit_index fb ! fst current AND set_all_bits_after (snd current);
          next_pow2_mask = first_level_bit_index fb AND set_all_bits_after (fst current)
      in if snd current < num_sub_cells_per_power - 1 \<and> 0 < next_sub_index_mask
         then Some (fst current, least_significant next_sub_index_mask)
         else if fst current < num_powers fb - 1 \<and> 0 < next_pow2_mask
         then let next_pow2 = least_significant next_pow2_mask
              in Some (next_pow2, least_significant (second_level_bit_index fb ! next_pow2))
         else None)"

definition set_class :: "position \<Rightarrow> nat list \<Rightarrow> free_blocks \<Rightarrow> free_blocks" where
  "set_class pos xs fb = fb\<lparr>size_classes_table := (size_classes_table fb)[absolute pos := xs]\<rparr>"

text \<open>One round of the search: the front block of a class is taken if it is large enough, and a class
  that is empty then is marked so.\<close>

definition take_from_class :: "(nat \<Rightarrow> nat) \<Rightarrow> nat \<Rightarrow> free_blocks \<Rightarrow> position \<Rightarrow> nat option \<times> free_blocks" where
  "take_from_class size_of req_size fb pos =
     (if bit_index_probe fb pos
      then let size_class = size_classes_table fb ! absolute pos;
               (blk, rest) = (case size_class of
                   [] \<Rightarrow> (None, [])
                 | b # bs \<Rightarrow> if req_size \<le> size_of b then (Some b, bs) else (None, b # bs));
               fb' = set_class pos rest fb
           in (blk, if rest = [] then bit_index_mark_empty fb' pos else fb')
      else (None, fb))"

partial_function (option) try_get_loop ::
  "(nat \<Rightarrow> nat) \<Rightarrow> nat \<Rightarrow> free_blocks \<Rightarrow> (mem_stat \<Rightarrow> u64) \<Rightarrow> nat \<Rightarrow> position
     \<Rightarrow> (nat option \<times> free_blocks \<times> (mem_stat \<Rightarrow> u64)) option" where
  "try_get_loop size_of req_size fb st attempt pos =
     (case take_from_class size_of req_size fb pos of (blk, fb') \<Rightarrow>
        (case blk of
           Some b \<Rightarrow> Some (Some b, fb',
             stat_incr (if attempt = 1 then mem_num_free_table_hits else mem_num_free_table_weak_hits) 1 st)
         | None \<Rightarrow> (case next_non_empty fb' pos of
             Some pos' \<Rightarrow> try_get_loop size_of req_size fb' st (attempt + 1) pos'
           | None \<Rightarrow> Some (None, fb', st))))"

definition try_get_block ::
  "(nat \<Rightarrow> nat) \<Rightarrow> free_blocks \<Rightarrow> (mem_stat \<Rightarrow> u64) \<Rightarrow> nat
     \<Rightarrow> (nat option \<times> free_blocks \<times> (mem_stat \<Rightarrow> u64)) option" where
  "try_get_block size_of fb st req_size = try_get_loop size_of req_size fb st 1 (position_from_size req_size)"

definition put_block :: "(nat \<Rightarrow> nat) \<Rightarrow> free_blocks \<Rightarrow> nat \<Rightarrow> free_blocks" where
  "put_block size_of fb blk =
     (let pos = position_from_size (size_of blk)
      in bit_index_mark_non_empty (set_class pos (l_push_front blk (size_classes_table fb ! absolute pos)) fb) pos)"

text \<open>\<^verbatim>\<open>unlink\<close> takes the block out of whatever list it is in.\<close>

definition remove_block :: "free_blocks \<Rightarrow> nat \<Rightarrow> free_blocks" where
  "remove_block fb blk = fb\<lparr>size_classes_table := map (l_remove blk) (size_classes_table fb)\<rparr>"

declare try_get_loop.simps [code]

section \<open>Invariant\<close>

definition valid_pos :: "free_blocks \<Rightarrow> position \<Rightarrow> bool" where
  "valid_pos fb pos \<longleftrightarrow> fst pos < num_powers fb \<and> snd pos < 32"

text \<open>
  A bit of the second level is set for every class that holds a block, and a bit of the first level is
  set exactly for the powers of two that have a bit set. The blocks of a class have its size.
\<close>

definition fb_index_ok :: "free_blocks \<Rightarrow> bool" where
  "fb_index_ok fb \<longleftrightarrow> 0 < num_powers fb \<and> num_powers fb \<le> 24
     \<and> length (second_level_bit_index fb) = num_powers fb
     \<and> length (size_classes_table fb) = num_powers fb * 32
     \<and> (\<forall>p. bit (first_level_bit_index fb) p \<longleftrightarrow> p < num_powers fb \<and> second_level_bit_index fb ! p \<noteq> 0)
     \<and> (\<forall>pos. valid_pos fb pos \<longrightarrow> size_classes_table fb ! absolute pos \<noteq> []
          \<longrightarrow> bit (second_level_bit_index fb ! fst pos) (snd pos))"

definition fb_blocks :: "free_blocks \<Rightarrow> nat set" where
  "fb_blocks fb = set (concat (size_classes_table fb))"

definition fb_inv :: "(nat \<Rightarrow> nat) \<Rightarrow> free_blocks \<Rightarrow> bool" where
  "fb_inv size_of fb \<longleftrightarrow> fb_index_ok fb \<and> distinct (concat (size_classes_table fb))
     \<and> last_power_of_2 fb = num_powers fb + 7
     \<and> (\<forall>c < length (size_classes_table fb). \<forall>b \<in> set (size_classes_table fb ! c).
          absolute (position_from_size (size_of b)) = c \<and> size_of b < 2 ^ last_power_of_2 fb)"

section \<open>Size classes\<close>

lemma constants:
  "unat small_block_boundary = 256" "log2u (of_nat num_sub_cells_per_power :: u32) = 5" "log2u min_block_diff = 3"
  "num_sub_cells_per_power = 32" "first_power_of_2 = 8"
proof -
  show "unat small_block_boundary = 256"
    by (simp add: small_block_boundary_def first_power_of_2_def unat_pow2)
  have "(of_nat num_sub_cells_per_power :: u32) = pow2 5"
    by (simp add: num_sub_cells_per_power_def pow2_def push_bit_of_1)
  then show "log2u (of_nat num_sub_cells_per_power :: u32) = 5" using log2u_pow2 [of 5, where 'a = 32] by simp
  have "min_block_diff = pow2 3" by code_simp
  then show "log2u min_block_diff = 3" using log2u_pow2 [of 3, where 'a = 32] by simp
qed (simp_all add: num_sub_cells_per_power_def first_power_of_2_def)

lemma position_small: "n < 256 \<Longrightarrow> position_from_size n = (0, n div 8)"
proof -
  assume n: "n < 256"
  then have u: "unat (of_nat n :: u32) = n" by (simp add: unat_of_nat)
  have "\<not> small_block_boundary \<le> (of_nat n :: u32)" using n by (simp add: word_le_nat_alt u constants)
  moreover have "unat (drop_bit 3 (of_nat n :: u32)) = n div 8"
    unfolding unat_drop_bit_div u by simp
  ultimately show ?thesis by (simp add: position_from_size_def Let_def constants)
qed

lemma position_big:
  assumes "8 \<le> p" and "p < 32" and "2 ^ p \<le> n" and "n < 2 ^ Suc p"
  shows "position_from_size n = (p - 7, n div 2 ^ (p - 5) - 32)" and "32 \<le> n div 2 ^ (p - 5)"
    and "n div 2 ^ (p - 5) < 64"
proof -
  have "n < 2 ^ 32"
    using assms(2,4) by (meson Suc_leI less_le_trans one_le_numeral power_increasing)
  then have u: "unat (of_nat n :: u32) = n" by (simp add: unat_of_nat)
  have e: "(2 :: nat) ^ p = 32 * 2 ^ (p - 5)" using assms(1) power_add [of "2 :: nat" 5 "p - 5"] by simp
  show lo: "32 \<le> n div 2 ^ (p - 5)"
    using assms(3) unfolding e by (simp add: less_eq_div_iff_mult_less_eq)
  have "n < 64 * 2 ^ (p - 5)" using assms(4) e by simp
  then show hi: "n div 2 ^ (p - 5) < 64" by (simp add: less_mult_imp_div_less)
  have "(256 :: nat) \<le> 2 ^ p" using assms(1) power_increasing [of 8 p "2 :: nat"] by simp
  then have big: "small_block_boundary \<le> (of_nat n :: u32)"
    using assms(3) by (simp add: word_le_nat_alt u constants)
  have log: "log2u (of_nat n :: u32) = p"
    using assms(3,4) by (simp add: log2u_def most_significant_unique u)
  have d: "unat (drop_bit (p - 5) (of_nat n :: u32)) = n div 2 ^ (p - 5)"
    unfolding unat_drop_bit_div u by simp
  have "unat (drop_bit (p - 5) (of_nat n :: u32) - 32) = n div 2 ^ (p - 5) - 32"
    using lo d by (subst unat_diff_le) (simp_all add: word_le_nat_alt)
  moreover have "log2u (32 :: u32) = 5" by code_simp
  ultimately show "position_from_size n = (p - 7, n div 2 ^ (p - 5) - 32)"
    using big log assms(1) by (simp add: position_from_size_def Let_def constants)
qed

lemma size_power:
  fixes n :: nat
  assumes "256 \<le> n" and "n < 2 ^ 31"
  obtains p where "8 \<le> p" and "p < 31" and "2 ^ p \<le> n" and "n < 2 ^ Suc p"
proof -
  have u: "unat (of_nat n :: u32) = n" using assms(2) by (simp add: unat_of_nat)
  let ?p = "most_significant (of_nat n :: u32)"
  have "(of_nat n :: u32) \<noteq> 0" using u assms(1) by auto
  note b = most_significant_bounds [OF this, unfolded u]
  have "(2 :: nat) ^ 8 < 2 ^ Suc ?p" "(2 :: nat) ^ ?p < 2 ^ 31" using b assms by auto
  then have "8 < Suc ?p" "?p < 31" by (meson nat_power_less_imp_less zero_less_numeral)+
  with b that [of ?p] show ?thesis by auto
qed

text \<open>The number of the class grows with the size; a larger class holds larger blocks.\<close>

lemma absolute_bounds:
  assumes "8 \<le> p" and "p < 31" and "2 ^ p \<le> n" and "n < 2 ^ Suc p"
  shows "(p - 7) * 32 \<le> absolute (position_from_size n)" and "absolute (position_from_size n) < (p - 6) * 32"
    and "fst (position_from_size n) = p - 7" and "snd (position_from_size n) < 32"
  using position_big [of p n] assms by (auto simp: constants Suc_diff_le)

lemma position_mono:
  assumes "m \<le> n" and "n < 2 ^ 31"
  shows "absolute (position_from_size m) \<le> absolute (position_from_size n)"
proof (cases "n < 256")
  case True
  then show ?thesis using assms(1) by (simp add: position_small constants div_le_mono)
next
  case False
  then obtain q where q: "8 \<le> q" "q < 31" "2 ^ q \<le> n" "n < 2 ^ Suc q"
    using size_power [of n] assms(2) by auto
  show ?thesis
  proof (cases "m < 256")
    case True
    then have "absolute (position_from_size m) < 32" by (simp add: position_small constants)
    also have "32 \<le> (q - 7) * 32" using q(1) by simp
    also have "\<dots> \<le> absolute (position_from_size n)" using absolute_bounds [OF q] by simp
    finally show ?thesis by simp
  next
    case False
    then obtain p where p: "8 \<le> p" "p < 31" "2 ^ p \<le> m" "m < 2 ^ Suc p"
      using size_power [of m] assms by auto
    have "(2 :: nat) ^ p < 2 ^ Suc q" using p(3) assms(1) q(4) by linarith
    then have "p < Suc q" by (meson nat_power_less_imp_less zero_less_numeral)
    then consider "p = q" | "p < q" by linarith
    then show ?thesis
    proof cases
      case 1
      then show ?thesis using position_big [of p m] position_big [of q n] p q assms(1)
        by (simp add: constants div_le_mono diff_le_mono)
    next
      case 2
      then have "(p - 6) * 32 \<le> (q - 7) * 32" using p(1) by simp
      with absolute_bounds(2) [OF p] absolute_bounds(1) [OF q] show ?thesis by linarith
    qed
  qed
qed

lemma larger_class_larger_block:
  assumes "absolute (position_from_size m) < absolute (position_from_size n)" and "m < 2 ^ 31"
  shows "m < n"
  using position_mono [of n m] assms by (meson not_le)

lemma position_valid:
  assumes "n < 2 ^ (num_powers fb + 7)" and "0 < num_powers fb" and "num_powers fb \<le> 24"
  shows "valid_pos fb (position_from_size n)"
proof (cases "n < 256")
  case True
  then show ?thesis using assms(2) by (simp add: valid_pos_def position_small)
next
  case False
  have "(2 :: nat) ^ (num_powers fb + 7) \<le> 2 ^ 31" using assms(3) by (intro power_increasing) auto
  with assms(1) have "n < 2 ^ 31" by linarith
  with False obtain p where p: "8 \<le> p" "p < 31" "2 ^ p \<le> n" "n < 2 ^ Suc p" using size_power [of n] by auto
  then have "(2 :: nat) ^ p < 2 ^ (num_powers fb + 7)" using assms(1) by linarith
  then have "p < num_powers fb + 7" by (meson nat_power_less_imp_less zero_less_numeral)
  then show ?thesis using absolute_bounds(3,4) [OF p] p(1) by (simp add: valid_pos_def)
qed

section \<open>The bit indexes\<close>

lemma fb_indexD:
  assumes "fb_index_ok fb"
  shows "0 < num_powers fb" and "num_powers fb \<le> 24" and "length (second_level_bit_index fb) = num_powers fb"
    and "length (size_classes_table fb) = num_powers fb * 32"
    and "bit (first_level_bit_index fb) p \<longleftrightarrow> p < num_powers fb \<and> second_level_bit_index fb ! p \<noteq> 0"
    and "valid_pos fb pos \<Longrightarrow> size_classes_table fb ! absolute pos \<noteq> []
      \<Longrightarrow> bit (second_level_bit_index fb ! fst pos) (snd pos)"
  using assms unfolding fb_index_ok_def by blast+

lemma first_level_set:
  assumes "fb_index_ok fb" and "valid_pos fb q" and "bit (second_level_bit_index fb ! fst q) (snd q)"
  shows "bit (first_level_bit_index fb) (fst q)"
proof -
  have "second_level_bit_index fb ! fst q \<noteq> 0" using assms(3) by (metis bit_0_eq bot_apply bot_bool_def)
  then show ?thesis using fb_indexD(5) [OF assms(1), of "fst q"] assms(2) by (simp add: valid_pos_def)
qed

lemma absolute_less: "valid_pos fb pos \<Longrightarrow> absolute pos < num_powers fb * 32"
proof -
  assume v: "valid_pos fb pos"
  then have "fst pos * 32 + 32 \<le> num_powers fb * 32"
    by (metis Suc_leI add.commute mult_Suc mult_le_mono1 valid_pos_def)
  then show ?thesis using v by (cases pos) (auto simp: valid_pos_def constants)
qed

lemma absolute_inj: "snd a < 32 \<Longrightarrow> snd b < 32 \<Longrightarrow> absolute a = absolute b \<Longrightarrow> a = b"
proof (cases a; cases b)
  fix p s q r
  assume *: "snd a < 32" "snd b < 32" "absolute a = absolute b" "a = (p, s)" "b = (q, r)"
  then have e: "p * 32 + s = q * 32 + r" by (simp add: constants)
  then have "(p * 32 + s) div 32 = (q * 32 + r) div 32" by simp
  then have "p = q" using * by simp
  with e * show "a = b" by simp
qed

lemma absolute_less_iff:
  "snd a < 32 \<Longrightarrow> snd b < 32 \<Longrightarrow> absolute a < absolute b \<longleftrightarrow> fst a < fst b \<or> fst a = fst b \<and> snd a < snd b"
proof (cases a; cases b)
  fix p s q r
  assume *: "snd a < 32" "snd b < 32" "a = (p, s)" "b = (q, r)"
  have "p < q \<Longrightarrow> p * 32 + 32 \<le> q * 32" "q < p \<Longrightarrow> q * 32 + 32 \<le> p * 32" by simp_all
  then show "absolute a < absolute b \<longleftrightarrow> fst a < fst b \<or> fst a = fst b \<and> snd a < snd b"
    using * by (cases p q rule: linorder_cases) (auto simp: constants)
qed

lemma bit_mask_after: "k < 31 \<Longrightarrow> bit (w AND set_all_bits_after k) i \<longleftrightarrow> bit w i \<and> k < i" for w :: u32
proof -
  assume "k < 31"
  then have "pow2 (k + 1) - 1 = (mask (k + 1) :: u32)" by (simp add: pow2_def push_bit_of_1 mask_eq_exp_minus_1)
  then show ?thesis
    by (auto simp: set_all_bits_after_def bit_and_iff bit_not_iff bit_mask_iff less_Suc_eq_le not_less
        dest: bit_imp_le_length)
qed

text \<open>The next position with a set bit, nothing between.\<close>

lemma next_non_empty_spec:
  assumes ok: "fb_index_ok fb" and v: "valid_pos fb pos"
  shows "case next_non_empty fb pos of
      Some pos' \<Rightarrow> valid_pos fb pos' \<and> absolute pos < absolute pos'
        \<and> bit (second_level_bit_index fb ! fst pos') (snd pos')
        \<and> (\<forall>q. valid_pos fb q \<longrightarrow> absolute pos < absolute q \<longrightarrow> absolute q < absolute pos'
            \<longrightarrow> \<not> bit (second_level_bit_index fb ! fst q) (snd q))
    | None \<Rightarrow> (\<forall>q. valid_pos fb q \<longrightarrow> absolute pos < absolute q \<longrightarrow> \<not> bit (second_level_bit_index fb ! fst q) (snd q))"
proof -
  note i = fb_indexD [OF ok]
  obtain p s where pos: "pos = (p, s)" by fastforce
  let ?m2 = "second_level_bit_index fb ! p AND set_all_bits_after s"
  let ?m1 = "first_level_bit_index fb AND set_all_bits_after p"
  have ps: "p < num_powers fb" "s < 32" using v pos by (auto simp: valid_pos_def)
  have p31: "p < 31" using ps(1) i(2) by simp
  have after: "absolute pos < absolute q \<longleftrightarrow> p < fst q \<or> p = fst q \<and> s < snd q" if "valid_pos fb q" for q
    using that ps absolute_less_iff [of pos q] pos by (simp add: valid_pos_def)
  consider (sub) "s < 31" "?m2 \<noteq> 0" | (pow) "\<not> (s < 31 \<and> ?m2 \<noteq> 0)" "p < num_powers fb - 1" "?m1 \<noteq> 0"
    | (none) "\<not> (s < 31 \<and> ?m2 \<noteq> 0)" "\<not> (p < num_powers fb - 1 \<and> ?m1 \<noteq> 0)" by blast
  then show ?thesis
  proof cases
    case sub
    let ?l = "least_significant ?m2"
    note l = least_significant_bit [OF sub(2)] and b = bit_mask_after [OF sub(1), of "second_level_bit_index fb ! p"]
    have nx: "next_non_empty fb pos = Some (p, ?l)"
      using sub pos by (simp add: next_non_empty_def Let_def constants word_neq_0_conv [symmetric] word_gt_0)
    have "bit (second_level_bit_index fb ! p) ?l" "s < ?l" using l(2) b by auto
    moreover have "\<not> bit (second_level_bit_index fb ! fst q) (snd q)"
      if q: "valid_pos fb q" "absolute pos < absolute q" "absolute q < absolute (p, ?l)" for q
    proof -
      have "fst q < p \<or> fst q = p \<and> snd q < ?l"
        using q l(1) absolute_less_iff [of q "(p, ?l)"] by (simp add: valid_pos_def)
      then have "fst q = p" "s < snd q" "snd q < ?l" using q after by auto
      then show ?thesis using l(3) b by auto
    qed
    ultimately show ?thesis using nx ps l(1) after [of "(p, ?l)"] by (simp add: valid_pos_def)
  next
    case pow
    let ?n = "least_significant ?m1"
    note l = least_significant_bit [OF pow(3)] and b = bit_mask_after [OF p31, of "first_level_bit_index fb"]
    have n: "bit (first_level_bit_index fb) ?n" "p < ?n" using l(2) b by auto
    then have nz: "?n < num_powers fb" "second_level_bit_index fb ! ?n \<noteq> 0" using i(5) by auto
    let ?l = "least_significant (second_level_bit_index fb ! ?n)"
    note l2 = least_significant_bit [OF nz(2)]
    have nx: "next_non_empty fb pos = Some (?n, ?l)"
      using pow pos by (auto simp: next_non_empty_def Let_def constants word_gt_0)
    have "\<not> bit (second_level_bit_index fb ! fst q) (snd q)"
      if q: "valid_pos fb q" "absolute pos < absolute q" "absolute q < absolute (?n, ?l)" for q
    proof
      assume bq: "bit (second_level_bit_index fb ! fst q) (snd q)"
      have q2: "fst q < ?n \<or> fst q = ?n \<and> snd q < ?l"
        using q l2(1) absolute_less_iff [of q "(?n, ?l)"] by (simp add: valid_pos_def)
      moreover have "fst q \<noteq> p \<or> snd q \<le> s"
        using bq pow(1) bit_mask_after [of s "second_level_bit_index fb ! p" "snd q"] q(1)
        by (cases "s < 31") (auto simp: valid_pos_def)
      moreover have "bit (first_level_bit_index fb) (fst q)" using ok q(1) bq by (rule first_level_set)
      ultimately show False
        using after [OF q(1)] q(2) l(3) [of "fst q"] b [of "fst q"] l2(3) bq n(2) by auto
    qed
    then show ?thesis using nx nz l2(1,2) n(2) after [of "(?n, ?l)"] by (simp add: valid_pos_def)
  next
    case none
    then have nx: "next_non_empty fb pos = None"
      using pos by (auto simp: next_non_empty_def Let_def constants word_gt_0)
    have "\<not> bit (second_level_bit_index fb ! fst q) (snd q)" if q: "valid_pos fb q" "absolute pos < absolute q" for q
    proof
      assume bq: "bit (second_level_bit_index fb ! fst q) (snd q)"
      have "fst q \<noteq> p \<or> snd q \<le> s"
        using bq none(1) bit_mask_after [of s "second_level_bit_index fb ! p" "snd q"] q(1)
        by (cases "s < 31") (auto simp: valid_pos_def)
      then have "p < fst q" using after q by auto
      moreover have "bit (first_level_bit_index fb) (fst q)" using ok q(1) bq by (rule first_level_set)
      ultimately have "bit ?m1 (fst q)" using bit_mask_after [OF p31] by simp
      moreover have "p < num_powers fb - 1" using \<open>p < fst q\<close> q(1) by (auto simp: valid_pos_def)
      ultimately show False using none(2) by auto
    qed
    then show ?thesis using nx by simp
  qed
qed

section \<open>Taking and putting blocks\<close>

lemma valid_pos_simps [simp]:
  "valid_pos (set_class q xs fb) pos = valid_pos fb pos"
  "valid_pos (bit_index_mark_empty fb q) pos = valid_pos fb pos"
  "valid_pos (bit_index_mark_non_empty fb q) pos = valid_pos fb pos"
  by (simp_all add: valid_pos_def set_class_def bit_index_mark_empty_def bit_index_mark_non_empty_def Let_def)

lemma fb_simps [simp]:
  "size_classes_table (set_class q xs fb) = (size_classes_table fb)[absolute q := xs]"
  "num_powers (set_class q xs fb) = num_powers fb" "last_power_of_2 (set_class q xs fb) = last_power_of_2 fb"
  "second_level_bit_index (set_class q xs fb) = second_level_bit_index fb"
  "first_level_bit_index (set_class q xs fb) = first_level_bit_index fb"
  "size_classes_table (bit_index_mark_empty fb q) = size_classes_table fb"
  "num_powers (bit_index_mark_empty fb q) = num_powers fb"
  "last_power_of_2 (bit_index_mark_empty fb q) = last_power_of_2 fb"
  "size_classes_table (bit_index_mark_non_empty fb q) = size_classes_table fb"
  "num_powers (bit_index_mark_non_empty fb q) = num_powers fb"
  "last_power_of_2 (bit_index_mark_non_empty fb q) = last_power_of_2 fb"
  by (simp_all add: set_class_def bit_index_mark_empty_def bit_index_mark_non_empty_def Let_def)

lemma index_mark_empty:
  assumes ok: "fb_index_ok fb" and v: "valid_pos fb pos" and e: "size_classes_table fb ! absolute pos = []"
  shows "fb_index_ok (bit_index_mark_empty fb pos)"
proof -
  note i = fb_indexD [OF ok]
  let ?fb = "bit_index_mark_empty fb pos" and ?w = "bit_unset (second_level_bit_index fb ! fst pos) (snd pos)"
  have v': "fst pos < num_powers fb" "snd pos < 32" using v by (auto simp: valid_pos_def)
  have snd_idx: "second_level_bit_index ?fb = (second_level_bit_index fb)[fst pos := ?w]"
    by (simp add: bit_index_mark_empty_def Let_def)
  have fst_idx: "bit (first_level_bit_index ?fb) p \<longleftrightarrow> bit (first_level_bit_index fb) p \<and> (?w = 0 \<longrightarrow> p \<noteq> fst pos)" for p
    by (auto simp: bit_index_mark_empty_def Let_def)
  have "bit (first_level_bit_index ?fb) p \<longleftrightarrow> p < num_powers fb \<and> second_level_bit_index ?fb ! p \<noteq> 0" for p
  proof (cases "p = fst pos")
    case True
    have "second_level_bit_index fb ! p = 0 \<Longrightarrow> ?w = 0" using True by (simp add: bit_unset_def)
    moreover have "second_level_bit_index ?fb ! p = ?w" using True snd_idx i(3) v' by simp
    ultimately show ?thesis using True fst_idx [of p] i(5) [of p] v' by metis
  next
    case False
    then show ?thesis using fst_idx [of p] i(5) [of p] unfolding snd_idx by simp
  qed
  moreover have "bit (second_level_bit_index ?fb ! fst q) (snd q)"
    if "valid_pos fb q" "size_classes_table fb ! absolute q \<noteq> []" for q
  proof -
    have "q \<noteq> pos" using that(2) e by auto
    then have "fst q = fst pos \<Longrightarrow> snd q \<noteq> snd pos" by (simp add: prod_eq_iff)
    then show ?thesis using i(6) [OF that] snd_idx v' i(3) by (cases "fst q = fst pos") auto
  qed
  ultimately show ?thesis using i(1-4) snd_idx by (simp add: fb_index_ok_def)
qed

lemma index_mark_non_empty:
  assumes ok: "fb_index_ok fb" and v: "valid_pos fb pos"
  shows "fb_index_ok (bit_index_mark_non_empty (set_class pos xs fb) pos)"
proof -
  note i = fb_indexD [OF ok]
  let ?fb = "bit_index_mark_non_empty (set_class pos xs fb) pos"
  let ?w = "bit_set (second_level_bit_index fb ! fst pos) (snd pos)"
  have v': "fst pos < num_powers fb" "snd pos < 32" "fst pos < 32" using v i(2) by (auto simp: valid_pos_def)
  have snd_idx: "second_level_bit_index ?fb = (second_level_bit_index fb)[fst pos := ?w]"
    and fst_idx: "first_level_bit_index ?fb = bit_set (first_level_bit_index fb) (fst pos)"
    by (simp_all add: bit_index_mark_non_empty_def set_class_def)
  have "bit ?w (snd pos)" using v'(2) by simp
  then have w: "?w \<noteq> 0" by (metis bit_0_eq bot_apply bot_bool_def)
  have "bit (first_level_bit_index ?fb) p \<longleftrightarrow> p < num_powers fb \<and> second_level_bit_index ?fb ! p \<noteq> 0" for p
    using fst_idx snd_idx i(3,5) v' w by (cases "p = fst pos") auto
  moreover have "bit (second_level_bit_index ?fb ! fst q) (snd q)"
    if "valid_pos fb q" "(size_classes_table fb)[absolute pos := xs] ! absolute q \<noteq> []" for q
  proof (cases "q = pos")
    case True
    then show ?thesis using snd_idx v' i(3) by simp
  next
    case False
    have "absolute q \<noteq> absolute pos" using absolute_inj [of q pos] False that(1) v' by (auto simp: valid_pos_def)
    then have "bit (second_level_bit_index fb ! fst q) (snd q)" using i(6) [OF that(1)] that(2) by simp
    then show ?thesis using snd_idx v' i(3) by (cases "fst q = fst pos") auto
  qed
  ultimately show ?thesis using i(1-4) snd_idx by (simp add: fb_index_ok_def)
qed

lemma concat_split: "c < length t \<Longrightarrow> concat t = concat (take c t) @ t ! c @ concat (drop (Suc c) t)"
  by (metis concat.simps(2) concat_append id_take_nth_drop)

lemma concat_update: "c < length t \<Longrightarrow> concat (t[c := xs]) = concat (take c t) @ xs @ concat (drop (Suc c) t)"
  by (simp add: upd_conv_take_nth_drop)

lemma fb_invD:
  assumes "fb_inv size_of fb"
  shows "fb_index_ok fb" and "distinct (concat (size_classes_table fb))" and "last_power_of_2 fb = num_powers fb + 7"
    and "c < length (size_classes_table fb) \<Longrightarrow> b \<in> set (size_classes_table fb ! c)
      \<Longrightarrow> absolute (position_from_size (size_of b)) = c \<and> size_of b < 2 ^ last_power_of_2 fb"
  using assms unfolding fb_inv_def by blast+

text \<open>Replacing the blocks of one class.\<close>

lemma fb_inv_class:
  assumes inv: "fb_inv size_of fb" and v: "valid_pos fb pos" and ok: "fb_index_ok fb'"
    and "size_classes_table fb' = (size_classes_table fb)[absolute pos := xs]" and "num_powers fb' = num_powers fb"
    and "last_power_of_2 fb' = last_power_of_2 fb" and "distinct xs"
    and "\<And>b. b \<in> set xs \<Longrightarrow> b \<in> set (size_classes_table fb ! absolute pos)
      \<or> b \<notin> fb_blocks fb \<and> absolute (position_from_size (size_of b)) = absolute pos \<and> size_of b < 2 ^ last_power_of_2 fb"
  shows "fb_inv size_of fb'"
    and "fb_blocks fb' = (fb_blocks fb - set (size_classes_table fb ! absolute pos)) \<union> set xs"
proof -
  let ?t = "size_classes_table fb" and ?c = "absolute pos"
  note i = fb_invD [OF inv]
  have c: "?c < length ?t" using absolute_less [OF v] fb_indexD(4) [OF i(1)] by simp
  note sp = concat_split [OF c] and up = concat_update [OF c, of xs]
  have d: "distinct (concat (take ?c ?t) @ ?t ! ?c @ concat (drop (Suc ?c) ?t))" using i(2) sp by simp
  have new: "set xs \<inter> (set (concat (take ?c ?t)) \<union> set (concat (drop (Suc ?c) ?t))) = {}"
    using d assms(8) sp unfolding fb_blocks_def by fastforce
  then have "distinct (concat (?t[?c := xs]))" using d assms(7) up by auto
  then show "fb_inv size_of fb'"
    unfolding fb_inv_def using assms(4-6,8) ok i(3,4) c by (auto simp: nth_list_update)
  have "set (concat ?t) - set (?t ! ?c) = set (concat (take ?c ?t)) \<union> set (concat (drop (Suc ?c) ?t))"
    unfolding sp using d by auto
  then show "fb_blocks fb' = (fb_blocks fb - set (?t ! ?c)) \<union> set xs"
    unfolding fb_blocks_def assms(4) up by auto
qed

lemma take_from_class_spec:
  assumes inv: "fb_inv size_of fb" and v: "valid_pos fb pos"
  obtains (found) b fb' where "take_from_class size_of n fb pos = (Some b, fb')" and "fb_inv size_of fb'"
      and "b \<in> fb_blocks fb" and "n \<le> size_of b" and "fb_blocks fb' = fb_blocks fb - {b}"
      and "absolute (position_from_size (size_of b)) = absolute pos"
    | (none) fb' where "take_from_class size_of n fb pos = (None, fb')" and "fb_inv size_of fb'"
      and "num_powers fb' = num_powers fb" and "size_classes_table fb' = size_classes_table fb"
      and "size_classes_table fb ! absolute pos \<noteq> [] \<longrightarrow> size_of (hd (size_classes_table fb ! absolute pos)) < n"
proof -
  let ?t = "size_classes_table fb" and ?c = "absolute pos"
  note i = fb_invD [OF inv] and x = fb_indexD [OF fb_invD(1) [OF inv]]
  have c: "?c < length ?t" using absolute_less [OF v] x(4) by simp
  consider (unset) "\<not> bit_index_probe fb pos" | (empty) "bit_index_probe fb pos" "?t ! ?c = []"
    | (small) b bs where "bit_index_probe fb pos" "?t ! ?c = b # bs" "\<not> n \<le> size_of b"
    | (big) b bs where "bit_index_probe fb pos" "?t ! ?c = b # bs" "n \<le> size_of b"
    by (cases "?t ! ?c") auto
  then show ?thesis
  proof cases
    case unset
    have "?t ! ?c = []"
    proof (rule ccontr)
      assume "?t ! ?c \<noteq> []"
      then have "bit (second_level_bit_index fb ! fst pos) (snd pos)" by (rule x(6) [OF v])
      moreover from this have "bit (first_level_bit_index fb) (fst pos)" by (rule first_level_set [OF i(1) v])
      ultimately show False using unset by (simp add: bit_index_probe_def is_set_iff)
    qed
    with unset inv none show ?thesis by (simp add: take_from_class_def)
  next
    case empty
    let ?fb = "bit_index_mark_empty (set_class pos [] fb) pos"
    have t: "?t[?c := []] = ?t" using empty(2) list_update_id [of ?t ?c] by simp
    have same: "set_class pos [] fb = fb" using t by (simp add: set_class_def)
    have "fb_inv size_of ?fb"
      using index_mark_empty [OF i(1) v empty(2)] i(2-4) by (simp add: same fb_inv_def)
    moreover have "take_from_class size_of n fb pos = (None, ?fb)"
      using empty by (simp add: take_from_class_def)
    ultimately show ?thesis using none [of ?fb] empty(2) by (simp add: same)
  next
    case small
    have "set_class pos (b # bs) fb = fb"
      using small(2) list_update_id [of ?t ?c] by (simp add: set_class_def)
    then have "take_from_class size_of n fb pos = (None, fb)"
      using small by (simp add: take_from_class_def)
    then show ?thesis using none [of fb] inv small(2,3) by simp
  next
    case big
    let ?fb1 = "set_class pos bs fb"
    let ?fb = "if bs = [] then bit_index_mark_empty ?fb1 pos else ?fb1"
    have "bit (second_level_bit_index fb ! fst q) (snd q)"
      if "valid_pos fb q" "?t[?c := bs] ! absolute q \<noteq> []" for q
    proof -
      have "?t ! absolute q \<noteq> []" using that(2) big(2) c by (cases "absolute q = ?c") auto
      then show ?thesis by (rule x(6) [OF that(1)])
    qed
    then have ok1: "fb_index_ok ?fb1" using x(1-5) by (simp add: fb_index_ok_def)
    then have ok: "fb_index_ok ?fb" using index_mark_empty [of ?fb1 pos] v c by simp
    have "distinct (b # bs)" using i(2) concat_split [OF c] big(2) by simp
    then have "fb_inv size_of ?fb" "fb_blocks ?fb = (fb_blocks fb - set (b # bs)) \<union> set bs"
      using fb_inv_class [OF inv v ok, of bs] big(2) by auto
    moreover have "set (b # bs) \<subseteq> fb_blocks fb" using concat_split [OF c] big(2) by (auto simp: fb_blocks_def)
    moreover have "absolute (position_from_size (size_of b)) = ?c" using i(4) [OF c, of b] big(2) by simp
    moreover have "take_from_class size_of n fb pos = (Some b, ?fb)"
      using big by (simp add: take_from_class_def)
    ultimately show ?thesis using found [of b ?fb] big(3) \<open>distinct (b # bs)\<close> by auto
  qed
qed

lemma fb_blocks_iff: "b \<in> fb_blocks fb \<longleftrightarrow> (\<exists>c < length (size_classes_table fb). b \<in> set (size_classes_table fb ! c))"
  by (simp add: fb_blocks_def) (metis in_set_conv_nth)

lemma fb_block_size:
  assumes "fb_inv size_of fb" and "b \<in> fb_blocks fb"
  shows "size_of b < 2 ^ last_power_of_2 fb" and "valid_pos fb (position_from_size (size_of b))"
    and "b \<in> set (size_classes_table fb ! absolute (position_from_size (size_of b)))"
proof -
  note i = fb_invD [OF assms(1)] and x = fb_indexD [OF fb_invD(1) [OF assms(1)]]
  obtain c where c: "c < length (size_classes_table fb)" "b \<in> set (size_classes_table fb ! c)"
    using assms(2) fb_blocks_iff by blast
  show s: "size_of b < 2 ^ last_power_of_2 fb" using i(4) [OF c] by simp
  show "valid_pos fb (position_from_size (size_of b))"
    using s i(3) x(1,2) by (intro position_valid) simp_all
  show "b \<in> set (size_classes_table fb ! absolute (position_from_size (size_of b)))" using i(4) [OF c] c(2) by simp
qed

text \<open>
  The search from a position on: it ends; it takes a block that is large enough, out of the table; or it
  fails, and then no class after the first position holds a block.
\<close>

lemma try_get_loop_spec:
  assumes "fb_inv size_of fb" and "valid_pos fb pos" and "n < 2 ^ last_power_of_2 fb"
    and "\<forall>b \<in> fb_blocks fb. absolute (position_from_size n) < absolute (position_from_size (size_of b))
      \<longrightarrow> absolute pos \<le> absolute (position_from_size (size_of b))"
    and "absolute (position_from_size n) \<le> absolute pos"
  shows "(\<exists>b fb' st'. try_get_loop size_of n fb st attempt pos = Some (Some b, fb', st') \<and> fb_inv size_of fb'
      \<and> b \<in> fb_blocks fb \<and> n \<le> size_of b \<and> fb_blocks fb' = fb_blocks fb - {b}
      \<and> (\<forall>s. s \<noteq> mem_num_free_table_hits \<longrightarrow> s \<noteq> mem_num_free_table_weak_hits \<longrightarrow> st' s = st s))
    \<or> (\<exists>fb'. try_get_loop size_of n fb st attempt pos = Some (None, fb', st) \<and> fb_inv size_of fb'
      \<and> fb_blocks fb' = fb_blocks fb
      \<and> (\<forall>b \<in> fb_blocks fb. absolute (position_from_size (size_of b)) \<le> absolute (position_from_size n)))"
  using assms
proof (induction "num_powers fb * 32 - absolute pos" arbitrary: fb attempt pos rule: less_induct)
  case less
  note inv = less.prems(1) and v = less.prems(2)
  from inv v show ?case
  proof (cases rule: take_from_class_spec [where n = n])
    case (found b fb')
    then have "try_get_loop size_of n fb st attempt pos = Some (Some b, fb',
        stat_incr (if attempt = 1 then mem_num_free_table_hits else mem_num_free_table_weak_hits) 1 st)"
      by (subst try_get_loop.simps) simp
    then show ?thesis using found by (auto simp: stat_incr_def)
  next
    case (none fb')
    have same: "fb_blocks fb' = fb_blocks fb" using none(4) by (simp add: fb_blocks_def)
    have v': "valid_pos fb' q = valid_pos fb q" for q using none(3) by (simp add: valid_pos_def)
    have lp: "last_power_of_2 fb' = last_power_of_2 fb" using fb_invD(3) [OF none(2)] fb_invD(3) [OF inv] none(3) by simp
    note nx = next_non_empty_spec [OF fb_invD(1) [OF none(2)], of pos]
    text \<open>Every block of a larger class is past the positions that were skipped.\<close>
    have skip: "bit (second_level_bit_index fb' ! fst (position_from_size (size_of b))) (snd (position_from_size (size_of b)))"
      if "b \<in> fb_blocks fb" for b
    proof -
      have b: "b \<in> fb_blocks fb'" using that same by simp
      have "size_classes_table fb' ! absolute (position_from_size (size_of b)) \<noteq> []"
        using fb_block_size(3) [OF none(2) b] by auto
      then show ?thesis using fb_indexD(6) [OF fb_invD(1) [OF none(2)]] fb_block_size(2) [OF none(2) b] by blast
    qed
    have here: "absolute (position_from_size (size_of b)) \<noteq> absolute pos"
      if b: "b \<in> fb_blocks fb" "absolute (position_from_size n) < absolute (position_from_size (size_of b))" for b
    proof
      assume eq: "absolute (position_from_size (size_of b)) = absolute pos"
      let ?h = "hd (size_classes_table fb ! absolute pos)"
      have ne: "size_classes_table fb ! absolute pos \<noteq> []" using fb_block_size(3) [OF inv b(1)] eq by auto
      then have "size_of ?h < n" using none(5) by simp
      moreover have "absolute (position_from_size (size_of ?h)) = absolute pos"
        using fb_invD(4) [OF inv, of "absolute pos" ?h] ne absolute_less [OF v] fb_indexD(4) [OF fb_invD(1) [OF inv]] by simp
      moreover have "n < 2 ^ 31"
        using less.prems(3) fb_invD(3) [OF inv] fb_indexD(2) [OF fb_invD(1) [OF inv]]
          power_increasing [of "last_power_of_2 fb" 31 "2 :: nat"] by simp
      ultimately show False using position_mono [of "size_of ?h" n] b(2) eq by simp
    qed
    show ?thesis
    proof (cases "next_non_empty fb' pos")
      case None
      then have "try_get_loop size_of n fb st attempt pos = Some (None, fb', st)"
        using none(1) by (subst try_get_loop.simps) simp
      moreover have "absolute (position_from_size (size_of b)) \<le> absolute (position_from_size n)"
        if b: "b \<in> fb_blocks fb" for b
      proof (rule ccontr)
        assume gt: "\<not> absolute (position_from_size (size_of b)) \<le> absolute (position_from_size n)"
        have "absolute pos < absolute (position_from_size (size_of b))"
          using less.prems(4) here [OF b] b gt by (metis le_neq_implies_less not_le)
        moreover have "\<forall>q. valid_pos fb q \<longrightarrow> absolute pos < absolute q \<longrightarrow> \<not> bit (second_level_bit_index fb' ! fst q) (snd q)"
          using nx None v v' by simp
        ultimately show False using skip [OF b] fb_block_size(2) [OF inv b] by blast
      qed
      ultimately show ?thesis using none(2) same by blast
    next
      case (Some pos')
      have p': "valid_pos fb' pos'" "absolute pos < absolute pos'"
        and gap: "\<forall>q. valid_pos fb' q \<longrightarrow> absolute pos < absolute q \<longrightarrow> absolute q < absolute pos'
            \<longrightarrow> \<not> bit (second_level_bit_index fb' ! fst q) (snd q)"
        using nx Some v v' by simp_all
      have step: "try_get_loop size_of n fb st attempt pos = try_get_loop size_of n fb' st (attempt + 1) pos'"
        using none(1) Some by (subst try_get_loop.simps) simp
      have "\<forall>b \<in> fb_blocks fb'. absolute (position_from_size n) < absolute (position_from_size (size_of b))
          \<longrightarrow> absolute pos' \<le> absolute (position_from_size (size_of b))"
      proof (intro ballI impI)
        fix b assume b: "b \<in> fb_blocks fb'" "absolute (position_from_size n) < absolute (position_from_size (size_of b))"
        then have b': "b \<in> fb_blocks fb" using same by simp
        have "absolute pos < absolute (position_from_size (size_of b))"
          using less.prems(4) here [OF b' b(2)] b' b(2) by (metis le_neq_implies_less)
        then show "absolute pos' \<le> absolute (position_from_size (size_of b))"
          using gap skip [OF b'] fb_block_size(2) [OF none(2) b(1)] by (meson not_le)
      qed
      moreover have "num_powers fb' * 32 - absolute pos' < num_powers fb * 32 - absolute pos"
        using p'(2) absolute_less [OF v] none(3) by linarith
      ultimately show ?thesis
        unfolding step using less.hyps [of fb' pos' "attempt + 1"] none(2) p' less.prems(3,5) lp same by simp
    qed
  qed
qed

lemma try_get_block_spec:
  assumes inv: "fb_inv size_of fb" and n: "n < 2 ^ last_power_of_2 fb"
  obtains (found) b fb' st' where "try_get_block size_of fb st n = Some (Some b, fb', st')" and "fb_inv size_of fb'"
      and "b \<in> fb_blocks fb" and "n \<le> size_of b" and "fb_blocks fb' = fb_blocks fb - {b}"
      and "\<forall>s. s \<noteq> mem_num_free_table_hits \<longrightarrow> s \<noteq> mem_num_free_table_weak_hits \<longrightarrow> st' s = st s"
    | (none) fb' where "try_get_block size_of fb st n = Some (None, fb', st)" and "fb_inv size_of fb'"
      and "fb_blocks fb' = fb_blocks fb"
      and "\<forall>b \<in> fb_blocks fb. absolute (position_from_size (size_of b)) \<le> absolute (position_from_size n)"
proof -
  note i = fb_invD [OF inv] and x = fb_indexD [OF fb_invD(1) [OF inv]]
  have "valid_pos fb (position_from_size n)" using n i(3) x(1,2) by (intro position_valid) simp_all
  from try_get_loop_spec [OF inv this n, of st 1] show ?thesis
    unfolding try_get_block_def [symmetric] using found none by fastforce
qed

lemma take_from_class_last: "last_power_of_2 (snd (take_from_class size_of n fb pos)) = last_power_of_2 fb"
  by (simp add: take_from_class_def Let_def split: list.split)

lemma try_get_loop_last:
  assumes "try_get_loop size_of n fb st attempt pos = Some r"
  shows "last_power_of_2 (fst (snd r)) = last_power_of_2 fb"
proof (rule try_get_loop.raw_induct [OF _ assms, where P = "\<lambda>_ _ fb _ _ _ r. last_power_of_2 (fst (snd r)) = last_power_of_2 fb"])
  fix f size_of n fb st attempt pos r
  assume IH: "\<And>size_of n fb st attempt pos r. f size_of n fb st attempt pos = Some r
      \<Longrightarrow> last_power_of_2 (fst (snd r)) = last_power_of_2 fb"
    and r: "(case take_from_class size_of n fb pos of (blk, fb') \<Rightarrow>
        (case blk of
           Some b \<Rightarrow> Some (Some b, fb',
             stat_incr (if attempt = 1 then mem_num_free_table_hits else mem_num_free_table_weak_hits) 1 st)
         | None \<Rightarrow> (case next_non_empty fb' pos of
             Some pos' \<Rightarrow> f size_of n fb' st (attempt + 1) pos'
           | None \<Rightarrow> Some (None, fb', st)))) = Some r"
  obtain blk fb' where t: "take_from_class size_of n fb pos = (blk, fb')" by fastforce
  then have "last_power_of_2 fb' = last_power_of_2 fb" using take_from_class_last [of size_of n fb pos] by simp
  with r show "last_power_of_2 (fst (snd r)) = last_power_of_2 fb"
    unfolding t by (auto split: option.splits dest: IH)
qed

lemma try_get_block_last:
  "try_get_block size_of fb st n = Some (r, fb', st') \<Longrightarrow> last_power_of_2 fb' = last_power_of_2 fb"
  unfolding try_get_block_def by (drule try_get_loop_last) simp

lemma put_block_spec:
  assumes inv: "fb_inv size_of fb" and "size_of b < 2 ^ last_power_of_2 fb" and "b \<notin> fb_blocks fb"
  shows "fb_inv size_of (put_block size_of fb b)" and "fb_blocks (put_block size_of fb b) = insert b (fb_blocks fb)"
    and "last_power_of_2 (put_block size_of fb b) = last_power_of_2 fb"
proof -
  note i = fb_invD [OF inv] and x = fb_indexD [OF fb_invD(1) [OF inv]]
  let ?pos = "position_from_size (size_of b)"
  let ?old = "size_classes_table fb ! absolute ?pos"
  have v: "valid_pos fb ?pos" using assms(2) i(3) x(1,2) by (intro position_valid) simp_all
  have c: "absolute ?pos < length (size_classes_table fb)" using absolute_less [OF v] x(4) by simp
  have sub: "set ?old \<subseteq> fb_blocks fb" and d: "distinct ?old"
    using concat_split [OF c] i(2) by (auto simp: fb_blocks_def)
  have eq: "put_block size_of fb b = bit_index_mark_non_empty (set_class ?pos (b # ?old) fb) ?pos"
    by (simp add: put_block_def Let_def l_push_front_def)
  note ok = index_mark_non_empty [OF i(1) v, of "b # ?old"]
  have "fb_inv size_of (put_block size_of fb b)
      \<and> fb_blocks (put_block size_of fb b) = (fb_blocks fb - set ?old) \<union> set (b # ?old)"
    unfolding eq using fb_inv_class [OF inv v ok, of "b # ?old"] sub d assms(2,3) by auto
  then show "fb_inv size_of (put_block size_of fb b)" "fb_blocks (put_block size_of fb b) = insert b (fb_blocks fb)"
    using sub by auto
  show "last_power_of_2 (put_block size_of fb b) = last_power_of_2 fb" by (simp add: eq)
qed

lemma concat_map_remove: "distinct (concat t) \<Longrightarrow> concat (map (remove1 b) t) = remove1 b (concat t)"
proof (induction t)
  case (Cons xs t)
  then have "concat (map (remove1 b) t) = remove1 b (concat t)" by simp
  moreover have "b \<in> set xs \<Longrightarrow> remove1 b (concat t) = concat t"
    using Cons.prems by (intro remove1_idem) auto
  ultimately show ?case by (simp add: remove1_append remove1_idem)
qed simp

lemma remove_block_spec:
  assumes inv: "fb_inv size_of fb"
  shows "fb_inv size_of (remove_block fb b)" and "fb_blocks (remove_block fb b) = fb_blocks fb - {b}"
    and "last_power_of_2 (remove_block fb b) = last_power_of_2 fb"
proof -
  note i = fb_invD [OF inv] and x = fb_indexD [OF fb_invD(1) [OF inv]]
  let ?fb = "remove_block fb b" and ?t = "size_classes_table fb"
  have t: "size_classes_table ?fb = map (remove1 b) ?t" by (simp add: remove_block_def l_remove_def [abs_def])
  have sub: "set (size_classes_table ?fb ! c) \<subseteq> set (?t ! c)" if "c < length ?t" for c
    using that by (simp add: t set_remove1_subset)
  have con: "concat (size_classes_table ?fb) = remove1 b (concat ?t)" unfolding t by (rule concat_map_remove [OF i(2)])
  show blocks: "fb_blocks ?fb = fb_blocks fb - {b}" unfolding fb_blocks_def con using i(2) by simp
  have "bit (second_level_bit_index fb ! fst q) (snd q)"
    if "valid_pos fb q" "size_classes_table ?fb ! absolute q \<noteq> []" for q
  proof -
    have "?t ! absolute q \<noteq> []"
      using sub [of "absolute q"] absolute_less [OF that(1)] that(2) x(4) by auto
    then show ?thesis by (rule x(6) [OF that(1)])
  qed
  then have "fb_index_ok ?fb"
    using x(1-5) t unfolding fb_index_ok_def by (simp add: remove_block_def valid_pos_def)
  then show "fb_inv size_of ?fb"
    unfolding fb_inv_def con using i sub t by (auto simp: remove_block_def distinct_remove1)
  show "last_power_of_2 ?fb = last_power_of_2 fb" by (simp add: remove_block_def)
qed

lemma free_blocks_new_inv:
  assumes "ps = 2 ^ k" and "8 \<le> k" and "k \<le> 31"
  shows "fb_inv size_of (free_blocks_new ps)" and "fb_blocks (free_blocks_new ps) = {}"
    and "last_power_of_2 (free_blocks_new ps) = k"
proof -
  have "(of_nat ps :: u32) = pow2 k" by (simp add: assms(1) pow2_def push_bit_of_1)
  then have l: "log2u (of_nat ps :: u32) = k" using log2u_pow2 [of k, where 'a = 32] assms(3) by simp
  let ?fb = "free_blocks_new ps" and ?n = "k - 8 + 1"
  have f: "num_powers ?fb = ?n" "first_level_bit_index ?fb = 0" "second_level_bit_index ?fb = replicate ?n 0"
      "size_classes_table ?fb = replicate (?n * 32) []" and lp: "last_power_of_2 ?fb = k"
    by (simp_all only: free_blocks_new_def Let_def l constants free_blocks.simps)
  have "fb_index_ok ?fb"
    unfolding fb_index_ok_def f using assms(2,3) absolute_less [of ?fb, unfolded f]
    by (auto simp: valid_pos_def simp del: replicate_Suc)
  then show "fb_inv size_of ?fb"
    unfolding fb_inv_def f lp using assms(2) by (simp del: replicate_Suc)
  show "fb_blocks ?fb = {}" unfolding fb_blocks_def f by simp
  show "last_power_of_2 ?fb = k" by (rule lp)
qed

text \<open>Only the sizes of the blocks in the table matter.\<close>

lemma fb_inv_cong:
  assumes inv: "fb_inv f fb" and eq: "\<forall>b \<in> fb_blocks fb. g b = f b"
  shows "fb_inv g fb"
proof -
  note i = fb_invD [OF inv]
  have "absolute (position_from_size (g b)) = c \<and> g b < 2 ^ last_power_of_2 fb"
    if c: "c < length (size_classes_table fb)" "b \<in> set (size_classes_table fb ! c)" for c b
  proof -
    have "g b = f b" using c eq fb_blocks_iff by blast
    then show ?thesis using i(4) [OF c] by simp
  qed
  then show ?thesis using i(1-3) unfolding fb_inv_def by blast
qed

section \<open>Properties of the table\<close>

text \<open>C29: the search for a free block ends; a block it returns is large enough and has been taken out of
  the table, which stays consistent with its bit indexes; and when it returns none, no size class above
  the one of the request holds a block.\<close>

theorem try_get_block_good_fit:
  assumes "fb_inv size_of fb" and "n < 2 ^ last_power_of_2 fb"
  shows "\<exists>r fb' st'. try_get_block size_of fb st n = Some (r, fb', st') \<and> fb_inv size_of fb'
    \<and> (case r of Some b \<Rightarrow> b \<in> fb_blocks fb \<and> n \<le> size_of b \<and> fb_blocks fb' = fb_blocks fb - {b}
       | None \<Rightarrow> fb_blocks fb' = fb_blocks fb \<and> (\<forall>b \<in> fb_blocks fb. size_of b < n
           \<or> absolute (position_from_size (size_of b)) = absolute (position_from_size n)))"
  using assms
proof (cases rule: try_get_block_spec [where st = st])
  case (found b fb' st')
  then show ?thesis by auto
next
  case (none fb')
  have "n < 2 ^ 31"
    using assms(2) fb_invD(3) [OF assms(1)] fb_indexD(2) [OF fb_invD(1) [OF assms(1)]]
      power_increasing [of "last_power_of_2 fb" 31 "2 :: nat"] by simp
  moreover have "size_of b < 2 ^ 31" if "b \<in> fb_blocks fb" for b
    using fb_block_size(1) [OF assms(1) that] fb_invD(3) [OF assms(1)] fb_indexD(2) [OF fb_invD(1) [OF assms(1)]]
      power_increasing [of "last_power_of_2 fb" 31 "2 :: nat"] by simp
  ultimately have "size_of b < n \<or> absolute (position_from_size (size_of b)) = absolute (position_from_size n)"
    if "b \<in> fb_blocks fb" for b
    using none(4) that larger_class_larger_block by (metis le_neq_implies_less)
  with none show ?thesis by auto
qed

theorem try_get_block_good_fit_witness:
  "\<exists>fb' st'. try_get_block (\<lambda>_. 248) (put_block (\<lambda>_. 248) (free_blocks_new 1024) 4096) (\<lambda>_. 0) 100
     = Some (Some 4096, fb', st') \<and> fb_blocks fb' = {}"
proof -
  let ?fb = "put_block (\<lambda>_. 248) (free_blocks_new 1024) 4096"
  have new: "fb_inv (\<lambda>_. 248) (free_blocks_new 1024)" by (rule free_blocks_new_inv [of _ 10]) simp_all
  have fb: "fb_inv (\<lambda>_. 248) ?fb" "fb_blocks ?fb = {4096}" "last_power_of_2 ?fb = 10"
    using put_block_spec [of "\<lambda>_. 248" "free_blocks_new 1024" 4096] new free_blocks_new_inv(2,3) [of 1024 10] by simp_all
  obtain r fb' st' where r: "try_get_block (\<lambda>_. 248) ?fb (\<lambda>_. 0) 100 = Some (r, fb', st')"
      "case r of Some b \<Rightarrow> b \<in> fb_blocks ?fb \<and> 100 \<le> (248 :: nat) \<and> fb_blocks fb' = fb_blocks ?fb - {b}
       | None \<Rightarrow> fb_blocks fb' = fb_blocks ?fb \<and> (\<forall>b \<in> fb_blocks ?fb. (248 :: nat) < 100
           \<or> absolute (position_from_size 248) = absolute (position_from_size 100))"
    using try_get_block_good_fit [OF fb(1), of 100 "\<lambda>_. 0"] fb(3) by auto
  moreover have "absolute (position_from_size 248) \<noteq> absolute (position_from_size 100)"
    by (simp add: position_small constants)
  ultimately show ?thesis using fb(2) by (cases r) auto
qed

end
