(* ===== verification/Memalloc.thy ===== *)
theory Memalloc
  imports Pages Free_Blocks
begin

text \<open>
  Classes \<^verbatim>\<open>memalloc::block\<close> and \<^verbatim>\<open>memalloc\<close> of \<^verbatim>\<open>cachelot/memalloc-inl.h\<close>, on a 64-bit
  platform in a release build. A block is named by the address of its header. The arena's memory is, for
  the allocator, the map from addresses to block headers; the 31-bit \<^verbatim>\<open>size\<close> field and the 32-bit
  arithmetic are written out as \<open>mod\<close>. The user's callback for an evicted block acts on a state
  \<open>'s\<close> of the user's. A result \<open>None\<close> of a whole operation is a loop that does not end.
\<close>

section \<open>Blocks\<close>

record block_meta =
  b_size :: nat
  b_used :: bool
  b_left :: nat

type_synonym headers = "nat \<Rightarrow> block_meta"

definition alignment :: nat where
  "alignment = 8"

definition header_size :: nat where
  "header_size = 8"

definition min_memory :: nat where
  "min_memory = 64 - header_size"

definition split_threshold :: nat where
  "split_threshold = header_size + min_memory"

definition block_new :: "nat \<Rightarrow> nat \<Rightarrow> block_meta" where
  "block_new the_size left_adjacent_block_offset =
     \<lparr>b_size = the_size mod 2 ^ 31, b_used = False, b_left = left_adjacent_block_offset mod 2 ^ 32\<rparr>"

definition size_with_header :: "headers \<Rightarrow> nat \<Rightarrow> nat" where
  "size_with_header h blk = b_size (h blk) + header_size"

definition set_size :: "nat \<Rightarrow> nat \<Rightarrow> headers \<Rightarrow> headers" where
  "set_size blk new_size h = h(blk := (h blk)\<lparr>b_size := new_size mod 2 ^ 31\<rparr>)"

definition set_used :: "nat \<Rightarrow> headers \<Rightarrow> headers" where
  "set_used blk h = h(blk := (h blk)\<lparr>b_used := True\<rparr>)"

definition set_free :: "nat \<Rightarrow> headers \<Rightarrow> headers" where
  "set_free blk h = h(blk := (h blk)\<lparr>b_used := False\<rparr>)"

definition set_left :: "nat \<Rightarrow> nat \<Rightarrow> headers \<Rightarrow> headers" where
  "set_left blk offset h = h(blk := (h blk)\<lparr>b_left := offset\<rparr>)"

definition block_memory :: "nat \<Rightarrow> nat" where
  "block_memory blk = blk + header_size"

definition left_adjacent :: "headers \<Rightarrow> nat \<Rightarrow> nat" where
  "left_adjacent h blk = blk - b_left (h blk)"

definition right_adjacent :: "headers \<Rightarrow> nat \<Rightarrow> nat" where
  "right_adjacent h blk = blk + size_with_header h blk"

definition from_user_ptr :: "nat \<Rightarrow> nat" where
  "from_user_ptr ptr = ptr - header_size"

definition split_size :: "nat \<Rightarrow> nat \<Rightarrow> nat" where
  "split_size blk new_size =
     (if new_size > min_memory
      then (new_size + unat (unaligned_bytes (of_nat (block_memory blk + new_size)) (of_nat alignment))) mod 2 ^ 32
      else min_memory)"

definition block_split :: "pages \<Rightarrow> headers \<Rightarrow> nat \<Rightarrow> nat \<Rightarrow> nat option \<times> headers" where
  "block_split pgs h blk new_size =
     (let ns = split_size blk new_size; old_size = b_size (h blk) in
      if ns < old_size \<and> old_size - ns \<ge> split_threshold
      then let block_after_next = right_adjacent h blk;
               h1 = set_size blk ns h;
               leftover = right_adjacent h1 blk;
               h2 = h1(leftover := block_new (old_size - ns - header_size) (ns + header_size));
               h3 = (if block_after_next < arena_end pgs
                     then set_left block_after_next (size_with_header h2 leftover) h2 else h2)
           in (Some leftover, h3)
      else (None, h))"

definition block_merge :: "pages \<Rightarrow> headers \<Rightarrow> nat \<Rightarrow> nat \<Rightarrow> headers" where
  "block_merge pgs h left_block right_block =
     (let block_after_right = right_adjacent h right_block;
          h1 = set_size left_block (b_size (h left_block) + size_with_header h right_block) h
      in if block_after_right < arena_end pgs
         then set_left block_after_right (size_with_header h1 left_block) h1 else h1)"

section \<open>The allocator\<close>

record memalloc =
  arena_size :: nat
  page_size :: nat
  m_arena :: nat
  m_blocks :: headers
  m_pages :: pages
  m_free_blocks :: free_blocks
  m_stats :: "mem_stat \<Rightarrow> u64"

definition incr_stat :: "mem_stat \<Rightarrow> nat \<Rightarrow> memalloc \<Rightarrow> memalloc" where
  "incr_stat name delta m = m\<lparr>m_stats := stat_incr name (of_nat delta) (m_stats m)\<rparr>"

definition decr_stat :: "mem_stat \<Rightarrow> nat \<Rightarrow> memalloc \<Rightarrow> memalloc" where
  "decr_stat name delta m = m\<lparr>m_stats := stat_decr name (of_nat delta) (m_stats m)\<rparr>"

definition size_at :: "memalloc \<Rightarrow> nat \<Rightarrow> nat" where
  "size_at m blk = b_size (m_blocks m blk)"

definition put_free :: "nat \<Rightarrow> memalloc \<Rightarrow> memalloc" where
  "put_free blk m = m\<lparr>m_free_blocks := put_block (size_at m) (m_free_blocks m) blk\<rparr>"

definition remove_free :: "nat \<Rightarrow> memalloc \<Rightarrow> memalloc" where
  "remove_free blk m = m\<lparr>m_free_blocks := remove_block (m_free_blocks m) blk\<rparr>"

partial_function (option) init_loop :: "nat \<Rightarrow> memalloc \<Rightarrow> nat \<Rightarrow> nat \<Rightarrow> memalloc option" where
  "init_loop EOM m available left_adjacent_block_offset =
     (if available < EOM
      then init_loop EOM
             (put_free available (m\<lparr>m_blocks := (m_blocks m)(available :=
                block_new (page_size m - header_size) left_adjacent_block_offset)\<rparr>))
             (available + page_size m) (page_size m)
      else Some m)"

text \<open>The arena comes from \<^verbatim>\<open>aligned_alloc\<close>: its address \<open>arena\<close>, \<open>None\<close> when there is no
  memory, and whatever the memory holds, \<open>h\<close>, are arguments.\<close>

definition memalloc_new :: "nat option \<Rightarrow> headers \<Rightarrow> (mem_stat \<Rightarrow> u64) \<Rightarrow> nat \<Rightarrow> nat \<Rightarrow> memalloc result option" where
  "memalloc_new arena h st memory_limit the_page_size =
     (let st' = stat_set mem_page_size (of_nat the_page_size) (stat_set mem_limit_maxbytes (of_nat memory_limit) st) in
      case arena of
        None \<Rightarrow> Some (Inl Bad_alloc)
      | Some a \<Rightarrow> map_option Inr
          (init_loop (a + memory_limit)
             \<lparr>arena_size = memory_limit, page_size = the_page_size, m_arena = a, m_blocks = h,
              m_pages = pages_new the_page_size a (a + memory_limit),
              m_free_blocks = free_blocks_new the_page_size, m_stats = st'\<rparr> a 0))"

partial_function (option) merge_left_loop :: "nat \<Rightarrow> memalloc \<Rightarrow> nat \<Rightarrow> (nat \<times> memalloc) option" where
  "merge_left_loop page_begin m blk =
     (let left = left_adjacent (m_blocks m) blk in
      if page_begin < blk \<and> \<not> b_used (m_blocks m left)
      then let m1 = remove_free left m
           in merge_left_loop page_begin (m1\<lparr>m_blocks := block_merge (m_pages m1) (m_blocks m1) left blk\<rparr>) left
      else Some (blk, m))"

definition merge_free_left :: "memalloc \<Rightarrow> nat \<Rightarrow> (nat \<times> memalloc) option" where
  "merge_free_left m blk = merge_left_loop (fst (page_boundaries_from_addr (m_pages m) blk)) m blk"

partial_function (option) merge_right_loop :: "nat \<Rightarrow> memalloc \<Rightarrow> nat \<Rightarrow> (nat \<times> memalloc) option" where
  "merge_right_loop page_end m blk =
     (let right = right_adjacent (m_blocks m) blk in
      if right < page_end \<and> \<not> b_used (m_blocks m right)
      then let m1 = remove_free right m
           in merge_right_loop page_end (m1\<lparr>m_blocks := block_merge (m_pages m1) (m_blocks m1) blk right\<rparr>) blk
      else Some (blk, m))"

definition merge_free_right :: "memalloc \<Rightarrow> nat \<Rightarrow> (nat \<times> memalloc) option" where
  "merge_free_right m blk = merge_right_loop (snd (page_boundaries_from_addr (m_pages m) blk)) m blk"

definition merge_free :: "memalloc \<Rightarrow> nat \<Rightarrow> (nat \<times> memalloc) option" where
  "merge_free m blk = Option.bind (merge_free_left m blk) (\<lambda>(blk', m'). merge_free_right m' blk')"

definition checkout :: "memalloc \<Rightarrow> nat \<Rightarrow> nat \<Rightarrow> nat \<times> memalloc" where
  "checkout m blk requested_size =
     (case block_split (m_pages m) (m_blocks m) blk requested_size of (leftover, h) \<Rightarrow>
        let m1 = m\<lparr>m_blocks := h\<rparr>;
            m2 = (case leftover of None \<Rightarrow> m1 | Some l \<Rightarrow> put_free l m1);
            m3 = m2\<lparr>m_blocks := set_used blk (m_blocks m2)\<rparr>
        in (block_memory blk, incr_stat mem_used_memory (size_with_header (m_blocks m3) blk) m3))"

definition mem_valid_addr :: "memalloc \<Rightarrow> nat \<Rightarrow> bool" where
  "mem_valid_addr m ptr = pages_valid_addr (m_pages m) ptr"

definition mem_touch :: "memalloc \<Rightarrow> nat \<Rightarrow> memalloc" where
  "mem_touch m ptr = m\<lparr>m_pages := pages_touch (m_pages m) ptr\<rparr>"

definition reveal_actual_size :: "memalloc \<Rightarrow> nat \<Rightarrow> nat" where
  "reveal_actual_size m ptr = size_with_header (m_blocks m) (from_user_ptr ptr)"

partial_function (option) evict_loop ::
  "nat \<Rightarrow> (nat \<Rightarrow> 's \<Rightarrow> 's) \<Rightarrow> memalloc \<Rightarrow> 's \<Rightarrow> nat \<Rightarrow> (memalloc \<times> 's) option" where
  "evict_loop page_end on_free_block m s blk =
     (let (m', s') = (if b_used (m_blocks m blk)
                      then (decr_stat mem_used_memory (size_with_header (m_blocks m) blk) (incr_stat mem_evictions 1 m),
                            on_free_block (block_memory blk) s)
                      else (remove_free blk m, s));
          next_blk = right_adjacent (m_blocks m) blk
      in if next_blk < page_end then evict_loop page_end on_free_block m' s' next_blk else Some (m', s'))"

definition alloc_or_evict ::
  "memalloc \<Rightarrow> nat \<Rightarrow> bool \<Rightarrow> (nat \<Rightarrow> 's \<Rightarrow> 's) \<Rightarrow> 's \<Rightarrow> (nat option \<times> memalloc \<times> 's) option" where
  "alloc_or_evict m requested_size evict_if_necessary on_free_block s =
     (let sz = requested_size mod 2 ^ 32;
          m1 = incr_stat mem_total_requested sz (incr_stat mem_num_malloc 1 m)
      in Option.bind (try_get_block (size_at m1) (m_free_blocks m1) (m_stats m1) sz) (\<lambda>(found_blk, fb, st).
         let m2 = m1\<lparr>m_free_blocks := fb, m_stats := st\<rparr> in
         case found_blk of
           Some blk \<Rightarrow>
             (case checkout (mem_touch m2 blk) blk sz of (mem, m3) \<Rightarrow>
                Some (Some mem, incr_stat mem_total_served (reveal_actual_size m3 mem) m3, s))
         | None \<Rightarrow>
             if evict_if_necessary
             then case page_to_reuse (m_pages m2) of
                 (None, _) \<Rightarrow> None
               | (Some (page_begin, page_end), pgs) \<Rightarrow>
                   let m3 = m2\<lparr>m_pages := pgs\<rparr>;
                       left_adjacent_block_offset = b_left (m_blocks m3 page_begin)
                   in Option.bind (evict_loop page_end on_free_block m3 s page_begin) (\<lambda>(m4, s').
                      let h = (if page_end < m_arena m4 + arena_size m4
                               then set_left page_end (page_size m4) (m_blocks m4) else m_blocks m4);
                          m5 = m4\<lparr>m_blocks := h(page_begin :=
                                 block_new (page_size m4 - header_size) left_adjacent_block_offset)\<rparr>
                      in case checkout m5 page_begin sz of (mem, m6) \<Rightarrow>
                           Some (Some mem, incr_stat mem_total_served (reveal_actual_size m6 mem) m6, s'))
             else Some (None, incr_stat mem_total_unserved sz (incr_stat mem_num_alloc_errors 1 m2), s)))"

definition mem_alloc :: "memalloc \<Rightarrow> nat \<Rightarrow> (nat option \<times> memalloc) option" where
  "mem_alloc m size' = map_option (\<lambda>(r, m', _). (r, m')) (alloc_or_evict m size' False (\<lambda>_ s. s) ())"

definition realloc_inplace :: "memalloc \<Rightarrow> nat \<Rightarrow> nat \<Rightarrow> (nat option \<times> memalloc) option" where
  "realloc_inplace m ptr new_size =
     (let blk = from_user_ptr ptr;
          m1 = incr_stat mem_num_realloc 1 m;
          m2 = m1\<lparr>m_blocks := set_free blk (m_blocks m1)\<rparr>;
          m3 = decr_stat mem_used_memory (size_with_header (m_blocks m2) blk) m2;
          sz = new_size mod 2 ^ 32;
          old_block_size = size_at m3 blk
      in if new_size \<le> old_block_size then (case checkout m3 blk sz of (mem, m4) \<Rightarrow> Some (Some mem, m4))
         else Option.bind (merge_free_right (incr_stat mem_total_realloc_requested (new_size - old_block_size) m3) blk)
           (\<lambda>(blk', m4).
             if new_size \<le> size_at m4 blk'
             then (case checkout m4 blk' sz of (mem, m5) \<Rightarrow>
                     Some (Some mem, incr_stat mem_total_realloc_served
                       (reveal_actual_size m5 mem - old_block_size - header_size) m5))
             else (case checkout (incr_stat mem_total_realloc_unserved (new_size - old_block_size) m4) blk' old_block_size of
                     (_, m5) \<Rightarrow> Some (None, incr_stat mem_num_realloc_errors 1 m5))))"

definition mem_free :: "memalloc \<Rightarrow> nat \<Rightarrow> memalloc option" where
  "mem_free m ptr =
     (let m1 = incr_stat mem_num_free 1 m;
          blk = from_user_ptr ptr;
          m2 = m1\<lparr>m_blocks := set_free blk (m_blocks m1)\<rparr>;
          m3 = decr_stat mem_used_memory (size_with_header (m_blocks m2) blk) m2
      in map_option (\<lambda>(blk', m4). put_free blk' m4) (merge_free m3 blk))"

declare init_loop.simps [code] merge_left_loop.simps [code] merge_right_loop.simps [code] evict_loop.simps [code]

section \<open>The layout of the arena\<close>

text \<open>
  Abstractly the arena is a list of pages, each a list of blocks, a block its size and whether it is
  used. \<open>rep\<close> relates headers to blocks that lie side by side, \<open>layout\<close> gives them their addresses.
\<close>

type_synonym chunk = "nat \<times> bool"

fun total :: "chunk list \<Rightarrow> nat" where
  "total [] = 0"
| "total ((s, u) # bs) = s + 8 + total bs"

fun rep :: "headers \<Rightarrow> nat \<Rightarrow> nat \<Rightarrow> chunk list \<Rightarrow> bool" where
  "rep h a l [] \<longleftrightarrow> True"
| "rep h a l ((s, u) # bs) \<longleftrightarrow> h a = \<lparr>b_size = s, b_used = u, b_left = l\<rparr> \<and> rep h (a + s + 8) (s + 8) bs"

fun last_off :: "nat \<Rightarrow> chunk list \<Rightarrow> nat" where
  "last_off l [] = l"
| "last_off l ((s, u) # bs) = last_off (s + 8) bs"

fun layout :: "nat \<Rightarrow> chunk list \<Rightarrow> (nat \<times> nat \<times> bool) list" where
  "layout a [] = []"
| "layout a ((s, u) # bs) = (a, s, u) # layout (a + s + 8) bs"

definition free_addrs :: "nat \<Rightarrow> chunk list \<Rightarrow> nat set" where
  "free_addrs a bs = {b. \<exists>s. (b, s, False) \<in> set (layout a bs)}"

text \<open>What the user holds: the addresses and sizes of the memory of used blocks.\<close>

definition used_mem :: "nat \<Rightarrow> chunk list \<Rightarrow> (nat \<times> nat) set" where
  "used_mem a bs = {(block_memory b, s) | b s. (b, s, True) \<in> set (layout a bs)}"

definition chunk_ok :: "chunk \<Rightarrow> bool" where
  "chunk_ok c \<longleftrightarrow> 56 \<le> fst c \<and> 8 dvd fst c"

definition geom :: "memalloc \<Rightarrow> bool" where
  "geom m \<longleftrightarrow> pages_inv (m_pages m) \<and> pg_size (m_pages m) = page_size m \<and> arena_begin (m_pages m) = m_arena m
     \<and> 8 \<le> log2_page_size (m_pages m) \<and> log2_page_size (m_pages m) \<le> 31
     \<and> arena_size m = num_pages (m_pages m) * page_size m \<and> arena_size m \<le> 2 ^ 32
     \<and> m_arena m + arena_size m \<le> 2 ^ 62 \<and> last_power_of_2 (m_free_blocks m) = log2_page_size (m_pages m)"

text \<open>\<open>E\<close> is the set of free blocks that an operation has in its hands, outside the table.\<close>

definition mem_ok :: "nat set \<Rightarrow> memalloc \<Rightarrow> chunk list list \<Rightarrow> bool" where
  "mem_ok E m pgs \<longleftrightarrow> geom m \<and> length pgs = num_pages (m_pages m)
     \<and> (\<forall>p \<in> set pgs. total p = page_size m \<and> (\<forall>c \<in> set p. chunk_ok c))
     \<and> rep (m_blocks m) (m_arena m) 0 (concat pgs)
     \<and> fb_inv (size_at m) (m_free_blocks m)
     \<and> fb_blocks (m_free_blocks m) = free_addrs (m_arena m) (concat pgs) - E"

text \<open>The memory in used blocks, headers included, and the statistic that counts it.\<close>

definition used_total :: "chunk list \<Rightarrow> nat" where
  "used_total bs = sum_list (map (\<lambda>(s, u). if u then s + 8 else 0) bs)"

definition used_stat :: "memalloc \<Rightarrow> nat" where
  "used_stat m = unat (m_stats m mem_used_memory)"

text \<open>The fields of the state that a step leaves alone.\<close>

definition same_arena :: "memalloc \<Rightarrow> memalloc \<Rightarrow> bool" where
  "same_arena m m' \<longleftrightarrow> arena_size m' = arena_size m \<and> page_size m' = page_size m \<and> m_arena m' = m_arena m
     \<and> m_pages m' = m_pages m"

end
