(* ===== verification/Memalloc_Layout.thy ===== *)
theory Memalloc_Layout
  imports Memalloc
begin

text \<open>
  How the primitive operations on block headers, splitting and merging, change the layout of the arena,
  and where the block at an address lies in it.
\<close>

section \<open>Blocks side by side\<close>

lemmas sizes = header_size_def alignment_def min_memory_def split_threshold_def

lemma total_append [simp]: "total (xs @ ys) = total xs + total ys"
  by (induction xs rule: total.induct) auto

lemma last_off_append [simp]: "last_off l (xs @ ys) = last_off (last_off l xs) ys"
  by (induction l xs rule: last_off.induct) auto

lemma layout_append [simp]: "layout a (xs @ ys) = layout a xs @ layout (a + total xs) ys"
  by (induction a xs rule: layout.induct) (auto simp: add.assoc)

lemma rep_append [simp]:
  "rep h a l (xs @ ys) \<longleftrightarrow> rep h a l xs \<and> rep h (a + total xs) (last_off l xs) ys"
  by (induction h a l xs rule: rep.induct) (auto simp: add.assoc)

lemma layout_bounds: "(b, s, u) \<in> set (layout a bs) \<Longrightarrow> a \<le> b \<and> b + s + 8 \<le> a + total bs"
  by (induction a bs rule: layout.induct) auto

lemma rep_layout: "rep h a l bs \<Longrightarrow> (b, s, u) \<in> set (layout a bs) \<Longrightarrow> b_size (h b) = s \<and> b_used (h b) = u"
  by (induction h a l bs rule: rep.induct) auto

lemma rep_cong:
  assumes "rep h a l bs" and "\<And>b. a \<le> b \<Longrightarrow> b < a + total bs \<Longrightarrow> h' b = h b"
  shows "rep h' a l bs"
  using assms by (induction h a l bs rule: rep.induct) auto

lemma layout_chunks: "(b, s, u) \<in> set (layout a bs) \<Longrightarrow> (s, u) \<in> set bs"
  by (induction a bs rule: layout.induct) auto

lemma layout_split:
  "(b, s, u) \<in> set (layout a bs) \<Longrightarrow> \<exists>xs ys. bs = xs @ (s, u) # ys \<and> b = a + total xs"
proof (induction a bs rule: layout.induct)
  case (2 a s' u' bs)
  show ?case
  proof (cases "(b, s, u) = (a, s', u')")
    case True
    then show ?thesis by (intro exI [of _ "[]"] exI [of _ bs]) simp
  next
    case False
    then obtain xs ys where "bs = xs @ (s, u) # ys" "b = a + s' + 8 + total xs" using 2 by auto
    then show ?thesis by (intro exI [of _ "(s', u') # xs"] exI [of _ ys]) simp
  qed
qed simp

lemma layout_unique:
  assumes "(b, s, u) \<in> set (layout a bs)" and "(b, s', u') \<in> set (layout a bs)"
  shows "s = s' \<and> u = u'"
  using assms
proof (induction a bs rule: layout.induct)
  case (2 a t v bs)
  then show ?case using layout_bounds [of b s u "a + t + 8" bs] layout_bounds [of b s' u' "a + t + 8" bs] by auto
qed simp

text \<open>Two blocks of a layout are the same or do not overlap.\<close>

lemma layout_disjoint:
  assumes "(b, s, u) \<in> set (layout a bs)" and "(c, t, v) \<in> set (layout a bs)"
  shows "b = c \<or> b + s + 8 \<le> c \<or> c + t + 8 \<le> b"
proof -
  obtain xs ys where bs: "bs = xs @ (s, u) # ys" "b = a + total xs" using layout_split [OF assms(1)] by blast
  have "(c, t, v) \<in> set (layout a xs) \<or> (c, t, v) = (b, s, u) \<or> (c, t, v) \<in> set (layout (b + s + 8) ys)"
    using assms(2) bs by (auto simp: add.assoc)
  then show ?thesis
    using layout_bounds [of c t v a xs] layout_bounds [of c t v "b + s + 8" ys] bs(2) by auto
qed

lemma free_addrs_append [simp]: "free_addrs a (xs @ ys) = free_addrs a xs \<union> free_addrs (a + total xs) ys"
  by (auto simp: free_addrs_def)

lemma free_addrs_Cons [simp]:
  "free_addrs a ((s, u) # bs) = (if u then {} else {a}) \<union> free_addrs (a + s + 8) bs"
  by (auto simp: free_addrs_def)

lemma free_addrs_Nil [simp]: "free_addrs a [] = {}"
  by (simp add: free_addrs_def)

lemma free_addrs_bounds: "b \<in> free_addrs a bs \<Longrightarrow> a \<le> b \<and> b + 8 \<le> a + total bs"
  unfolding free_addrs_def using layout_bounds by fastforce

lemma used_mem_append [simp]: "used_mem a (xs @ ys) = used_mem a xs \<union> used_mem (a + total xs) ys"
  by (auto simp: used_mem_def)

lemma used_mem_Cons [simp]:
  "used_mem a ((s, u) # bs) = (if u then {(a + 8, s)} else {}) \<union> used_mem (a + s + 8) bs"
  by (auto simp: used_mem_def block_memory_def sizes)

lemma used_mem_Nil [simp]: "used_mem a [] = {}"
  by (simp add: used_mem_def)

section \<open>Splitting and merging\<close>

text \<open>The header after a block takes the new offset.\<close>

lemma rep_set_left:
  assumes "rep h a l (b # bs)"
  shows "rep (set_left a l' h) a l' (b # bs)"
proof (cases b)
  case (Pair s u)
  have ha: "h a = \<lparr>b_size = s, b_used = u, b_left = l\<rparr>" and r: "rep h (a + s + 8) (s + 8) bs"
    using assms Pair by simp_all
  have "rep (set_left a l' h) (a + s + 8) (s + 8) bs"
    by (rule rep_cong [OF r]) (auto simp: set_left_def)
  moreover have "set_left a l' h a = \<lparr>b_size = s, b_used = u, b_left = l'\<rparr>" by (simp add: set_left_def ha)
  ultimately show ?thesis unfolding Pair by simp
qed

lemma rep_middle:
  assumes "rep h a l xs" and "blk = a + total xs" and "h blk = \<lparr>b_size = s, b_used = u, b_left = last_off l xs\<rparr>"
    and "rep h c (s + 8) ys" and "c = blk + s + 8"
  shows "rep h a l (xs @ (s, u) # ys)"
  using assms by simp

lemma split_size_eq:
  assumes "8 dvd blk" and "blk + n + 16 < 2 ^ 63" and "n < 2 ^ 31"
  shows "n \<le> split_size blk n" and "56 \<le> split_size blk n" and "8 dvd split_size blk n"
    and "split_size blk n \<le> max 56 (n + 7)" and "8 dvd n \<Longrightarrow> 56 \<le> n \<Longrightarrow> split_size blk n = n"
proof -
  have a: "(of_nat alignment :: u64) = pow2 3" by (simp add: alignment_def pow2_def push_bit_of_1)
  have u: "unat (of_nat (block_memory blk + n) :: u64) = blk + 8 + n"
    using assms(2) by (simp add: unat_of_nat block_memory_def header_size_def del: of_nat_add)
  have un: "unat (unaligned_bytes (of_nat (block_memory blk + n)) (of_nat alignment)) = (8 - (blk + 8 + n) mod 8) mod 8"
  proof -
    have "unat (of_nat (block_memory blk + n) :: u64) + 2 ^ 3 \<le> 2 ^ 64" unfolding u using assms(2) by simp
    then have "unat (unaligned_bytes (of_nat (block_memory blk + n)) (pow2 3))
        = (2 ^ 3 - unat (of_nat (block_memory blk + n) :: u64) mod 2 ^ 3) mod 2 ^ 3"
      by (rule unaligned_bytes_eq [rotated]) simp
    moreover have "(2 :: nat) ^ 3 = 8" by simp
    ultimately show ?thesis unfolding a u by (simp only:)
  qed
  obtain k where "blk = 8 * k" using assms(1) by (rule dvdE)
  then have "blk + 8 + n = n + 8 * (k + 1)" by simp
  then have m1: "(blk + 8 + n) mod 8 = n mod 8" by (simp only: mod_mult_self2)
  have "(8 - n mod 8) mod 8 < 8" by simp
  then have "n + (8 - n mod 8) mod 8 < 2 ^ 32" using assms(3) by simp
  then have m2: "(n + (8 - n mod 8) mod 8) mod 2 ^ 32 = n + (8 - n mod 8) mod 8" by (rule mod_less)
  have eq: "split_size blk n = (if 56 < n then n + (8 - n mod 8) mod 8 else 56)"
    unfolding split_size_def un min_memory_def header_size_def m1 m2 by simp
  show "n \<le> split_size blk n" and "56 \<le> split_size blk n" and "split_size blk n \<le> max 56 (n + 7)"
    and "8 dvd n \<Longrightarrow> 56 \<le> n \<Longrightarrow> split_size blk n = n"
    unfolding eq by auto
  have "8 dvd n + (8 - n mod 8) mod 8"
  proof (cases "n mod 8 = 0")
    case False
    have r: "n mod 8 < 8" "n = 8 * (n div 8) + n mod 8" by simp_all
    then have "(8 - n mod 8) mod 8 = 8 - n mod 8" using False by (intro mod_less) linarith
    with r have "n + (8 - n mod 8) mod 8 = 8 * (n div 8) + 8" by linarith
    then show ?thesis by simp
  qed auto
  then show "8 dvd split_size blk n" unfolding eq by auto
qed

lemma block_split_spec:
  assumes rep: "rep h a l (xs @ (s, False) # ys)" and e: "arena_end p = a + total (xs @ (s, False) # ys)"
    and blk: "blk = a + total xs" and s: "s < 2 ^ 31" and ns: "ns = split_size blk n"
  shows "if ns < s \<and> 64 \<le> s - ns
    then \<exists>h'. block_split p h blk n = (Some (blk + ns + 8), h')
      \<and> rep h' a l (xs @ (ns, False) # (s - ns - 8, False) # ys)
    else block_split p h blk n = (None, h)"
proof (cases "ns < s \<and> 64 \<le> s - ns")
  case False
  have "b_size (h blk) = s" using rep blk by simp
  then show ?thesis using False by (auto simp: block_split_def Let_def ns sizes)
next
  case True
  let ?lo = "blk + ns + 8" and ?af = "blk + s + 8"
  have hb: "h blk = \<lparr>b_size = s, b_used = False, b_left = last_off l xs\<rparr>" and ry: "rep h ?af (s + 8) ys"
    and rx: "rep h a l xs" using rep blk by (simp_all add: add.assoc)
  let ?h1 = "set_size blk ns h"
  let ?h2 = "?h1(?lo := block_new (s - ns - 8) (ns + 8))"
  define h3 where "h3 = (if ?af < arena_end p then set_left ?af (s - ns) ?h2 else ?h2)"
  have lo: "?lo < ?af" "blk < ?lo" using True by auto
  have h1: "right_adjacent ?h1 blk = ?lo"
    using True s by (simp add: right_adjacent_def size_with_header_def set_size_def sizes)
  have ra: "right_adjacent h blk = ?af" by (simp add: right_adjacent_def size_with_header_def hb sizes)
  have sw: "size_with_header ?h2 ?lo = s - ns" using True s by (auto simp: size_with_header_def block_new_def sizes)
  have hs: "b_size (h blk) = s" by (simp add: hb)
  have c: "split_size blk n < s \<and> split_threshold \<le> s - split_size blk n" using True ns by (simp add: sizes)
  have sp: "block_split p h blk n = (Some ?lo, h3)"
    unfolding block_split_def Let_def hs ns [symmetric] if_P [OF c [folded ns]] h1 ra header_size_def sw by (simp add: h3_def)
  have ry2: "rep ?h2 ?af (s + 8) ys" by (rule rep_cong [OF ry]) (use lo in \<open>auto simp: set_size_def\<close>)
  have ry3: "rep h3 ?af (s - ns) ys"
  proof (cases ys)
    case (Cons y ys')
    then have "?af < arena_end p" using e blk by (cases y) (simp add: add.assoc)
    then show ?thesis using rep_set_left [of ?h2 ?af "s + 8" y ys' "s - ns"] ry2 Cons by (simp add: h3_def)
  qed simp
  have "h3 b = h b" if "b < blk" for b using that lo by (auto simp: h3_def set_left_def set_size_def)
  then have rx3: "rep h3 a l xs" by (intro rep_cong [OF rx]) (use blk in auto)
  have b3: "h3 blk = \<lparr>b_size = ns, b_used = False, b_left = last_off l xs\<rparr>"
    using hb lo True s by (auto simp: h3_def set_left_def set_size_def)
  have l3: "h3 ?lo = \<lparr>b_size = s - ns - 8, b_used = False, b_left = ns + 8\<rparr>"
    using lo True s by (auto simp: h3_def set_left_def block_new_def)
  have ad: "?lo + (s - ns - 8) + 8 = ?af" "s - ns - 8 + 8 = s - ns" using True by auto
  have "rep h3 ?lo (ns + 8) ((s - ns - 8, False) # ys)"
    unfolding rep.simps ad using l3 ry3 by blast
  then have "rep h3 a l (xs @ (ns, False) # (s - ns - 8, False) # ys)"
    by (rule rep_middle [OF rx3 blk b3]) simp
  with sp True show ?thesis by auto
qed

lemma block_merge_spec:
  assumes rep: "rep h a l (xs @ (s, False) # (t, False) # ys)"
    and e: "arena_end p = a + total (xs @ (s, False) # (t, False) # ys)"
    and blk: "blk = a + total xs" and r: "right = blk + s + 8" and s: "s + t + 8 < 2 ^ 31"
  shows "rep (block_merge p h blk right) a l (xs @ (s + t + 8, False) # ys)"
proof -
  let ?af = "right + t + 8"
  have hb: "h blk = \<lparr>b_size = s, b_used = False, b_left = last_off l xs\<rparr>"
    and hr: "h right = \<lparr>b_size = t, b_used = False, b_left = s + 8\<rparr>" and ry: "rep h ?af (t + 8) ys"
    and rx: "rep h a l xs" using rep blk r by (simp_all add: add.assoc)
  let ?h1 = "set_size blk (s + t + 8) h"
  let ?h2 = "if ?af < arena_end p then set_left ?af (s + t + 8 + 8) ?h1 else ?h1"
  have ra: "right_adjacent h right = ?af" "size_with_header h right = t + 8" "b_size (h blk) = s"
    using hb hr by (simp_all add: right_adjacent_def size_with_header_def sizes)
  have sw: "size_with_header ?h1 blk = s + t + 8 + 8" using s by (simp add: size_with_header_def set_size_def sizes)
  have m: "block_merge p h blk right = ?h2"
    unfolding block_merge_def Let_def ra add.assoc [symmetric] sw by simp
  have ry1: "rep ?h1 ?af (t + 8) ys" by (rule rep_cong [OF ry]) (auto simp: set_size_def r)
  have ry2: "rep ?h2 ?af (s + t + 8 + 8) ys"
  proof (cases ys)
    case (Cons y ys')
    then have "?af < arena_end p" using e blk r by (cases y) (simp add: add.assoc)
    then show ?thesis using rep_set_left [of ?h1 ?af "t + 8" y ys' "s + t + 8 + 8"] ry1 Cons by simp
  qed simp
  have "?h2 b = h b" if "b < blk" for b using that r by (auto simp: set_left_def set_size_def)
  then have rx2: "rep ?h2 a l xs" by (intro rep_cong [OF rx]) (use blk in auto)
  have b2: "?h2 blk = \<lparr>b_size = s + t + 8, b_used = False, b_left = last_off l xs\<rparr>"
    using hb s r by (auto simp: set_left_def set_size_def)
  show ?thesis unfolding m by (rule rep_middle [OF rx2 blk b2 ry2]) (simp add: r)
qed

end
