(* ===== verification/Memalloc_Ops.thy ===== *)
theory Memalloc_Ops
  imports Memalloc_Layout
begin

text \<open>
  The steps the operations of the allocator are made of: finding the page of a block, checking a block
  out, merging it with its free neighbours and clearing a page. Each step keeps \<open>mem_ok\<close> and changes the
  layout in one place.
\<close>

section \<open>Blocks and pages\<close>

lemma used_total_simps [simp]:
  "used_total [] = 0" "used_total ((s, u) # bs) = (if u then s + 8 else 0) + used_total bs"
  "used_total (xs @ ys) = used_total xs + used_total ys"
  by (simp_all add: used_total_def)

lemma used_total_le: "used_total bs \<le> total bs"
  by (induction bs rule: total.induct) auto

lemma geomD:
  assumes "geom m"
  shows "pages_inv (m_pages m)" and "pg_size (m_pages m) = page_size m" and "arena_begin (m_pages m) = m_arena m"
    and "8 \<le> log2_page_size (m_pages m)" and "log2_page_size (m_pages m) \<le> 31"
    and "arena_size m = num_pages (m_pages m) * page_size m" and "arena_size m \<le> 2 ^ 32"
    and "m_arena m + arena_size m \<le> 2 ^ 62" and "last_power_of_2 (m_free_blocks m) = log2_page_size (m_pages m)"
  using assms unfolding geom_def by blast+

lemma geom_facts:
  assumes "geom m"
  shows "page_size m = 2 ^ log2_page_size (m_pages m)" and "256 \<le> page_size m" and "page_size m \<le> 2 ^ 31"
    and "8 dvd page_size m" and "8 dvd m_arena m" and "arena_end (m_pages m) = m_arena m + arena_size m"
    and "arena_end (m_pages m) - arena_begin (m_pages m) \<le> 2 ^ 32"
proof -
  note g = geomD [OF assms]
  show ps: "page_size m = 2 ^ log2_page_size (m_pages m)" using pages_invD(1) [OF g(1)] g(2) by simp
  have "(2 :: nat) ^ 8 \<le> 2 ^ log2_page_size (m_pages m)" using g(4) by (intro power_increasing) auto
  then show "256 \<le> page_size m" using ps by simp
  show "page_size m \<le> 2 ^ 31" unfolding ps using g(5) by (intro power_increasing) auto
  have "(2 :: nat) ^ 3 dvd 2 ^ log2_page_size (m_pages m)" using g(4) by (intro le_imp_power_dvd) simp
  then show d: "8 dvd page_size m" using ps by simp
  have "page_size m dvd m_arena m" using pages_invD(4) [OF g(1)] g(2,3) by simp
  with d show "8 dvd m_arena m" by (rule dvd_trans)
  show e: "arena_end (m_pages m) = m_arena m + arena_size m" using pages_invD(2) [OF g(1)] g(2,3,6) by simp
  show "arena_end (m_pages m) - arena_begin (m_pages m) \<le> 2 ^ 32" using e g(3,7) by simp
qed

lemma mem_okD:
  assumes "mem_ok E m pgs"
  shows "geom m" and "length pgs = num_pages (m_pages m)"
    and "p \<in> set pgs \<Longrightarrow> total p = page_size m" and "p \<in> set pgs \<Longrightarrow> c \<in> set p \<Longrightarrow> chunk_ok c"
    and "rep (m_blocks m) (m_arena m) 0 (concat pgs)" and "fb_inv (size_at m) (m_free_blocks m)"
    and "fb_blocks (m_free_blocks m) = free_addrs (m_arena m) (concat pgs) - E"
  using assms unfolding mem_ok_def by blast+

lemma total_concat: "\<forall>p \<in> set pgs. total p = n \<Longrightarrow> total (concat pgs) = length pgs * n"
  by (induction pgs) auto

lemma layout_pages:
  assumes "(b, s, u) \<in> set (layout a (concat pgs))"
  shows "\<exists>pre xs ys post. pgs = pre @ (xs @ (s, u) # ys) # post \<and> b = a + total (concat pre) + total xs"
  using assms
proof (induction pgs arbitrary: a)
  case (Cons p pgs)
  show ?case
  proof (cases "(b, s, u) \<in> set (layout a p)")
    case True
    then obtain xs ys where "p = xs @ (s, u) # ys" "b = a + total xs" using layout_split by blast
    then show ?thesis by (intro exI [of _ "[]"] exI [of _ xs] exI [of _ ys] exI [of _ pgs]) simp
  next
    case False
    then obtain pre xs ys post where "pgs = pre @ (xs @ (s, u) # ys) # post"
        "b = a + total p + total (concat pre) + total xs" using Cons by fastforce
    then show ?thesis by (intro exI [of _ "p # pre"] exI [of _ xs] exI [of _ ys] exI [of _ post]) simp
  qed
qed simp

text \<open>The page a block lies in: \<open>pgs\<close> is \<open>pre\<close>, the page, \<open>post\<close>; the page is \<open>xs\<close>, the block, \<open>ys\<close>.\<close>

lemma block_facts:
  assumes ok: "mem_ok E m (pre @ (xs @ (s, u) # ys) # post)"
    and blk: "blk = m_arena m + length pre * page_size m + total xs"
  shows "total (concat pre) = length pre * page_size m" and "s < 2 ^ 31" and "8 dvd blk"
    and "page_boundaries_from_addr (m_pages m) blk
      = (m_arena m + length pre * page_size m, m_arena m + length pre * page_size m + page_size m)"
    and "blk + s + 8 + total ys = m_arena m + length pre * page_size m + page_size m"
    and "blk + s + 8 \<le> m_arena m + arena_size m"
    and "m_arena m + total (concat (pre @ (xs @ (s, u) # ys) # post)) = arena_end (m_pages m)"
    and "m_arena m + total (concat pre @ xs) = blk"
    and "page_no_from_addr (m_pages m) blk = length pre"
proof -
  note g = geomD [OF mem_okD(1) [OF ok]] and gf = geom_facts [OF mem_okD(1) [OF ok]]
  note o = mem_okD [OF ok]
  let ?pb = "m_arena m + length pre * page_size m"
  show tp: "total (concat pre) = length pre * page_size m" using o(3) by (intro total_concat) simp
  have tpage: "total xs + (s + 8 + total ys) = page_size m" using o(3) [of "xs @ (s, u) # ys"] by simp
  then show "s < 2 ^ 31" and be: "blk + s + 8 + total ys = ?pb + page_size m" using gf(3) blk by simp_all
  have "\<forall>c \<in> set xs. chunk_ok c" using o(4) [of "xs @ (s, u) # ys"] by simp
  then have "8 dvd total xs"
  proof (induction xs rule: total.induct)
    case (2 s u bs)
    then have "8 dvd s" "8 dvd total bs" by (simp_all add: chunk_ok_def)
    then show ?case by simp
  qed simp
  with gf(4,5) blk show "8 dvd blk" by simp
  have k: "length pre < num_pages (m_pages m)" using o(2) by simp
  then have "length pre * page_size m + page_size m \<le> num_pages (m_pages m) * page_size m"
    by (metis Suc_leI add.commute mult_Suc mult_le_mono1)
  then have pe: "?pb + page_size m \<le> m_arena m + arena_size m" using g(6) by simp
  then show "blk + s + 8 \<le> m_arena m + arena_size m" using be by simp
  have v: "pages_valid_addr (m_pages m) blk" using pe be blk g(3) gf(6) by (simp add: pages_valid_addr_def)
  show "page_boundaries_from_addr (m_pages m) blk = (?pb, ?pb + page_size m)" and "page_no_from_addr (m_pages m) blk = length pre"
    using page_boundaries_correct [OF g(1) v gf(7) k] g(2,3) blk be by simp_all
  have "total (concat (pre @ (xs @ (s, u) # ys) # post)) = length (pre @ (xs @ (s, u) # ys) # post) * page_size m"
    using o(3) by (intro total_concat) blast
  then show "m_arena m + total (concat (pre @ (xs @ (s, u) # ys) # post)) = arena_end (m_pages m)"
    unfolding o(2) gf(6) g(6) by (simp only:)
  show "m_arena m + total (concat pre @ xs) = blk" using tp blk by simp
qed

lemma locate:
  assumes ok: "mem_ok E m pgs" and "(blk, s, u) \<in> set (layout (m_arena m) (concat pgs))"
  obtains pre xs ys post where "pgs = pre @ (xs @ (s, u) # ys) # post"
    and "blk = m_arena m + length pre * page_size m + total xs"
proof -
  obtain pre xs ys post where p: "pgs = pre @ (xs @ (s, u) # ys) # post"
      "blk = m_arena m + total (concat pre) + total xs" using layout_pages [OF assms(2)] by blast
  moreover have "total (concat pre) = length pre * page_size m"
    using mem_okD(3) [OF ok] p(1) by (intro total_concat) simp
  ultimately show ?thesis using that by simp
qed

lemma same_arena_refl [simp]: "same_arena m m"
  by (simp add: same_arena_def)

lemma same_arena_trans: "same_arena m m' \<Longrightarrow> same_arena m' m'' \<Longrightarrow> same_arena m m''"
  by (simp add: same_arena_def)

text \<open>A step that replaces some blocks of a page by others of the same total size.\<close>

lemma mem_ok_replace:
  assumes ok: "mem_ok E m (pre @ (xs @ old @ ys) # post)" and "same_arena m m'" and "total new = total old"
    and "\<forall>c \<in> set new. chunk_ok c" and "rep (m_blocks m') (m_arena m) 0 (concat (pre @ (xs @ new @ ys) # post))"
    and "fb_inv (size_at m') (m_free_blocks m')"
    and "last_power_of_2 (m_free_blocks m') = last_power_of_2 (m_free_blocks m)"
    and "fb_blocks (m_free_blocks m') = free_addrs (m_arena m) (concat (pre @ (xs @ new @ ys) # post)) - E'"
  shows "mem_ok E' m' (pre @ (xs @ new @ ys) # post)"
proof -
  note o = mem_okD [OF ok]
  have "geom m'" using o(1) assms(2,7) by (simp add: geom_def same_arena_def)
  moreover have "\<forall>p \<in> set (pre @ (xs @ new @ ys) # post). total p = page_size m' \<and> (\<forall>c \<in> set p. chunk_ok c)"
  proof -
    have ps: "page_size m' = page_size m" using assms(2) by (simp add: same_arena_def)
    have "total (xs @ old @ ys) = page_size m" "\<forall>c \<in> set (xs @ old @ ys). chunk_ok c"
      by (rule o(3), simp) (intro ballI, rule o(4) [of "xs @ old @ ys"], simp)
    then have "total (xs @ new @ ys) = page_size m'" "\<forall>c \<in> set (xs @ new @ ys). chunk_ok c"
      using assms(3,4) ps by auto
    moreover have "\<forall>p \<in> set pre \<union> set post. total p = page_size m' \<and> (\<forall>c \<in> set p. chunk_ok c)"
      unfolding ps using o(3,4) by (intro ballI conjI) auto
    ultimately show ?thesis by simp
  qed
  ultimately show ?thesis
    using o(2) assms(2,5-8) unfolding mem_ok_def by (simp add: same_arena_def)
qed

text \<open>The sizes of the blocks in the table are those of the layout.\<close>

lemma fb_inv_layout:
  assumes "fb_inv f fb" and "fb_blocks fb \<subseteq> free_addrs a bs" and "fb_blocks fb \<subseteq> free_addrs a bs'"
    and "rep h a l bs" and "rep h' a l bs'" and "\<And>b. f b = b_size (h b)"
    and "\<And>b s s'. b \<in> fb_blocks fb \<Longrightarrow> (b, s, False) \<in> set (layout a bs) \<Longrightarrow> (b, s', False) \<in> set (layout a bs') \<Longrightarrow> s = s'"
  shows "fb_inv (\<lambda>b. b_size (h' b)) fb"
proof (rule fb_inv_cong [OF assms(1)], rule ballI)
  fix b assume b: "b \<in> fb_blocks fb"
  obtain s s' where s: "(b, s, False) \<in> set (layout a bs)" "(b, s', False) \<in> set (layout a bs')"
    using assms(2,3) b unfolding free_addrs_def by blast
  then have "b_size (h b) = s" "b_size (h' b) = s'" using rep_layout assms(4,5) by blast+
  then show "b_size (h' b) = f b" using assms(6) assms(7) [OF b s] by simp
qed

text \<open>A step at one place: the blocks before and after it keep their sizes.\<close>

lemma fb_inv_around:
  assumes "fb_inv (size_at m) fb" and "fb_blocks fb \<subseteq> free_addrs a X \<union> free_addrs c Y"
    and "rep (m_blocks m) a l X" and "rep (m_blocks m') a l X"
    and "rep (m_blocks m) c l1 Y" and "rep (m_blocks m') c l2 Y"
  shows "fb_inv (size_at m') fb"
proof (rule fb_inv_cong [OF assms(1)], rule ballI)
  fix b assume "b \<in> fb_blocks fb"
  then obtain s where "(b, s, False) \<in> set (layout a X) \<or> (b, s, False) \<in> set (layout c Y)"
    using assms(2) unfolding free_addrs_def by blast
  then show "size_at m' b = size_at m b"
    unfolding size_at_def using rep_layout assms(3-6) by metis
qed

lemma mem_ok_focus:
  assumes ok: "mem_ok E m (pre @ (xs @ bs @ ys) # post)"
    and blk: "blk = m_arena m + length pre * page_size m + total xs"
  shows "rep (m_blocks m) (m_arena m) 0 (concat pre @ xs)"
    and "rep (m_blocks m) blk (last_off 0 (concat pre @ xs)) bs"
    and "rep (m_blocks m) (blk + total bs) (last_off (last_off 0 (concat pre @ xs)) bs) (ys @ concat post)"
    and "fb_blocks (m_free_blocks m)
      = free_addrs (m_arena m) (concat pre @ xs) \<union> free_addrs blk bs \<union> free_addrs (blk + total bs) (ys @ concat post) - E"
    and "m_arena m + total (concat pre @ xs) = blk"
proof -
  note o = mem_okD [OF ok]
  have "total (concat pre) = length pre * page_size m" using o(3) by (intro total_concat) simp
  then show b: "m_arena m + total (concat pre @ xs) = blk" using blk by simp
  have c: "concat (pre @ (xs @ bs @ ys) # post) = (concat pre @ xs) @ bs @ (ys @ concat post)" by simp
  show "rep (m_blocks m) (m_arena m) 0 (concat pre @ xs)"
    and "rep (m_blocks m) blk (last_off 0 (concat pre @ xs)) bs"
    and "rep (m_blocks m) (blk + total bs) (last_off (last_off 0 (concat pre @ xs)) bs) (ys @ concat post)"
    using o(5) unfolding c rep_append b by blast+
  show "fb_blocks (m_free_blocks m)
      = free_addrs (m_arena m) (concat pre @ xs) \<union> free_addrs blk bs \<union> free_addrs (blk + total bs) (ys @ concat post) - E"
    unfolding o(7) c free_addrs_append [of _ "concat pre @ xs"] free_addrs_append [of _ bs] b by blast
qed

lemma rep_set_flag:
  assumes "rep h a l (xs @ (s, u) # ys)" and "blk = a + total xs"
  shows "rep (set_used blk h) a l (xs @ (s, True) # ys)" and "rep (set_free blk h) a l (xs @ (s, False) # ys)"
proof -
  have r: "rep h a l xs" "rep h (blk + s + 8) (s + 8) ys" "h blk = \<lparr>b_size = s, b_used = u, b_left = last_off l xs\<rparr>"
    using assms by simp_all
  show "rep (set_used blk h) a l (xs @ (s, True) # ys)"
  proof (rule rep_middle [OF _ assms(2)])
    show "rep (set_used blk h) a l xs" by (rule rep_cong [OF r(1)]) (auto simp: set_used_def assms(2))
    show "rep (set_used blk h) (blk + s + 8) (s + 8) ys" by (rule rep_cong [OF r(2)]) (auto simp: set_used_def)
  qed (simp_all add: set_used_def r(3))
  show "rep (set_free blk h) a l (xs @ (s, False) # ys)"
  proof (rule rep_middle [OF _ assms(2)])
    show "rep (set_free blk h) a l xs" by (rule rep_cong [OF r(1)]) (auto simp: set_free_def assms(2))
    show "rep (set_free blk h) (blk + s + 8) (s + 8) ys" by (rule rep_cong [OF r(2)]) (auto simp: set_free_def)
  qed (simp_all add: set_free_def r(3))
qed

text \<open>Changing one block in place, with the table of free blocks as it is.\<close>

lemma mem_ok_one:
  assumes ok: "mem_ok E m (pre @ (xs @ bs @ ys) # post)"
    and blk: "blk = m_arena m + length pre * page_size m + total xs"
    and m': "same_arena m m'" "m_free_blocks m' = m_free_blocks m"
    and new: "total new = total bs" "\<forall>c \<in> set new. chunk_ok c"
    and rep: "rep (m_blocks m') (m_arena m) 0 (concat pre @ xs @ new @ ys @ concat post)"
    and E: "free_addrs blk bs \<subseteq> E" "free_addrs blk new \<subseteq> E'"
      "\<forall>b \<in> E \<union> E'. blk \<le> b \<and> b < blk + total bs"
  shows "mem_ok E' m' (pre @ (xs @ new @ ys) # post)"
proof (rule mem_ok_replace [OF ok m'(1) new])
  note f = mem_ok_focus [OF ok blk] and o = mem_okD [OF ok]
  let ?X = "concat pre @ xs" and ?Y = "ys @ concat post"
  show "rep (m_blocks m') (m_arena m) 0 (concat (pre @ (xs @ new @ ys) # post))" using rep by simp
  have out: "free_addrs (m_arena m) ?X \<inter> (E \<union> E') = {}" "free_addrs (blk + total bs) ?Y \<inter> (E \<union> E') = {}"
  proof -
    have "b \<notin> E \<union> E'" if "b \<in> free_addrs (m_arena m) ?X" for b
    proof -
      have "\<not> blk \<le> b" using free_addrs_bounds [OF that] f(5) by linarith
      then show ?thesis using E(3) by blast
    qed
    moreover have "b \<notin> E \<union> E'" if "b \<in> free_addrs (blk + total bs) ?Y" for b
    proof -
      have "\<not> b < blk + total bs" using free_addrs_bounds [OF that] by linarith
      then show ?thesis using E(3) by blast
    qed
    ultimately show "free_addrs (m_arena m) ?X \<inter> (E \<union> E') = {}" "free_addrs (blk + total bs) ?Y \<inter> (E \<union> E') = {}"
      by blast+
  qed
  have fb: "fb_blocks (m_free_blocks m) = free_addrs (m_arena m) ?X \<union> free_addrs (blk + total bs) ?Y"
    unfolding f(4) using E(1) out by blast
  have c: "concat (pre @ (xs @ new @ ys) # post) = ?X @ new @ ?Y" by simp
  have "rep (m_blocks m') (m_arena m) 0 (?X @ new @ ?Y)" using rep by simp
  then have r: "rep (m_blocks m') (m_arena m) 0 ?X" "rep (m_blocks m') (blk + total bs) (last_off (last_off 0 ?X) new) ?Y"
    unfolding rep_append [of _ _ _ ?X] rep_append [of _ _ _ new] f(5) new(1) by blast+
  show "fb_inv (size_at m') (m_free_blocks m')"
    unfolding m'(2) by (rule fb_inv_around [OF o(6) _ f(1) r(1) f(3) r(2)]) (simp add: fb)
  show "fb_blocks (m_free_blocks m') = free_addrs (m_arena m) (concat (pre @ (xs @ new @ ys) # post)) - E'"
    unfolding m'(2) fb c free_addrs_append [of _ ?X] free_addrs_append [of _ new] f(5) new(1) using E(2) out by blast
qed (simp add: m'(2))

text \<open>Putting a block of the layout that is not in the table into it, and taking one out.\<close>

lemma mem_ok_put:
  assumes ok: "mem_ok E m pgs" and "b \<in> free_addrs (m_arena m) (concat pgs)" and "b \<in> E"
  shows "mem_ok (E - {b}) (put_free b m) pgs" and "same_arena m (put_free b m)"
    and "m_blocks (put_free b m) = m_blocks m" and "m_stats (put_free b m) = m_stats m"
proof -
  note o = mem_okD [OF ok]
  obtain s where s: "(b, s, False) \<in> set (layout (m_arena m) (concat pgs))" using assms(2) by (auto simp: free_addrs_def)
  obtain pre xs ys post where l: "pgs = pre @ (xs @ (s, False) # ys) # post"
    "b = m_arena m + length pre * page_size m + total xs" by (rule locate [OF ok s])
  have "size_at m b = s" using rep_layout [OF o(5) s] by (simp add: size_at_def)
  moreover have "total (xs @ (s, False) # ys) = page_size m" by (rule o(3)) (simp add: l(1))
  ultimately have "size_at m b < 2 ^ last_power_of_2 (m_free_blocks m)"
    using geom_facts(1) [OF o(1)] geomD(9) [OF o(1)] by simp
  note p = put_block_spec [OF o(6) this]
  have b: "b \<notin> fb_blocks (m_free_blocks m)" using o(7) assms(3) by simp
  have sz: "size_at (put_free b m) = size_at m" by (simp add: size_at_def put_free_def fun_eq_iff)
  show "mem_ok (E - {b}) (put_free b m) pgs"
    using ok p(1,2,3) [OF b] assms(2) unfolding mem_ok_def geom_def sz by (auto simp: put_free_def)
qed (simp_all add: put_free_def same_arena_def)

lemma mem_ok_remove:
  assumes ok: "mem_ok E m pgs"
  shows "mem_ok (insert b E) (remove_free b m) pgs" and "same_arena m (remove_free b m)"
    and "m_blocks (remove_free b m) = m_blocks m" and "m_stats (remove_free b m) = m_stats m"
proof -
  note o = mem_okD [OF ok]
  note p = remove_block_spec [OF o(6), of b]
  have sz: "size_at (remove_free b m) = size_at m" by (simp add: size_at_def remove_free_def fun_eq_iff)
  show "mem_ok (insert b E) (remove_free b m) pgs"
    using ok p unfolding mem_ok_def geom_def sz by (auto simp: remove_free_def)
qed (simp_all add: remove_free_def same_arena_def)

text \<open>The statistics do not matter.\<close>

lemma mem_ok_stats [simp]:
  "mem_ok E (m\<lparr>m_stats := st\<rparr>) pgs = mem_ok E m pgs" "mem_ok E (incr_stat n d m) pgs = mem_ok E m pgs"
  "mem_ok E (decr_stat n d m) pgs = mem_ok E m pgs"
  by (simp_all add: mem_ok_def geom_def size_at_def [abs_def] incr_stat_def decr_stat_def)

lemma stat_simps [simp]:
  "arena_size (incr_stat n d m) = arena_size m" "page_size (incr_stat n d m) = page_size m"
  "m_arena (incr_stat n d m) = m_arena m" "m_blocks (incr_stat n d m) = m_blocks m"
  "m_pages (incr_stat n d m) = m_pages m" "m_free_blocks (incr_stat n d m) = m_free_blocks m"
  "m_stats (incr_stat n d m) = stat_incr n (of_nat d) (m_stats m)"
  "arena_size (decr_stat n d m) = arena_size m" "page_size (decr_stat n d m) = page_size m"
  "m_arena (decr_stat n d m) = m_arena m" "m_blocks (decr_stat n d m) = m_blocks m"
  "m_pages (decr_stat n d m) = m_pages m" "m_free_blocks (decr_stat n d m) = m_free_blocks m"
  "m_stats (decr_stat n d m) = stat_decr n (of_nat d) (m_stats m)"
  by (simp_all add: incr_stat_def decr_stat_def)

lemma size_at_stats [simp]:
  "size_at (incr_stat n d m) = size_at m" "size_at (decr_stat n d m) = size_at m"
  by (simp_all add: size_at_def [abs_def])

section \<open>Checking a block out\<close>

lemma mem_ok_used:
  assumes ok: "mem_ok {blk} m (pre @ (xs @ (s, False) # ys) # post)"
    and blk: "blk = m_arena m + length pre * page_size m + total xs"
  shows "mem_ok {} (m\<lparr>m_blocks := set_used blk (m_blocks m)\<rparr>) (pre @ (xs @ (s, True) # ys) # post)"
proof -
  have ok': "mem_ok {blk} m (pre @ (xs @ [(s, False)] @ ys) # post)" using ok by simp
  note f = mem_ok_focus [OF ok' blk] and o = mem_okD [OF ok]
  have "chunk_ok (s, False)" by (rule o(4) [of "xs @ (s, False) # ys"]) simp_all
  moreover have "rep (m_blocks m) (m_arena m) 0 ((concat pre @ xs) @ (s, False) # ys @ concat post)" using o(5) by simp
  then have "rep (set_used blk (m_blocks m)) (m_arena m) 0 ((concat pre @ xs) @ (s, True) # ys @ concat post)"
    by (rule rep_set_flag(1)) (simp only: f(5))
  ultimately have "mem_ok {} (m\<lparr>m_blocks := set_used blk (m_blocks m)\<rparr>) (pre @ (xs @ [(s, True)] @ ys) # post)"
    by (intro mem_ok_one [OF ok' blk]) (auto simp: same_arena_def chunk_ok_def)
  then show ?thesis by simp
qed

lemma mem_ok_split:
  assumes ok: "mem_ok {blk} m (pre @ (xs @ (s, False) # ys) # post)"
    and blk: "blk = m_arena m + length pre * page_size m + total xs" and n: "n < 2 ^ 31"
    and ns: "ns = split_size blk n" and sp: "ns < s \<and> 64 \<le> s - ns"
  obtains h where "block_split (m_pages m) (m_blocks m) blk n = (Some (blk + ns + 8), h)"
    and "mem_ok {blk, blk + ns + 8} (m\<lparr>m_blocks := h\<rparr>) (pre @ (xs @ (ns, False) # (s - ns - 8, False) # ys) # post)"
proof -
  have ok': "mem_ok {blk} m (pre @ (xs @ [(s, False)] @ ys) # post)" using ok by simp
  note f = mem_ok_focus [OF ok' blk] and o = mem_okD [OF ok] and b = block_facts [OF ok blk]
  let ?X = "concat pre @ xs" and ?Y = "ys @ concat post"
  have r: "rep (m_blocks m) (m_arena m) 0 (?X @ (s, False) # ?Y)" using o(5) by simp
  have e: "arena_end (m_pages m) = m_arena m + total (?X @ (s, False) # ?Y)" using b(7) by simp
  obtain h where h: "block_split (m_pages m) (m_blocks m) blk n = (Some (blk + ns + 8), h)"
      "rep h (m_arena m) 0 (?X @ (ns, False) # (s - ns - 8, False) # ?Y)"
    using block_split_spec [OF r e f(5) [symmetric] b(2) ns] sp by auto
  have "chunk_ok (s, False)" by (rule o(4) [of "xs @ (s, False) # ys"]) simp_all
  then have s: "8 dvd s" by (simp add: chunk_ok_def)
  have "blk + n + 16 < 2 ^ 63" using b(6) geomD(8) [OF o(1)] n by simp
  note sz = split_size_eq [OF b(3) this n, folded ns]
  have "mem_ok {blk, blk + ns + 8} (m\<lparr>m_blocks := h\<rparr>) (pre @ (xs @ [(ns, False), (s - ns - 8, False)] @ ys) # post)"
  proof (rule mem_ok_one [OF ok' blk])
    show "\<forall>c \<in> set [(ns, False), (s - ns - 8, False)]. chunk_ok c"
      using sz(2,3) s sp by (auto simp: chunk_ok_def)
    show "rep (m_blocks (m\<lparr>m_blocks := h\<rparr>)) (m_arena m) 0
        (concat pre @ xs @ [(ns, False), (s - ns - 8, False)] @ ys @ concat post)" using h(2) by simp
  qed (use sp in \<open>auto simp: same_arena_def\<close>)
  with h(1) show ?thesis using that by simp
qed

text \<open>
  The checked-out block has the requested size when it had; what is left of it is a free block again.
\<close>

lemma checkout_spec:
  assumes ok: "mem_ok {blk} m (pre @ (xs @ (s, False) # ys) # post)"
    and blk: "blk = m_arena m + length pre * page_size m + total xs" and n: "n < 2 ^ 31"
  obtains m' s' rest where "checkout m blk n = (blk + 8, m')"
    and "mem_ok {} m' (pre @ (xs @ (s', True) # rest @ ys) # post)" and "same_arena m m'"
    and "m_stats m' = stat_incr mem_used_memory (of_nat (s' + 8)) (m_stats m)"
    and "s' + total rest = s" and "\<forall>c \<in> set rest. \<not> snd c" and "n \<le> s \<longrightarrow> n \<le> s'"
    and "s' = (if split_size blk n < s \<and> 64 \<le> s - split_size blk n then split_size blk n else s)"
proof -
  note b = block_facts [OF ok blk] and o = mem_okD [OF ok]
  define ns where "ns = split_size blk n"
  have "blk + n + 16 < 2 ^ 63" using b(6) geomD(8) [OF o(1)] n by simp
  note sz = split_size_eq [OF b(3) this n, folded ns_def]
  show ?thesis
  proof (cases "ns < s \<and> 64 \<le> s - ns")
    case True
    obtain h where h: "block_split (m_pages m) (m_blocks m) blk n = (Some (blk + ns + 8), h)"
      and ok1: "mem_ok {blk, blk + ns + 8} (m\<lparr>m_blocks := h\<rparr>) (pre @ (xs @ (ns, False) # (s - ns - 8, False) # ys) # post)"
      by (rule mem_ok_split [OF ok blk n ns_def True])
    let ?m1 = "m\<lparr>m_blocks := h\<rparr>" and ?l = "blk + ns + 8"
    let ?m2 = "put_free ?l ?m1"
    have l: "?l \<in> free_addrs (m_arena ?m1) (concat (pre @ (xs @ (ns, False) # (s - ns - 8, False) # ys) # post))"
      using b(8) by (simp add: add.assoc)
    have d: "{blk, ?l} - {?l} = {blk}" and lE: "?l \<in> {blk, ?l}" by auto
    note p = mem_ok_put [OF ok1 l lE, unfolded d]
    have ar: "m_arena ?m2 = m_arena m" "page_size ?m2 = page_size m" using p(2) by (simp_all add: same_arena_def)
    have ok3: "mem_ok {} (?m2\<lparr>m_blocks := set_used blk (m_blocks ?m2)\<rparr>)
        (pre @ (xs @ (ns, True) # (s - ns - 8, False) # ys) # post)"
      by (rule mem_ok_used [OF p(1)]) (simp only: ar, rule blk)
    let ?m3 = "?m2\<lparr>m_blocks := set_used blk (m_blocks ?m2)\<rparr>"
    have "b_size (m_blocks ?m3 blk) = ns"
      using mem_okD(5) [OF ok3] b(8) ar by (simp add: add.assoc)
    then have "checkout m blk n = (blk + 8, incr_stat mem_used_memory (ns + 8) ?m3)"
      unfolding checkout_def h by (simp add: Let_def size_with_header_def header_size_def block_memory_def)
    then show ?thesis
      by (rule that [where s' = ns and rest = "[(s - ns - 8, False)]"])
        (use ok3 conjunct1 [OF True] conjunct2 [OF True] sz(1) p(2,4) in \<open>simp_all add: same_arena_def ns_def [symmetric]\<close>)
  next
    case False
    have "rep (m_blocks m) (m_arena m) 0 ((concat pre @ xs) @ (s, False) # ys @ concat post)" using o(5) by simp
    from block_split_spec [OF this _ b(8) [symmetric] b(2) ns_def, of "m_pages m"] b(7) False
    have h: "block_split (m_pages m) (m_blocks m) blk n = (None, m_blocks m)" by (simp add: if_not_P)
    let ?m3 = "m\<lparr>m_blocks := set_used blk (m_blocks m)\<rparr>"
    note ok3 = mem_ok_used [OF ok blk]
    have "b_size (m_blocks ?m3 blk) = s"
      using mem_okD(5) [OF ok3] b(8) by (simp add: add.assoc)
    then have "checkout m blk n = (blk + 8, incr_stat mem_used_memory (s + 8) ?m3)"
      unfolding checkout_def h by (simp add: Let_def size_with_header_def header_size_def block_memory_def)
    then show ?thesis
      by (rule that [where s' = s and rest = "[]"])
        (use ok3 False in \<open>auto simp: same_arena_def ns_def [symmetric]\<close>)
  qed
qed

section \<open>Merging free neighbours\<close>

lemma mem_ok_merge:
  assumes ok: "mem_ok {right, blk} m (pre @ (xs @ (s, False) # (t, False) # ys) # post)"
    and blk: "blk = m_arena m + length pre * page_size m + total xs" and right: "right = blk + s + 8"
    and E: "E = {blk}"
  shows "mem_ok E (m\<lparr>m_blocks := block_merge (m_pages m) (m_blocks m) blk right\<rparr>) (pre @ (xs @ (s + t + 8, False) # ys) # post)"
proof -
  have ok': "mem_ok {right, blk} m (pre @ (xs @ [(s, False), (t, False)] @ ys) # post)" using ok by simp
  note f = mem_ok_focus [OF ok' blk] and o = mem_okD [OF ok] and b = block_facts [OF ok blk]
  let ?X = "concat pre @ xs" and ?Y = "ys @ concat post" and ?page = "xs @ (s, False) # (t, False) # ys"
  have r: "rep (m_blocks m) (m_arena m) 0 (?X @ (s, False) # (t, False) # ?Y)" using o(5) by simp
  have e: "arena_end (m_pages m) = m_arena m + total (?X @ (s, False) # (t, False) # ?Y)" using b(7) by simp
  have "total ?page = page_size m" by (rule o(3)) simp
  then have lt: "s + t + 8 < 2 ^ 31" using geom_facts(3) [OF o(1)] by simp
  have "chunk_ok (s, False)" "chunk_ok (t, False)" by (rule o(4) [of ?page]; simp)+
  then have c: "chunk_ok (s + t + 8, False)" by (simp add: chunk_ok_def)
  have "mem_ok E (m\<lparr>m_blocks := block_merge (m_pages m) (m_blocks m) blk right\<rparr>) (pre @ (xs @ [(s + t + 8, False)] @ ys) # post)"
  proof (rule mem_ok_one [OF ok' blk])
    show "rep (m_blocks (m\<lparr>m_blocks := block_merge (m_pages m) (m_blocks m) blk right\<rparr>)) (m_arena m) 0
        (concat pre @ xs @ [(s + t + 8, False)] @ ys @ concat post)"
      using block_merge_spec [OF r e f(5) [symmetric] right lt] by simp
  qed (use c right E in \<open>auto simp: same_arena_def\<close>)
  then show ?thesis by simp
qed

lemma merge_right_loop_spec:
  assumes "mem_ok {blk} m (pre @ (xs @ (s, False) # ys) # post)"
    and "blk = m_arena m + length pre * page_size m + total xs"
  shows "\<exists>m' s' fs ys'. merge_right_loop (m_arena m + length pre * page_size m + page_size m) m blk = Some (blk, m')
    \<and> mem_ok {blk} m' (pre @ (xs @ (s', False) # ys') # post) \<and> same_arena m m' \<and> m_stats m' = m_stats m
    \<and> s' = s + total fs \<and> ys = fs @ ys' \<and> (\<forall>c \<in> set fs. \<not> snd c) \<and> (ys' \<noteq> [] \<longrightarrow> snd (hd ys'))"
  using assms
proof (induction ys arbitrary: m s)
  case Nil
  note b = block_facts [OF Nil] and o = mem_okD [OF Nil(1)]
  have "m_blocks m blk = \<lparr>b_size = s, b_used = False, b_left = last_off 0 (concat pre @ xs)\<rparr>"
    using mem_ok_focus(2) [of "{blk}" m pre xs "[(s, False)]" "[]" post blk] Nil by simp
  then have "right_adjacent (m_blocks m) blk = m_arena m + length pre * page_size m + page_size m"
    using b(5) by (simp add: right_adjacent_def size_with_header_def header_size_def)
  then have "merge_right_loop (m_arena m + length pre * page_size m + page_size m) m blk = Some (blk, m)"
    by (subst merge_right_loop.simps) (simp add: Let_def)
  then show ?case using Nil by (intro exI [of _ m] exI [of _ s] exI [of _ "[]"]) simp
next
  case (Cons c ys)
  obtain t u where c: "c = (t, u)" by fastforce
  note b = block_facts [OF Cons.prems] and o = mem_okD [OF Cons.prems(1)]
  let ?e = "m_arena m + length pre * page_size m + page_size m" and ?r = "blk + s + 8"
  have h: "m_blocks m blk = \<lparr>b_size = s, b_used = False, b_left = last_off 0 (concat pre @ xs)\<rparr>"
    "m_blocks m ?r = \<lparr>b_size = t, b_used = u, b_left = s + 8\<rparr>"
    using mem_ok_focus(2) [of "{blk}" m pre xs "[(s, False), (t, u)]" ys post blk] Cons.prems c by simp_all
  then have ra: "right_adjacent (m_blocks m) blk = ?r"
    by (simp add: right_adjacent_def size_with_header_def header_size_def)
  have lt: "?r < ?e" using b(5) c by simp
  show ?case
  proof (cases u)
    case True
    then have "merge_right_loop ?e m blk = Some (blk, m)"
      by (subst merge_right_loop.simps) (simp add: Let_def ra h)
    then show ?thesis using Cons.prems c True by (intro exI [of _ m] exI [of _ s] exI [of _ "[]"] exI [of _ "c # ys"]) simp
  next
    case False
    let ?m1 = "remove_free ?r m"
    let ?m2 = "?m1\<lparr>m_blocks := block_merge (m_pages ?m1) (m_blocks ?m1) blk ?r\<rparr>"
    have step: "merge_right_loop ?e m blk = merge_right_loop ?e ?m2 blk"
      using False lt by (subst merge_right_loop.simps) (simp add: Let_def ra h)
    have "mem_ok {blk} m (pre @ (xs @ (s, False) # (t, False) # ys) # post)" using Cons.prems(1) c False by simp
    note r = mem_ok_remove [OF this, of ?r]
    have ar: "m_arena ?m1 = m_arena m" "page_size ?m1 = page_size m" using r(2) by (simp_all add: same_arena_def)
    have ok2: "mem_ok {blk} ?m2 (pre @ (xs @ (s + t + 8, False) # ys) # post)"
      unfolding ar by (rule mem_ok_merge [OF r(1), unfolded ar, OF Cons.prems(2)]) simp_all
    have ar2: "m_arena ?m2 = m_arena m" "page_size ?m2 = page_size m" using ar by simp_all
    have sa: "same_arena m ?m2" "m_stats ?m2 = m_stats m" using r(2,4) by (simp_all add: same_arena_def)
    obtain m' s' fs ys' where "merge_right_loop ?e ?m2 blk = Some (blk, m')"
        "mem_ok {blk} m' (pre @ (xs @ (s', False) # ys') # post)" "same_arena ?m2 m'" "m_stats m' = m_stats ?m2"
        "s' = s + t + 8 + total fs" "ys = fs @ ys'" "\<forall>c \<in> set fs. \<not> snd c" "ys' \<noteq> [] \<longrightarrow> snd (hd ys')"
      using Cons.IH [OF ok2, unfolded ar2, OF Cons.prems(2)] by blast
    then show ?thesis unfolding step using same_arena_trans [OF sa(1)] sa(2) c False
      by (intro exI [of _ m'] exI [of _ s'] exI [of _ "(t, False) # fs"] exI [of _ ys']) simp
  qed
qed

lemma merge_left_loop_spec:
  assumes "mem_ok {blk} m (pre @ (xs @ (s, False) # ys) # post)"
    and "blk = m_arena m + length pre * page_size m + total xs"
  shows "\<exists>blk' m' s' fs xs'. merge_left_loop (m_arena m + length pre * page_size m) m blk = Some (blk', m')
    \<and> blk' = m_arena m + length pre * page_size m + total xs'
    \<and> mem_ok {blk'} m' (pre @ (xs' @ (s', False) # ys) # post) \<and> same_arena m m' \<and> m_stats m' = m_stats m
    \<and> s' = total fs + s \<and> xs = xs' @ fs \<and> (\<forall>c \<in> set fs. \<not> snd c) \<and> (xs' \<noteq> [] \<longrightarrow> snd (last xs'))"
  using assms
proof (induction xs arbitrary: m s blk rule: rev_induct)
  case Nil
  then have "merge_left_loop (m_arena m + length pre * page_size m) m blk = Some (blk, m)"
    by (subst merge_left_loop.simps) (simp add: Let_def)
  then show ?case using Nil by (intro exI [of _ blk] exI [of _ m] exI [of _ s] exI [of _ "[]"]) simp
next
  case (snoc c xs)
  obtain t u where c: "c = (t, u)" by fastforce
  let ?b = "m_arena m + length pre * page_size m"
  let ?l = "?b + total xs"
  have h: "m_blocks m ?l = \<lparr>b_size = t, b_used = u, b_left = last_off 0 (concat pre @ xs)\<rparr>"
    "m_blocks m (?l + t + 8) = \<lparr>b_size = s, b_used = False, b_left = t + 8\<rparr>"
    using mem_ok_focus(2) [of "{blk}" m pre xs "[(t, u), (s, False)]" ys post ?l] snoc.prems c by simp_all
  have blk: "blk = ?l + t + 8" using snoc.prems(2) c by simp
  then have la: "left_adjacent (m_blocks m) blk = ?l" using h by (simp add: left_adjacent_def)
  have lt: "?b < blk" using blk by simp
  show ?case
  proof (cases u)
    case True
    then have "merge_left_loop ?b m blk = Some (blk, m)"
      by (subst merge_left_loop.simps) (simp add: Let_def la h)
    then show ?thesis using snoc.prems c True
      by (intro exI [of _ blk] exI [of _ m] exI [of _ s] exI [of _ "[]"] exI [of _ "xs @ [c]"]) simp
  next
    case False
    let ?m1 = "remove_free ?l m"
    let ?m2 = "?m1\<lparr>m_blocks := block_merge (m_pages ?m1) (m_blocks ?m1) ?l blk\<rparr>"
    have step: "merge_left_loop ?b m blk = merge_left_loop ?b ?m2 ?l"
      using False lt by (subst merge_left_loop.simps) (simp add: Let_def la h)
    have "mem_ok {blk} m (pre @ (xs @ (t, False) # (s, False) # ys) # post)" using snoc.prems(1) c False by simp
    note r = mem_ok_remove [OF this, of ?l]
    have r1: "mem_ok {blk, ?l} ?m1 (pre @ (xs @ (t, False) # (s, False) # ys) # post)"
      using r(1) by (simp add: insert_commute)
    have ar: "m_arena ?m1 = m_arena m" "page_size ?m1 = page_size m" using r(2) by (simp_all add: same_arena_def)
    have ok2: "mem_ok {?l} ?m2 (pre @ (xs @ (t + s + 8, False) # ys) # post)"
      by (rule mem_ok_merge [OF r1]) (simp_all only: ar blk)
    have ar2: "m_arena ?m2 = m_arena m" "page_size ?m2 = page_size m" using ar by simp_all
    have sa: "same_arena m ?m2" "m_stats ?m2 = m_stats m" using r(2,4) by (simp_all add: same_arena_def)
    obtain blk' m' s' fs xs' where "merge_left_loop ?b ?m2 ?l = Some (blk', m')" "blk' = ?b + total xs'"
        "mem_ok {blk'} m' (pre @ (xs' @ (s', False) # ys) # post)" "same_arena ?m2 m'" "m_stats m' = m_stats ?m2"
        "s' = total fs + (t + s + 8)" "xs = xs' @ fs" "\<forall>c \<in> set fs. \<not> snd c" "xs' \<noteq> [] \<longrightarrow> snd (last xs')"
      using snoc.IH [OF ok2, unfolded ar2, OF refl] by blast
    then show ?thesis unfolding step using same_arena_trans [OF sa(1)] sa(2) c False
      by (intro exI [of _ blk'] exI [of _ m'] exI [of _ s'] exI [of _ "fs @ [(t, False)]"] exI [of _ xs']) simp
  qed
qed

end
