(* ===== verification/Memalloc_Evict.thy ===== *)
theory Memalloc_Evict
  imports Memalloc_Ops
begin

text \<open>
  Clearing a page of the arena: the loop of \<^verbatim>\<open>alloc_or_evict\<close> over the blocks of the least recently
  used page, and the page as one free block afterwards.
\<close>

text \<open>The user's pointers to the used blocks, in the order of their addresses.\<close>

definition used_ptrs :: "nat \<Rightarrow> chunk list \<Rightarrow> nat list" where
  "used_ptrs a bs = map (\<lambda>(b, s, u). block_memory b) (filter (\<lambda>(b, s, u). u) (layout a bs))"

lemma used_ptrs_simps [simp]:
  "used_ptrs a [] = []"
  "used_ptrs a ((s, u) # bs) = (if u then [a + 8] else []) @ used_ptrs (a + s + 8) bs"
  by (simp_all add: used_ptrs_def block_memory_def header_size_def)

lemma set_used_ptrs: "set (used_ptrs a bs) = fst ` used_mem a bs"
  by (force simp: used_ptrs_def used_mem_def)

lemma used_stat_simps [simp]:
  "used_stat (incr_stat mem_used_memory d m) = min (used_stat m + d mod 2 ^ 64) (2 ^ 64 - 1)"
  "used_stat (decr_stat mem_used_memory d m) = used_stat m - d mod 2 ^ 64"
  "n \<noteq> mem_used_memory \<Longrightarrow> used_stat (incr_stat n d m) = used_stat m"
  "n \<noteq> mem_used_memory \<Longrightarrow> used_stat (decr_stat n d m) = used_stat m"
  by (simp_all add: used_stat_def stat_incr_def stat_decr_def unat_no_overflow_increment
      unat_no_overflow_decrement unat_of_nat)

lemma used_stat_remove [simp]: "used_stat (remove_free b m) = used_stat m"
  by (simp add: used_stat_def remove_free_def)

lemma evict_loop_spec:
  assumes "mem_ok E m (pre @ (xs @ ys) # post)" and "blk = m_arena m + length pre * page_size m + total xs"
    and "ys \<noteq> []"
  shows "\<exists>m'. evict_loop (m_arena m + length pre * page_size m + page_size m) f m s blk
      = Some (m', fold f (used_ptrs blk ys) s)
    \<and> mem_ok (E \<union> free_addrs blk ys) m' (pre @ (xs @ ys) # post) \<and> same_arena m m' \<and> m_blocks m' = m_blocks m
    \<and> used_stat m' = used_stat m - used_total ys"
  using assms
proof (induction ys arbitrary: E m xs s blk)
  case (Cons c ys)
  obtain t u where c: "c = (t, u)" by fastforce
  have ok: "mem_ok E m (pre @ (xs @ (t, u) # ys) # post)" using Cons.prems(1) c by simp
  note b = block_facts [OF ok Cons.prems(2)]
  let ?e = "m_arena m + length pre * page_size m + page_size m" and ?n = "blk + t + 8"
  have "m_blocks m blk = \<lparr>b_size = t, b_used = u, b_left = last_off 0 (concat pre @ xs)\<rparr>"
    using mem_ok_focus(2) [of E m pre xs "[(t, u)]" ys post blk] ok Cons.prems(2) by simp
  then have h: "b_used (m_blocks m blk) = u" "size_with_header (m_blocks m) blk = t + 8"
    and ra: "right_adjacent (m_blocks m) blk = ?n"
    by (simp_all add: right_adjacent_def size_with_header_def header_size_def)
  define m1 where "m1 = (if u then decr_stat mem_used_memory (t + 8) (incr_stat mem_evictions 1 m) else remove_free blk m)"
  define s1 where "s1 = (if u then f (blk + 8) s else s)"
  have m1: "mem_ok (E \<union> free_addrs blk [(t, u)]) m1 (pre @ ((xs @ [(t, u)]) @ ys) # post)" "same_arena m m1"
      "m_blocks m1 = m_blocks m" "used_stat m1 = used_stat m - used_total [(t, u)]"
    using ok mem_ok_remove [OF ok, of blk] b(2) by (cases u; simp add: m1_def same_arena_def)+
  have ar: "m_arena m1 = m_arena m" "page_size m1 = page_size m" using m1(2) by (simp_all add: same_arena_def)
  have step: "evict_loop ?e f m s blk = (if ?n < ?e then evict_loop ?e f m1 s1 ?n else Some (m1, s1))"
    by (subst evict_loop.simps) (simp add: h ra m1_def s1_def block_memory_def header_size_def)
  show ?case
  proof (cases "ys = []")
    case True
    then have "\<not> ?n < ?e" using b(5) by simp
    then have "evict_loop ?e f m s blk = Some (m1, fold f (used_ptrs blk (c # ys)) s)"
      unfolding step using True c by (simp add: s1_def)
    then show ?thesis using m1 True c by (intro exI [of _ m1]) simp
  next
    case False
    then obtain t' u' zs where "ys = (t', u') # zs" by (cases ys) auto
    then have lt: "?n < ?e" using b(5) by simp
    have nb: "?n = m_arena m + length pre * page_size m + total (xs @ [(t, u)])" using Cons.prems(2) by simp
    obtain m' where m': "evict_loop ?e f m1 s1 ?n = Some (m', fold f (used_ptrs ?n ys) s1)"
        "mem_ok (E \<union> free_addrs blk [(t, u)] \<union> free_addrs ?n ys) m' (pre @ ((xs @ [(t, u)]) @ ys) # post)"
        "same_arena m1 m'" "m_blocks m' = m_blocks m1" "used_stat m' = used_stat m1 - used_total ys"
      using Cons.IH [OF m1(1), unfolded ar, OF nb False] by blast
    have E: "E \<union> free_addrs blk [(t, u)] \<union> free_addrs ?n ys = E \<union> free_addrs blk (c # ys)" using c by auto
    show ?thesis unfolding step using lt m' m1(3,4) same_arena_trans [OF m1(2)] c E
      by (intro exI [of _ m']) (simp add: s1_def)
  qed
qed simp

text \<open>Pages with the same geometry.\<close>

lemma mem_ok_pages:
  assumes "mem_ok E m pgs" and "pages_inv p" and "arena_begin p = arena_begin (m_pages m)"
    and "pg_size p = pg_size (m_pages m)" and "num_pages p = num_pages (m_pages m)"
  shows "mem_ok E (m\<lparr>m_pages := p\<rparr>) pgs"
proof -
  note o = mem_okD [OF assms(1)] and g = geomD [OF mem_okD(1) [OF assms(1)]]
  have "(2 :: nat) ^ log2_page_size p = 2 ^ log2_page_size (m_pages m)"
    using pages_invD(1) [OF assms(2)] pages_invD(1) [OF g(1)] assms(4) by simp
  then have "log2_page_size p = log2_page_size (m_pages m)" by simp
  with g assms(2-5) have "geom (m\<lparr>m_pages := p\<rparr>)" unfolding geom_def by simp
  with assms(1,5) show ?thesis unfolding mem_ok_def by (simp add: size_at_def [abs_def])
qed

lemma last_off_le: "last_off l bs \<le> max l (total bs)"
  by (induction l bs rule: last_off.induct) auto

lemma page_reset:
  assumes ok: "mem_ok (free_addrs pb page) m (pre @ page # post)" and pb: "pb = m_arena m + length pre * page_size m"
    and pe: "pe = pb + page_size m"
  shows "mem_ok {pb} (m\<lparr>m_blocks := (if pe < m_arena m + arena_size m then set_left pe (page_size m) (m_blocks m)
      else m_blocks m)(pb := block_new (page_size m - 8) (b_left (m_blocks m pb)))\<rparr>)
    (pre @ [(page_size m - 8, False)] # post)" (is "mem_ok _ (m\<lparr>m_blocks := ?h\<rparr>) _")
proof -
  note o = mem_okD [OF ok] and g = geomD [OF mem_okD(1) [OF ok]] and gf = geom_facts [OF mem_okD(1) [OF ok]]
  have tp: "total page = page_size m" by (rule o(3)) simp
  have ok': "mem_ok (free_addrs pb page) m (pre @ ([] @ page @ []) # post)" using ok by simp
  have pb': "pb = m_arena m + length pre * page_size m + total []" using pb by simp
  note f = mem_ok_focus [OF ok' pb', simplified]
  obtain t u zs where page: "page = (t, u) # zs" using tp gf(2) by (cases page) auto
  have bl: "b_left (m_blocks m pb) = last_off 0 (concat pre)" using f(2) page by simp
  have k: "length pre < num_pages (m_pages m)" using o(2) by simp
  have "total (concat pre) = length pre * page_size m" using o(3) by (intro total_concat) simp
  moreover have "length pre * page_size m < arena_size m" unfolding g(6) using k gf(2) by simp
  ultimately have lt: "last_off 0 (concat pre) < 2 ^ 32" using last_off_le [of 0 "concat pre"] g(7) by simp
  have at: "?h pb = \<lparr>b_size = page_size m - 8, b_used = False, b_left = last_off 0 (concat pre)\<rparr>"
    using lt gf(2,3) by (simp add: block_new_def bl)
  have X: "rep ?h (m_arena m) 0 (concat pre)"
    by (rule rep_cong [OF f(1)]) (use f(5) pe in \<open>auto simp: set_left_def\<close>)
  have Y: "rep ?h pe (page_size m) (concat post)"
  proof (cases "concat post")
    case (Cons c cs)
    have "rep (m_blocks m) pe (last_off (last_off 0 (concat pre)) page) (c # cs)" using f(3) Cons tp pe by simp
    then have "rep (set_left pe (page_size m) (m_blocks m)) pe (page_size m) (c # cs)" by (rule rep_set_left)
    moreover have "pe < m_arena m + arena_size m"
    proof -
      obtain q qs where q: "post = q # qs" using Cons by (cases post) auto
      then have "length pre + 2 \<le> num_pages (m_pages m)" using o(2) by simp
      then have "(length pre + 2) * page_size m \<le> arena_size m" unfolding g(6) by (rule mult_le_mono1)
      then show ?thesis using pb pe gf(2) by simp
    qed
    ultimately have r: "rep (set_left pe (page_size m) (m_blocks m)) pe (page_size m) (concat post)"
      and "pe < m_arena m + arena_size m" using Cons by simp_all
    then have "?h b = set_left pe (page_size m) (m_blocks m) b" if "pe \<le> b" for b
      using that pe gf(2) by auto
    then show ?thesis by (intro rep_cong [OF r])
  next
    case Nil
    then show ?thesis by (simp only: rep.simps)
  qed
  have "rep ?h (m_arena m) 0 (concat pre @ (page_size m - 8, False) # concat post)"
  proof (rule rep_middle [OF X f(5) [symmetric] at])
    have "page_size m - 8 + 8 = page_size m" using gf(2) by simp
    then show "rep ?h pe (page_size m - 8 + 8) (concat post)" and "pe = pb + (page_size m - 8) + 8" using Y pe by simp_all
  qed
  moreover have "pb \<le> b \<and> b < pb + page_size m" if "b \<in> free_addrs pb page" for b
    using free_addrs_bounds [OF that] tp by simp
  ultimately have "mem_ok {pb} (m\<lparr>m_blocks := ?h\<rparr>) (pre @ ([] @ [(page_size m - 8, False)] @ []) # post)"
    by (intro mem_ok_one [OF ok' pb'])
      (use tp gf(2,4) in \<open>auto simp: same_arena_def chunk_ok_def\<close>)
  then show ?thesis by simp
qed

end
