(* ===== verification/Memalloc_Correct.thy ===== *)
theory Memalloc_Correct
  imports Memalloc_Evict
begin

text \<open>
  Correctness of the allocator's operations. \<open>mem_inv m A\<close> says that \<open>m\<close> is consistent and that \<open>A\<close> is
  what the user holds, the addresses and sizes of the memory of the used blocks; every operation is
  stated as what it does to \<open>A\<close>.
\<close>

section \<open>Allocation\<close>

definition mem_rep :: "memalloc \<Rightarrow> chunk list list \<Rightarrow> bool" where
  "mem_rep m pgs \<longleftrightarrow> mem_ok {} m pgs \<and> used_stat m = used_total (concat pgs)"

definition mem_inv :: "memalloc \<Rightarrow> (nat \<times> nat) set \<Rightarrow> bool" where
  "mem_inv m A \<longleftrightarrow> (\<exists>pgs. mem_rep m pgs \<and> A = used_mem (m_arena m) (concat pgs))"

definition same_geometry :: "memalloc \<Rightarrow> memalloc \<Rightarrow> bool" where
  "same_geometry m m' \<longleftrightarrow> arena_size m' = arena_size m \<and> page_size m' = page_size m \<and> m_arena m' = m_arena m"

lemma total_le_arena:
  assumes "mem_ok E m pgs"
  shows "total (concat pgs) = arena_size m" and "arena_size m \<le> 2 ^ 32"
proof -
  note o = mem_okD [OF assms]
  have "total (concat pgs) = length pgs * page_size m" using o(3) by (intro total_concat) blast
  then show "total (concat pgs) = arena_size m" using geomD(6) [OF o(1)] o(2) by simp
  show "arena_size m \<le> 2 ^ 32" by (rule geomD(7) [OF o(1)])
qed

text \<open>A block checked out from a consistent state leaves a consistent state.\<close>

lemma checkout_rep:
  assumes ok: "mem_ok {blk} m (pre @ (xs @ (s, False) # ys) # post)"
    and blk: "blk = m_arena m + length pre * page_size m + total xs" and n: "n < 2 ^ 31"
    and st: "used_stat m = used_total (concat (pre @ (xs @ ys) # post))"
  obtains m' s' rest where "checkout m blk n = (blk + 8, m')"
    and "mem_rep m' (pre @ (xs @ (s', True) # rest @ ys) # post)" and "same_arena m m'"
    and "s' + total rest = s" and "\<forall>c \<in> set rest. \<not> snd c" and "n \<le> s \<longrightarrow> n \<le> s'"
    and "8 dvd n \<and> 56 \<le> n \<and> n + 64 \<le> s \<longrightarrow> s' = n"
proof -
  obtain m' s' rest where c: "checkout m blk n = (blk + 8, m')"
      "mem_ok {} m' (pre @ (xs @ (s', True) # rest @ ys) # post)" "same_arena m m'"
      "m_stats m' = stat_incr mem_used_memory (of_nat (s' + 8)) (m_stats m)"
      "s' + total rest = s" "\<forall>c \<in> set rest. \<not> snd c" "n \<le> s \<longrightarrow> n \<le> s'"
      "s' = (if split_size blk n < s \<and> 64 \<le> s - split_size blk n then split_size blk n else s)"
    by (rule checkout_spec [OF ok blk n])
  let ?new = "pre @ (xs @ (s', True) # rest @ ys) # post"
  have "used_total rest = 0" using c(6) by (induction rest) auto
  then have u: "used_total (concat ?new) = used_total (concat (pre @ (xs @ ys) # post)) + (s' + 8)" by simp
  have "used_total (concat ?new) \<le> 2 ^ 32"
    using used_total_le [of "concat ?new"] total_le_arena [OF c(2)] by linarith
  moreover have "used_stat m' = used_stat (incr_stat mem_used_memory (s' + 8) m)"
    using c(4) by (simp add: used_stat_def)
  ultimately have "used_stat m' = used_total (concat ?new)" unfolding u by (simp add: st)
  with c(2) have "mem_rep m' ?new" by (simp add: mem_rep_def)
  moreover have "8 dvd n \<and> 56 \<le> n \<and> n + 64 \<le> s \<longrightarrow> s' = n"
  proof -
    note b = block_facts [OF ok blk] and o = mem_okD [OF ok]
    have "blk + n + 16 < 2 ^ 63" using b(6) geomD(8) [OF o(1)] n by simp
    from split_size_eq(5) [OF b(3) this n] c(8) show ?thesis by auto
  qed
  ultimately show ?thesis using that c by blast
qed

lemma mem_ok_taken:
  assumes "mem_ok {} m pgs" and "fb_inv (size_at m) fb" and "fb_blocks fb = fb_blocks (m_free_blocks m) - E"
    and "last_power_of_2 fb = last_power_of_2 (m_free_blocks m)"
  shows "mem_ok E (m\<lparr>m_free_blocks := fb, m_stats := st\<rparr>) pgs"
  using assms unfolding mem_ok_def geom_def by (simp add: size_at_def [abs_def])

lemma mem_ok_touch: "mem_ok E m pgs \<Longrightarrow> mem_ok E (mem_touch m ptr) pgs"
  unfolding mem_touch_def by (rule mem_ok_pages) (auto intro: pages_touch_inv dest: mem_okD(1) geomD(1))

text \<open>The least recently used page is cleared and its one block checked out.\<close>

lemma evict_page:
  assumes rep: "mem_rep m pgs" and n: "n < page_size m"
  obtains p' m4 m' pre page post s' rest pb
  where "page_to_reuse (m_pages m) = (Some (pb, pb + page_size m), p')"
    and "evict_loop (pb + page_size m) f (m\<lparr>m_pages := p'\<rparr>) s pb = Some (m4, fold f (used_ptrs pb page) s)"
    and "checkout (m4\<lparr>m_blocks := (if pb + page_size m < m_arena m4 + arena_size m4
           then set_left (pb + page_size m) (page_size m4) (m_blocks m4) else m_blocks m4)
           (pb := block_new (page_size m4 - 8) (b_left (m_blocks m pb)))\<rparr>) pb n = (pb + 8, m')"
    and "pgs = pre @ page # post" and "pb = m_arena m + length pre * page_size m"
    and "length pre = last (lru_pages (m_pages m))" and "mem_rep m' (pre @ ((s', True) # rest) # post)"
    and "same_geometry m m'" and "s' + total rest + 8 = page_size m" and "\<forall>c \<in> set rest. \<not> snd c"
    and "n + 8 \<le> page_size m \<longrightarrow> n \<le> s'"
proof -
  have ok: "mem_ok {} m pgs" and st: "used_stat m = used_total (concat pgs)" using rep by (simp_all add: mem_rep_def)
  note o = mem_okD [OF ok] and g = geomD [OF mem_okD(1) [OF ok]] and gf = geom_facts [OF mem_okD(1) [OF ok]]
  obtain k p' where r: "lru_pages (m_pages m) = butlast (lru_pages (m_pages m)) @ [k]" "k < num_pages (m_pages m)"
      "page_to_reuse (m_pages m) = (Some (arena_begin (m_pages m) + k * pg_size (m_pages m),
         arena_begin (m_pages m) + k * pg_size (m_pages m) + pg_size (m_pages m)), p')"
      "pages_inv p'" "arena_begin p' = arena_begin (m_pages m)" "pg_size p' = pg_size (m_pages m)"
      "num_pages p' = num_pages (m_pages m)"
    by (rule page_to_reuse_spec [OF g(1)])
  define m3 where "m3 = m\<lparr>m_pages := p'\<rparr>"
  have ok3: "mem_ok {} m3 pgs" unfolding m3_def by (rule mem_ok_pages [OF ok r(4)]) (simp_all add: r)
  obtain pre page post where p: "pgs = pre @ page # post" "length pre = k"
    using r(2) o(2) by (metis id_take_nth_drop length_take min.absorb4)
  define pb where "pb = m_arena m + k * page_size m"
  have a3: "m_arena m3 = m_arena m" "page_size m3 = page_size m" "arena_size m3 = arena_size m"
    "m_blocks m3 = m_blocks m" "used_stat m3 = used_stat m" by (simp_all add: m3_def used_stat_def)
  have ne: "page \<noteq> []" using mem_okD(3) [OF ok3, of page] p gf(2) a3 by auto
  have pb': "pb = m_arena m + length pre * page_size m + total []" using p(2) by (simp add: pb_def)
  obtain m4 where e: "evict_loop (pb + page_size m) f m3 s pb = Some (m4, fold f (used_ptrs pb page) s)"
      "mem_ok (free_addrs pb page) m4 pgs" "same_arena m3 m4" "m_blocks m4 = m_blocks m"
      "used_stat m4 = used_stat m - used_total page"
    using evict_loop_spec [of "{}" m3 pre "[]" page post pb f s] ok3 pb' ne p a3 by auto
  have a4: "m_arena m4 = m_arena m" "page_size m4 = page_size m" "arena_size m4 = arena_size m"
    using e(3) a3 by (simp_all add: same_arena_def)
  define m5 where "m5 = m4\<lparr>m_blocks := (if pb + page_size m < m_arena m4 + arena_size m4
      then set_left (pb + page_size m) (page_size m4) (m_blocks m4) else m_blocks m4)
      (pb := block_new (page_size m4 - 8) (b_left (m_blocks m pb)))\<rparr>"
  have ok5: "mem_ok {pb} m5 (pre @ ([] @ (page_size m - 8, False) # []) # post)"
    unfolding m5_def append_Nil a4(2) [symmetric] e(4) [symmetric]
    by (rule page_reset [OF e(2) [unfolded p(1)]]) (simp_all add: pb_def p a4)
  have a5: "m_arena m5 = m_arena m" "page_size m5 = page_size m" "arena_size m5 = arena_size m"
    using a4 by (simp_all add: m5_def)
  have u5: "used_stat m5 = used_total (concat (pre @ ([] @ []) # post))"
    using e(5) st p(1) by (simp add: m5_def used_stat_def)
  have n31: "n < 2 ^ 31" using n gf(3) by simp
  obtain m' s' rest where c: "checkout m5 pb n = (pb + 8, m')"
      "mem_rep m' (pre @ ([] @ (s', True) # rest @ []) # post)" "same_arena m5 m'"
      "s' + total rest = page_size m - 8" "\<forall>c \<in> set rest. \<not> snd c" "n \<le> page_size m - 8 \<longrightarrow> n \<le> s'"
    by (rule checkout_rep [OF ok5, unfolded a5, OF pb' n31 u5])
  show ?thesis
    by (rule that [OF _ e(1) [unfolded m3_def] c(1) [unfolded m5_def] p(1)])
      (use r(1,3) g(2,3) p(2) c gf(2) a5 last_snoc [of "butlast (lru_pages (m_pages m))" k] in
        \<open>auto simp: pb_def same_geometry_def same_arena_def\<close>)
qed

lemma alloc_or_evict_cases:
  assumes rep: "mem_rep m pgs" and n: "n < page_size m"
  obtains (found) m' pre xs s0 ys post s' rest blk where
      "alloc_or_evict m n ev f s = Some (Some (blk + 8), m', s)"
      and "pgs = pre @ (xs @ (s0, False) # ys) # post" and "blk = m_arena m + length pre * page_size m + total xs"
      and "mem_rep m' (pre @ (xs @ (s', True) # rest @ ys) # post)" and "same_geometry m m'"
      and "s' + total rest = s0" and "\<forall>c \<in> set rest. \<not> snd c" and "n \<le> s'"
    | (evicted) m' pre page post s' rest pb where ev
      and "alloc_or_evict m n ev f s = Some (Some (pb + 8), m', fold f (used_ptrs pb page) s)"
      and "pgs = pre @ page # post" and "pb = m_arena m + length pre * page_size m"
      and "length pre = last (lru_pages (m_pages m))"
      and "mem_rep m' (pre @ ((s', True) # rest) # post)" and "same_geometry m m'"
      and "s' + total rest + 8 = page_size m" and "\<forall>c \<in> set rest. \<not> snd c"
      and "n + 8 \<le> page_size m \<longrightarrow> n \<le> s'"
    | (none) m' where "\<not> ev" and "alloc_or_evict m n ev f s = Some (None, m', s)" and "mem_rep m' pgs" and "same_geometry m m'"
proof -
  have ok: "mem_ok {} m pgs" and st: "used_stat m = used_total (concat pgs)" using rep by (simp_all add: mem_rep_def)
  note o = mem_okD [OF ok] and g = geomD [OF mem_okD(1) [OF ok]] and gf = geom_facts [OF mem_okD(1) [OF ok]]
  have n31: "n < 2 ^ 31" and nm: "n mod 2 ^ 32 = n" and np: "n < 2 ^ last_power_of_2 (m_free_blocks m)"
    using n gf(1,3) g(9) by simp_all
  define m1 where "m1 = incr_stat mem_total_requested n (incr_stat mem_num_malloc 1 m)"
  have m1: "mem_ok {} m1 pgs" "same_arena m m1" "used_stat m1 = used_stat m" "size_at m1 = size_at m"
      "m_free_blocks m1 = m_free_blocks m"
    using ok by (simp_all add: m1_def same_arena_def)
  note def = alloc_or_evict_def [of m n ev f s, unfolded nm Let_def, folded m1_def, unfolded m1(4,5)]
  from o(6) np show ?thesis
  proof (cases rule: try_get_block_spec [where st = "m_stats m1"])
    case (found blk fb st')
    define m2 where "m2 = m1\<lparr>m_free_blocks := fb, m_stats := st'\<rparr>"
    have "mem_ok {blk} m2 pgs"
      unfolding m2_def by (rule mem_ok_taken [OF m1(1)]) (use found try_get_block_last [OF found(1)] m1(4,5) in simp_all)
    then have ok3: "mem_ok {blk} (mem_touch m2 blk) pgs" by (rule mem_ok_touch)
    have u3: "used_stat (mem_touch m2 blk) = used_stat m"
      using found(6) m1(3) by (simp add: used_stat_def mem_touch_def m2_def)
    obtain s0 where s0: "(blk, s0, False) \<in> set (layout (m_arena m) (concat pgs))"
      using found(3) o(7) by (auto simp: free_addrs_def)
    obtain pre xs ys post where p: "pgs = pre @ (xs @ (s0, False) # ys) # post"
        "blk = m_arena m + length pre * page_size m + total xs" by (rule locate [OF ok s0])
    have le: "n \<le> s0" using found(4) rep_layout [OF o(5) s0] by (simp add: size_at_def)
    have a3: "m_arena (mem_touch m2 blk) = m_arena m" "page_size (mem_touch m2 blk) = page_size m"
        "arena_size (mem_touch m2 blk) = arena_size m"
      using m1(2) by (simp_all add: mem_touch_def m2_def same_arena_def)
    obtain m' s' rest where c: "checkout (mem_touch m2 blk) blk n = (blk + 8, m')"
        "mem_rep m' (pre @ (xs @ (s', True) # rest @ ys) # post)" "same_arena (mem_touch m2 blk) m'"
        "s' + total rest = s0" "\<forall>c \<in> set rest. \<not> snd c" "n \<le> s0 \<longrightarrow> n \<le> s'"
      by (rule checkout_rep [OF ok3 [unfolded p(1)], unfolded a3, OF p(2) n31]) (use u3 st p(1) in simp_all)
    let ?m = "incr_stat mem_total_served (reveal_actual_size m' (blk + 8)) m'"
    have "alloc_or_evict m n ev f s = Some (Some (blk + 8), ?m, s)"
      unfolding def found(1) by (simp add: m2_def [symmetric] c(1))
    moreover have "mem_rep ?m (pre @ (xs @ (s', True) # rest @ ys) # post)" using c(2) by (simp add: mem_rep_def)
    moreover have "same_geometry m ?m" using c(3) a3 by (simp add: same_geometry_def same_arena_def)
    ultimately show ?thesis using that(1) p c(4,5,6) le by blast
  next
    case (none fb)
    define m2 where "m2 = m1\<lparr>m_free_blocks := fb\<rparr>"
    have m2eq: "m1\<lparr>m_free_blocks := fb, m_stats := m_stats m1\<rparr> = m2" by (simp add: m2_def)
    have ok2: "mem_ok {} m2 pgs"
      unfolding m2eq [symmetric]
      by (rule mem_ok_taken [OF m1(1)]) (use none try_get_block_last [OF none(1)] m1(4,5) in simp_all)
    have sa2: "same_arena m m2" "used_stat m2 = used_stat m" using m1(2,3) by (simp_all add: m2_def same_arena_def used_stat_def)
    show ?thesis
    proof (cases ev)
      case False
      let ?m = "incr_stat mem_total_unserved n (incr_stat mem_num_alloc_errors 1 m2)"
      have "alloc_or_evict m n ev f s = Some (None, ?m, s)"
        unfolding def none(1) using False by (simp add: m2_def)
      moreover have "mem_rep ?m pgs" using ok2 sa2 st by (simp add: mem_rep_def)
      moreover have "same_geometry m ?m" using sa2 by (simp add: same_geometry_def same_arena_def)
      ultimately show ?thesis using that(3) False by blast
    next
      case True
      have rep2: "mem_rep m2 pgs" using ok2 sa2 st by (simp add: mem_rep_def)
      have a2: "page_size m2 = page_size m" "m_arena m2 = m_arena m" "m_pages m2 = m_pages m"
        using sa2 by (simp_all add: same_arena_def)
      note ep = evict_page [OF rep2, unfolded a2, OF n, where f = f and s = s]
      obtain p' m4 m' pre page post s' rest pb
        where e: "page_to_reuse (m_pages m) = (Some (pb, pb + page_size m), p')"
          "evict_loop (pb + page_size m) f (m2\<lparr>m_pages := p'\<rparr>) s pb = Some (m4, fold f (used_ptrs pb page) s)"
          "checkout (m4\<lparr>m_blocks := (if pb + page_size m < m_arena m4 + arena_size m4
             then set_left (pb + page_size m) (page_size m4) (m_blocks m4) else m_blocks m4)
             (pb := block_new (page_size m4 - 8) (b_left (m_blocks m2 pb)))\<rparr>) pb n = (pb + 8, m')"
          "pgs = pre @ page # post" "pb = m_arena m + length pre * page_size m"
          "length pre = last (lru_pages (m_pages m))" "mem_rep m' (pre @ ((s', True) # rest) # post)"
          "same_geometry m2 m'" "s' + total rest + 8 = page_size m" "\<forall>c \<in> set rest. \<not> snd c"
          "n + 8 \<le> page_size m \<longrightarrow> n \<le> s'"
        by (rule ep)
      let ?m = "incr_stat mem_total_served (reveal_actual_size m' (pb + 8)) m'"
      have "alloc_or_evict m n ev f s = Some (Some (pb + 8), ?m, fold f (used_ptrs pb page) s)"
        unfolding def none(1) Option.bind.simps prod.case option.case m2eq
        using True e(1-3) a2 by (simp add: header_size_def)
      moreover have "mem_rep ?m (pre @ ((s', True) # rest) # post)" using e(7) by (simp add: mem_rep_def)
      moreover have "same_geometry m ?m" using e(8) sa2 by (simp add: same_geometry_def same_arena_def)
      ultimately show ?thesis using that(2) True e(4-6,9-11) by blast
    qed
  qed
qed

section \<open>Freeing\<close>

lemma used_free_chunks:
  "\<forall>c \<in> set fs. \<not> snd c \<Longrightarrow> used_mem a fs = {}" "\<forall>c \<in> set fs. \<not> snd c \<Longrightarrow> used_total fs = 0"
  by (induction fs arbitrary: a) auto

lemma mem_ok_freed:
  assumes ok: "mem_ok {} m (pre @ (xs @ (s, True) # ys) # post)"
    and blk: "blk = m_arena m + length pre * page_size m + total xs"
  shows "mem_ok {blk} (m\<lparr>m_blocks := set_free blk (m_blocks m)\<rparr>) (pre @ (xs @ (s, False) # ys) # post)"
proof -
  have ok': "mem_ok {} m (pre @ (xs @ [(s, True)] @ ys) # post)" using ok by simp
  note f = mem_ok_focus [OF ok' blk] and o = mem_okD [OF ok]
  have "chunk_ok (s, True)" by (rule o(4) [of "xs @ (s, True) # ys"]) simp_all
  moreover have "rep (m_blocks m) (m_arena m) 0 ((concat pre @ xs) @ (s, True) # ys @ concat post)" using o(5) by simp
  then have "rep (set_free blk (m_blocks m)) (m_arena m) 0 ((concat pre @ xs) @ (s, False) # ys @ concat post)"
    by (rule rep_set_flag(2)) (simp only: f(5))
  ultimately have "mem_ok {blk} (m\<lparr>m_blocks := set_free blk (m_blocks m)\<rparr>) (pre @ (xs @ [(s, False)] @ ys) # post)"
    by (intro mem_ok_one [OF ok' blk]) (auto simp: same_arena_def chunk_ok_def)
  then show ?thesis by simp
qed

text \<open>What \<^verbatim>\<open>free\<close> and \<^verbatim>\<open>realloc_inplace\<close> do first: the block is marked free and no longer counted.\<close>

lemma release_block:
  assumes rep: "mem_rep m (pre @ (xs @ (s, True) # ys) # post)"
    and blk: "blk = m_arena m + length pre * page_size m + total xs" and name: "name \<noteq> mem_used_memory"
    and m2: "m2 = (incr_stat name 1 m)\<lparr>m_blocks := set_free blk (m_blocks m)\<rparr>"
    and m3: "m3 = decr_stat mem_used_memory (size_with_header (m_blocks m2) blk) m2"
  shows "mem_ok {blk} m3 (pre @ (xs @ (s, False) # ys) # post)" and "same_arena m m3"
    and "used_stat m3 = used_total (concat (pre @ (xs @ ys) # post))" and "size_at m3 blk = s"
proof -
  have ok: "mem_ok {} m (pre @ (xs @ (s, True) # ys) # post)"
    and st: "used_stat m = used_total (concat (pre @ (xs @ (s, True) # ys) # post))" using rep by (simp_all add: mem_rep_def)
  have eq: "m2 = incr_stat name 1 (m\<lparr>m_blocks := set_free blk (m_blocks m)\<rparr>)" unfolding m2 by (simp add: incr_stat_def)
  have ok2: "mem_ok {blk} m2 (pre @ (xs @ (s, False) # ys) # post)" unfolding eq using mem_ok_freed [OF ok blk] by simp
  have sa: "m_arena m2 = m_arena m" "page_size m2 = page_size m" by (simp_all add: m2)
  have "m_blocks m2 blk = \<lparr>b_size = s, b_used = False, b_left = last_off 0 (concat pre @ xs)\<rparr>"
    using mem_ok_focus(2) [of "{blk}" m2 pre xs "[(s, False)]" ys post blk] ok2 blk sa by simp
  then have sw: "size_with_header (m_blocks m2) blk = s + 8" and sz: "size_at m2 blk = s"
    by (simp_all add: size_with_header_def header_size_def size_at_def)
  show "mem_ok {blk} m3 (pre @ (xs @ (s, False) # ys) # post)" "same_arena m m3" "size_at m3 blk = s"
    using ok2 sz by (simp_all add: m3 m2 same_arena_def)
  have "used_stat m2 = used_stat m" using name by (simp add: eq used_stat_def stat_incr_def)
  moreover have "s + 8 < 2 ^ 64" using block_facts(2) [OF ok blk] by simp
  ultimately show "used_stat m3 = used_total (concat (pre @ (xs @ ys) # post))" unfolding m3 sw by (simp add: st)
qed

lemma mem_free_rep:
  assumes rep: "mem_rep m (pre @ (xs @ (s, True) # ys) # post)"
    and blk: "blk = m_arena m + length pre * page_size m + total xs"
  obtains m' xs' fl s' fr ys' where "mem_free m (blk + 8) = Some m'"
    and "mem_rep m' (pre @ (xs' @ (s', False) # ys') # post)" and "same_geometry m m'"
    and "xs = xs' @ fl" and "ys = fr @ ys'" and "\<forall>c \<in> set fl. \<not> snd c" and "\<forall>c \<in> set fr. \<not> snd c"
    and "s' = total fl + s + total fr" and "xs' \<noteq> [] \<longrightarrow> snd (last xs')" and "ys' \<noteq> [] \<longrightarrow> snd (hd ys')"
proof -
  have nm: "mem_num_free \<noteq> mem_used_memory" by simp
  define m2 where "m2 = (incr_stat mem_num_free 1 m)\<lparr>m_blocks := set_free blk (m_blocks m)\<rparr>"
  define m3 where "m3 = decr_stat mem_used_memory (size_with_header (m_blocks m2) blk) m2"
  note r = release_block [OF rep blk nm m2_def m3_def]
  have a3: "m_arena m3 = m_arena m" "page_size m3 = page_size m" "m_pages m3 = m_pages m"
    using r(2) by (simp_all add: same_arena_def)
  let ?b = "m_arena m + length pre * page_size m"
  have pb: "page_boundaries_from_addr (m_pages m) blk = (?b, ?b + page_size m)"
    using block_facts(4) [OF r(1)] blk a3 by simp
  obtain blk' m4 s4 fl xs' where l: "merge_left_loop ?b m3 blk = Some (blk', m4)" "blk' = ?b + total xs'"
      "mem_ok {blk'} m4 (pre @ (xs' @ (s4, False) # ys) # post)" "same_arena m3 m4" "m_stats m4 = m_stats m3"
      "s4 = total fl + s" "xs = xs' @ fl" "\<forall>c \<in> set fl. \<not> snd c" "xs' \<noteq> [] \<longrightarrow> snd (last xs')"
    using merge_left_loop_spec [OF r(1), unfolded a3, OF blk] by blast
  have a4: "m_arena m4 = m_arena m" "page_size m4 = page_size m" "m_pages m4 = m_pages m"
    using l(4) a3 by (simp_all add: same_arena_def)
  have pb': "page_boundaries_from_addr (m_pages m) blk' = (?b, ?b + page_size m)"
    using block_facts(4) [OF l(3)] l(2) a4 by simp
  obtain m5 s5 fr ys' where q: "merge_right_loop (?b + page_size m) m4 blk' = Some (blk', m5)"
      "mem_ok {blk'} m5 (pre @ (xs' @ (s5, False) # ys') # post)" "same_arena m4 m5" "m_stats m5 = m_stats m4"
      "s5 = s4 + total fr" "ys = fr @ ys'" "\<forall>c \<in> set fr. \<not> snd c" "ys' \<noteq> [] \<longrightarrow> snd (hd ys')"
    using merge_right_loop_spec [OF l(3), unfolded a4, OF l(2)] by blast
  have a5: "m_arena m5 = m_arena m" "page_size m5 = page_size m" using q(3) a4 by (simp_all add: same_arena_def)
  have f5: "blk' \<in> free_addrs (m_arena m5) (concat (pre @ (xs' @ (s5, False) # ys') # post))"
    using block_facts(8) [OF q(2)] l(2) a5 by (simp add: add.assoc)
  note p = mem_ok_put [OF q(2) f5 singletonI]
  have "merge_free m3 blk = Some (blk', m5)"
    unfolding merge_free_def merge_free_left_def merge_free_right_def using pb l(1) pb' q(1) a3 a4 by simp
  then have fr: "mem_free m (blk + 8) = Some (put_free blk' m5)"
    unfolding mem_free_def Let_def from_user_ptr_def header_size_def add_diff_cancel_right' stat_simps(4)
      m2_def [symmetric] m3_def [symmetric] by simp
  have "used_stat (put_free blk' m5) = used_total (concat (pre @ (xs @ ys) # post))"
    using r(3) q(4) l(5) p(4) by (simp add: used_stat_def)
  then have "mem_rep (put_free blk' m5) (pre @ (xs' @ (s5, False) # ys') # post)"
    using p(1) l(7) q(6) used_free_chunks(2) [OF l(8)] used_free_chunks(2) [OF q(7)] by (simp add: mem_rep_def)
  moreover have "same_geometry m (put_free blk' m5)"
    using p(2) q(3) l(4) r(2) by (simp add: same_geometry_def same_arena_def)
  ultimately show ?thesis using that fr l(6-9) q(5-8) by blast
qed

section \<open>Reallocation in place\<close>

lemma realloc_rep:
  assumes rep: "mem_rep m (pre @ (xs @ (s, True) # ys) # post)"
    and blk: "blk = m_arena m + length pre * page_size m + total xs"
  obtains (grown) m' s' rest fs ys' where "realloc_inplace m (blk + 8) n = Some (Some (blk + 8), m')"
      and "mem_rep m' (pre @ (xs @ (s', True) # rest @ ys') # post)" and "same_geometry m m'"
      and "ys = fs @ ys'" and "\<forall>c \<in> set fs \<union> set rest. \<not> snd c" and "s' + total rest = s + total fs" and "n \<le> s'"
    | (failed) m' rest fs ys' where "realloc_inplace m (blk + 8) n = Some (None, m')"
      and "mem_rep m' (pre @ (xs @ (s, True) # rest @ ys') # post)" and "same_geometry m m'"
      and "ys = fs @ ys'" and "\<forall>c \<in> set fs \<union> set rest. \<not> snd c" and "total rest = total fs"
      and "s + total fs < n" and "ys' \<noteq> [] \<longrightarrow> snd (hd ys')"
proof -
  have nm: "mem_num_realloc \<noteq> mem_used_memory" by simp
  define m2 where "m2 = (incr_stat mem_num_realloc 1 m)\<lparr>m_blocks := set_free blk (m_blocks m)\<rparr>"
  define m3 where "m3 = decr_stat mem_used_memory (size_with_header (m_blocks m2) blk) m2"
  note r = release_block [OF rep blk nm m2_def m3_def]
  have a3: "m_arena m3 = m_arena m" "page_size m3 = page_size m" "m_pages m3 = m_pages m" "arena_size m3 = arena_size m"
    using r(2) by (simp_all add: same_arena_def)
  note def = realloc_inplace_def [of m "blk + 8" n, unfolded Let_def from_user_ptr_def header_size_def add_diff_cancel_right'
      stat_simps(4), folded m2_def, folded m3_def, unfolded r(4)]
  have s31: "s < 2 ^ 31" using block_facts(2) [OF r(1)] blk a3 by simp
  show ?thesis
  proof (cases "n \<le> s")
    case True
    then have n: "n < 2 ^ 31" "n mod 2 ^ 32 = n" using s31 by simp_all
    obtain m' s' rest where c: "checkout m3 blk n = (blk + 8, m')"
        "mem_rep m' (pre @ (xs @ (s', True) # rest @ ys) # post)" "same_arena m3 m'"
        "s' + total rest = s" "\<forall>c \<in> set rest. \<not> snd c" "n \<le> s \<longrightarrow> n \<le> s'"
      by (rule checkout_rep [OF r(1), unfolded a3, OF blk n(1) r(3)])
    have "realloc_inplace m (blk + 8) n = Some (Some (blk + 8), m')" unfolding def n(2) using True c(1) by simp
    moreover have "same_geometry m m'" using c(3) a3 by (simp add: same_geometry_def same_arena_def)
    ultimately show ?thesis using that(1) [where m' = m' and s' = s' and rest = rest and fs = "[]" and ys' = ys] c True by simp
  next
    case False
    let ?b = "m_arena m + length pre * page_size m"
    define m4 where "m4 = incr_stat mem_total_realloc_requested (n - s) m3"
    have ok4: "mem_ok {blk} m4 (pre @ (xs @ (s, False) # ys) # post)" using r(1) by (simp add: m4_def)
    have a4: "m_arena m4 = m_arena m" "page_size m4 = page_size m" "m_pages m4 = m_pages m" "arena_size m4 = arena_size m"
      using a3 by (simp_all add: m4_def)
    have pb: "page_boundaries_from_addr (m_pages m4) blk = (?b, ?b + page_size m)"
      using block_facts(4) [OF ok4] blk a4 by simp
    obtain m5 s5 fs ys' where q: "merge_right_loop (?b + page_size m) m4 blk = Some (blk, m5)"
        "mem_ok {blk} m5 (pre @ (xs @ (s5, False) # ys') # post)" "same_arena m4 m5" "m_stats m5 = m_stats m4"
        "s5 = s + total fs" "ys = fs @ ys'" "\<forall>c \<in> set fs. \<not> snd c" "ys' \<noteq> [] \<longrightarrow> snd (hd ys')"
      using merge_right_loop_spec [OF ok4, unfolded a4, OF blk] by blast
    have a5: "m_arena m5 = m_arena m" "page_size m5 = page_size m" "arena_size m5 = arena_size m"
      using q(3) a4 by (simp_all add: same_arena_def)
    have mr: "merge_free_right m4 blk = Some (blk, m5)" unfolding merge_free_right_def pb using q(1) by simp
    have u5: "used_stat m5 = used_total (concat (pre @ (xs @ ys') # post))"
      using r(3) q(4,6) used_free_chunks(2) [OF q(7)] by (simp add: used_stat_def m4_def stat_incr_def)
    have "m_blocks m5 blk = \<lparr>b_size = s5, b_used = False, b_left = last_off 0 (concat pre @ xs)\<rparr>"
      using mem_ok_focus(2) [of "{blk}" m5 pre xs "[(s5, False)]" ys' post blk] q(2) blk a5 by simp
    then have sz5: "size_at m5 blk = s5" by (simp add: size_at_def)
    have s531: "s5 < 2 ^ 31" using block_facts(2) [OF q(2)] blk a5 by simp
    show ?thesis
    proof (cases "n \<le> s5")
      case True
      then have n: "n < 2 ^ 31" "n mod 2 ^ 32 = n" using s531 by simp_all
      obtain m' s' rest where c: "checkout m5 blk n = (blk + 8, m')"
          "mem_rep m' (pre @ (xs @ (s', True) # rest @ ys') # post)" "same_arena m5 m'"
          "s' + total rest = s5" "\<forall>c \<in> set rest. \<not> snd c" "n \<le> s5 \<longrightarrow> n \<le> s'"
        by (rule checkout_rep [OF q(2), unfolded a5, OF blk n(1) u5])
      let ?m = "incr_stat mem_total_realloc_served (reveal_actual_size m' (blk + 8) - s - 8) m'"
      have "realloc_inplace m (blk + 8) n = Some (Some (blk + 8), ?m)"
        unfolding def n(2) m4_def [symmetric] mr using False True c(1) sz5 by simp
      moreover have "same_geometry m ?m" using c(3) a5 by (simp add: same_geometry_def same_arena_def)
      moreover have "mem_rep ?m (pre @ (xs @ (s', True) # rest @ ys') # post)" using c(2) by (simp add: mem_rep_def)
      ultimately show ?thesis using that(1) [where m' = ?m and s' = s' and rest = rest and fs = fs and ys' = ys'] c q(5-7) True by auto
    next
      case nomem: False
      define m6 where "m6 = incr_stat mem_total_realloc_unserved (n - s) m5"
      have ok6: "mem_ok {blk} m6 (pre @ (xs @ (s5, False) # ys') # post)" using q(2) by (simp add: m6_def)
      have a6: "m_arena m6 = m_arena m" "page_size m6 = page_size m" "arena_size m6 = arena_size m" "used_stat m6 = used_stat m5"
        using a5 by (simp_all add: m6_def)
      obtain m' s' rest where c: "checkout m6 blk s = (blk + 8, m')"
          "mem_rep m' (pre @ (xs @ (s', True) # rest @ ys') # post)" "same_arena m6 m'"
          "s' + total rest = s5" "\<forall>c \<in> set rest. \<not> snd c" "s \<le> s5 \<longrightarrow> s \<le> s'"
          "8 dvd s \<and> 56 \<le> s \<and> s + 64 \<le> s5 \<longrightarrow> s' = s"
        by (rule checkout_rep [OF ok6, unfolded a6, OF blk s31 u5])
      let ?m = "incr_stat mem_num_realloc_errors 1 m'"
      have "s' = s"
      proof (cases fs)
        case Nil
        then show ?thesis using c(4,6) q(5) by simp
      next
        case (Cons c0 cs)
        have ck: "chunk_ok c" if "c \<in> set (xs @ (s, True) # ys)" for c
          using rep that unfolding mem_rep_def by (auto dest: mem_okD(4) [where p = "xs @ (s, True) # ys"])
        have "chunk_ok (s, True)" "chunk_ok c0" using ck q(6) Cons by simp_all
        then have "8 dvd s" "56 \<le> s" "64 \<le> total fs" using Cons by (cases c0; simp add: chunk_ok_def)+
        then show ?thesis using c(7) q(5) by simp
      qed
      moreover have "realloc_inplace m (blk + 8) n = Some (None, ?m)"
        unfolding def m4_def [symmetric] mr using False nomem c(1) sz5 by (simp add: m6_def)
      moreover have "same_geometry m ?m" using c(3) a6 by (simp add: same_geometry_def same_arena_def)
      ultimately show ?thesis using that(2) [where m' = ?m and rest = rest and fs = fs and ys' = ys'] c q(5-8) nomem by (auto simp: mem_rep_def)
    qed
  qed
qed

end
