(* ===== verification/Alloc_Spec.thy ===== *)
theory Alloc_Spec
  imports Prelude
begin

text \<open>
  The contract of a memory allocator, as the locale \<open>block_allocator\<close>: \<open>inv m A\<close> relates its state to the
  set \<open>A\<close> of what the user holds, pairs of an address and a size. A user of the allocator is a sequence
  of calls on the pointers it has been given; in the locale it is proved once that every such user only
  ever holds disjoint memory of the requested sizes.
\<close>

datatype mem_op = M_alloc nat | M_free nat | M_realloc nat nat

text \<open>The user keeps the pointers it holds in a list, with the size it asked for; an operation names a
  pointer by its position. A failing call leaves the list as it is.\<close>

fun user_step ::
  "('m \<Rightarrow> nat \<Rightarrow> (nat option \<times> 'm) option) \<Rightarrow> ('m \<Rightarrow> nat \<Rightarrow> 'm option)
    \<Rightarrow> ('m \<Rightarrow> nat \<Rightarrow> nat \<Rightarrow> (nat option \<times> 'm) option) \<Rightarrow> mem_op \<Rightarrow> 'm \<times> (nat \<times> nat) list
    \<Rightarrow> ('m \<times> (nat \<times> nat) list) option" where
  "user_step alloc free realloc (M_alloc n) (m, held) =
     map_option (\<lambda>(r, m'). (m', case r of None \<Rightarrow> held | Some p \<Rightarrow> (p, n) # held)) (alloc m n)"
| "user_step alloc free realloc (M_free i) (m, held) =
     (if i < length held
      then map_option (\<lambda>m'. (m', take i held @ drop (Suc i) held)) (free m (fst (held ! i)))
      else Some (m, held))"
| "user_step alloc free realloc (M_realloc i n) (m, held) =
     (if i < length held
      then map_option (\<lambda>(r, m'). (m', case r of None \<Rightarrow> held | Some p \<Rightarrow> held[i := (p, n)])) (realloc m (fst (held ! i)) n)
      else Some (m, held))"

fun user_run ::
  "('m \<Rightarrow> nat \<Rightarrow> (nat option \<times> 'm) option) \<Rightarrow> ('m \<Rightarrow> nat \<Rightarrow> 'm option)
    \<Rightarrow> ('m \<Rightarrow> nat \<Rightarrow> nat \<Rightarrow> (nat option \<times> 'm) option) \<Rightarrow> mem_op list \<Rightarrow> 'm \<times> (nat \<times> nat) list
    \<Rightarrow> ('m \<times> (nat \<times> nat) list) option" where
  "user_run alloc free realloc [] st = Some st"
| "user_run alloc free realloc (op # ops) st =
     Option.bind (user_step alloc free realloc op st) (user_run alloc free realloc ops)"

text \<open>Requests below a limit; the limit is the allocator's.\<close>

fun request_below :: "nat \<Rightarrow> mem_op \<Rightarrow> bool" where
  "request_below l (M_alloc n) \<longleftrightarrow> n < l"
| "request_below l op \<longleftrightarrow> True"

text \<open>The blocks behind the pointers a user holds.\<close>

definition holds :: "(nat \<times> nat) list \<Rightarrow> (nat \<times> nat) set \<Rightarrow> bool" where
  "holds held A \<longleftrightarrow> distinct (map fst held) \<and> fst ` A = fst ` set held \<and> (\<forall>(p, n) \<in> set held. \<exists>s \<ge> n. (p, s) \<in> A)"

definition disjoint_memory :: "(nat \<times> nat) list \<Rightarrow> bool" where
  "disjoint_memory held \<longleftrightarrow> (\<forall>i < length held. \<forall>j < length held. i \<noteq> j
     \<longrightarrow> fst (held ! i) + snd (held ! i) \<le> fst (held ! j) \<or> fst (held ! j) + snd (held ! j) \<le> fst (held ! i))"

lemma holds_distinct:
  assumes "holds held A" and "i < length held" and "j < length held" and "i \<noteq> j"
  shows "fst (held ! i) \<noteq> fst (held ! j)"
proof -
  have "distinct (map fst held)" using assms(1) by (simp add: holds_def)
  then have "map fst held ! i \<noteq> map fst held ! j" using assms(2-4) by (simp add: nth_eq_iff_index_eq del: nth_map)
  then show ?thesis using assms(2,3) by simp
qed

lemma holds_block: "holds held A \<Longrightarrow> (p, n) \<in> set held \<Longrightarrow> \<exists>s \<ge> n. (p, s) \<in> A"
  unfolding holds_def by blast

lemma holds_drop:
  assumes h: "holds held A" and i: "i < length held" and p: "fst (held ! i) = p"
    and A: "fst ` (A - {(p, s)}) = fst ` A - {p}"
  shows "holds (take i held @ drop (Suc i) held) (A - {(p, s)})" (is "holds ?held _")
proof -
  have sp: "held = take i held @ held ! i # drop (Suc i) held" using i by (rule id_take_nth_drop)
  have d: "distinct (map fst held)" and im: "fst ` A = fst ` set held" using h by (simp_all add: holds_def)
  have "distinct (map fst (take i held @ held ! i # drop (Suc i) held))" using d sp by metis
  then have nin: "p \<notin> fst ` set ?held" and d': "distinct (map fst ?held)" using p by auto
  have "set (take i held @ held ! i # drop (Suc i) held) = insert (held ! i) (set ?held)" by auto
  then have hs: "set held = insert (held ! i) (set ?held)" using sp by metis
  have "fst ` set ?held = fst ` (A - {(p, s)})" unfolding A im hs using nin p by auto
  moreover have "\<exists>t \<ge> n. (q, t) \<in> A - {(p, s)}" if q: "(q, n) \<in> set ?held" for q n
  proof -
    have "q \<in> fst ` set ?held" using q by (metis fst_conv imageI)
    then have "q \<noteq> p" using nin by metis
    moreover have "(q, n) \<in> set held" using q hs by simp
    ultimately show ?thesis using holds_block [OF h] by blast
  qed
  ultimately show ?thesis unfolding holds_def using d' by (intro conjI) auto
qed

lemma holds_update:
  assumes h: "holds held A" and i: "i < length held" and p: "fst (held ! i) = p"
    and A: "fst ` (A - {(p, s)}) = fst ` A - {p}" and pA: "p \<in> fst ` A" and n: "n \<le> s'"
  shows "holds (held[i := (p, n)]) (insert (p, s') (A - {(p, s)}))" (is "holds ?held ?A")
proof -
  have fs: "map fst ?held = map fst held" using i p by (simp add: map_update list_update_same_conv)
  then have im: "fst ` set ?held = fst ` set held" by (metis image_set)
  have "fst ` ?A = fst ` A" using A pA by auto
  then have "fst ` ?A = fst ` set ?held" using h im by (simp add: holds_def)
  moreover have "\<exists>t \<ge> l. (x, t) \<in> ?A" if xl: "(x, l) \<in> set ?held" for x l
  proof -
    obtain j where j: "j < length held" "?held ! j = (x, l)"
      using xl unfolding in_set_conv_nth length_list_update by blast
    show ?thesis
    proof (cases "j = i")
      case True
      then show ?thesis using j n by auto
    next
      case False
      then have hj: "held ! j = (x, l)" using j by simp
      have "x \<noteq> p" using holds_distinct [OF h j(1) i False] hj p by simp
      moreover have "(x, l) \<in> set held" using hj j(1) nth_mem by metis
      ultimately show ?thesis using holds_block [OF h] by blast
    qed
  qed
  ultimately show ?thesis using h fs unfolding holds_def by (intro conjI) auto
qed

locale block_allocator =
  fixes inv :: "'m \<Rightarrow> (nat \<times> nat) set \<Rightarrow> bool"
    and alloc :: "'m \<Rightarrow> nat \<Rightarrow> (nat option \<times> 'm) option"
    and free :: "'m \<Rightarrow> nat \<Rightarrow> 'm option"
    and realloc :: "'m \<Rightarrow> nat \<Rightarrow> nat \<Rightarrow> (nat option \<times> 'm) option"
    and limit :: "'m \<Rightarrow> nat"
  assumes blocks_apart: "inv m A \<Longrightarrow> (p, s) \<in> A \<Longrightarrow> (q, t) \<in> A \<Longrightarrow> (p, s) = (q, t) \<or> p + s < q \<or> q + t < p"
    and alloc_law: "inv m A \<Longrightarrow> n < limit m \<Longrightarrow> \<exists>r m'. alloc m n = Some (r, m') \<and> limit m' = limit m
      \<and> (case r of None \<Rightarrow> inv m' A | Some p \<Rightarrow> p \<notin> fst ` A \<and> (\<exists>s \<ge> n. inv m' (insert (p, s) A)))"
    and free_law: "inv m A \<Longrightarrow> (p, s) \<in> A \<Longrightarrow> \<exists>m'. free m p = Some m' \<and> limit m' = limit m \<and> inv m' (A - {(p, s)})"
    and realloc_law: "inv m A \<Longrightarrow> (p, s) \<in> A \<Longrightarrow> \<exists>r m'. realloc m p n = Some (r, m') \<and> limit m' = limit m
      \<and> (case r of None \<Rightarrow> inv m' A | Some q \<Rightarrow> q = p \<and> (\<exists>s' \<ge> n. inv m' (insert (p, s') (A - {(p, s)}))))"
begin

lemma held_block:
  assumes "inv m A" and "holds held A" and "i < length held"
  obtains s where "(fst (held ! i), s) \<in> A" and "snd (held ! i) \<le> s" and "fst ` (A - {(fst (held ! i), s)}) = fst ` A - {fst (held ! i)}"
proof -
  obtain p n where pn: "held ! i = (p, n)" by fastforce
  then have "(p, n) \<in> set held" using assms(3) nth_mem by metis
  then obtain s where s: "(p, s) \<in> A" "n \<le> s" using assms(2) by (auto simp: holds_def)
  have u: "t = s" if "(p, t) \<in> A" for t using blocks_apart [OF assms(1) s(1) that] by auto
  have "fst ` (A - {(p, s)}) \<subseteq> fst ` A - {p}" by (auto dest: u)
  moreover have "fst ` A - {p} \<subseteq> fst ` (A - {(p, s)})"
  proof
    fix x assume "x \<in> fst ` A - {p}"
    then obtain t where "(x, t) \<in> A - {(p, s)}" by auto
    then show "x \<in> fst ` (A - {(p, s)})" by (metis fst_conv imageI)
  qed
  ultimately show ?thesis using s pn that by simp
qed

lemma alloc_keeps:
  assumes "inv m A" and "holds held A" and "n < limit m"
  shows "\<exists>m' held' A'. user_step alloc free realloc (M_alloc n) (m, held) = Some (m', held') \<and> inv m' A'
    \<and> holds held' A' \<and> limit m' = limit m"
proof -
  obtain r m' where a: "alloc m n = Some (r, m')" "limit m' = limit m"
      "case r of None \<Rightarrow> inv m' A | Some p \<Rightarrow> p \<notin> fst ` A \<and> (\<exists>s \<ge> n. inv m' (insert (p, s) A))"
    using alloc_law [OF assms(1,3)] by blast
  show ?thesis
  proof (cases r)
    case None
    then show ?thesis using a assms(2) by auto
  next
    case (Some p)
    then obtain s where "p \<notin> fst ` A" "n \<le> s" "inv m' (insert (p, s) A)" using a(3) by auto
    moreover from this have "holds ((p, n) # held) (insert (p, s) A)"
      using assms(2) unfolding holds_def by auto
    ultimately show ?thesis using a Some by auto
  qed
qed

lemma free_keeps:
  assumes "inv m A" and "holds held A"
  shows "\<exists>m' held' A'. user_step alloc free realloc (M_free i) (m, held) = Some (m', held') \<and> inv m' A'
    \<and> holds held' A' \<and> limit m' = limit m"
proof (cases "i < length held")
  case True
  obtain s where s: "(fst (held ! i), s) \<in> A" "fst ` (A - {(fst (held ! i), s)}) = fst ` A - {fst (held ! i)}"
    by (rule held_block [OF assms True])
  obtain m' where "free m (fst (held ! i)) = Some m'" "limit m' = limit m" "inv m' (A - {(fst (held ! i), s)})"
    using free_law [OF assms(1) s(1)] by blast
  then show ?thesis using holds_drop [OF assms(2) True refl s(2)] True by auto
qed (use assms in auto)

lemma realloc_keeps:
  assumes "inv m A" and "holds held A"
  shows "\<exists>m' held' A'. user_step alloc free realloc (M_realloc i n) (m, held) = Some (m', held') \<and> inv m' A'
    \<and> holds held' A' \<and> limit m' = limit m"
proof (cases "i < length held")
  case True
  define p where "p = fst (held ! i)"
  obtain s where s: "(p, s) \<in> A" "fst ` (A - {(p, s)}) = fst ` A - {p}"
    unfolding p_def by (rule held_block [OF assms True])
  obtain r m' where r: "realloc m p n = Some (r, m')" "limit m' = limit m"
      "case r of None \<Rightarrow> inv m' A | Some q \<Rightarrow> q = p \<and> (\<exists>s' \<ge> n. inv m' (insert (p, s') (A - {(p, s)})))"
    using realloc_law [OF assms(1) s(1), of n] by blast
  show ?thesis
  proof (cases r)
    case None
    then show ?thesis using r assms(2) True by (auto simp: p_def)
  next
    case (Some q)
    then obtain s' where s': "q = p" "n \<le> s'" "inv m' (insert (p, s') (A - {(p, s)}))" using r(3) by auto
    have "p \<in> fst ` A" using s(1) by (metis fst_conv imageI)
    then have "holds (held[i := (p, n)]) (insert (p, s') (A - {(p, s)}))"
      by (rule holds_update [OF assms(2) True p_def [symmetric] s(2) _ s'(2)])
    then show ?thesis using r(1,2) s' Some True by (auto simp: p_def)
  qed
qed (use assms in auto)

lemma step_keeps:
  assumes "inv m A" and "holds held A" and "request_below (limit m) op"
  shows "\<exists>m' held' A'. user_step alloc free realloc op (m, held) = Some (m', held') \<and> inv m' A' \<and> holds held' A'
    \<and> limit m' = limit m"
  using alloc_keeps [OF assms(1,2)] free_keeps [OF assms(1,2)] realloc_keeps [OF assms(1,2)] assms(3)
  by (cases op) simp_all

lemma holds_disjoint:
  assumes "inv m A" and "holds held A"
  shows "disjoint_memory held"
  unfolding disjoint_memory_def
proof (intro allI impI)
  fix i j assume ij: "i < length held" "j < length held" "i \<noteq> j"
  obtain s where s: "(fst (held ! i), s) \<in> A" "snd (held ! i) \<le> s" by (rule held_block [OF assms ij(1)])
  obtain t where t: "(fst (held ! j), t) \<in> A" "snd (held ! j) \<le> t" by (rule held_block [OF assms ij(2)])
  have "fst (held ! i) \<noteq> fst (held ! j)" by (rule holds_distinct [OF assms(2) ij])
  then show "fst (held ! i) + snd (held ! i) \<le> fst (held ! j) \<or> fst (held ! j) + snd (held ! j) \<le> fst (held ! i)"
    using blocks_apart [OF assms(1) s(1) t(1)] s(2) t(2) by auto
qed

lemma run_keeps:
  assumes "inv m A" and "holds held A" and "\<forall>op \<in> set ops. request_below (limit m) op"
  shows "\<exists>m' held' A'. user_run alloc free realloc ops (m, held) = Some (m', held') \<and> inv m' A' \<and> holds held' A'
    \<and> disjoint_memory held'"
  using assms
proof (induction ops arbitrary: m held A)
  case Nil
  then show ?case using holds_disjoint by auto
next
  case (Cons op ops)
  obtain m' held' A' where s: "user_step alloc free realloc op (m, held) = Some (m', held')" "inv m' A'"
      "holds held' A'" "limit m' = limit m"
    using step_keeps [OF Cons.prems(1,2), of op] Cons.prems(3) by auto
  show ?case using Cons.IH [OF s(2,3)] s(1,4) Cons.prems(3) by simp
qed

end

end
