(* ===== verification/Allocator.thy ===== *)
theory Allocator
  imports Memalloc_Correct Alloc_Spec
begin

text \<open>
  What the allocator promises its user: the operations on the set of held blocks, the interpretation of
  the contract \<open>block_allocator\<close> on them, and the properties of allocation, eviction, reallocation and
  of the constructor.
\<close>

definition mem_limit :: "memalloc \<Rightarrow> nat" where
  "mem_limit m = page_size m"

text \<open>The held memory in the page that is reused next.\<close>

definition lru_page_mem :: "memalloc \<Rightarrow> (nat \<times> nat) set \<Rightarrow> (nat \<times> nat) set" where
  "lru_page_mem m A = {(p, s) \<in> A. page_no_from_addr (m_pages m) p = last (lru_pages (m_pages m))}"

text \<open>The contract speaks of an arena at a fixed place.\<close>

definition mem_held :: "nat \<Rightarrow> nat \<Rightarrow> memalloc \<Rightarrow> (nat \<times> nat) set \<Rightarrow> bool" where
  "mem_held a sz m A \<longleftrightarrow> mem_inv m A \<and> m_arena m = a \<and> arena_size m = sz"

section \<open>The held memory\<close>

lemma used_mem_bounds: "(p, s) \<in> used_mem a bs \<Longrightarrow> a + 8 \<le> p \<and> p + s \<le> a + total bs"
  by (auto simp: used_mem_def block_memory_def header_size_def dest!: layout_bounds)

lemma used_mem_around:
  assumes ok: "mem_ok E m (pre @ (xs @ bs @ ys) # post)"
    and blk: "blk = m_arena m + length pre * page_size m + total xs"
  shows "used_mem (m_arena m) (concat (pre @ (xs @ bs @ ys) # post)) = used_mem (m_arena m) (concat pre @ xs)
      \<union> used_mem blk bs \<union> used_mem (blk + total bs) (ys @ concat post)"
    and "(p, s) \<in> used_mem (m_arena m) (concat pre @ xs) \<Longrightarrow> p + s \<le> blk"
    and "(p, s) \<in> used_mem (blk + total bs) (ys @ concat post) \<Longrightarrow> blk + total bs < p"
proof -
  note f = mem_ok_focus(5) [OF ok blk]
  have c: "concat (pre @ (xs @ bs @ ys) # post) = (concat pre @ xs) @ bs @ (ys @ concat post)" by simp
  show "used_mem (m_arena m) (concat (pre @ (xs @ bs @ ys) # post)) = used_mem (m_arena m) (concat pre @ xs)
      \<union> used_mem blk bs \<union> used_mem (blk + total bs) (ys @ concat post)"
    unfolding c used_mem_append [of _ "concat pre @ xs"] used_mem_append [of _ bs] f by blast
  show "(p, s) \<in> used_mem (m_arena m) (concat pre @ xs) \<Longrightarrow> p + s \<le> blk"
    using used_mem_bounds [of p s "m_arena m" "concat pre @ xs"] f by simp
  show "(p, s) \<in> used_mem (blk + total bs) (ys @ concat post) \<Longrightarrow> blk + total bs < p"
    using used_mem_bounds [of p s "blk + total bs" "ys @ concat post"] by simp
qed

text \<open>Blocks replaced by blocks of the same total size change the held memory between them only.\<close>

lemma used_mem_change:
  assumes "mem_ok E m (pre @ (xs @ bs @ ys) # post)" and "mem_ok E' m' (pre @ (xs @ bs' @ ys) # post)"
    and "same_geometry m m'" and "blk = m_arena m + length pre * page_size m + total xs" and "total bs' = total bs"
  shows "used_mem (m_arena m') (concat (pre @ (xs @ bs' @ ys) # post))
    = (used_mem (m_arena m) (concat (pre @ (xs @ bs @ ys) # post)) - used_mem blk bs) \<union> used_mem blk bs'"
proof -
  have g: "m_arena m' = m_arena m" "page_size m' = page_size m" using assms(3) by (simp_all add: same_geometry_def)
  note u = used_mem_around [OF assms(1,4)] and u' = used_mem_around(1) [OF assms(2), unfolded g, OF assms(4)]
  let ?X = "used_mem (m_arena m) (concat pre @ xs)" and ?Y = "used_mem (blk + total bs) (ys @ concat post)"
  have "?X \<inter> used_mem blk bs = {}"
  proof -
    have "(p, s) \<notin> used_mem blk bs" if "(p, s) \<in> ?X" for p s
      using u(2) [OF that] used_mem_bounds [of p s blk bs] by linarith
    then show ?thesis by fast
  qed
  moreover have "?Y \<inter> used_mem blk bs = {}"
  proof -
    have "(p, s) \<notin> used_mem blk bs" if "(p, s) \<in> ?Y" for p s
      using u(3) [OF that] used_mem_bounds [of p s blk bs] by linarith
    then show ?thesis by fast
  qed
  ultimately show ?thesis unfolding g(1) u(1) u' assms(5) by blast
qed

lemma held_blocks_apart:
  assumes "mem_inv m A" and "(p, s) \<in> A" and "(q, t) \<in> A"
  shows "(p, s) = (q, t) \<or> p + s < q \<or> q + t < p"
proof -
  obtain pgs where A: "A = used_mem (m_arena m) (concat pgs)" using assms(1) by (auto simp: mem_inv_def)
  obtain b c where b: "(b, s, True) \<in> set (layout (m_arena m) (concat pgs))" "p = b + 8"
      and c: "(c, t, True) \<in> set (layout (m_arena m) (concat pgs))" "q = c + 8"
    using assms(2,3) unfolding A used_mem_def block_memory_def header_size_def by auto
  show ?thesis using layout_disjoint [OF b(1) c(1)] layout_unique [OF b(1), of t True] b c by auto
qed

lemma mem_inv_held:
  assumes "mem_inv m A" and "(p, s) \<in> A"
  obtains pre xs ys post blk where "mem_rep m (pre @ (xs @ (s, True) # ys) # post)" and "p = blk + 8"
    and "blk = m_arena m + length pre * page_size m + total xs"
    and "A = used_mem (m_arena m) (concat (pre @ (xs @ (s, True) # ys) # post))"
proof -
  obtain pgs where r: "mem_rep m pgs" "A = used_mem (m_arena m) (concat pgs)" using assms(1) by (auto simp: mem_inv_def)
  then obtain b where b: "(b, s, True) \<in> set (layout (m_arena m) (concat pgs))" "p = b + 8"
    using assms(2) by (auto simp: used_mem_def block_memory_def header_size_def)
  obtain pre xs ys post where "pgs = pre @ (xs @ (s, True) # ys) # post"
      "b = m_arena m + length pre * page_size m + total xs"
    using r(1) unfolding mem_rep_def by (auto intro: locate [OF _ b(1)])
  then show ?thesis using that r b(2) by blast
qed

lemma distinct_used_ptrs: "distinct (used_ptrs a bs)"
proof (induction bs arbitrary: a)
  case (Cons c bs)
  obtain s u where c: "c = (s, u)" by fastforce
  have "a + 8 \<notin> set (used_ptrs (a + s + 8) bs)"
    unfolding set_used_ptrs by (auto dest: used_mem_bounds)
  then show ?case using Cons c by simp
qed simp

lemma held_size:
  assumes "mem_ok E m pgs" and "(p, s) \<in> used_mem (m_arena m) (concat pgs)"
  shows "56 \<le> s" and "m_arena m + 8 \<le> p" and "p + s \<le> m_arena m + arena_size m"
proof -
  have "(s, True) \<in> set (concat pgs)" using assms(2) by (auto simp: used_mem_def dest: layout_chunks)
  then obtain q where "q \<in> set pgs" "(s, True) \<in> set q" by auto
  then show "56 \<le> s" using mem_okD(4) [OF assms(1)] by (force simp: chunk_ok_def)
  show "m_arena m + 8 \<le> p" "p + s \<le> m_arena m + arena_size m"
    using used_mem_bounds [OF assms(2)] total_le_arena(1) [OF assms(1)] by simp_all
qed

text \<open>The held memory in a page.\<close>

lemma page_mem:
  assumes ok: "mem_ok E m (pre @ page # post)" and pb: "pb = m_arena m + length pre * page_size m"
    and A: "A = used_mem (m_arena m) (concat (pre @ page # post))"
  shows "used_mem pb page = {(p, s) \<in> A. page_no_from_addr (m_pages m) p = length pre}"
    and "used_mem pb page \<subseteq> A" and "pb + 8 \<notin> fst ` (A - used_mem pb page)"
proof -
  note o = mem_okD [OF ok] and g = geomD [OF mem_okD(1) [OF ok]] and gf = geom_facts [OF mem_okD(1) [OF ok]]
  have ok': "mem_ok E m (pre @ ([] @ page @ []) # post)" and pb': "pb = m_arena m + length pre * page_size m + total []"
    using ok pb by simp_all
  have tp: "total page = page_size m" by (rule o(3)) simp
  have U: "A = used_mem (m_arena m) (concat pre) \<union> used_mem pb page \<union> used_mem (pb + page_size m) (concat post)"
    using used_mem_around(1) [OF ok' pb'] A tp by simp
  have pre: "p + s \<le> pb" if "(p, s) \<in> used_mem (m_arena m) (concat pre)" for p s
    using used_mem_around(2) [OF ok' pb'] that by simp
  have post: "pb + page_size m < p" if "(p, s) \<in> used_mem (pb + page_size m) (concat post)" for p s
    using used_mem_around(3) [OF ok' pb'] that tp by simp
  show "used_mem pb page \<subseteq> A" using U by blast
  have "q \<noteq> pb + 8" if "(q, t) \<in> A - used_mem pb page" for q t
    using that U pre [of q t] post [of q t] gf(2) by auto
  then show "pb + 8 \<notin> fst ` (A - used_mem pb page)" by force
  have no: "page_no_from_addr (m_pages m) p = (p - m_arena m) div page_size m" if "(p, s) \<in> A" for p s
  proof -
    have "pages_valid_addr (m_pages m) p"
      using held_size [OF ok that [unfolded A]] gf(6) g(3) by (simp add: pages_valid_addr_def)
    then show ?thesis using page_no_correct(1) [OF g(1) _ gf(7)] g(2,3) by simp
  qed
  have "(p, s) \<in> used_mem pb page \<longleftrightarrow> page_no_from_addr (m_pages m) p = length pre" if ps: "(p, s) \<in> A" for p s
  proof -
    note h = held_size [OF ok ps [unfolded A]]
    consider "(p, s) \<in> used_mem (m_arena m) (concat pre)" | "(p, s) \<in> used_mem pb page"
      | "(p, s) \<in> used_mem (pb + page_size m) (concat post)" using ps U by blast
    then show ?thesis
    proof cases
      case 1
      then have "p - m_arena m < length pre * page_size m" using pre [OF 1] h pb by simp
      then have "(p - m_arena m) div page_size m < length pre" by (rule less_mult_imp_div_less)
      moreover have "(p, s) \<notin> used_mem pb page" using pre [OF 1] used_mem_bounds [of p s pb page] by linarith
      ultimately show ?thesis using no [OF ps] by simp
    next
      case 2
      have "(p - m_arena m) div page_size m = length pre"
        using used_mem_bounds [OF 2] h tp pb by (intro div_nat_eqI) (auto simp: algebra_simps)
      then show ?thesis using 2 no [OF ps] by simp
    next
      case 3
      have "Suc (length pre) * page_size m \<le> p - m_arena m" using post [OF 3] pb by simp
      then have "Suc (length pre) \<le> (p - m_arena m) div page_size m"
        using gf(2) by (simp add: less_eq_div_iff_mult_less_eq)
      moreover have "(p, s) \<notin> used_mem pb page" using post [OF 3] used_mem_bounds [of p s pb page] tp by linarith
      ultimately show ?thesis using no [OF ps] by simp
    qed
  qed
  with U show "used_mem pb page = {(p, s) \<in> A. page_no_from_addr (m_pages m) p = length pre}" by fast
qed

section \<open>The operations on the held memory\<close>

lemma mem_free_inv:
  assumes "mem_inv m A" and "(p, s) \<in> A"
  shows "\<exists>m'. mem_free m p = Some m' \<and> mem_inv m' (A - {(p, s)}) \<and> same_geometry m m'"
proof -
  obtain pre xs ys post blk where r: "mem_rep m (pre @ (xs @ (s, True) # ys) # post)" "p = blk + 8"
      and blk: "blk = m_arena m + length pre * page_size m + total xs"
      and A: "A = used_mem (m_arena m) (concat (pre @ (xs @ (s, True) # ys) # post))"
    by (rule mem_inv_held [OF assms])
  obtain m' xs' fl s' fr ys' where f: "mem_free m (blk + 8) = Some m'"
      "mem_rep m' (pre @ (xs' @ (s', False) # ys') # post)" "same_geometry m m'" "xs = xs' @ fl" "ys = fr @ ys'"
      "\<forall>c \<in> set fl. \<not> snd c" "\<forall>c \<in> set fr. \<not> snd c" "s' = total fl + s + total fr"
    by (rule mem_free_rep [OF r(1) blk])
  have ok: "mem_ok {} m (pre @ (xs' @ (fl @ (s, True) # fr) @ ys') # post)"
    and ok': "mem_ok {} m' (pre @ (xs' @ [(s', False)] @ ys') # post)"
    using r(1) f(2,4,5) by (simp_all add: mem_rep_def)
  have "used_mem (m_arena m') (concat (pre @ (xs' @ (s', False) # ys') # post)) = A - {(p, s)}"
    using used_mem_change [OF ok ok' f(3) refl] f(4-8) A r(2) blk used_free_chunks(1) [OF f(6)] used_free_chunks(1) [OF f(7)]
    by (simp add: add.assoc)
  then show ?thesis using f(1-3) r(2) unfolding mem_inv_def by metis
qed

lemma realloc_inv:
  assumes "mem_inv m A" and "(p, s) \<in> A"
  shows "\<exists>r m'. realloc_inplace m p n = Some (r, m') \<and> same_geometry m m'
    \<and> (case r of None \<Rightarrow> mem_inv m' A \<and> s < n
       | Some q \<Rightarrow> q = p \<and> (\<exists>s' \<ge> n. mem_inv m' (insert (p, s') (A - {(p, s)}))))"
proof -
  obtain pre xs ys post blk where r: "mem_rep m (pre @ (xs @ (s, True) # ys) # post)" "p = blk + 8"
      and blk: "blk = m_arena m + length pre * page_size m + total xs"
      and A: "A = used_mem (m_arena m) (concat (pre @ (xs @ (s, True) # ys) # post))"
    by (rule mem_inv_held [OF assms])
  have change: "mem_inv m' (insert (p, s') (A - {(p, s)}))"
    if "mem_rep m' (pre @ (xs @ (s', True) # rest @ ys') # post)" "same_geometry m m'" "ys = fs @ ys'"
      "\<forall>c \<in> set fs \<union> set rest. \<not> snd c" "s' + total rest = s + total fs" for m' s' rest fs ys'
  proof -
    have "\<forall>c \<in> set fs. \<not> snd c" "\<forall>c \<in> set rest. \<not> snd c" using that(4) by blast+
    note e = used_free_chunks(1) [OF this(1)] used_free_chunks(1) [OF this(2)]
    have "mem_ok {} m (pre @ (xs @ ((s, True) # fs) @ ys') # post)"
      "mem_ok {} m' (pre @ (xs @ ((s', True) # rest) @ ys') # post)"
      using r(1) that by (simp_all add: mem_rep_def)
    from used_mem_change [OF this that(2) blk] that(3,5) e A r(2)
    have "used_mem (m_arena m') (concat (pre @ (xs @ (s', True) # rest @ ys') # post)) = insert (p, s') (A - {(p, s)})"
      by simp
    then show ?thesis unfolding mem_inv_def using that(1) by metis
  qed
  from r(1) blk show ?thesis
  proof (cases rule: realloc_rep [where n = n])
    case (grown m' s' rest fs ys')
    then show ?thesis using change r(2) by auto
  next
    case (failed m' rest fs ys')
    have "mem_inv m' (insert (p, s) (A - {(p, s)}))" by (rule change [OF failed(2-5)]) (simp add: failed(6))
    moreover have "insert (p, s) (A - {(p, s)}) = A" using assms(2) by blast
    ultimately show ?thesis using failed(1,3,7) r(2) by auto
  qed
qed

lemma mem_alloc_inv:
  assumes "mem_inv m A" and n: "n < page_size m"
  shows "\<exists>r m' s'. alloc_or_evict m n ev f s = Some (r, m', s') \<and> same_geometry m m'
    \<and> (case r of
        None \<Rightarrow> \<not> ev \<and> mem_inv m' A \<and> s' = s
      | Some p \<Rightarrow> 8 dvd p \<and> (\<exists>sz V ptrs. V \<subseteq> A \<and> p \<notin> fst ` (A - V) \<and> mem_inv m' (insert (p, sz) (A - V)) \<and> s' = fold f ptrs s
          \<and> distinct ptrs \<and> set ptrs = fst ` V \<and> (V = {} \<or> ev \<and> V = lru_page_mem m A)
          \<and> (ev \<and> page_size m < n + 8 \<or> n \<le> sz) \<and> sz + 8 \<le> page_size m))"
proof -
  obtain pgs where rep: "mem_rep m pgs" and A: "A = used_mem (m_arena m) (concat pgs)"
    using assms(1) by (auto simp: mem_inv_def)
  then have ok: "mem_ok {} m pgs" by (simp add: mem_rep_def)
  show ?thesis using rep n
  proof (cases rule: alloc_or_evict_cases [where ev = ev and f = f and s = s])
    case (found m' pre xs s0 ys post s' rest blk)
    have ok1: "mem_ok {} m (pre @ (xs @ [(s0, False)] @ ys) # post)"
      and ok2: "mem_ok {} m' (pre @ (xs @ ((s', True) # rest) @ ys) # post)"
      using ok found(2,4) by (simp_all add: mem_rep_def)
    note b = block_facts [OF ok [unfolded found(2)] found(3)]
    have u: "used_mem (m_arena m') (concat (pre @ (xs @ (s', True) # rest @ ys) # post)) = insert (blk + 8, s') A"
      using used_mem_change [OF ok1 ok2 found(5,3)] found(6) used_free_chunks(1) [OF found(7)] A found(2) by simp
    then have inv: "mem_inv m' (insert (blk + 8, s') A)" unfolding mem_inv_def using found(4) by metis
    have "blk + 8 \<notin> fst ` A"
    proof
      assume "blk + 8 \<in> fst ` A"
      then obtain t where t: "(blk + 8, t) \<in> A" by auto
      then show False
        using used_mem_around(1) [OF ok1 found(3)] used_mem_around(2,3) [OF ok1 found(3), where p = "blk + 8" and s = t]
          A found(2) by auto
    qed
    moreover have "8 dvd blk + 8" using b(3) by simp
    moreover have "s' + 8 \<le> page_size m" using b(5) found(3,6) by linarith
    ultimately show ?thesis using found(1,5,8) inv
      by (intro exI [of _ "Some (blk + 8)"] exI [of _ m'] exI [of _ s])
        (auto intro!: exI [of _ s'] exI [of _ "{} :: (nat \<times> nat) set"] exI [of _ "[] :: nat list"])
  next
    case (evicted m' pre page post s' rest pb)
    let ?V = "used_mem pb page"
    have pb: "pb = m_arena m + length pre * page_size m + total []" using evicted(4) by simp
    have ok1: "mem_ok {} m (pre @ ([] @ page @ []) # post)"
      and ok2: "mem_ok {} m' (pre @ ([] @ ((s', True) # rest) @ []) # post)"
      using ok evicted(3,6) by (simp_all add: mem_rep_def)
    have tp: "total page = page_size m" using mem_okD(3) [OF ok, of page] evicted(3) by simp
    have b: "8 dvd pb + 8" using geom_facts(4,5) [OF mem_okD(1) [OF ok]] evicted(4) by simp
    have u: "used_mem (m_arena m') (concat (pre @ ((s', True) # rest) # post)) = insert (pb + 8, s') (A - ?V)"
      using used_mem_change [OF ok1 ok2 evicted(7) pb] evicted(8) used_free_chunks(1) [OF evicted(9)] A evicted(3) tp by simp
    then have inv: "mem_inv m' (insert (pb + 8, s') (A - ?V))" unfolding mem_inv_def using evicted(6) by metis
    have V: "?V = lru_page_mem m A" "?V \<subseteq> A" "pb + 8 \<notin> fst ` (A - ?V)"
      using page_mem [OF ok [unfolded evicted(3)] evicted(4)] evicted(3,5) A by (simp_all add: lru_page_mem_def)
    have d: "distinct (used_ptrs pb page)" by (rule distinct_used_ptrs)
    have "?V \<subseteq> A \<and> pb + 8 \<notin> fst ` (A - ?V) \<and> mem_inv m' (insert (pb + 8, s') (A - ?V))
        \<and> fold f (used_ptrs pb page) s = fold f (used_ptrs pb page) s
        \<and> distinct (used_ptrs pb page) \<and> set (used_ptrs pb page) = fst ` ?V \<and> (?V = {} \<or> ev \<and> ?V = lru_page_mem m A)
        \<and> (ev \<and> page_size m < n + 8 \<or> n \<le> s') \<and> s' + 8 \<le> page_size m"
      using evicted(1,8,10) inv V d set_used_ptrs [of pb page] by auto
    then show ?thesis using evicted(2,7) b
      by (intro exI [of _ "Some (pb + 8)"] exI [of _ m'] exI [of _ "fold f (used_ptrs pb page) s"])
        (simp only: option.case, blast)
  next
    case (none m')
    have "m_arena m' = m_arena m" using none(4) by (simp add: same_geometry_def)
    then have "mem_inv m' A" unfolding mem_inv_def A using none(3) by metis
    then show ?thesis using none by auto
  qed
qed

lemma mem_evict_inv:
  assumes "mem_inv m A" and "n < page_size m"
  obtains p m' s' sz V ptrs where "alloc_or_evict m n True f s = Some (Some p, m', s')" and "8 dvd p" and "V \<subseteq> A"
    and "p \<notin> fst ` (A - V)" and "mem_inv m' (insert (p, sz) (A - V))" and "s' = fold f ptrs s" and "distinct ptrs"
    and "set ptrs = fst ` V" and "V = {} \<or> V = lru_page_mem m A" and "page_size m < n + 8 \<or> n \<le> sz"
    and "sz + 8 \<le> page_size m" and "same_geometry m m'"
proof -
  obtain r m' s' where r: "alloc_or_evict m n True f s = Some (r, m', s')" "same_geometry m m'"
      "case r of None \<Rightarrow> \<not> True \<and> mem_inv m' A \<and> s' = s
      | Some p \<Rightarrow> 8 dvd p \<and> (\<exists>sz V ptrs. V \<subseteq> A \<and> p \<notin> fst ` (A - V) \<and> mem_inv m' (insert (p, sz) (A - V)) \<and> s' = fold f ptrs s
          \<and> distinct ptrs \<and> set ptrs = fst ` V \<and> (V = {} \<or> True \<and> V = lru_page_mem m A)
          \<and> (True \<and> page_size m < n + 8 \<or> n \<le> sz) \<and> sz + 8 \<le> page_size m)"
    using mem_alloc_inv [OF assms, of True f s] by blast
  then obtain p where p: "r = Some p" by (cases r) auto
  from r show ?thesis unfolding p option.case using that by metis
qed

text \<open>The statistic of used memory is the sum over the held blocks, headers included.\<close>

lemma used_total_sum: "finite (used_mem a bs)" "used_total bs = (\<Sum>(p, s) \<in> used_mem a bs. s + 8)"
proof (induction bs arbitrary: a)
  case (Cons c bs)
  obtain s u where c: "c = (s, u)" by fastforce
  { case 1 then show ?case using Cons c by simp }
  { case 2
    have "(a + 8, s) \<notin> used_mem (a + s + 8) bs" by (auto dest: used_mem_bounds)
    then show ?case using Cons [of "a + s + 8"] c by simp }
qed simp_all

section \<open>The constructor\<close>

lemma free_pages:
  "total (replicate i (s, False)) = i * (s + 8)"
  "last_off 0 (replicate i (s, False)) = (if i = 0 then 0 else s + 8)"
  "used_mem a (replicate i (s, False)) = {}" "used_total (replicate i (s, False)) = 0"
proof -
  have l: "last_off l (replicate i (s, False)) = (if i = 0 then l else s + 8)" for l
    by (induction i arbitrary: l) auto
  show "last_off 0 (replicate i (s, False)) = (if i = 0 then 0 else s + 8)" by (rule l)
  show "total (replicate i (s, False)) = i * (s + 8)" "used_total (replicate i (s, False)) = 0"
    by (induction i) auto
  show "used_mem a (replicate i (s, False)) = {}" by (induction i arbitrary: a) auto
qed

lemma init_loop_spec:
  assumes "n = i + d" and "rep (m_blocks m) (m_arena m) 0 (replicate i (page_size m - 8, False))"
    and "fb_inv (size_at m) (m_free_blocks m)" and "page_size m = 2 ^ last_power_of_2 (m_free_blocks m)"
    and "fb_blocks (m_free_blocks m) = free_addrs (m_arena m) (replicate i (page_size m - 8, False))"
    and "8 \<le> page_size m" and "page_size m \<le> 2 ^ 31"
  shows "\<exists>m'. init_loop (m_arena m + n * page_size m) m (m_arena m + i * page_size m) (if i = 0 then 0 else page_size m) = Some m'
    \<and> same_arena m m' \<and> m_stats m' = m_stats m \<and> last_power_of_2 (m_free_blocks m') = last_power_of_2 (m_free_blocks m)
    \<and> rep (m_blocks m') (m_arena m) 0 (replicate n (page_size m - 8, False))
    \<and> fb_inv (size_at m') (m_free_blocks m')
    \<and> fb_blocks (m_free_blocks m') = free_addrs (m_arena m) (replicate n (page_size m - 8, False))"
  using assms
proof (induction d arbitrary: i m)
  case 0
  then have "init_loop (m_arena m + n * page_size m) m (m_arena m + i * page_size m) (if i = 0 then 0 else page_size m) = Some m"
    by (subst init_loop.simps) simp
  then show ?case using 0 by (intro exI [of _ m]) simp
next
  case (Suc d)
  let ?page = "(page_size m - 8, False)" and ?av = "m_arena m + i * page_size m"
  let ?pgs = "replicate i ?page"
  define m1 where "m1 = m\<lparr>m_blocks := (m_blocks m)(?av := block_new (page_size m - header_size) (if i = 0 then 0 else page_size m))\<rparr>"
  have ps: "page_size m - 8 + 8 = page_size m" using Suc.prems(6) by simp
  note fp = free_pages [where s = "page_size m - 8" and i = i, unfolded ps]
  have at: "m_blocks m1 ?av = \<lparr>b_size = page_size m - 8, b_used = False, b_left = last_off 0 ?pgs\<rparr>"
    using Suc.prems(6,7) by (simp add: m1_def block_new_def header_size_def fp(2))
  have "rep (m_blocks m1) (m_arena m) 0 ?pgs"
    by (rule rep_cong [OF Suc.prems(2)]) (use fp(1) in \<open>auto simp: m1_def\<close>)
  then have r1: "rep (m_blocks m1) (m_arena m) 0 (?pgs @ [(page_size m - 8, False)])"
    using at by (intro rep_middle [where blk = ?av and c = "?av + (page_size m - 8) + 8"]) (simp_all add: fp(1))
  have nin: "?av \<notin> fb_blocks (m_free_blocks m)"
    using free_addrs_bounds [of ?av "m_arena m" ?pgs] fp(1) Suc.prems(5) by auto
  have "\<forall>b \<in> fb_blocks (m_free_blocks m). size_at m1 b = size_at m b" using nin by (auto simp: m1_def size_at_def)
  then have "fb_inv (size_at m1) (m_free_blocks m)" by (rule fb_inv_cong [OF Suc.prems(3)])
  then have "fb_inv (size_at m1) (m_free_blocks m1)" by (simp add: m1_def)
  moreover have "size_at m1 ?av < 2 ^ last_power_of_2 (m_free_blocks m1)"
    using at Suc.prems(4,6) by (simp add: size_at_def) (simp add: m1_def)
  moreover have "?av \<notin> fb_blocks (m_free_blocks m1)" using nin by (simp add: m1_def)
  ultimately have p: "fb_inv (size_at m1) (m_free_blocks (put_free ?av m1))"
      "fb_blocks (m_free_blocks (put_free ?av m1)) = insert ?av (fb_blocks (m_free_blocks m))"
      "last_power_of_2 (m_free_blocks (put_free ?av m1)) = last_power_of_2 (m_free_blocks m)"
    using put_block_spec [of "size_at m1" "m_free_blocks m1" ?av] by (simp_all add: put_free_def) (simp_all add: m1_def)
  define m2 where "m2 = put_free ?av m1"
  have m2: "m_arena m2 = m_arena m" "page_size m2 = page_size m" "m_blocks m2 = m_blocks m1" "size_at m2 = size_at m1"
    "same_arena m m2" "m_stats m2 = m_stats m"
    by (simp_all add: m2_def m1_def put_free_def size_at_def [abs_def] same_arena_def)
  have rs: "replicate (Suc i) ?page = ?pgs @ [(page_size m - 8, False)]"
    by (simp add: replicate_append_same)
  have step: "init_loop (m_arena m + n * page_size m) m ?av (if i = 0 then 0 else page_size m)
      = init_loop (m_arena m + n * page_size m) m2 (m_arena m + Suc i * page_size m) (page_size m)"
  proof -
    have "i < n" "0 < page_size m" using Suc.prems(1,6) by simp_all
    then have "i * page_size m < n * page_size m" by (rule mult_less_mono1)
    moreover have "?av + page_size m = m_arena m + Suc i * page_size m" by simp
    moreover have "page_size m1 = page_size m" by (simp add: m1_def)
    ultimately show ?thesis by (subst init_loop.simps) (simp only: nat_add_left_cancel_less if_True m1_def m2_def)
  qed
  have f2: "fb_inv (size_at m2) (m_free_blocks m2)" "page_size m2 = 2 ^ last_power_of_2 (m_free_blocks m2)"
    and blocks: "fb_blocks (m_free_blocks m2) = insert ?av (fb_blocks (m_free_blocks m))"
    using p Suc.prems(4) m2 by (simp_all add: m2_def)
  have "fb_blocks (m_free_blocks m2) = free_addrs (m_arena m2) (replicate (Suc i) (page_size m2 - 8, False))"
    unfolding blocks Suc.prems(5) m2 rs by (simp add: fp(1))
  moreover have "rep (m_blocks m2) (m_arena m2) 0 (replicate (Suc i) (page_size m2 - 8, False))"
    unfolding m2 rs by (rule r1)
  moreover have "n = Suc i + d" "8 \<le> page_size m2" "page_size m2 \<le> 2 ^ 31" using Suc.prems(1,6,7) m2 by simp_all
  ultimately obtain m' where "init_loop (m_arena m2 + n * page_size m2) m2 (m_arena m2 + Suc i * page_size m2) (if Suc i = 0 then 0 else page_size m2) = Some m'"
      "same_arena m2 m'" "m_stats m' = m_stats m2" "last_power_of_2 (m_free_blocks m') = last_power_of_2 (m_free_blocks m2)"
      "rep (m_blocks m') (m_arena m2) 0 (replicate n (page_size m2 - 8, False))"
      "fb_inv (size_at m') (m_free_blocks m')"
      "fb_blocks (m_free_blocks m') = free_addrs (m_arena m2) (replicate n (page_size m2 - 8, False))"
    using Suc.IH [of "Suc i" m2] f2 by blast
  then show ?case unfolding step using m2 p(3) same_arena_trans [OF m2(5)]
    by (intro exI [of _ m']) (simp add: m2_def [symmetric])
qed

text \<open>A memory limit of whole pages, the page size a power of two of at least 256 bytes.\<close>

lemma memalloc_new_inv:
  assumes ps: "ps = 2 ^ k" "8 \<le> k" "k \<le> 31" and a: "ps dvd a" and lim: "limit = n * ps" "0 < n" "limit \<le> 2 ^ 32"
    and "a + limit \<le> 2 ^ 62" and st: "st mem_used_memory = 0"
  shows "\<exists>m. memalloc_new (Some a) h st limit ps = Some (Inr m) \<and> mem_held a limit m {} \<and> page_size m = ps"
proof -
  define st' where "st' = stat_set mem_page_size (of_nat ps) (stat_set mem_limit_maxbytes (of_nat limit) st)"
  define m0 where "m0 = \<lparr>arena_size = limit, page_size = ps, m_arena = a, m_blocks = h,
      m_pages = pages_new ps a (a + limit), m_free_blocks = free_blocks_new ps, m_stats = st'\<rparr>"
  note fb = free_blocks_new_inv [OF ps]
  have k64: "k < 64" using ps(3) by simp
  have e: "a + limit = a + n * ps" using lim(1) by simp
  note pg = pages_new_inv [OF ps(1) k64 e lim(2) a]
  have "(2 :: nat) ^ 8 \<le> 2 ^ k" using ps(2) by (intro power_increasing) auto
  then have ps8: "256 \<le> ps" using ps(1) by simp
  have ps31: "ps \<le> 2 ^ 31" unfolding ps(1) using ps(3) by (intro power_increasing) auto
  obtain m where m: "init_loop (a + n * ps) m0 a 0 = Some m" "same_arena m0 m" "m_stats m = st'"
      "last_power_of_2 (m_free_blocks m) = k" "rep (m_blocks m) a 0 (replicate n (ps - 8, False))"
      "fb_inv (size_at m) (m_free_blocks m)"
      "fb_blocks (m_free_blocks m) = free_addrs a (replicate n (ps - 8, False))"
    using init_loop_spec [of n 0 n m0] fb ps8 ps31 ps(1) by (auto simp: m0_def)
  have sa: "arena_size m = limit" "page_size m = ps" "m_arena m = a" "m_pages m = pages_new ps a (a + limit)"
    using m(2) by (simp_all add: same_arena_def m0_def)
  have pgf: "pg_size (m_pages m) = ps" "arena_begin (m_pages m) = a" by (simp_all add: sa pages_new_def Let_def)
  have "2 ^ log2_page_size (m_pages m) = (2 :: nat) ^ k"
    using pages_invD(1) [OF pg(1)] pgf(1) ps(1) by (simp add: sa)
  then have lg: "log2_page_size (m_pages m) = k" by simp
  have geom: "geom m"
    unfolding geom_def using pg(1,2) pgf lg ps lim assms(8) m(4) by (simp add: sa)
  have "8 dvd ps" using ps(1,2) le_imp_power_dvd [of 3 k "2 :: nat"] by simp
  then have ck: "chunk_ok (ps - 8, False)" using ps8 by (simp add: chunk_ok_def)
  let ?pgs = "replicate n [(ps - 8, False)]"
  have "mem_ok {} m ?pgs"
    unfolding mem_ok_def using geom pg(2) ck ps8 m(5-7) by (simp add: sa)
  moreover have "used_stat m = used_total (concat ?pgs)"
    using st free_pages(4) [of n "ps - 8"] by (simp add: used_stat_def m(3) st'_def stat_set_def)
  ultimately have "mem_rep m ?pgs" by (simp add: mem_rep_def)
  moreover have "used_mem (m_arena m) (concat ?pgs) = {}" using free_pages(3) [of a n "ps - 8"] by (simp add: sa)
  ultimately have "mem_inv m {}" unfolding mem_inv_def by metis
  moreover have "memalloc_new (Some a) h st limit ps = Some (Inr m)"
    unfolding memalloc_new_def Let_def option.case st'_def [symmetric] m0_def [symmetric] using m(1) e by simp
  ultimately show ?thesis using sa by (simp add: mem_held_def)
qed

section \<open>The contract holds\<close>

interpretation mem: block_allocator "mem_held a sz" mem_alloc mem_free realloc_inplace mem_limit
  for a sz
proof
  fix m A p s q t
  assume "mem_held a sz m A" "(p, s) \<in> A" "(q, t) \<in> A"
  then show "(p, s) = (q, t) \<or> p + s < q \<or> q + t < p" unfolding mem_held_def using held_blocks_apart by blast
next
  fix m A n
  assume inv: "mem_held a sz m A" and n: "n < mem_limit m"
  obtain r m' s' where r: "alloc_or_evict m n False (\<lambda>_ s. s) () = Some (r, m', s')" "same_geometry m m'"
      "case r of None \<Rightarrow> mem_inv m' A
       | Some p \<Rightarrow> p \<notin> fst ` A \<and> (\<exists>s \<ge> n. mem_inv m' (insert (p, s) A))"
    using mem_alloc_inv [of m A n False "\<lambda>_ s. s" "()"] inv n unfolding mem_held_def mem_limit_def
    by (fastforce split: option.splits)
  then show "\<exists>r m'. mem_alloc m n = Some (r, m') \<and> mem_limit m' = mem_limit m
      \<and> (case r of None \<Rightarrow> mem_held a sz m' A | Some p \<Rightarrow> p \<notin> fst ` A \<and> (\<exists>s \<ge> n. mem_held a sz m' (insert (p, s) A)))"
    using inv by (auto simp: mem_alloc_def mem_held_def same_geometry_def mem_limit_def split: option.splits)
next
  fix m A p s
  assume inv: "mem_held a sz m A" and ps: "(p, s) \<in> A"
  then show "\<exists>m'. mem_free m p = Some m' \<and> mem_limit m' = mem_limit m \<and> mem_held a sz m' (A - {(p, s)})"
    using mem_free_inv [of m A p s] by (auto simp: mem_held_def same_geometry_def mem_limit_def)
next
  fix m A p s n
  assume inv: "mem_held a sz m A" and ps: "(p, s) \<in> A"
  obtain r m' where r: "realloc_inplace m p n = Some (r, m')" "same_geometry m m'"
      "case r of None \<Rightarrow> mem_inv m' A \<and> s < n
       | Some q \<Rightarrow> q = p \<and> (\<exists>s' \<ge> n. mem_inv m' (insert (p, s') (A - {(p, s)})))"
    using realloc_inv [OF _ ps, of m n] inv unfolding mem_held_def by blast
  then show "\<exists>r m'. realloc_inplace m p n = Some (r, m') \<and> mem_limit m' = mem_limit m
      \<and> (case r of None \<Rightarrow> mem_held a sz m' A
         | Some q \<Rightarrow> q = p \<and> (\<exists>s' \<ge> n. mem_held a sz m' (insert (p, s') (A - {(p, s)}))))"
    using inv by (cases r) (auto simp: mem_held_def same_geometry_def mem_limit_def)
qed

lemma holds_in_arena:
  assumes "mem_held a sz m A" and "holds held A" and "(p, n) \<in> set held"
  shows "a + 8 \<le> p \<and> p + n \<le> a + sz"
proof -
  obtain s where s: "n \<le> s" "(p, s) \<in> A" using holds_block [OF assms(2,3)] by blast
  obtain pgs where "mem_ok {} m pgs" "A = used_mem (m_arena m) (concat pgs)"
    using assms(1) by (auto simp: mem_held_def mem_inv_def mem_rep_def)
  then show ?thesis using held_size(2,3) [of "{}" m pgs p s] s assms(1) by (simp add: mem_held_def)
qed

lemma mem_inv_stat: "mem_inv m A \<Longrightarrow> unat (m_stats m mem_used_memory) = (\<Sum>(p, s) \<in> A. s + 8)"
  using used_total_sum(2) by (auto simp: mem_inv_def mem_rep_def used_stat_def)

section \<open>Properties of the allocator\<close>



text \<open>C13: an allocation that may evict always returns an aligned block that nobody holds; either
  nothing was evicted, or the user was told, once each, of exactly the blocks held in the least
  recently used page, and every other block is kept. The block is large enough unless the request is
  within a block header of the page size.\<close>

theorem alloc_evicts_lru_page:
  assumes "mem_inv m A" and "n < page_size m"
  shows "\<exists>p m' s' sz V ptrs. alloc_or_evict m n True f s = Some (Some p, m', s') \<and> 8 dvd p \<and> V \<subseteq> A
    \<and> p \<notin> fst ` (A - V) \<and> mem_inv m' (insert (p, sz) (A - V))
    \<and> s' = fold f ptrs s \<and> distinct ptrs \<and> set ptrs = fst ` V \<and> (V = {} \<or> V = lru_page_mem m A)
    \<and> (n + 8 \<le> page_size m \<longrightarrow> n \<le> sz)"
proof -
  obtain p m' s' sz V ptrs where "alloc_or_evict m n True f s = Some (Some p, m', s')" "8 dvd p" "V \<subseteq> A"
      "p \<notin> fst ` (A - V)" "mem_inv m' (insert (p, sz) (A - V))" "s' = fold f ptrs s" "distinct ptrs" "set ptrs = fst ` V"
      "V = {} \<or> V = lru_page_mem m A" "page_size m < n + 8 \<or> n \<le> sz"
    by (rule mem_evict_inv [OF assms])
  then show ?thesis by (intro exI conjI) (auto simp only: not_le [symmetric])
qed

theorem alloc_evicts_lru_page_witness:
  "\<exists>m p m' s' sz V ptrs. memalloc_new (Some 4096) (\<lambda>_. block_new 0 0) (\<lambda>_. 0) 512 256 = Some (Inr m)
    \<and> alloc_or_evict m 100 True Cons [] = Some (Some p, m', s') \<and> 8 dvd p \<and> V \<subseteq> {}
    \<and> p \<notin> fst ` ({} - V) \<and> mem_inv m' (insert (p, sz) ({} - V))
    \<and> s' = fold Cons ptrs [] \<and> distinct ptrs \<and> set ptrs = fst ` V \<and> (V = {} \<or> V = lru_page_mem m {})
    \<and> (100 + 8 \<le> page_size m \<longrightarrow> 100 \<le> sz)"
proof -
  obtain m where m: "memalloc_new (Some 4096) (\<lambda>_. block_new 0 0) (\<lambda>_. 0) 512 256 = Some (Inr m)" "mem_inv m {}"
      "page_size m = 256"
    using memalloc_new_inv [of 256 8 4096 512 2 "\<lambda>_. 0" "\<lambda>_. block_new 0 0"] by (auto simp: mem_held_def)
  then show ?thesis using alloc_evicts_lru_page [OF m(2), of 100 Cons "[]"] by simp
qed

text \<open>A request within a block header of the page size is served, by eviction, with a block that is
  smaller than the request.\<close>

theorem eviction_serves_short_block:
  assumes "mem_inv m A" and "page_size m - 8 < n" and "n < page_size m"
  shows "\<exists>p m' s' sz B. alloc_or_evict m n True f s = Some (Some p, m', s') \<and> mem_inv m' (insert (p, sz) B) \<and> sz < n"
proof -
  obtain p m' s' sz V where r: "alloc_or_evict m n True f s = Some (Some p, m', s')"
      "mem_inv m' (insert (p, sz) (A - V))" "sz + 8 \<le> page_size m"
    by (rule mem_evict_inv [OF assms(1,3)])
  then have "sz < n" using assms(2) by linarith
  with r show ?thesis by blast
qed

theorem eviction_serves_short_block_witness:
  "\<exists>m p m' s' sz B. memalloc_new (Some 4096) (\<lambda>_. block_new 0 0) (\<lambda>_. 0) 512 256 = Some (Inr m)
    \<and> alloc_or_evict m 250 True Cons [] = Some (Some p, m', s') \<and> mem_inv m' (insert (p, sz) B) \<and> sz < 250"
proof -
  obtain m where m: "memalloc_new (Some 4096) (\<lambda>_. block_new 0 0) (\<lambda>_. 0) 512 256 = Some (Inr m)" "mem_inv m {}"
      "page_size m = 256"
    using memalloc_new_inv [of 256 8 4096 512 2 "\<lambda>_. 0" "\<lambda>_. block_new 0 0"] by (auto simp: mem_held_def)
  then show ?thesis using eviction_serves_short_block [OF m(2), of 250 Cons "[]"] by simp
qed

text \<open>C30: reallocation in place ends; on success the pointer stays and its block has the new size; when
  the free memory on its right is too small everything the user holds is as before.\<close>

theorem realloc_keeps_blocks:
  assumes "mem_inv m A" and "(p, s) \<in> A"
  shows "\<exists>r m'. realloc_inplace m p n = Some (r, m')
    \<and> (case r of None \<Rightarrow> mem_inv m' A \<and> s < n
       | Some q \<Rightarrow> q = p \<and> (\<exists>s' \<ge> n. mem_inv m' (insert (p, s') (A - {(p, s)}))))"
  using realloc_inv [OF assms, of n] by blast

theorem realloc_keeps_blocks_witness:
  "\<exists>m p s A r m'. mem_inv m A \<and> (p, s) \<in> A \<and> realloc_inplace m p 1000 = Some (r, m')
    \<and> (case r of None \<Rightarrow> mem_inv m' A \<and> s < 1000
       | Some q \<Rightarrow> q = p \<and> (\<exists>s' \<ge> 1000. mem_inv m' (insert (p, s') (A - {(p, s)}))))"
proof -
  obtain m where m: "mem_inv m {}" "page_size m = 256"
    using memalloc_new_inv [of 256 8 4096 512 2 "\<lambda>_. 0" "\<lambda>_. block_new 0 0"] by (auto simp: mem_held_def)
  have n: "100 < page_size m" using m(2) by simp
  obtain p m1 sz V where "mem_inv m1 (insert (p, sz) ({} - V))" by (rule mem_evict_inv [OF m(1) n])
  from this realloc_keeps_blocks [OF this insertI1, of 1000] show ?thesis by blast
qed

end
