(* ===== verification/Hash_Table.thy ===== *)
theory Hash_Table
  imports Bits
begin

text \<open>
  \<^verbatim>\<open>cachelot/hash_table.h\<close>: the open-addressing Robin Hood hash table. The template
  parameter \<^verbatim>\<open>Entry\<close> is the type variable \<open>'e\<close>, and its member \<^verbatim>\<open>key()\<close> the argument
  \<open>key_of\<close> of the operations that read keys; \<^verbatim>\<open>size_type\<close> and \<^verbatim>\<open>hash_type\<close> are
  \<^verbatim>\<open>uint32\<close>, as the cache instantiates them (\<^verbatim>\<open>DictOptions\<close>). An entry is passed already
  built where the code builds it from key and value. Each \<^verbatim>\<open>while\<close> loop is a
  \<^theory_text>\<open>partial_function\<close> into \<open>option\<close>, so that \<open>None\<close> is a loop that does not end.
\<close>

section \<open>The table and its operations\<close>

record 'e hash_table =
  m_size :: u32
  m_capacity :: u32
  m_mask :: u32
  m_hashes :: "u32 list"
  m_entries :: "'e list"

definition max_load_factor_percent :: u32 where
  "max_load_factor_percent = 93"

definition ht_clear :: "'e hash_table \<Rightarrow> 'e hash_table" where
  "ht_clear t = t\<lparr>m_hashes := fold (\<lambda>pos hs. hs[pos := 0]) [0..<unat (m_capacity t)] (m_hashes t),
                  m_size := 0\<rparr>"

text \<open>The arrays come uninitialised from \<^verbatim>\<open>new\<close>: their contents \<open>hs\<close>, \<open>es\<close> are arguments.\<close>

definition hash_table_new :: "u32 \<Rightarrow> u32 list \<Rightarrow> 'e list \<Rightarrow> 'e hash_table" where
  "hash_table_new the_capacity hs es =
     ht_clear \<lparr>m_size = 0, m_capacity = the_capacity, m_mask = the_capacity - 1,
       m_hashes = hs, m_entries = es\<rparr>"

definition hash_at :: "'e hash_table \<Rightarrow> u32 \<Rightarrow> u32" where
  "hash_at t pos = m_hashes t ! unat pos"

definition entry_at :: "'e hash_table \<Rightarrow> u32 \<Rightarrow> 'e" where
  "entry_at t pos = m_entries t ! unat pos"

definition empty_at :: "'e hash_table \<Rightarrow> u32 \<Rightarrow> bool" where
  "empty_at t pos \<longleftrightarrow> hash_at t pos = 0"

definition max_size :: "'e hash_table \<Rightarrow> u32" where
  "max_size t = m_capacity t * max_load_factor_percent div 100"

definition threshold_reached :: "'e hash_table \<Rightarrow> bool" where
  "threshold_reached t \<longleftrightarrow> max_size t \<le> m_size t"

definition ht_empty :: "'e hash_table \<Rightarrow> bool" where
  "ht_empty t \<longleftrightarrow> m_size t = 0"

definition desired_position :: "'e hash_table \<Rightarrow> u32 \<Rightarrow> u32" where
  "desired_position t hash = hash AND m_mask t"

definition inc_pos :: "'e hash_table \<Rightarrow> u32 \<Rightarrow> u32" where
  "inc_pos t pos = (pos + 1) AND m_mask t"

definition get_distance :: "'e hash_table \<Rightarrow> u32 \<Rightarrow> u32 \<Rightarrow> u32" where
  "get_distance t pos hash = (pos + m_capacity t - desired_position t hash) AND m_mask t"

definition set_slot :: "u32 \<Rightarrow> u32 \<Rightarrow> 'e \<Rightarrow> 'e hash_table \<Rightarrow> 'e hash_table" where
  "set_slot pos h e t = t\<lparr>m_hashes := (m_hashes t)[unat pos := h],
                          m_entries := (m_entries t)[unat pos := e]\<rparr>"

partial_function (option) entry_for_loop ::
  "('e \<Rightarrow> 'k) \<Rightarrow> 'e hash_table \<Rightarrow> 'k \<Rightarrow> u32 \<Rightarrow> u32 \<Rightarrow> u32 \<Rightarrow> (bool \<times> u32) option" where
  "entry_for_loop key_of t key hash pos distance =
     (if \<not> empty_at t pos \<and> distance \<le> get_distance t pos (hash_at t pos)
      then if hash_at t pos = hash \<and> key_of (entry_at t pos) = key then Some (True, pos)
           else entry_for_loop key_of t key hash (inc_pos t pos) (distance + 1)
      else Some (False, pos))"

definition ht_entry_for :: "('e \<Rightarrow> 'k) \<Rightarrow> 'e hash_table \<Rightarrow> 'k \<Rightarrow> u32 \<Rightarrow> (bool \<times> u32) option" where
  "ht_entry_for key_of t key hash = entry_for_loop key_of t key hash (desired_position t hash) 0"

partial_function (option) insert_loop ::
  "'e hash_table \<Rightarrow> u32 \<Rightarrow> 'e \<Rightarrow> u32 \<Rightarrow> u32 \<Rightarrow> ('e hash_table \<times> u32 \<times> 'e \<times> u32) option" where
  "insert_loop t hash e pos lookup_distance =
     (if empty_at t pos then Some (t, hash, e, pos)
      else let existing_entry_distance = get_distance t pos (hash_at t pos)
           in if existing_entry_distance < lookup_distance
              then insert_loop (set_slot pos hash e t) (hash_at t pos) (entry_at t pos)
                     (inc_pos t pos) (existing_entry_distance + 1)
              else insert_loop t hash e (inc_pos t pos) (lookup_distance + 1))"

definition ht_insert :: "'e hash_table \<Rightarrow> u32 \<Rightarrow> 'e \<Rightarrow> u32 \<Rightarrow> (u32 \<times> 'e hash_table) option" where
  "ht_insert t pos e hash =
     (case insert_loop t hash e pos (get_distance t pos hash) of
        None \<Rightarrow> None
      | Some (t', hash', e', pos') \<Rightarrow>
          Some (pos', (set_slot pos' hash' e' t')\<lparr>m_size := m_size t' + 1\<rparr>))"

definition swap_slots :: "u32 \<Rightarrow> u32 \<Rightarrow> 'e hash_table \<Rightarrow> 'e hash_table" where
  "swap_slots a b t = set_slot b (hash_at t a) (entry_at t a)
                        (set_slot a (hash_at t b) (entry_at t b) t)"

partial_function (option) remove_loop :: "'e hash_table \<Rightarrow> u32 \<Rightarrow> u32 \<Rightarrow> 'e hash_table option" where
  "remove_loop t current_position following_position =
     (if \<not> empty_at t following_position
         \<and> 0 < get_distance t following_position (hash_at t following_position)
      then remove_loop (swap_slots current_position following_position t)
             (inc_pos t current_position) (inc_pos t following_position)
      else Some t)"

definition ht_remove :: "'e hash_table \<Rightarrow> u32 \<Rightarrow> 'e hash_table option" where
  "ht_remove t pos =
     remove_loop (t\<lparr>m_hashes := (m_hashes t)[unat pos := 0], m_size := m_size t - 1\<rparr>)
       pos (inc_pos t pos)"

definition ht_get :: "('e \<Rightarrow> 'k) \<Rightarrow> 'e hash_table \<Rightarrow> 'k \<Rightarrow> u32 \<Rightarrow> 'e option option" where
  "ht_get key_of t key hash =
     map_option (\<lambda>(found, pos). if found then Some (entry_at t pos) else None)
       (ht_entry_for key_of t key hash)"

definition ht_contains :: "('e \<Rightarrow> 'k) \<Rightarrow> 'e hash_table \<Rightarrow> 'k \<Rightarrow> u32 \<Rightarrow> bool option" where
  "ht_contains key_of t key hash = map_option fst (ht_entry_for key_of t key hash)"

definition ht_put ::
  "('e \<Rightarrow> 'k) \<Rightarrow> 'e hash_table \<Rightarrow> 'k \<Rightarrow> u32 \<Rightarrow> 'e \<Rightarrow> (bool \<times> 'e hash_table) option" where
  "ht_put key_of t key hash e =
     (case ht_entry_for key_of t key hash of
        None \<Rightarrow> None
      | Some (found, pos) \<Rightarrow>
          if found then Some (False, t\<lparr>m_entries := (m_entries t)[unat pos := e]\<rparr>)
          else map_option (\<lambda>(_, t'). (True, t')) (ht_insert t pos e hash))"

definition ht_del :: "('e \<Rightarrow> 'k) \<Rightarrow> 'e hash_table \<Rightarrow> 'k \<Rightarrow> u32 \<Rightarrow> (bool \<times> 'e hash_table) option" where
  "ht_del key_of t key hash =
     (case ht_entry_for key_of t key hash of
        None \<Rightarrow> None
      | Some (found, pos) \<Rightarrow>
          if found then map_option (\<lambda>t'. (True, t')) (ht_remove t pos) else Some (False, t))"

text \<open>The predicate may have effects (the cache destroys items in it): it passes a state \<open>'s\<close>.\<close>

partial_function (option) remove_if_loop ::
  "('e \<Rightarrow> 's \<Rightarrow> bool \<times> 's) \<Rightarrow> 'e hash_table \<Rightarrow> 's \<Rightarrow> u32 \<Rightarrow> ('e hash_table \<times> 's) option" where
  "remove_if_loop predicate t s pos =
     (if pos < m_capacity t
      then if \<not> empty_at t pos
           then case predicate (entry_at t pos) s of (rm, s') \<Rightarrow>
                  if rm
                  then Option.bind (ht_remove t pos) (\<lambda>t'. remove_if_loop predicate t' s' pos)
                  else remove_if_loop predicate t s' (pos + 1)
           else remove_if_loop predicate t s (pos + 1)
      else Some (t, s))"

definition ht_remove_if ::
  "('e \<Rightarrow> 's \<Rightarrow> bool \<times> 's) \<Rightarrow> 'e hash_table \<Rightarrow> 's \<Rightarrow> ('e hash_table \<times> 's) option" where
  "ht_remove_if predicate t s = remove_if_loop predicate t s 0"

declare entry_for_loop.simps [code] insert_loop.simps [code] remove_loop.simps [code]
  remove_if_loop.simps [code]

section \<open>Abstraction and invariant\<close>

text \<open>On the array of hashes alone: the distance of a slot's hash from its desired position.\<close>

definition cdist :: "nat \<Rightarrow> nat \<Rightarrow> u32 \<Rightarrow> nat" where
  "cdist n i h = (i + n - unat h mod n) mod n"

definition cnext :: "nat \<Rightarrow> nat \<Rightarrow> nat" where
  "cnext n i = Suc i mod n"

definition cprev :: "nat \<Rightarrow> nat \<Rightarrow> nat" where
  "cprev n i = (i + n - 1) mod n"

definition hdist :: "u32 list \<Rightarrow> nat \<Rightarrow> nat" where
  "hdist hs i = cdist (length hs) i (hs ! i)"

text \<open>
  An occupied slot is at its desired position, or the slot before it is occupied and at most
  one nearer to its own.
\<close>

definition carry_ok :: "u32 list \<Rightarrow> nat \<Rightarrow> nat \<Rightarrow> bool" where
  "carry_ok hs i d \<longleftrightarrow> d = 0 \<or>
     (hs ! cprev (length hs) i \<noteq> 0 \<and> d \<le> Suc (hdist hs (cprev (length hs) i)))"

definition rh_ok :: "u32 list \<Rightarrow> nat \<Rightarrow> bool" where
  "rh_ok hs i \<longleftrightarrow> hs ! i \<noteq> 0 \<longrightarrow> carry_ok hs i (hdist hs i)"

definition robin_hood :: "u32 list \<Rightarrow> bool" where
  "robin_hood hs \<longleftrightarrow> (\<forall>i < length hs. rh_ok hs i)"

definition ht_wf :: "'e hash_table \<Rightarrow> bool" where
  "ht_wf t \<longleftrightarrow> (\<exists>k < 32. m_capacity t = pow2 k) \<and> m_mask t = m_capacity t - 1
     \<and> length (m_hashes t) = unat (m_capacity t) \<and> length (m_entries t) = unat (m_capacity t)"

definition slots :: "'e hash_table \<Rightarrow> (u32 \<times> 'e) list" where
  "slots t = zip (m_hashes t) (m_entries t)"

definition ht_mset :: "'e hash_table \<Rightarrow> (u32 \<times> 'e) multiset" where
  "ht_mset t = filter_mset (\<lambda>s. fst s \<noteq> 0) (mset (slots t))"

definition ht_keys :: "('e \<Rightarrow> 'k) \<Rightarrow> 'e hash_table \<Rightarrow> 'k set" where
  "ht_keys key_of t = (key_of \<circ> snd) ` set_mset (ht_mset t)"

text \<open>
  \<open>hf\<close> is the hash the callers pass for each key. \<open>ht_struct\<close> is the shape of the table
  (at least one slot free, so that every search ends), \<open>ht_inv\<close> adds that the keys are
  distinct and stored under their hashes.
\<close>

definition ht_struct :: "'e hash_table \<Rightarrow> bool" where
  "ht_struct t \<longleftrightarrow> ht_wf t \<and> robin_hood (m_hashes t) \<and> unat (m_size t) = size (ht_mset t)
     \<and> unat (m_size t) < unat (m_capacity t)"

definition keys_ok :: "('e \<Rightarrow> 'k) \<Rightarrow> ('k \<Rightarrow> u32) \<Rightarrow> (u32 \<times> 'e) multiset \<Rightarrow> bool" where
  "keys_ok key_of hf M \<longleftrightarrow> (\<forall>k. size (filter_mset (\<lambda>s. key_of (snd s) = k) M) \<le> 1)
     \<and> (\<forall>s \<in># M. fst s = hf (key_of (snd s)))"

definition ht_inv :: "('e \<Rightarrow> 'k) \<Rightarrow> ('k \<Rightarrow> u32) \<Rightarrow> 'e hash_table \<Rightarrow> bool" where
  "ht_inv key_of hf t \<longleftrightarrow> ht_struct t \<and> keys_ok key_of hf (ht_mset t)"

text \<open>The table as a map from keys to entries.\<close>

definition ht_map :: "('e \<Rightarrow> 'k) \<Rightarrow> 'e hash_table \<Rightarrow> 'k \<Rightarrow> 'e option" where
  "ht_map key_of t = map_of (map (\<lambda>s. (key_of (snd s), snd s)) (filter (\<lambda>s. fst s \<noteq> 0) (slots t)))"

text \<open>Notions of the proofs: where a search has looked, where an entry may go in, the hole of a removal.\<close>

definition probed :: "('e \<Rightarrow> 'k) \<Rightarrow> 'e hash_table \<Rightarrow> 'k \<Rightarrow> u32 \<Rightarrow> nat \<Rightarrow> bool" where
  "probed key_of t key hash j \<longleftrightarrow> (\<forall>j' < j. let q = (unat hash + j') mod unat (m_capacity t) in
     m_hashes t ! q \<noteq> 0 \<and> j' \<le> hdist (m_hashes t) q
     \<and> \<not> (m_hashes t ! q = hash \<and> key_of (m_entries t ! q) = key))"

definition insertion_point :: "'e hash_table \<Rightarrow> u32 \<Rightarrow> u32 \<Rightarrow> bool" where
  "insertion_point t pos hash \<longleftrightarrow> unat pos < unat (m_capacity t)
     \<and> carry_ok (m_hashes t) (unat pos) (cdist (unat (m_capacity t)) (unat pos) hash)"

text \<open>The number of steps from \<open>i\<close> forward to \<open>z\<close>, the measure of every loop of the table.\<close>

definition csteps :: "nat \<Rightarrow> nat \<Rightarrow> nat \<Rightarrow> nat" where
  "csteps n i z = (z + n - i) mod n"

text \<open>A hole at \<open>c\<close>: every slot is in order but the one after the hole, whose element may move back.\<close>

definition hole :: "u32 list \<Rightarrow> nat \<Rightarrow> bool" where
  "hole hs c \<longleftrightarrow> hs ! c = 0 \<and> (\<forall>i < length hs. i \<noteq> cnext (length hs) c \<longrightarrow> rh_ok hs i)
     \<and> (let f = cnext (length hs) c in
          hs ! f \<noteq> 0 \<longrightarrow> 0 < hdist hs f \<longrightarrow> carry_ok hs c (hdist hs f - 1))"

text \<open>Where the elements of a table \<open>t'\<close> were in \<open>t\<close>: at the same slot or one slot later, past \<open>c\<close>.\<close>

definition moved_back :: "'e hash_table \<Rightarrow> 'e hash_table \<Rightarrow> nat \<Rightarrow> nat \<Rightarrow> bool" where
  "moved_back t t' z c \<longleftrightarrow> m_capacity t' = m_capacity t \<and> m_hashes t' ! z = 0 \<and>
     (\<forall>i < unat (m_capacity t). m_hashes t' ! i \<noteq> 0 \<longrightarrow> slots t' ! i = slots t ! i \<or>
        (slots t' ! i = slots t ! cnext (unat (m_capacity t)) i
         \<and> csteps (unat (m_capacity t)) i z \<le> csteps (unat (m_capacity t)) c z))"

section \<open>Circular arithmetic\<close>

lemma cnext_less [simp]: "0 < n \<Longrightarrow> cnext n i < n"
  by (simp add: cnext_def)

lemma cprev_less [simp]: "0 < n \<Longrightarrow> cprev n i < n"
  by (simp add: cprev_def)

lemma cdist_less [simp]: "0 < n \<Longrightarrow> cdist n i h < n"
  by (simp add: cdist_def)

lemma cnext_eq: "i < n \<Longrightarrow> cnext n i = (if Suc i = n then 0 else Suc i)"
  by (simp add: cnext_def)

lemma cprev_eq: "i < n \<Longrightarrow> cprev n i = (if i = 0 then n - 1 else i - 1)"
  by (auto simp: cprev_def mod_if)

lemma cprev_cnext [simp]: "i < n \<Longrightarrow> cprev n (cnext n i) = i"
  by (auto simp: cprev_eq cnext_eq)

lemma cnext_cprev [simp]: "i < n \<Longrightarrow> cnext n (cprev n i) = i"
  by (auto simp: cprev_eq cnext_eq)

lemma mod_dist_cnext:
  "i < n \<Longrightarrow> d < n \<Longrightarrow> (cnext n i + n - d) mod n =
     (if Suc ((i + n - d) mod n) = n then 0 else Suc ((i + n - d) mod n))"
  by (simp add: mod_add_self_diff) (auto simp: cnext_eq)

lemma mod_dist_cprev:
  "i < n \<Longrightarrow> d < n \<Longrightarrow> 0 < (i + n - d) mod n \<Longrightarrow>
     (cprev n i + n - d) mod n = (i + n - d) mod n - 1"
  by (simp add: mod_add_self_diff) (auto simp: cprev_eq split: if_splits)

lemma mod_dist_plus:
  "i < n \<Longrightarrow> d < n \<Longrightarrow> (d + (i + n - d) mod n) mod n = i" for n :: nat
  by (auto simp: mod_add_self_diff)

lemma mod_plus_dist:
  fixes n :: nat
  assumes "j < n" and "d < n"
  shows "((d + j) mod n + n - d) mod n = j"
proof (cases "d + j < n")
  case True
  with assms show ?thesis by simp
next
  case False
  then have "(d + j) mod n = d + j - n" using assms by (simp add: mod_if)
  with False assms show ?thesis by simp
qed

lemma cdist_cnext:
  "i < n \<Longrightarrow> cdist n (cnext n i) h = (if Suc (cdist n i h) = n then 0 else Suc (cdist n i h))"
  using mod_dist_cnext [of i n "unat h mod n"] by (simp add: cdist_def)

lemma cdist_cprev:
  "i < n \<Longrightarrow> 0 < cdist n i h \<Longrightarrow> cdist n (cprev n i) h = cdist n i h - 1"
  using mod_dist_cprev [of i n "unat h mod n"] by (simp add: cdist_def)

lemma desired_plus_cdist: "i < n \<Longrightarrow> (unat h mod n + cdist n i h) mod n = i"
  using mod_dist_plus [of i n "unat h mod n"] by (simp add: cdist_def)

lemma cdist_desired_plus: "j < n \<Longrightarrow> cdist n ((unat h mod n + j) mod n) h = j"
  using mod_plus_dist [of j n "unat h mod n"] by (simp add: cdist_def)

lemma cnext_plus: "cnext n ((a + j) mod n) = (a + Suc j) mod n"
  by (simp add: cnext_def mod_Suc_eq)

lemma cprev_plus: "0 < n \<Longrightarrow> cprev n ((a + Suc j) mod n) = (a + j) mod n"
  by (metis cnext_plus cprev_cnext mod_less_divisor)

lemma csteps_cnext: "i < n \<Longrightarrow> z < n \<Longrightarrow> i \<noteq> z \<Longrightarrow> csteps n (cnext n i) z < csteps n i z"
  by (auto simp: csteps_def cnext_eq mod_if)

section \<open>The Robin Hood order of the hashes\<close>

lemma hdist_less [simp]: "hs \<noteq> [] \<Longrightarrow> hdist hs i < length hs"
  by (simp add: hdist_def)

lemma hdist_update_other [simp]: "i \<noteq> j \<Longrightarrow> hdist (hs[j := h]) i = hdist hs i"
  by (simp add: hdist_def)

lemma hdist_update_same [simp]: "j < length hs \<Longrightarrow> hdist (hs[j := h]) j = cdist (length hs) j h"
  by (simp add: hdist_def)

lemma robin_hoodD: "robin_hood hs \<Longrightarrow> i < length hs \<Longrightarrow> hs ! i \<noteq> 0 \<Longrightarrow> carry_ok hs i (hdist hs i)"
  by (auto simp: robin_hood_def rh_ok_def)

text \<open>Before an occupied slot at distance \<open>d\<close> lie \<open>d\<close> occupied slots, their distances rising to it.\<close>

lemma robin_hood_chain:
  assumes "robin_hood hs" and "i < length hs" and "hs ! i \<noteq> 0" and "j \<le> hdist hs i"
  shows "hs ! ((unat (hs ! i) mod length hs + j) mod length hs) \<noteq> 0
    \<and> j \<le> hdist hs ((unat (hs ! i) mod length hs + j) mod length hs)"
  using assms(4)
proof (induction "hdist hs i - j" arbitrary: j)
  case 0
  then have "j = cdist (length hs) i (hs ! i)" by (simp add: hdist_def)
  with assms(2,3) show ?case by (simp add: desired_plus_cdist hdist_def)
next
  case (Suc m)
  let ?n = "length hs" and ?a = "unat (hs ! i) mod length hs"
  let ?q = "(?a + Suc j) mod ?n"
  have n: "0 < ?n" using assms(2) by linarith
  have IH: "hs ! ?q \<noteq> 0" "Suc j \<le> hdist hs ?q"
    using Suc.hyps(1) [of "Suc j"] Suc.hyps(2) by simp_all
  have "carry_ok hs ?q (hdist hs ?q)"
    using robin_hoodD [OF assms(1) _ IH(1)] n by simp
  with IH(2) show ?case
    unfolding carry_ok_def cprev_plus [OF n] by auto
qed

lemma robin_hood_not_far:
  assumes "robin_hood hs" and "z < length hs" and "hs ! z = 0" and "i < length hs" and "hs ! i \<noteq> 0"
  shows "Suc (hdist hs i) < length hs"
proof (rule ccontr)
  let ?n = "length hs"
  assume "\<not> Suc (hdist hs i) < ?n"
  moreover have "cdist ?n z (hs ! i) < ?n" using assms(2) by (intro cdist_less) linarith
  ultimately have "cdist ?n z (hs ! i) \<le> hdist hs i" by linarith
  from robin_hood_chain [OF assms(1,4,5) this] show False
    using assms(2,3) by (simp add: desired_plus_cdist)
qed

text \<open>Writing the carried hash over a slot whose element is nearer to its desired position.\<close>

lemma robin_hood_put:
  assumes "robin_hood hs" and "p < length hs" and "h \<noteq> 0"
    and "carry_ok hs p (cdist (length hs) p h)"
    and nearer: "hs ! p = 0 \<or> hdist hs p < cdist (length hs) p h"
  shows "robin_hood (hs[p := h])"
  unfolding robin_hood_def
proof (intro allI impI)
  let ?n = "length hs" and ?hs = "hs[p := h]" and ?L = "cdist (length hs) p h"
  fix i assume i': "i < length ?hs"
  then have i: "i < ?n" and n: "0 < ?n" by auto
  consider "i = p" | "i \<noteq> p" "cprev ?n i = p" | "i \<noteq> p" "cprev ?n i \<noteq> p" by blast
  then show "rh_ok ?hs i"
  proof cases
    case 1
    show ?thesis
    proof (cases "cprev ?n p = p")
      case True
      then have "?n = 1" using assms(2) by (auto simp: cprev_eq le_Suc_eq split: if_splits)
      then have "?L = 0" using cdist_less [OF n, of p h] by simp
      then show ?thesis using 1 assms(2) by (simp add: rh_ok_def carry_ok_def)
    next
      case False
      then show ?thesis using 1 assms(2,4) by (simp add: rh_ok_def carry_ok_def)
    qed
  next
    case 2
    have "hs ! i \<noteq> 0 \<Longrightarrow> carry_ok hs i (hdist hs i)" using assms(1) i by (rule robin_hoodD)
    then show ?thesis using 2 nearer assms(2,3) by (auto simp: rh_ok_def carry_ok_def)
  next
    case 3
    have "hs ! i \<noteq> 0 \<Longrightarrow> carry_ok hs i (hdist hs i)" using assms(1) i by (rule robin_hoodD)
    then show ?thesis using 3 by (auto simp: rh_ok_def carry_ok_def)
  qed
qed

section \<open>Positions as numbers\<close>

lemma ht_wf_mask: "ht_wf t \<Longrightarrow> \<exists>k < 32. unat (m_capacity t) = 2 ^ k \<and> m_mask t = mask k"
  by (auto simp: ht_wf_def unat_pow2) (auto simp: pow2_def push_bit_of_1 mask_eq_exp_minus_1)

lemma capacity_pos: "ht_wf t \<Longrightarrow> 0 < unat (m_capacity t)"
  using ht_wf_mask [of t] by (metis zero_less_numeral zero_less_power)

lemma capacity_nonzero [simp]: "ht_wf t \<Longrightarrow> m_capacity t \<noteq> 0"
  using capacity_pos [of t] by auto

lemma capacity_le: "ht_wf t \<Longrightarrow> unat (m_capacity t) \<le> 2147483648"
proof -
  assume "ht_wf t"
  then obtain k where "k < 32" "unat (m_capacity t) = 2 ^ k" using ht_wf_mask by blast
  then have "unat (m_capacity t) \<le> 2 ^ 31" by (metis less_Suc_eq_le numeral_nat(7) numeral_3_eq_3
      one_le_numeral power_increasing Suc_numeral add_num_simps)
  then show ?thesis by simp
qed

lemma unat_and_m_mask:
  "ht_wf t \<Longrightarrow> unat (w AND m_mask t) = unat w mod unat (m_capacity t)"
  using ht_wf_mask [of t] by (auto simp: unat_and_mask)

lemma unat_desired_position [word_nat]:
  "ht_wf t \<Longrightarrow> unat (desired_position t h) = unat h mod unat (m_capacity t)"
  by (simp add: desired_position_def unat_and_m_mask)

lemma unat_inc_pos [word_nat]:
  assumes "ht_wf t" and "unat pos < unat (m_capacity t)"
  shows "unat (inc_pos t pos) = cnext (unat (m_capacity t)) (unat pos)"
proof -
  have "unat (pos + 1) = Suc (unat pos)"
    using assms capacity_le [OF assms(1)] by (subst unat_Suc_lt) simp_all
  then show ?thesis
    using assms by (simp add: inc_pos_def unat_and_m_mask cnext_def)
qed

lemma unat_get_distance [word_nat]:
  assumes "ht_wf t" and "unat pos < unat (m_capacity t)"
  shows "unat (get_distance t pos h) = cdist (unat (m_capacity t)) (unat pos) h"
proof -
  let ?n = "unat (m_capacity t)"
  have "unat (pos + m_capacity t) = unat pos + ?n"
    using assms capacity_le [OF assms(1)] by (subst unat_add_lt) simp_all
  moreover have "unat h mod ?n < ?n" using assms(1) by simp
  then have "unat h mod ?n \<le> unat pos + ?n" by linarith
  ultimately have "unat (pos + m_capacity t - desired_position t h) = unat pos + ?n - unat h mod ?n"
    using assms by (subst unat_diff_le) (simp_all add: word_le_nat_alt unat_desired_position)
  then show ?thesis
    using assms by (simp add: get_distance_def unat_and_m_mask cdist_def)
qed

lemma ht_wf_lengths [simp]:
  "ht_wf t \<Longrightarrow> length (m_hashes t) = unat (m_capacity t)"
  "ht_wf t \<Longrightarrow> length (m_entries t) = unat (m_capacity t)"
  "ht_wf t \<Longrightarrow> length (slots t) = unat (m_capacity t)"
  by (auto simp: ht_wf_def slots_def)

lemma get_distance_hash_at:
  "ht_wf t \<Longrightarrow> unat pos < unat (m_capacity t) \<Longrightarrow>
     unat (get_distance t pos (hash_at t pos)) = hdist (m_hashes t) (unat pos)"
  by (simp add: unat_get_distance hdist_def hash_at_def)

lemma slots_nth [simp]:
  "ht_wf t \<Longrightarrow> unat pos < unat (m_capacity t) \<Longrightarrow> slots t ! unat pos = (hash_at t pos, entry_at t pos)"
  by (simp add: slots_def hash_at_def entry_at_def)

lemma ht_mset_iff:
  "ht_wf t \<Longrightarrow> s \<in># ht_mset t \<longleftrightarrow> fst s \<noteq> 0 \<and> (\<exists>i < unat (m_capacity t). slots t ! i = s)"
  by (auto simp: ht_mset_def in_set_conv_nth)

lemma slots_nth_hash: "ht_wf t \<Longrightarrow> i < unat (m_capacity t) \<Longrightarrow> fst (slots t ! i) = m_hashes t ! i"
  by (simp add: slots_def)

text \<open>A table with a free slot.\<close>

lemma ht_struct_free:
  assumes "ht_struct t"
  obtains z where "z < unat (m_capacity t)" and "m_hashes t ! z = 0"
proof (rule ccontr)
  note wf = assms [unfolded ht_struct_def, THEN conjunct1]
  assume "\<not> thesis"
  with that have "\<forall>z < unat (m_capacity t). m_hashes t ! z \<noteq> 0" by blast
  then have "\<forall>s \<in> set (slots t). fst s \<noteq> 0"
    using wf by (metis in_set_conv_nth slots_nth_hash ht_wf_lengths(3))
  then have "ht_mset t = mset (slots t)"
    by (simp add: ht_mset_def filter_mset_eq_conv)
  then show False using assms wf by (auto simp: ht_struct_def)
qed

section \<open>Searching\<close>

lemma entry_for_loop_spec:
  assumes wf: "ht_wf t" and j: "unat distance = j" "j \<le> unat (m_capacity t)"
    and pos: "unat pos = (unat hash + j) mod unat (m_capacity t)"
    and "probed key_of t key hash j"
  shows "\<exists>found p j'. entry_for_loop key_of t key hash pos distance = Some (found, p)
    \<and> j' \<le> unat (m_capacity t) \<and> unat p = (unat hash + j') mod unat (m_capacity t)
    \<and> probed key_of t key hash j'
    \<and> (if found then hash_at t p = hash \<and> key_of (entry_at t p) = key \<and> hash_at t p \<noteq> 0
       else hash_at t p = 0 \<or> hdist (m_hashes t) (unat p) < j')"
  using j pos assms(5)
proof (induction "unat (m_capacity t) - j" arbitrary: j pos distance)
  case 0
  let ?n = "unat (m_capacity t)"
  from 0 have "j = ?n" by simp
  have lt: "unat pos < ?n" using 0(4) capacity_pos [OF wf] by (metis mod_less_divisor)
  have "\<not> distance \<le> get_distance t pos (hash_at t pos)"
    using 0 \<open>j = ?n\<close> lt wf by (simp add: word_le_nat_alt unat_get_distance not_le)
  then have "entry_for_loop key_of t key hash pos distance = Some (False, pos)"
    by (subst entry_for_loop.simps) simp
  moreover have "hdist (m_hashes t) (unat pos) < j"
    using \<open>j = ?n\<close> lt wf by (simp add: hdist_def)
  ultimately show ?case using 0 by (intro exI [of _ False] exI [of _ pos] exI [of _ j]) simp
next
  case (Suc m)
  let ?n = "unat (m_capacity t)"
  have lt: "unat pos < ?n" using Suc wf by simp
  show ?case
  proof (cases "\<not> empty_at t pos \<and> distance \<le> get_distance t pos (hash_at t pos)")
    case False
    then have "entry_for_loop key_of t key hash pos distance = Some (False, pos)"
      by (subst entry_for_loop.simps) auto
    moreover have "hash_at t pos = 0 \<or> hdist (m_hashes t) (unat pos) < j"
      using False lt wf Suc.prems(1) by (auto simp: empty_at_def word_le_nat_alt get_distance_hash_at)
    ultimately show ?thesis
      using Suc.prems by (intro exI [of _ False] exI [of _ pos] exI [of _ j]) simp
  next
    case True
    show ?thesis
    proof (cases "hash_at t pos = hash \<and> key_of (entry_at t pos) = key")
      case hit: True
      then have "entry_for_loop key_of t key hash pos distance = Some (True, pos)"
        using True by (subst entry_for_loop.simps) simp
      then show ?thesis
        using Suc.prems hit True
        by (intro exI [of _ True] exI [of _ pos] exI [of _ j]) (auto simp: empty_at_def)
    next
      case miss: False
      have step: "entry_for_loop key_of t key hash pos distance =
          entry_for_loop key_of t key hash (inc_pos t pos) (distance + 1)"
        using True miss by (subst entry_for_loop.simps) auto
      have dist': "unat (distance + 1) = Suc j"
        using Suc.prems(1,2) capacity_le [OF wf] by (subst unat_Suc_lt) simp_all
      have pos': "unat (inc_pos t pos) = (unat hash + Suc j) mod ?n"
        using Suc.prems(3) lt wf by (simp only: unat_inc_pos cnext_plus)
      have "j \<le> hdist (m_hashes t) (unat pos)"
        using True lt wf Suc.prems(1) by (simp add: word_le_nat_alt get_distance_hash_at)
      then have probed': "probed key_of t key hash (Suc j)"
        using Suc.prems(3,4) True miss
        by (auto simp: probed_def less_Suc_eq Let_def empty_at_def hash_at_def entry_at_def)
      show ?thesis
        unfolding step using Suc.hyps(2) Suc.prems(2)
        by (intro Suc.hyps(1) [OF _ dist' _ pos' probed']) simp_all
    qed
  qed
qed

lemma ht_structD:
  assumes "ht_struct t"
  shows "ht_wf t" and "robin_hood (m_hashes t)" and "unat (m_size t) = size (ht_mset t)"
    and "unat (m_size t) < unat (m_capacity t)"
  using assms by (auto simp: ht_struct_def)

lemma ht_invD:
  assumes "ht_inv key_of hf t"
  shows "ht_struct t" and "keys_ok key_of hf (ht_mset t)"
  using assms by (auto simp: ht_inv_def)

lemma probed_lt:
  assumes "ht_struct t" and "probed key_of t key hash j" and "j \<le> unat (m_capacity t)"
  shows "j < unat (m_capacity t)"
proof (rule ccontr)
  let ?n = "unat (m_capacity t)"
  note wf = ht_structD(1) [OF assms(1)]
  assume "\<not> j < ?n"
  with assms(3) have "j = ?n" by simp
  obtain z where z: "z < ?n" "m_hashes t ! z = 0" using assms(1) by (rule ht_struct_free)
  have "cdist ?n z hash < ?n" using capacity_pos [OF wf] by (rule cdist_less)
  moreover have "(unat hash + cdist ?n z hash) mod ?n = z"
    using desired_plus_cdist [OF z(1), of hash] by (simp add: mod_add_left_eq)
  ultimately show False
    using assms(2) z(2) \<open>j = ?n\<close> by (auto simp: probed_def Let_def)
qed

lemma probed_absent:
  assumes inv: "ht_inv key_of hf t" and pr: "probed key_of t key (hf key) j"
    and p: "unat p = (unat (hf key) + j) mod unat (m_capacity t)"
    and stop: "hash_at t p = 0 \<or> hdist (m_hashes t) (unat p) < j"
  shows "key \<notin> ht_keys key_of t"
proof
  let ?n = "unat (m_capacity t)" and ?h = "hf key"
  note st = ht_structD [OF ht_invD(1) [OF inv]]
  assume "key \<in> ht_keys key_of t"
  then obtain s where s: "s \<in># ht_mset t" "key_of (snd s) = key" by (auto simp: ht_keys_def)
  then have hs: "fst s = ?h" using ht_invD(2) [OF inv] by (auto simp: keys_ok_def)
  obtain i where i: "i < ?n" "slots t ! i = s" "fst s \<noteq> 0"
    using s(1) st(1) by (auto simp: ht_mset_iff)
  then have hi: "m_hashes t ! i = ?h" and ei: "m_entries t ! i = snd s"
    using st(1) hs by (auto simp: slots_def)
  let ?d = "hdist (m_hashes t) i"
  have at: "(unat ?h + ?d) mod ?n = i"
    using desired_plus_cdist [OF i(1), of ?h] st(1) by (simp add: hdist_def hi mod_add_left_eq)
  show False
  proof (cases "?d < j")
    case True
    with pr at hi ei s(2) show False by (auto simp: probed_def Let_def)
  next
    case False
    then have "j \<le> ?d" by simp
    from robin_hood_chain [OF st(2) _ _ this] i hi hs st(1) p
    have "m_hashes t ! unat p \<noteq> 0 \<and> j \<le> hdist (m_hashes t) (unat p)"
      by (simp add: mod_add_left_eq)
    with stop show False by (auto simp: hash_at_def)
  qed
qed

lemma ht_entry_for_correct:
  assumes inv: "ht_inv key_of hf t"
  obtains found pos where "ht_entry_for key_of t key (hf key) = Some (found, pos)"
    and "unat pos < unat (m_capacity t)" and "found \<longleftrightarrow> key \<in> ht_keys key_of t"
    and "found \<Longrightarrow> hash_at t pos = hf key \<and> hf key \<noteq> 0 \<and> key_of (entry_at t pos) = key"
    and "\<not> found \<Longrightarrow> insertion_point t pos (hf key)"
proof -
  let ?n = "unat (m_capacity t)" and ?h = "hf key"
  note st = ht_structD [OF ht_invD(1) [OF inv]]
  have "probed key_of t key ?h 0" by (simp add: probed_def)
  from entry_for_loop_spec [OF st(1) _ _ _ this, of 0 "desired_position t ?h"] st(1)
  obtain found p j where r: "ht_entry_for key_of t key ?h = Some (found, p)" "j \<le> ?n"
      "unat p = (unat ?h + j) mod ?n" "probed key_of t key ?h j"
      "if found then hash_at t p = ?h \<and> key_of (entry_at t p) = key \<and> hash_at t p \<noteq> 0
       else hash_at t p = 0 \<or> hdist (m_hashes t) (unat p) < j"
    by (auto simp: ht_entry_for_def unat_desired_position)
  have lt: "unat p < ?n" using r(3) capacity_pos [OF st(1)] by simp
  have j: "j < ?n" using ht_invD(1) [OF inv] r(4,2) by (rule probed_lt)
  have dist: "cdist ?n (unat p) ?h = j"
    using cdist_desired_plus [OF j, of ?h] r(3) by (simp add: mod_add_left_eq)
  have ins: "insertion_point t p ?h"
  proof (cases j)
    case 0
    with lt dist show ?thesis by (simp add: insertion_point_def carry_ok_def)
  next
    case (Suc j')
    then have "cprev ?n (unat p) = (unat ?h + j') mod ?n"
      using r(3) capacity_pos [OF st(1)] by (simp only: cprev_plus)
    with r(4) Suc lt dist st(1) show ?thesis
      by (auto simp: insertion_point_def carry_ok_def probed_def Let_def)
  qed
  have found_iff: "found \<longleftrightarrow> key \<in> ht_keys key_of t"
  proof (cases found)
    case True
    with r(5) have "(hash_at t p, entry_at t p) \<in># ht_mset t"
      using lt st(1) by (metis ht_mset_iff slots_nth fst_conv)
    with True r(5) show ?thesis by (force simp: ht_keys_def)
  next
    case False
    with r(5) probed_absent [OF inv r(4,3)] show ?thesis by simp
  qed
  show ?thesis
  proof (rule that [OF r(1) lt found_iff _ ins])
    show "found \<Longrightarrow> hash_at t p = ?h \<and> ?h \<noteq> 0 \<and> key_of (entry_at t p) = key"
      using r(5) by auto
  qed
qed

section \<open>Writing slots\<close>

lemma ht_wf_cong:
  "m_capacity t' = m_capacity t \<Longrightarrow> m_mask t' = m_mask t \<Longrightarrow> length (m_hashes t') = length (m_hashes t)
    \<Longrightarrow> length (m_entries t') = length (m_entries t) \<Longrightarrow> ht_wf t' = ht_wf t"
  by (simp only: ht_wf_def)

lemma set_slot_simps [simp]:
  "m_size (set_slot p h e t) = m_size t" "m_capacity (set_slot p h e t) = m_capacity t"
  "m_mask (set_slot p h e t) = m_mask t" "m_hashes (set_slot p h e t) = (m_hashes t)[unat p := h]"
  "inc_pos (set_slot p h e t) = inc_pos t" "get_distance (set_slot p h e t) = get_distance t"
  by (simp_all add: set_slot_def inc_pos_def fun_eq_iff get_distance_def desired_position_def)

lemma ht_wf_set_slot [simp]: "ht_wf (set_slot p h e t) = ht_wf t"
  by (rule ht_wf_cong) (simp_all add: set_slot_def)

lemma slots_set_slot: "slots (set_slot p h e t) = (slots t)[unat p := (h, e)]"
  by (simp add: slots_def set_slot_def update_zip)

lemma ht_mset_set_slot:
  assumes "ht_wf t" and "unat p < unat (m_capacity t)"
  shows "filter_mset (\<lambda>s. fst s \<noteq> 0) {#(hash_at t p, entry_at t p)#} + ht_mset (set_slot p h e t)
    = filter_mset (\<lambda>s. fst s \<noteq> 0) {#(h, e)#} + ht_mset t"
proof -
  have "unat p < length (slots t)" using assms by simp
  from mset_update_swap [OF this, of "(h, e)"]
  have "filter_mset (\<lambda>s. fst s \<noteq> 0) (add_mset (slots t ! unat p) (mset ((slots t)[unat p := (h, e)])))
      = filter_mset (\<lambda>s. fst s \<noteq> 0) (add_mset (h, e) (mset (slots t)))" by simp
  then show ?thesis using assms by (auto simp: ht_mset_def slots_set_slot split: if_splits)
qed

lemma ht_mset_set_slot_free:
  assumes "ht_wf t" and "unat p < unat (m_capacity t)" and "hash_at t p = 0" and "h \<noteq> 0"
  shows "ht_mset (set_slot p h e t) = add_mset (h, e) (ht_mset t)"
  using ht_mset_set_slot [OF assms(1,2), of h e] assms(3,4) by simp

lemma ht_mset_set_slot_used:
  assumes "ht_wf t" and "unat p < unat (m_capacity t)" and "hash_at t p \<noteq> 0" and "h \<noteq> 0"
  shows "add_mset (hash_at t p, entry_at t p) (ht_mset (set_slot p h e t)) = add_mset (h, e) (ht_mset t)"
  using ht_mset_set_slot [OF assms(1,2), of h e] assms(3,4) by simp

section \<open>Inserting\<close>

lemma insert_loop_spec:
  assumes "ht_wf t" and "robin_hood (m_hashes t)" and "z < unat (m_capacity t)"
    and "m_hashes t ! z = 0" and "hash \<noteq> 0" and "insertion_point t pos hash"
    and "unat ld = cdist (unat (m_capacity t)) (unat pos) hash"
  shows "\<exists>t' h' e' p'. insert_loop t hash e pos ld = Some (t', h', e', p')
    \<and> ht_wf t' \<and> robin_hood (m_hashes t') \<and> m_capacity t' = m_capacity t \<and> m_size t' = m_size t
    \<and> h' \<noteq> 0 \<and> insertion_point t' p' h' \<and> hash_at t' p' = 0
    \<and> add_mset (h', e') (ht_mset t') = add_mset (hash, e) (ht_mset t)"
  using assms
proof (induction "csteps (unat (m_capacity t)) (unat pos) z" arbitrary: t hash e pos ld rule: less_induct)
  case less
  let ?n = "unat (m_capacity t)" and ?hs = "m_hashes t"
  note wf = less.prems(1) and rh = less.prems(2) and z = less.prems(3,4)
  have lt: "unat pos < ?n" and carry: "carry_ok ?hs (unat pos) (cdist ?n (unat pos) hash)"
    using less.prems(6) by (auto simp: insertion_point_def)
  have next_lt: "unat (inc_pos t pos) < ?n" and inc: "unat (inc_pos t pos) = cnext ?n (unat pos)"
    using wf lt by (simp_all add: unat_inc_pos capacity_pos)
  show ?case
  proof (cases "empty_at t pos")
    case True
    then have "insert_loop t hash e pos ld = Some (t, hash, e, pos)"
      by (subst insert_loop.simps) simp
    with True less.prems show ?thesis by (auto simp: empty_at_def)
  next
    case False
    then have occ: "?hs ! unat pos \<noteq> 0" "hash_at t pos \<noteq> 0" by (auto simp: empty_at_def hash_at_def)
    have "unat pos \<noteq> z" using occ z(2) by auto
    then have steps: "csteps ?n (unat (inc_pos t pos)) z < csteps ?n (unat pos) z"
      unfolding inc using lt z(1) by (intro csteps_cnext)
    let ?d = "get_distance t pos (hash_at t pos)"
    have d: "unat ?d = hdist ?hs (unat pos)" using wf lt by (rule get_distance_hash_at)
    have far: "Suc (hdist ?hs (unat pos)) < ?n"
      using robin_hood_not_far [OF rh _ z(2) _ occ(1)] z(1) lt wf by simp
    show ?thesis
    proof (cases "?d < ld")
      case True
      let ?t = "set_slot pos hash e t" and ?h = "hash_at t pos" and ?e = "entry_at t pos"
      have near: "hdist ?hs (unat pos) < cdist ?n (unat pos) hash"
        using True d less.prems(7) by (simp add: word_less_nat_alt)
      have step: "insert_loop t hash e pos ld = insert_loop ?t ?h ?e (inc_pos t pos) (?d + 1)"
        using False True by (subst insert_loop.simps) (simp add: Let_def)
      have rh': "robin_hood (m_hashes ?t)"
        using robin_hood_put [OF rh _ less.prems(5) _ disjI2] lt carry near wf by simp
      have d1: "unat (?d + 1) = Suc (hdist ?hs (unat pos))"
        using d far capacity_le [OF wf] by (subst unat_Suc_lt) simp_all
      have cd: "cdist ?n (cnext ?n (unat pos)) ?h = Suc (hdist ?hs (unat pos))"
        using far lt wf by (simp add: cdist_cnext hdist_def hash_at_def)
      have carry': "carry_ok (m_hashes ?t) (cnext ?n (unat pos)) (Suc (hdist ?hs (unat pos)))"
        using lt near less.prems(5) wf by (simp add: carry_ok_def)
      have "\<exists>t' h' e' p'. insert_loop ?t ?h ?e (inc_pos t pos) (?d + 1) = Some (t', h', e', p')
        \<and> ht_wf t' \<and> robin_hood (m_hashes t') \<and> m_capacity t' = m_capacity ?t \<and> m_size t' = m_size ?t
        \<and> h' \<noteq> 0 \<and> insertion_point t' p' h' \<and> hash_at t' p' = 0
        \<and> add_mset (h', e') (ht_mset t') = add_mset (?h, ?e) (ht_mset ?t)"
      proof (rule less.hyps)
        show "csteps (unat (m_capacity ?t)) (unat (inc_pos t pos)) z < csteps ?n (unat pos) z"
          using steps by simp
        show "insertion_point ?t (inc_pos t pos) ?h"
          using carry' cd next_lt inc by (simp add: insertion_point_def)
        show "unat (?d + 1) = cdist (unat (m_capacity ?t)) (unat (inc_pos t pos)) ?h"
          using d1 cd inc by simp
      qed (use wf rh' z \<open>unat pos \<noteq> z\<close> occ in simp_all)
      then show ?thesis
        unfolding step using ht_mset_set_slot_used [OF wf lt occ(2) less.prems(5)] by auto
    next
      case far_enough: False
      have ld: "cdist ?n (unat pos) hash \<le> hdist ?hs (unat pos)"
        using far_enough d less.prems(7) by (simp add: word_less_nat_alt)
      have step: "insert_loop t hash e pos ld = insert_loop t hash e (inc_pos t pos) (ld + 1)"
        using False far_enough by (subst insert_loop.simps) (simp add: Let_def)
      have cd: "cdist ?n (cnext ?n (unat pos)) hash = Suc (cdist ?n (unat pos) hash)"
        using ld far lt by (simp add: cdist_cnext)
      show ?thesis
        unfolding step
      proof (rule less.hyps [OF steps wf rh z less.prems(5)])
        show "insertion_point t (inc_pos t pos) hash"
          using lt ld occ cd next_lt inc wf by (simp add: insertion_point_def carry_ok_def)
        show "unat (ld + 1) = cdist ?n (unat (inc_pos t pos)) hash"
          using less.prems(7) ld far cd inc capacity_le [OF wf] by (subst unat_Suc_lt) simp_all
      qed
    qed
  qed
qed

text \<open>The loop is entered at an insertion point and writes the last carried entry to a free slot.\<close>

lemma ht_insert_correct:
  assumes st: "ht_struct t" and "insertion_point t pos hash" and "hash \<noteq> 0"
    and room: "Suc (unat (m_size t)) < unat (m_capacity t)"
  obtains p' t' where "ht_insert t pos e hash = Some (p', t')" and "ht_struct t'"
    and "ht_mset t' = add_mset (hash, e) (ht_mset t)" and "m_capacity t' = m_capacity t"
    and "m_size t' = m_size t + 1" and "unat p' < unat (m_capacity t)" and "hash_at t' p' \<noteq> 0"
proof -
  let ?n = "unat (m_capacity t)"
  note s = ht_structD [OF st]
  obtain z where z: "z < ?n" "m_hashes t ! z = 0" using st by (rule ht_struct_free)
  have "unat pos < ?n" using assms(2) by (simp add: insertion_point_def)
  then have "unat (get_distance t pos hash) = cdist ?n (unat pos) hash"
    using s(1) by (simp add: unat_get_distance)
  from insert_loop_spec [OF s(1,2) z assms(3,2) this, of e]
  obtain t1 h1 e1 p1 where l: "insert_loop t hash e pos (get_distance t pos hash) = Some (t1, h1, e1, p1)"
      "ht_wf t1" "robin_hood (m_hashes t1)" "m_capacity t1 = m_capacity t" "m_size t1 = m_size t"
      "h1 \<noteq> 0" "insertion_point t1 p1 h1" "hash_at t1 p1 = 0"
      "add_mset (h1, e1) (ht_mset t1) = add_mset (hash, e) (ht_mset t)" by blast
  define t2 where "t2 = (set_slot p1 h1 e1 t1)\<lparr>m_size := m_size t1 + 1\<rparr>"
  have p1: "unat p1 < ?n" using l(4,7) by (simp add: insertion_point_def)
  have "ht_wf t2 = ht_wf t1" by (rule ht_wf_cong) (simp_all add: t2_def set_slot_def)
  with l(2) have wf2: "ht_wf t2" by simp
  have mset2: "ht_mset t2 = add_mset (hash, e) (ht_mset t)"
    using ht_mset_set_slot_free [OF l(2) _ l(8,6), of e1] p1 l(4,9)
    by (simp add: t2_def ht_mset_def slots_def)
  have size2: "unat (m_size t2) = Suc (unat (m_size t))"
    using room l(5) capacity_le [OF s(1)] by (simp add: t2_def) (subst unat_Suc_lt, simp_all)
  have "robin_hood (m_hashes t2)"
    using robin_hood_put [OF l(3) _ l(6)] l(7,8) l(2)
    by (auto simp: t2_def insertion_point_def hash_at_def)
  then have "ht_struct t2"
    using wf2 mset2 size2 room s(3) l(4) by (simp add: ht_struct_def t2_def)
  moreover have "hash_at t2 p1 \<noteq> 0" using l(2,4,6) p1 by (simp add: t2_def hash_at_def)
  ultimately show ?thesis
    using that [of p1 t2] l(1,4,5) mset2 p1 by (simp add: ht_insert_def t2_def)
qed

section \<open>Removing\<close>

lemma hole_start:
  assumes "robin_hood hs" and "c < length hs" and "hs ! c \<noteq> 0"
  shows "hole (hs[c := 0]) c"
proof -
  let ?n = "length hs" and ?f = "cnext (length hs) c"
  have prev_neq: "cprev ?n i \<noteq> c" if "i < ?n" "i \<noteq> ?f" for i
    using that by (metis cnext_cprev)
  have "rh_ok (hs[c := 0]) i" if "i < ?n" "i \<noteq> ?f" for i
    using robin_hoodD [OF assms(1) that(1)] prev_neq [OF that] assms(2)
    by (cases "i = c") (auto simp: rh_ok_def carry_ok_def)
  moreover have "carry_ok (hs[c := 0]) c (hdist hs ?f - 1)"
    if "hs ! ?f \<noteq> 0" "0 < hdist hs ?f" "?f \<noteq> c"
  proof -
    have "cprev ?n c \<noteq> c" using that(3) assms(2) by (metis cnext_cprev)
    moreover have "carry_ok hs ?f (hdist hs ?f)" and "carry_ok hs c (hdist hs c)"
      using assms that(1) by (auto intro!: robin_hoodD cnext_less)
    ultimately show ?thesis using that(2) assms(2) by (auto simp: carry_ok_def)
  qed
  ultimately show ?thesis
    using assms(2) by (cases "?f = c") (auto simp: hole_def Let_def)
qed

lemma hole_stop:
  assumes "hole hs c" and "c < length hs"
    and "hs ! cnext (length hs) c = 0 \<or> hdist hs (cnext (length hs) c) = 0"
  shows "robin_hood hs"
  using assms by (fastforce simp: hole_def robin_hood_def rh_ok_def carry_ok_def)

lemma hole_step:
  fixes hs c
  defines "f \<equiv> cnext (length hs) c"
  assumes h: "hole hs c" and c: "c < length hs" and f: "hs ! f \<noteq> 0" "0 < hdist hs f"
  shows "hole (hs[c := hs ! f, f := 0]) f"
proof -
  let ?n = "length hs" and ?hs = "hs[c := hs ! f, f := 0]" and ?g = "cnext (length hs) f"
  have n: "0 < ?n" using c by linarith
  have lt: "f < ?n" "?g < ?n" using n by (simp_all add: f_def)
  have cf: "c \<noteq> f" using h f by (auto simp: hole_def)
  have pf: "cprev ?n f = c" using c by (simp add: f_def)
  have dc: "hdist ?hs c = hdist hs f - 1"
    using cdist_cprev [OF lt(1), of "hs ! f"] f(2) cf c pf by (simp add: hdist_def)
  have ok_c: "carry_ok hs c (hdist hs f - 1)"
    using h f by (simp add: hole_def Let_def f_def)
  have prev_c: "cprev ?n c = f \<Longrightarrow> hdist hs f - 1 = 0"
  proof -
    assume "cprev ?n c = f"
    then have "?n \<le> 2" using c cf by (auto simp: f_def cprev_eq cnext_eq split: if_splits)
    moreover have "hdist hs f < ?n" using n by (intro hdist_less) simp
    ultimately show ?thesis by simp
  qed
  have "rh_ok ?hs i" if i: "i < ?n" "i \<noteq> ?g" for i
  proof -
    consider "i = c" | "i = f" | "i \<noteq> c" "i \<noteq> f" by blast
    then show ?thesis
    proof cases
      case 1
      have "cprev ?n c \<noteq> c" using cf c by (metis cnext_cprev f_def)
      then show ?thesis
        using 1 dc ok_c prev_c by (cases "cprev ?n c = f") (auto simp: rh_ok_def carry_ok_def)
    next
      case 2
      then show ?thesis using lt by (simp add: rh_ok_def)
    next
      case 3
      have "cprev ?n i \<noteq> c" "cprev ?n i \<noteq> f"
        using 3 i by (metis cnext_cprev f_def)+
      moreover have "rh_ok hs i" using h i 3 by (simp add: hole_def f_def)
      ultimately show ?thesis using 3 by (simp add: rh_ok_def carry_ok_def)
    qed
  qed
  moreover have "carry_ok ?hs f (hdist ?hs ?g - 1)" if g: "?hs ! ?g \<noteq> 0" "0 < hdist ?hs ?g"
  proof -
    have "?g \<noteq> f" using g(1) lt by auto
    have "?g \<noteq> c"
    proof
      assume "?g = c"
      then have "cprev ?n c = f" using lt(1) by (metis cprev_cnext)
      with g(2) \<open>?g = c\<close> dc prev_c show False by simp
    qed
    with g \<open>?g \<noteq> f\<close> have "hs ! ?g \<noteq> 0" "hdist ?hs ?g = hdist hs ?g" by auto
    moreover have "rh_ok hs ?g" using h lt(2) \<open>?g \<noteq> f\<close> by (simp add: hole_def f_def)
    ultimately have "hdist ?hs ?g \<le> Suc (hdist hs f)"
      using g(2) lt(1) by (auto simp: rh_ok_def carry_ok_def)
    then show ?thesis
      using pf cf c dc f by (auto simp: carry_ok_def)
  qed
  ultimately show ?thesis
    using lt(1) by (simp add: hole_def Let_def)
qed

lemma swap_slots_simps:
  assumes "ht_wf t" and "unat a < unat (m_capacity t)" and "unat b < unat (m_capacity t)" and "a \<noteq> b"
  shows "m_hashes (swap_slots a b t) = (m_hashes t)[unat a := m_hashes t ! unat b, unat b := m_hashes t ! unat a]"
    and "mset (slots (swap_slots a b t)) = mset (slots t)"
    and "ht_wf (swap_slots a b t)" and "m_size (swap_slots a b t) = m_size t"
    and "m_capacity (swap_slots a b t) = m_capacity t"
    and "inc_pos (swap_slots a b t) = inc_pos t"
proof -
  show "m_hashes (swap_slots a b t) = (m_hashes t)[unat a := m_hashes t ! unat b, unat b := m_hashes t ! unat a]"
    by (simp add: swap_slots_def hash_at_def)
  have "slots (swap_slots a b t) = (slots t)[unat a := slots t ! unat b, unat b := slots t ! unat a]"
    using assms(1-3) by (simp add: swap_slots_def slots_set_slot)
  then show "mset (slots (swap_slots a b t)) = mset (slots t)"
    using mset_swap [of "unat b" "slots t" "unat a"] assms(1-3) by (simp del: slots_nth)
qed (use assms in \<open>simp_all add: swap_slots_def\<close>)

lemma moved_back_swap:
  assumes wf: "ht_wf t" and c: "unat c < unat (m_capacity t)"
    and f: "unat f = cnext (unat (m_capacity t)) (unat c)" and cf: "c \<noteq> f"
    and occ: "m_hashes t ! unat f \<noteq> 0" and z: "z < unat (m_capacity t)" "z \<noteq> unat c" "z \<noteq> unat f"
    and zero: "m_hashes t ! unat c = 0"
    and mv: "moved_back (swap_slots c f t) t' z (unat f)" and wf': "ht_wf t'"
  shows "moved_back t t' z (unat c)"
proof -
  let ?n = "unat (m_capacity t)" and ?t = "swap_slots c f t"
  have fl: "unat f < ?n" using f capacity_pos [OF wf] by simp
  note sw = swap_slots_simps [OF wf c fl cf]
  have cap: "m_capacity t' = m_capacity t" and tz: "m_hashes t' ! z = 0"
    using mv sw(5) by (simp_all add: moved_back_def)
  have sl: "slots ?t = (slots t)[unat c := slots t ! unat f, unat f := slots t ! unat c]"
    using wf c fl by (simp add: swap_slots_def slots_set_slot)
  have uc: "unat c \<noteq> unat f" using cf unat_eqI by blast
  have fc: "csteps ?n (unat f) z < csteps ?n (unat c) z"
    unfolding f using c z by (intro csteps_cnext) auto
  have "slots t' ! i = slots t ! i \<or>
      (slots t' ! i = slots t ! cnext ?n i \<and> csteps ?n i z \<le> csteps ?n (unat c) z)"
    if i: "i < ?n" "m_hashes t' ! i \<noteq> 0" for i
  proof -
    have nz: "fst (slots t' ! i) \<noteq> 0" using i wf' cap by (simp add: slots_nth_hash)
    have cz: "fst (slots t ! unat c) = 0" using zero wf c by (simp add: hash_at_def)
    have iz: "i \<noteq> z" using i(2) tz by auto
    from mv i consider (same) "slots t' ! i = slots ?t ! i"
      | (moved) "slots t' ! i = slots ?t ! cnext ?n i" "csteps ?n i z \<le> csteps ?n (unat f) z"
      using sw(5) by (auto simp: moved_back_def)
    then show ?thesis
    proof cases
      case same
      then consider "i = unat c" "slots t' ! i = slots t ! unat f" | "slots t' ! i = slots t ! i"
        using nz cz wf i(1) uc fl by (cases "i = unat c"; cases "i = unat f") (auto simp: sl)
      then show ?thesis by cases (simp_all add: f)
    next
      case moved
      have "cnext ?n i \<noteq> unat c"
      proof
        assume "cnext ?n i = unat c"
        then have "csteps ?n (unat c) z < csteps ?n i z" using csteps_cnext [OF i(1) z(1) iz] by simp
        with moved(2) fc show False by linarith
      qed
      moreover have "cnext ?n i \<noteq> unat f"
        using moved(1) nz cz wf fl by (auto simp: sl)
      ultimately show ?thesis using moved fc by (simp add: sl)
    qed
  qed
  then show ?thesis using cap tz by (simp add: moved_back_def)
qed

lemma remove_loop_spec:
  assumes "ht_wf t" and "unat c < unat (m_capacity t)" and "hole (m_hashes t) (unat c)"
    and "z < unat (m_capacity t)" and "m_hashes t ! z = 0" and "z \<noteq> unat c"
  shows "\<exists>t'. remove_loop t c (inc_pos t c) = Some t' \<and> ht_wf t' \<and> robin_hood (m_hashes t')
    \<and> ht_mset t' = ht_mset t \<and> m_size t' = m_size t \<and> m_capacity t' = m_capacity t
    \<and> moved_back t t' z (unat c)"
  using assms
proof (induction "csteps (unat (m_capacity t)) (unat c) z" arbitrary: t c rule: less_induct)
  case less
  let ?n = "unat (m_capacity t)" and ?f = "inc_pos t c"
  note wf = less.prems(1) and c = less.prems(2) and h = less.prems(3)
  have f: "unat ?f = cnext ?n (unat c)" "unat ?f < ?n" "length (m_hashes t) = ?n"
    using wf c by (simp_all add: unat_inc_pos capacity_pos)
  show ?case
  proof (cases "\<not> empty_at t ?f \<and> 0 < get_distance t ?f (hash_at t ?f)")
    case False
    then have "remove_loop t c ?f = Some t" by (subst remove_loop.simps) auto
    moreover have "robin_hood (m_hashes t)"
      using False wf c f by (intro hole_stop [OF h])
        (auto simp: empty_at_def hash_at_def word_less_nat_alt unat_get_distance hdist_def)
    moreover have "moved_back t t z (unat c)" using less.prems(5) by (simp add: moved_back_def)
    ultimately show ?thesis using wf by simp
  next
    case True
    have occ: "m_hashes t ! unat ?f \<noteq> 0" using True by (simp add: empty_at_def hash_at_def)
    have d: "0 < hdist (m_hashes t) (unat ?f)"
      using True wf f get_distance_hash_at [of t ?f] by (metis word_less_nat_alt unat_0)
    have cf: "c \<noteq> ?f" using h occ by (auto simp: hole_def)
    let ?t = "swap_slots c ?f t"
    note sw = swap_slots_simps [OF wf c f(2) cf]
    have zero: "m_hashes t ! unat c = 0" using h by (simp add: hole_def)
    have step: "remove_loop t c ?f = remove_loop ?t ?f (inc_pos ?t ?f)"
      using True sw(6) by (subst remove_loop.simps) simp
    have zf: "z \<noteq> unat ?f" using less.prems(5) occ by auto
    have "\<exists>t'. remove_loop ?t ?f (inc_pos ?t ?f) = Some t' \<and> ht_wf t' \<and> robin_hood (m_hashes t')
      \<and> ht_mset t' = ht_mset ?t \<and> m_size t' = m_size ?t \<and> m_capacity t' = m_capacity ?t
      \<and> moved_back ?t t' z (unat ?f)"
    proof (rule less.hyps)
      show "csteps (unat (m_capacity ?t)) (unat ?f) z < csteps ?n (unat c) z"
        using sw(5) f(1) c less.prems(4,6) csteps_cnext [of "unat c" ?n z] by simp
      show "hole (m_hashes ?t) (unat ?f)"
        using hole_step [OF h] sw(1) zero c occ d f by simp
      show "m_hashes ?t ! z = 0" using sw(1) less.prems(5,6) zf by simp
    qed (use sw f less.prems(4) zf in simp_all)
    moreover have "moved_back t t' z (unat c)" if "moved_back ?t t' z (unat ?f)" "ht_wf t'" for t'
      using moved_back_swap [OF wf c f(1) cf _ less.prems(4,6) zf zero that] occ by simp
    ultimately show ?thesis unfolding step using sw by (auto simp: ht_mset_def)
  qed
qed

lemma ht_remove_core:
  assumes st: "ht_struct t" and p: "unat pos < unat (m_capacity t)" and occ: "hash_at t pos \<noteq> 0"
    and z: "z < unat (m_capacity t)" "m_hashes t ! z = 0"
  obtains t' where "ht_remove t pos = Some t'" and "ht_struct t'"
    and "ht_mset t' = ht_mset t - {#(hash_at t pos, entry_at t pos)#}"
    and "m_capacity t' = m_capacity t" and "m_size t' = m_size t - 1" and "m_hashes t' ! z = 0"
    and "\<And>i. i < unat (m_capacity t) \<Longrightarrow> m_hashes t' ! i \<noteq> 0 \<Longrightarrow>
      \<exists>j. slots t' ! i = slots t ! j \<and> j \<noteq> unat pos \<and> (j = i \<or> (j = cnext (unat (m_capacity t)) i
        \<and> csteps (unat (m_capacity t)) i z \<le> csteps (unat (m_capacity t)) (unat pos) z))"
proof -
  let ?n = "unat (m_capacity t)"
  let ?s = "(hash_at t pos, entry_at t pos)"
  note s = ht_structD [OF st]
  define t1 where "t1 = t\<lparr>m_hashes := (m_hashes t)[unat pos := 0], m_size := m_size t - 1\<rparr>"
  have t1: "t1 = (set_slot pos 0 (entry_at t pos) t)\<lparr>m_size := m_size t - 1\<rparr>"
    using p s(1) by (simp add: t1_def set_slot_def entry_at_def)
  have "ht_wf t1 = ht_wf t" by (rule ht_wf_cong) (simp_all add: t1_def)
  with s(1) have wf1: "ht_wf t1" by simp
  have "ht_mset t = add_mset ?s (ht_mset (set_slot pos 0 (entry_at t pos) t))"
    using ht_mset_set_slot [OF s(1) p, of 0 "entry_at t pos"] occ by simp
  then have m1: "ht_mset t = add_mset ?s (ht_mset t1)"
    by (simp add: t1 ht_mset_def slots_def)
  have "hole (m_hashes t1) (unat pos)"
    using hole_start [OF s(2)] p occ s(1) by (simp add: t1_def hash_at_def)
  moreover have "z \<noteq> unat pos" using z(2) occ by (auto simp: hash_at_def)
  moreover have "m_hashes t1 ! z = 0" using z(2) \<open>z \<noteq> unat pos\<close> by (simp add: t1_def)
  ultimately obtain t' where t': "remove_loop t1 pos (inc_pos t1 pos) = Some t'" "ht_wf t'"
      "robin_hood (m_hashes t')" "ht_mset t' = ht_mset t1" "m_size t' = m_size t1"
      "m_capacity t' = m_capacity t1" "moved_back t1 t' z (unat pos)"
    using remove_loop_spec [OF wf1, of pos z] p z(1) by (auto simp: t1_def)
  have from1: "\<exists>j. slots t' ! i = slots t ! j \<and> j \<noteq> unat pos \<and> (j = i \<or> (j = cnext ?n i
      \<and> csteps ?n i z \<le> csteps ?n (unat pos) z))"
    if i: "i < ?n" "m_hashes t' ! i \<noteq> 0" for i
  proof -
    have cap1: "m_capacity t1 = m_capacity t" and sl: "slots t1 = (slots t)[unat pos := (0, entry_at t pos)]"
      using p s(1) by (simp_all add: t1 slots_set_slot [symmetric]) (simp add: slots_def)
    have nz: "fst (slots t' ! i) \<noteq> 0" using i t'(2,6) cap1 by (simp add: slots_nth_hash)
    have iz: "i \<noteq> z" using i(2) t'(7) by (auto simp: moved_back_def)
    from t'(7) i cap1 consider "slots t' ! i = slots t1 ! i"
      | "slots t' ! i = slots t1 ! cnext ?n i" "csteps ?n i z \<le> csteps ?n (unat pos) z"
      by (auto simp: moved_back_def)
    then show ?thesis
    proof cases
      case 1
      with nz have "i \<noteq> unat pos" using p s(1) by (auto simp: sl)
      with 1 show ?thesis by (auto simp: sl)
    next
      case 2
      have "cnext ?n i \<noteq> unat pos"
        using csteps_cnext [OF i(1) z(1) iz] 2(2) by auto
      with 2 show ?thesis by (auto simp: sl)
    qed
  qed
  have "m_size t \<noteq> 0" using s(3) m1 by auto
  then have size1: "unat (m_size t - 1) = unat (m_size t) - 1" by (rule unat_minus_one)
  have "ht_struct t'"
    using t' s m1 size1 by (simp add: ht_struct_def t1_def)
  moreover have "ht_remove t pos = Some t'"
    using t'(1) by (simp add: ht_remove_def t1_def inc_pos_def)
  moreover have "m_hashes t' ! z = 0" using t'(7) by (simp add: moved_back_def)
  ultimately show ?thesis
    using that [of t'] t' m1 from1 by (simp add: t1_def)
qed

text \<open>
  Removal at an occupied slot: the shape is kept, one element goes, every other one stays or moves one
  slot back, and a run of free slots at the start of the array stays free.
\<close>

lemma ht_remove_correct:
  assumes st: "ht_struct t" and p: "unat pos < unat (m_capacity t)" and occ: "hash_at t pos \<noteq> 0"
  obtains t' where "ht_remove t pos = Some t'" and "ht_struct t'"
    and "ht_mset t' = ht_mset t - {#(hash_at t pos, entry_at t pos)#}"
    and "m_capacity t' = m_capacity t" and "m_size t' = m_size t - 1"
    and "\<And>i. i < unat (m_capacity t) \<Longrightarrow> m_hashes t' ! i \<noteq> 0 \<Longrightarrow>
      \<exists>j. slots t' ! i = slots t ! j \<and> j \<noteq> unat pos \<and> (j = i \<or> j = cnext (unat (m_capacity t)) i)"
    and "\<And>x. x \<le> unat (m_capacity t) \<Longrightarrow> \<forall>i < x. m_hashes t ! i = 0 \<Longrightarrow> \<forall>i < x. m_hashes t' ! i = 0"
proof -
  let ?n = "unat (m_capacity t)"
  obtain z where z: "z < ?n" "m_hashes t ! z = 0" using st by (rule ht_struct_free)
  obtain t' where t': "ht_remove t pos = Some t'" "ht_struct t'"
      "ht_mset t' = ht_mset t - {#(hash_at t pos, entry_at t pos)#}"
      "m_capacity t' = m_capacity t" "m_size t' = m_size t - 1"
      "\<And>i. i < ?n \<Longrightarrow> m_hashes t' ! i \<noteq> 0 \<Longrightarrow>
        \<exists>j. slots t' ! i = slots t ! j \<and> j \<noteq> unat pos \<and> (j = i \<or> j = cnext ?n i)"
    by (rule ht_remove_core [OF st p occ z]) blast
  note wf = ht_structD(1) [OF st] and wf' = ht_structD(1) [OF t'(2)]
  have "m_hashes t' ! i = 0" if x: "x \<le> ?n" "\<forall>i < x. m_hashes t ! i = 0" "i < x" for x i
  proof (rule ccontr)
    assume nz: "m_hashes t' ! i \<noteq> 0"
    have i: "i < ?n" and z0: "0 < ?n" "m_hashes t ! 0 = 0" using x by auto
    obtain t2 where t2: "ht_remove t pos = Some t2" "m_hashes t2 ! 0 = 0"
      "\<And>i. i < ?n \<Longrightarrow> m_hashes t2 ! i \<noteq> 0 \<Longrightarrow> \<exists>j. slots t2 ! i = slots t ! j \<and> j \<noteq> unat pos
        \<and> (j = i \<or> (j = cnext ?n i \<and> csteps ?n i 0 \<le> csteps ?n (unat pos) 0))"
      by (rule ht_remove_core [OF st p occ z0]) blast
    have "t2 = t'" using t2(1) t'(1) by simp
    with t2(3) [OF i] nz obtain j where j: "slots t' ! i = slots t ! j"
        "j = i \<or> (j = cnext ?n i \<and> csteps ?n i 0 \<le> csteps ?n (unat pos) 0)" by auto
    have "fst (slots t' ! i) \<noteq> 0" using nz i wf' t'(4) by (simp add: slots_nth_hash)
    then have "j \<noteq> i" using j(1) x i wf by (auto simp: slots_nth_hash)
    with j(2) have le: "csteps ?n i 0 \<le> csteps ?n (unat pos) 0" by simp
    have "i \<noteq> 0" using nz t2(2) \<open>t2 = t'\<close> by (auto intro: ccontr)
    moreover have "x \<le> unat pos" using x(2) occ by (auto simp: hash_at_def not_less [symmetric])
    ultimately show False using le x(3) p i by (simp add: csteps_def)
  qed
  with t' show ?thesis by (intro that) blast+
qed

text \<open>The slots before the removed one keep their hashes.\<close>

lemma remove_loop_before:
  assumes "ht_wf t" and "unat c < unat (m_capacity t)" and "z < unat (m_capacity t)" and "m_hashes t ! z = 0" and "z \<noteq> unat c"
    and "remove_loop t c (inc_pos t c) = Some t'"
    and "i < unat (m_capacity t)" and "csteps (unat (m_capacity t)) (unat c) z < csteps (unat (m_capacity t)) i z"
  shows "m_hashes t' ! i = m_hashes t ! i"
  using assms
proof (induction "csteps (unat (m_capacity t)) (unat c) z" arbitrary: t c rule: less_induct)
  case less
  let ?n = "unat (m_capacity t)" and ?f = "inc_pos t c"
  note wf = less.prems(1) and c = less.prems(2)
  have f: "unat ?f = cnext ?n (unat c)" "unat ?f < ?n" using wf c by (simp_all add: unat_inc_pos capacity_pos)
  have down: "csteps ?n (unat ?f) z < csteps ?n (unat c) z"
    unfolding f(1) using c less.prems(3,5) by (intro csteps_cnext) simp_all
  show ?case
  proof (cases "\<not> empty_at t ?f \<and> 0 < get_distance t ?f (hash_at t ?f)")
    case False
    then have "remove_loop t c ?f = Some t" by (subst remove_loop.simps) auto
    then show ?thesis using less.prems(6) by simp
  next
    case True
    have cf: "c \<noteq> ?f" using down by (metis less_irrefl)
    let ?t = "swap_slots c ?f t"
    note sw = swap_slots_simps [OF wf c f(2) cf]
    have zf: "z \<noteq> unat ?f" using less.prems(4) True by (auto simp: empty_at_def hash_at_def)
    have i: "i \<noteq> unat c" "i \<noteq> unat ?f" using less.prems(8) down by auto
    have step: "remove_loop t c ?f = remove_loop ?t ?f (inc_pos ?t ?f)"
      using True sw(6) by (subst remove_loop.simps) simp
    have "m_hashes t' ! i = m_hashes ?t ! i"
    proof (rule less.hyps)
      show "remove_loop ?t ?f (inc_pos ?t ?f) = Some t'" using less.prems(6) step by simp
    qed (use sw f less.prems zf down in auto)
    then show ?thesis using sw(1) i by simp
  qed
qed

lemma ht_remove_insertion_point:
  assumes st: "ht_struct t" and p: "unat pos < unat (m_capacity t)" and occ: "hash_at t pos \<noteq> 0"
    and r: "ht_remove t pos = Some t'" and cap: "m_capacity t' = m_capacity t" and len: "length (m_hashes t') = length (m_hashes t)"
  shows "insertion_point t' pos (hash_at t pos)"
proof -
  let ?n = "unat (m_capacity t)" and ?q = "cprev (unat (m_capacity t)) (unat pos)"
  let ?d = "cdist ?n (unat pos) (hash_at t pos)"
  note s = ht_structD [OF st]
  have ln: "length (m_hashes t) = ?n" using s(1) by simp
  have co: "carry_ok (m_hashes t) (unat pos) ?d"
    using robin_hoodD [OF s(2), of "unat pos"] p occ s(1) by (simp add: hdist_def hash_at_def)
  show ?thesis
  proof (cases "?d = 0")
    case True
    then show ?thesis using p cap by (simp add: insertion_point_def carry_ok_def)
  next
    case False
    then have q: "m_hashes t ! ?q \<noteq> 0" "?d \<le> Suc (hdist (m_hashes t) ?q)" using co ln by (simp_all add: carry_ok_def)
    obtain z where z: "z < ?n" "m_hashes t ! z = 0" using st by (rule ht_struct_free)
    define t1 where "t1 = t\<lparr>m_hashes := (m_hashes t)[unat pos := 0], m_size := m_size t - 1\<rparr>"
    have wf1: "ht_wf t1" using s(1) ht_wf_cong [of t1 t] by (simp add: t1_def)
    have zp: "z \<noteq> unat pos" using z(2) occ by (auto simp: hash_at_def)
    have qn: "?q < ?n" "?q \<noteq> unat pos" "?q \<noteq> z"
    proof -
      show "?q < ?n" using p by (simp add: capacity_pos s(1))
      show "?q \<noteq> z" using q(1) z(2) by auto
      have "?q = (if unat pos = 0 then ?n - 1 else unat pos - 1)" using p by (rule cprev_eq)
      then show "?q \<noteq> unat pos" using z(1) zp p by presburger
    qed
    have "cnext ?n ?q = unat pos" using p by simp
    then have "csteps ?n (unat pos) z < csteps ?n ?q z" using csteps_cnext [OF qn(1) z(1) qn(3)] by simp
    moreover have "remove_loop t1 pos (inc_pos t1 pos) = Some t'" using r by (simp add: ht_remove_def t1_def inc_pos_def)
    ultimately have "m_hashes t' ! ?q = m_hashes t1 ! ?q"
      using remove_loop_before [OF wf1, of pos z t' ?q] p z zp qn by (simp add: t1_def)
    then have "m_hashes t' ! ?q = m_hashes t ! ?q" using qn(2) by (simp add: t1_def)
    then show ?thesis
      using q p cap len ln by (simp add: insertion_point_def carry_ok_def hdist_def)
  qed
qed

end
