(* ===== verification/Map_Spec.thy ===== *)
theory Map_Spec
  imports Prelude
begin

text \<open>
  The contract of a key-value table, as the cache relies on it: a locale whose laws say that
  \<open>get\<close>, \<open>put\<close> and \<open>del\<close> return and do on an abstract map what their names say. The
  clients of the contract run sequences of calls; \<open>exec_ops\<close> is such a run on the table and
  \<open>spec_ops\<close> the same run on the abstract map.
\<close>

section \<open>Calls and their results\<close>

datatype ('k, 'e) map_op = Get 'k | Put 'k 'e | Del 'k

datatype 'e map_ret = Got "'e option" | Done bool

fun spec_op :: "('k \<Rightarrow> 'e option) \<Rightarrow> ('k, 'e) map_op \<Rightarrow> 'e map_ret \<times> ('k \<Rightarrow> 'e option)" where
  "spec_op m (Get k) = (Got (m k), m)"
| "spec_op m (Put k e) = (Done (m k = None), m(k \<mapsto> e))"
| "spec_op m (Del k) = (Done (m k \<noteq> None), m(k := None))"

fun spec_ops :: "('k \<Rightarrow> 'e option) \<Rightarrow> ('k, 'e) map_op list \<Rightarrow> 'e map_ret list \<times> ('k \<Rightarrow> 'e option)" where
  "spec_ops m [] = ([], m)"
| "spec_ops m (c # cs) = (case spec_op m c of (r, m') \<Rightarrow> case spec_ops m' cs of (rs, m'') \<Rightarrow> (r # rs, m''))"

fun exec_op ::
  "('t \<Rightarrow> 'k \<Rightarrow> 'e option option) \<Rightarrow> ('t \<Rightarrow> 'k \<Rightarrow> 'e \<Rightarrow> (bool \<times> 't) option) \<Rightarrow> ('t \<Rightarrow> 'k \<Rightarrow> (bool \<times> 't) option)
     \<Rightarrow> 't \<Rightarrow> ('k, 'e) map_op \<Rightarrow> ('e map_ret \<times> 't) option" where
  "exec_op get put del t (Get k) = map_option (\<lambda>r. (Got r, t)) (get t k)"
| "exec_op get put del t (Put k e) = map_option (\<lambda>(b, t'). (Done b, t')) (put t k e)"
| "exec_op get put del t (Del k) = map_option (\<lambda>(b, t'). (Done b, t')) (del t k)"

fun exec_ops ::
  "('t \<Rightarrow> 'k \<Rightarrow> 'e option option) \<Rightarrow> ('t \<Rightarrow> 'k \<Rightarrow> 'e \<Rightarrow> (bool \<times> 't) option) \<Rightarrow> ('t \<Rightarrow> 'k \<Rightarrow> (bool \<times> 't) option)
     \<Rightarrow> 't \<Rightarrow> ('k, 'e) map_op list \<Rightarrow> ('e map_ret list \<times> 't) option" where
  "exec_ops get put del t [] = Some ([], t)"
| "exec_ops get put del t (c # cs) =
     Option.bind (exec_op get put del t c) (\<lambda>(r, t').
       map_option (\<lambda>(rs, t''). (r # rs, t'')) (exec_ops get put del t' cs))"

fun is_put :: "('k, 'e) map_op \<Rightarrow> bool" where
  "is_put (Put k e) = True"
| "is_put _ = False"

fun op_ok :: "('k \<Rightarrow> 'e \<Rightarrow> bool) \<Rightarrow> ('k, 'e) map_op \<Rightarrow> bool" where
  "op_ok storable (Put k e) = storable k e"
| "op_ok storable _ = True"

fun del_keys :: "('t \<Rightarrow> 'k \<Rightarrow> (bool \<times> 't) option) \<Rightarrow> 't \<Rightarrow> 'k list \<Rightarrow> 't option" where
  "del_keys del t [] = Some t"
| "del_keys del t (k # ks) = Option.bind (del t k) (\<lambda>(_, t'). del_keys del t' ks)"

section \<open>The contract\<close>

text \<open>A table that can be searched and deleted from; \<open>room t\<close> is a number of insertions it certainly
  has place for.\<close>

locale kv_store =
  fixes invar :: "'t \<Rightarrow> bool" and lookup :: "'t \<Rightarrow> 'k \<Rightarrow> 'e option" and room :: "'t \<Rightarrow> nat"
    and get :: "'t \<Rightarrow> 'k \<Rightarrow> 'e option option" and contains :: "'t \<Rightarrow> 'k \<Rightarrow> bool option"
    and del :: "'t \<Rightarrow> 'k \<Rightarrow> (bool \<times> 't) option"
  assumes get_law: "invar t \<Longrightarrow> get t k = Some (lookup t k)"
    and contains_law: "invar t \<Longrightarrow> contains t k = Some (lookup t k \<noteq> None)"
    and del_law: "invar t \<Longrightarrow>
      \<exists>t'. del t k = Some (lookup t k \<noteq> None, t') \<and> invar t'
        \<and> lookup t' = (lookup t)(k := None) \<and> room t \<le> room t'"
begin

lemma get_after_del:
  assumes "invar t"
  shows "\<exists>b t'. del t k = Some (b, t') \<and> get t' k' = Some (if k' = k then None else lookup t k')"
  using del_law [OF assms, of k] by (auto simp: get_law)

text \<open>Deleting keys one after the other.\<close>

lemma del_keys_spec:
  assumes "invar t"
  shows "\<exists>t'. del_keys del t ks = Some t' \<and> invar t' \<and> lookup t' = (lookup t) |` (- set ks) \<and> room t \<le> room t'"
  using assms
proof (induction ks arbitrary: t)
  case (Cons k ks)
  obtain t1 where t1: "del t k = Some (lookup t k \<noteq> None, t1)" "invar t1"
      "lookup t1 = (lookup t)(k := None)" "room t \<le> room t1"
    using del_law [OF Cons.prems, of k] by blast
  from Cons.IH [OF t1(2)] obtain t' where "del_keys del t1 ks = Some t'" "invar t'"
      "lookup t' = (lookup t1) |` (- set ks)" "room t1 \<le> room t'" by blast
  with t1 show ?case by (auto simp: restrict_map_def fun_eq_iff)
qed (simp add: restrict_map_def)

end

text \<open>A table that can also be written; \<open>storable\<close> is what may be put.\<close>

locale kv_map = kv_store invar lookup room get contains del
  for invar :: "'t \<Rightarrow> bool" and lookup :: "'t \<Rightarrow> 'k \<Rightarrow> 'e option" and room :: "'t \<Rightarrow> nat"
    and get :: "'t \<Rightarrow> 'k \<Rightarrow> 'e option option" and contains :: "'t \<Rightarrow> 'k \<Rightarrow> bool option"
    and del :: "'t \<Rightarrow> 'k \<Rightarrow> (bool \<times> 't) option" +
  fixes storable :: "'k \<Rightarrow> 'e \<Rightarrow> bool" and put :: "'t \<Rightarrow> 'k \<Rightarrow> 'e \<Rightarrow> (bool \<times> 't) option"
  assumes put_law: "invar t \<Longrightarrow> 0 < room t \<Longrightarrow> storable k e \<Longrightarrow>
      \<exists>t'. put t k e = Some (lookup t k = None, t') \<and> invar t'
        \<and> lookup t' = (lookup t)(k \<mapsto> e) \<and> room t \<le> Suc (room t')"
begin

lemma exec_op_spec:
  assumes "invar t" and "op_ok storable c" and "is_put c \<Longrightarrow> 0 < room t"
  shows "\<exists>t'. exec_op get put del t c = Some (fst (spec_op (lookup t) c), t') \<and> invar t'
    \<and> lookup t' = snd (spec_op (lookup t) c) \<and> room t \<le> (if is_put c then 1 else 0) + room t'"
proof (cases c)
  case (Put k e)
  with put_law [of t k e] assms show ?thesis by auto
next
  case (Del k)
  with del_law [of t k] assms show ?thesis by auto
qed (use assms in \<open>simp add: get_law\<close>)

lemma exec_ops_spec:
  assumes "invar t" and "\<forall>c \<in> set cs. op_ok storable c" and "length (filter is_put cs) \<le> room t"
  shows "\<exists>t'. exec_ops get put del t cs = Some (fst (spec_ops (lookup t) cs), t') \<and> invar t'
    \<and> lookup t' = snd (spec_ops (lookup t) cs)"
  using assms
proof (induction cs arbitrary: t)
  case (Cons c cs)
  have "is_put c \<Longrightarrow> 0 < room t" using Cons.prems(3) by auto
  then obtain t1 where t1: "exec_op get put del t c = Some (fst (spec_op (lookup t) c), t1)" "invar t1"
      "lookup t1 = snd (spec_op (lookup t) c)" "room t \<le> (if is_put c then 1 else 0) + room t1"
    using exec_op_spec [of t c] Cons.prems by auto
  moreover have "length (filter is_put cs) \<le> room t1"
    using t1(4) Cons.prems(3) by (auto split: if_splits)
  ultimately obtain t' where "exec_ops get put del t1 cs = Some (fst (spec_ops (lookup t1) cs), t')"
      "invar t'" "lookup t' = snd (spec_ops (lookup t1) cs)"
    using Cons.IH [of t1] Cons.prems(2) by auto
  with t1 show ?case by (auto split: prod.split)
qed auto

lemma get_after_put:
  assumes "invar t" and "0 < room t" and "storable k e"
  shows "\<exists>b t'. put t k e = Some (b, t') \<and> get t' k' = Some (if k' = k then Some e else lookup t k')"
  using put_law [OF assms] by (auto simp: get_law)

end

end
