(* ===== verification/Hash_Map.thy ===== *)
theory Hash_Map
  imports Hash_Table Map_Spec
begin

text \<open>
  The hash table as a map: with distinct keys stored under their hashes, every operation of
  \<^verbatim>\<open>cachelot/hash_table.h\<close> returns and does on \<open>ht_map\<close> what its name says.
\<close>

section \<open>Keys\<close>

lemma keys_ok_add:
  assumes "keys_ok key_of hf M" and "key_of e \<notin> (key_of \<circ> snd) ` set_mset M"
  shows "keys_ok key_of hf (add_mset (hf (key_of e), e) M)"
proof -
  have "filter_mset (\<lambda>s. key_of (snd s) = key_of e) M = {#}"
    using assms(2) by (auto simp: filter_mset_eq_mempty_iff image_iff)
  with assms(1) show ?thesis by (auto simp: keys_ok_def)
qed

lemma keys_ok_sub: "keys_ok key_of hf M \<Longrightarrow> N \<subseteq># M \<Longrightarrow> keys_ok key_of hf N"
  unfolding keys_ok_def
  by (meson mset_subset_eqD multiset_filter_mono order_trans size_mset_mono)

lemma keys_ok_unique:
  assumes "keys_ok key_of hf (add_mset s M)"
  shows "key_of (snd s) \<notin> (key_of \<circ> snd) ` set_mset M"
proof
  assume "key_of (snd s) \<in> (key_of \<circ> snd) ` set_mset M"
  then obtain r where "r \<in># M" "key_of (snd r) = key_of (snd s)" by auto
  then have "r \<in># filter_mset (\<lambda>x. key_of (snd x) = key_of (snd s)) M" by simp
  then have "size (filter_mset (\<lambda>x. key_of (snd x) = key_of (snd s)) M) \<noteq> 0"
    by (metis empty_iff set_mset_empty size_eq_0_iff_empty)
  moreover have "size (filter_mset (\<lambda>x. key_of (snd x) = key_of (snd s)) (add_mset s M)) \<le> 1"
    using assms unfolding keys_ok_def by blast
  ultimately show False by auto
qed

lemma keys_ok_same_key:
  assumes "keys_ok key_of hf M" and "(h, e) \<in># M" and "(h', e') \<in># M" and "key_of e = key_of e'"
  shows "(h, e) = (h', e')"
proof (rule ccontr)
  assume "(h, e) \<noteq> (h', e')"
  then have "(h', e') \<in># M - {#(h, e)#}" using assms(3) by (auto simp: in_diff_count)
  moreover have "keys_ok key_of hf (add_mset (h, e) (M - {#(h, e)#}))" using assms(1,2) by simp
  ultimately show False using keys_ok_unique [of key_of hf "(h, e)"] assms(4) by force
qed

lemma ht_mset_list: "ht_mset t = mset (filter (\<lambda>s. fst s \<noteq> 0) (slots t))"
  by (simp add: ht_mset_def mset_filter)

lemma distinct_keys:
  assumes "\<forall>k. size (filter_mset (\<lambda>s. key_of (snd s) = k) (mset xs)) \<le> 1"
  shows "distinct (map (\<lambda>s. key_of (snd s)) xs)"
  using assms
proof (induction xs)
  case (Cons x xs)
  have "key_of (snd x) \<notin> (\<lambda>s. key_of (snd s)) ` set xs"
  proof
    assume "key_of (snd x) \<in> (\<lambda>s. key_of (snd s)) ` set xs"
    then have "filter_mset (\<lambda>s. key_of (snd s) = key_of (snd x)) (mset xs) \<noteq> {#}" by force
    with Cons.prems [rule_format, of "key_of (snd x)"] show False by (simp add: size_eq_0_iff_empty)
  qed
  moreover have "\<forall>k. size (filter_mset (\<lambda>s. key_of (snd s) = k) (mset xs)) \<le> 1"
  proof
    fix k
    from Cons.prems have "size (filter_mset (\<lambda>s. key_of (snd s) = k) (mset (x # xs))) \<le> 1" by blast
    moreover have "size (filter_mset (\<lambda>s. key_of (snd s) = k) (mset xs))
        \<le> size (filter_mset (\<lambda>s. key_of (snd s) = k) (mset (x # xs)))"
      by (intro size_mset_mono multiset_filter_mono) simp
    ultimately show "size (filter_mset (\<lambda>s. key_of (snd s) = k) (mset xs)) \<le> 1" by linarith
  qed
  ultimately show ?case using Cons.IH by simp
qed simp

lemma ht_map_Some_iff:
  assumes "keys_ok key_of hf (ht_mset t)"
  shows "ht_map key_of t k = Some e \<longleftrightarrow> (\<exists>h. (h, e) \<in># ht_mset t) \<and> key_of e = k"
proof -
  let ?xs = "filter (\<lambda>s. fst s \<noteq> 0) (slots t)"
  have "distinct (map fst (map (\<lambda>s. (key_of (snd s), snd s)) ?xs))"
    using distinct_keys [of key_of ?xs] assms by (simp add: keys_ok_def ht_mset_list comp_def)
  then show ?thesis
    by (force simp: ht_map_def map_of_eq_Some_iff ht_mset_list)
qed

lemma ht_map_eqI:
  assumes "keys_ok key_of hf (ht_mset t)"
    and "\<And>k e. m k = Some e \<longleftrightarrow> (\<exists>h. (h, e) \<in># ht_mset t) \<and> key_of e = k"
  shows "ht_map key_of t = m"
proof
  fix k
  show "ht_map key_of t k = m k"
    using ht_map_Some_iff [OF assms(1), of k] assms(2) [of k]
    by (metis not_None_eq)
qed

lemma dom_ht_map: "keys_ok key_of hf (ht_mset t) \<Longrightarrow> dom (ht_map key_of t) = ht_keys key_of t"
  by (force simp: dom_def ht_map_Some_iff ht_keys_def)

lemma ht_map_add:
  assumes "keys_ok key_of hf (ht_mset t)" and "keys_ok key_of hf (ht_mset t')"
    and "ht_mset t' = add_mset (h, e) (ht_mset t)"
  shows "ht_map key_of t' = (ht_map key_of t)(key_of e \<mapsto> e)"
proof (rule ht_map_eqI [OF assms(2)])
  fix k x
  have "key_of e \<notin> (key_of \<circ> snd) ` set_mset (ht_mset t)"
    using keys_ok_unique [of key_of hf "(h, e)"] assms(2,3) by simp
  then show "((ht_map key_of t)(key_of e \<mapsto> e)) k = Some x \<longleftrightarrow>
      (\<exists>h. (h, x) \<in># ht_mset t') \<and> key_of x = k"
    using assms(3) by (force simp: ht_map_Some_iff [OF assms(1)])
qed

lemma ht_map_sub:
  assumes "keys_ok key_of hf (ht_mset t)" and "ht_mset t = add_mset (h, e) (ht_mset t')"
  shows "ht_map key_of t' = (ht_map key_of t)(key_of e := None)"
proof -
  have ok: "keys_ok key_of hf (ht_mset t')" using keys_ok_sub [OF assms(1)] assms(2) by simp
  have "key_of e \<notin> (key_of \<circ> snd) ` set_mset (ht_mset t')"
    using keys_ok_unique [of key_of hf "(h, e)"] assms by simp
  then show ?thesis
    using assms(2) by (intro ht_map_eqI [OF ok]) (force simp: ht_map_Some_iff [OF assms(1)])
qed

section \<open>The operations on the map\<close>

lemma ht_get_correct:
  assumes "ht_inv key_of hf t"
  shows "ht_get key_of t key (hf key) = Some (ht_map key_of t key)"
proof -
  note ok = ht_invD(2) [OF assms] and wf = ht_structD(1) [OF ht_invD(1) [OF assms]]
  obtain found pos where r: "ht_entry_for key_of t key (hf key) = Some (found, pos)"
      "unat pos < unat (m_capacity t)" "found \<longleftrightarrow> key \<in> ht_keys key_of t"
      "found \<Longrightarrow> hash_at t pos = hf key \<and> hf key \<noteq> 0 \<and> key_of (entry_at t pos) = key"
    by (rule ht_entry_for_correct [OF assms, of key]) blast
  show ?thesis
  proof (cases found)
    case True
    then have "(hf key, entry_at t pos) \<in># ht_mset t"
      using r wf by (metis ht_mset_iff slots_nth fst_conv)
    then have "ht_map key_of t key = Some (entry_at t pos)"
      using r(4) [OF True] by (auto simp: ht_map_Some_iff [OF ok])
    with True r(1) show ?thesis by (simp add: ht_get_def)
  next
    case False
    then have "ht_map key_of t key = None" using r(3) dom_ht_map [OF ok] by blast
    with False r(1) show ?thesis by (simp add: ht_get_def)
  qed
qed

lemma ht_contains_correct:
  assumes "ht_inv key_of hf t"
  shows "ht_contains key_of t key (hf key) = Some (key \<in> dom (ht_map key_of t))"
proof -
  obtain found pos where "ht_entry_for key_of t key (hf key) = Some (found, pos)"
      "found \<longleftrightarrow> key \<in> ht_keys key_of t"
    by (rule ht_entry_for_correct [OF assms, of key]) blast
  then show ?thesis by (simp add: ht_contains_def dom_ht_map [OF ht_invD(2) [OF assms]])
qed

text \<open>Insertion of a new key at the position the search returned.\<close>

lemma ht_insert_map:
  assumes inv: "ht_inv key_of hf t" and "insertion_point t pos (hf (key_of e))"
    and "key_of e \<notin> ht_keys key_of t" and "hf (key_of e) \<noteq> 0"
    and "Suc (unat (m_size t)) < unat (m_capacity t)"
  obtains p' t' where "ht_insert t pos e (hf (key_of e)) = Some (p', t')" and "ht_inv key_of hf t'"
    and "ht_map key_of t' = (ht_map key_of t)(key_of e \<mapsto> e)" and "m_capacity t' = m_capacity t"
    and "m_size t' = m_size t + 1" and "unat p' < unat (m_capacity t)"
    and "ht_mset t' = add_mset (hf (key_of e), e) (ht_mset t)" and "hash_at t' p' \<noteq> 0"
proof -
  obtain p' t' where r: "ht_insert t pos e (hf (key_of e)) = Some (p', t')" "ht_struct t'"
      "ht_mset t' = add_mset (hf (key_of e), e) (ht_mset t)" "m_capacity t' = m_capacity t"
      "m_size t' = m_size t + 1" "unat p' < unat (m_capacity t)" "hash_at t' p' \<noteq> 0"
    using ht_insert_correct [OF ht_invD(1) [OF inv] assms(2,4,5)] by metis
  have ok: "keys_ok key_of hf (ht_mset t')"
    using keys_ok_add [OF ht_invD(2) [OF inv]] assms(3) r(3) by (simp add: ht_keys_def)
  have "ht_map key_of t' = (ht_map key_of t)(key_of e \<mapsto> e)"
    using ht_invD(2) [OF inv] ok r(3) by (rule ht_map_add)
  with that [OF r(1)] r ok show ?thesis by (simp add: ht_inv_def)
qed

lemma ht_remove_map:
  assumes inv: "ht_inv key_of hf t" and "unat pos < unat (m_capacity t)" and "hash_at t pos \<noteq> 0"
  obtains t' where "ht_remove t pos = Some t'" and "ht_inv key_of hf t'"
    and "ht_map key_of t' = (ht_map key_of t)(key_of (entry_at t pos) := None)"
    and "m_capacity t' = m_capacity t" and "m_size t' = m_size t - 1"
    and "ht_mset t = add_mset (hash_at t pos, entry_at t pos) (ht_mset t')"
    and "\<And>x. x \<le> unat (m_capacity t) \<Longrightarrow> \<forall>i < x. m_hashes t ! i = 0 \<Longrightarrow> \<forall>i < x. m_hashes t' ! i = 0"
proof -
  obtain t' where r: "ht_remove t pos = Some t'" "ht_struct t'"
      "ht_mset t' = ht_mset t - {#(hash_at t pos, entry_at t pos)#}" "m_capacity t' = m_capacity t"
      "m_size t' = m_size t - 1"
      "\<And>x. x \<le> unat (m_capacity t) \<Longrightarrow> \<forall>i < x. m_hashes t ! i = 0 \<Longrightarrow> \<forall>i < x. m_hashes t' ! i = 0"
    by (rule ht_remove_correct [OF ht_invD(1) [OF inv] assms(2,3)]) blast
  have "(hash_at t pos, entry_at t pos) \<in># ht_mset t"
    using assms ht_structD(1) [OF ht_invD(1) [OF inv]] by (metis ht_mset_iff slots_nth fst_conv)
  then have m: "ht_mset t = add_mset (hash_at t pos, entry_at t pos) (ht_mset t')"
    using r(3) by simp
  have "keys_ok key_of hf (ht_mset t')"
    using keys_ok_sub [OF ht_invD(2) [OF inv]] r(3) by simp
  with r(2) have "ht_inv key_of hf t'" by (simp add: ht_inv_def)
  moreover have "ht_map key_of t' = (ht_map key_of t)(key_of (entry_at t pos) := None)"
    using ht_invD(2) [OF inv] m by (rule ht_map_sub)
  ultimately show ?thesis using that [OF r(1)] r(4-6) m by blast
qed

lemma set_entry_correct:
  assumes inv: "ht_inv key_of hf t" and p: "unat pos < unat (m_capacity t)" and "hash_at t pos \<noteq> 0"
    and "key_of e = key_of (entry_at t pos)"
  defines "t' \<equiv> t\<lparr>m_entries := (m_entries t)[unat pos := e]\<rparr>"
  shows "ht_inv key_of hf t'" and "ht_map key_of t' = (ht_map key_of t)(key_of e \<mapsto> e)"
proof -
  note s = ht_structD [OF ht_invD(1) [OF inv]] and ok = ht_invD(2) [OF inv]
  let ?h = "hash_at t pos" and ?old = "(hash_at t pos, entry_at t pos)"
  have t': "t' = set_slot pos ?h e t"
    using p s(1) by (simp add: t'_def set_slot_def hash_at_def)
  have swap: "add_mset ?old (ht_mset t') = add_mset (?h, e) (ht_mset t)"
    unfolding t' using s(1) p assms(3,3) by (rule ht_mset_set_slot_used)
  have "?old \<in># ht_mset t" using assms(2,3) s(1) by (metis ht_mset_iff slots_nth fst_conv)
  then obtain M where M: "ht_mset t = add_mset ?old M" by (metis insert_DiffM)
  with swap have m': "ht_mset t' = add_mset (?h, e) M"
    by (simp add: add_mset_commute)
  have "?h = hf (key_of e)" using ok M assms(4) by (auto simp: keys_ok_def)
  moreover have "key_of e \<notin> (key_of \<circ> snd) ` set_mset M"
    using keys_ok_unique ok M assms(4) by (metis snd_conv)
  moreover have "keys_ok key_of hf M" using keys_ok_sub [OF ok] M by simp
  ultimately have ok': "keys_ok key_of hf (ht_mset t')"
    unfolding m' by (metis keys_ok_add)
  have "m_hashes t' = m_hashes t" "m_size t' = m_size t" "m_capacity t' = m_capacity t"
    by (simp_all add: t'_def)
  moreover have "ht_wf t'" using s(1) by (simp add: t')
  moreover have "size (ht_mset t') = size (ht_mset t)" using M m' by simp
  ultimately have "ht_struct t'" using s by (simp add: ht_struct_def)
  with ok' show "ht_inv key_of hf t'" by (simp add: ht_inv_def)
  show "ht_map key_of t' = (ht_map key_of t)(key_of e \<mapsto> e)"
  proof (rule ht_map_eqI [OF ok'])
    fix k x
    show "((ht_map key_of t)(key_of e \<mapsto> e)) k = Some x \<longleftrightarrow>
        (\<exists>h. (h, x) \<in># ht_mset t') \<and> key_of x = k"
      using \<open>key_of e \<notin> (key_of \<circ> snd) ` set_mset M\<close> M m' assms(4)
      by (force simp: ht_map_Some_iff [OF ok])
  qed
qed

lemma ht_put_correct:
  assumes inv: "ht_inv key_of hf t" and key: "key_of e = key" and "hf key \<noteq> 0"
    and room: "Suc (unat (m_size t)) < unat (m_capacity t)"
  obtains t' where "ht_put key_of t key (hf key) e = Some (ht_map key_of t key = None, t')"
    and "ht_inv key_of hf t'" and "ht_map key_of t' = (ht_map key_of t)(key \<mapsto> e)"
    and "m_capacity t' = m_capacity t" and "unat (m_size t') \<le> Suc (unat (m_size t))"
proof -
  note ok = ht_invD(2) [OF inv] and s = ht_structD [OF ht_invD(1) [OF inv]]
  obtain found pos where r: "ht_entry_for key_of t key (hf key) = Some (found, pos)"
      "unat pos < unat (m_capacity t)" "found \<longleftrightarrow> key \<in> ht_keys key_of t"
      "found \<Longrightarrow> hash_at t pos = hf key \<and> hf key \<noteq> 0 \<and> key_of (entry_at t pos) = key"
      "\<not> found \<Longrightarrow> insertion_point t pos (hf key)"
    by (rule ht_entry_for_correct [OF inv, of key]) blast
  have found: "found \<longleftrightarrow> ht_map key_of t key \<noteq> None" using r(3) dom_ht_map [OF ok] by blast
  show ?thesis
  proof (cases found)
    case True
    let ?t = "t\<lparr>m_entries := (m_entries t)[unat pos := e]\<rparr>"
    have "ht_inv key_of hf ?t" "ht_map key_of ?t = (ht_map key_of t)(key_of e \<mapsto> e)"
      using set_entry_correct [OF inv r(2)] r(4) [OF True] key by simp_all
    moreover have "ht_put key_of t key (hf key) e = Some (False, ?t)"
      using True r(1) by (simp add: ht_put_def)
    ultimately show ?thesis using that [of ?t] found True key by simp
  next
    case False
    then obtain p' t' where "ht_insert t pos e (hf key) = Some (p', t')" "ht_inv key_of hf t'"
        "ht_map key_of t' = (ht_map key_of t)(key_of e \<mapsto> e)" "m_capacity t' = m_capacity t"
        "m_size t' = m_size t + 1"
      using ht_insert_map [OF inv, of pos e] r(3,5) assms by metis
    moreover from this room have "unat (m_size t') = Suc (unat (m_size t))"
      using capacity_le [OF s(1)] by (simp add: unat_Suc_lt)
    ultimately show ?thesis using that [of t'] found False r(1) key by (simp add: ht_put_def)
  qed
qed

lemma ht_put_new:
  assumes inv: "ht_inv key_of hf t" and "key_of e \<notin> ht_keys key_of t" and "hf (key_of e) \<noteq> 0"
    and room: "Suc (unat (m_size t)) < unat (m_capacity t)"
  obtains t' where "ht_put key_of t (key_of e) (hf (key_of e)) e = Some (True, t')" and "ht_inv key_of hf t'"
    and "ht_mset t' = add_mset (hf (key_of e), e) (ht_mset t)" and "m_capacity t' = m_capacity t"
proof -
  obtain found pos where r: "ht_entry_for key_of t (key_of e) (hf (key_of e)) = Some (found, pos)"
      "found \<longleftrightarrow> key_of e \<in> ht_keys key_of t" "\<not> found \<Longrightarrow> insertion_point t pos (hf (key_of e))"
    by (rule ht_entry_for_correct [OF inv, of "key_of e"]) blast
  obtain p' t' where "ht_insert t pos e (hf (key_of e)) = Some (p', t')" "ht_inv key_of hf t'"
      "ht_mset t' = add_mset (hf (key_of e), e) (ht_mset t)" "m_capacity t' = m_capacity t"
    by (rule ht_insert_map [OF inv _ assms(2-)]) (use r assms(2) in auto)
  with r assms(2) that show ?thesis by (simp add: ht_put_def)
qed

lemma ht_del_correct:
  assumes inv: "ht_inv key_of hf t"
  obtains t' where "ht_del key_of t key (hf key) = Some (ht_map key_of t key \<noteq> None, t')"
    and "ht_inv key_of hf t'" and "ht_map key_of t' = (ht_map key_of t)(key := None)"
    and "m_capacity t' = m_capacity t" and "unat (m_size t') \<le> unat (m_size t)" and "ht_mset t' \<subseteq># ht_mset t"
    and "\<And>x. x \<le> unat (m_capacity t) \<Longrightarrow> \<forall>i < x. m_hashes t ! i = 0 \<Longrightarrow> \<forall>i < x. m_hashes t' ! i = 0"
proof -
  note ok = ht_invD(2) [OF inv] and s = ht_structD [OF ht_invD(1) [OF inv]]
  obtain found pos where r: "ht_entry_for key_of t key (hf key) = Some (found, pos)"
      "unat pos < unat (m_capacity t)" "found \<longleftrightarrow> key \<in> ht_keys key_of t"
      "found \<Longrightarrow> hash_at t pos = hf key \<and> hf key \<noteq> 0 \<and> key_of (entry_at t pos) = key"
    by (rule ht_entry_for_correct [OF inv, of key]) blast
  have found: "found \<longleftrightarrow> ht_map key_of t key \<noteq> None" using r(3) dom_ht_map [OF ok] by blast
  show ?thesis
  proof (cases found)
    case True
    then obtain t' where t': "ht_remove t pos = Some t'" "ht_inv key_of hf t'"
        "ht_map key_of t' = (ht_map key_of t)(key_of (entry_at t pos) := None)"
        "m_capacity t' = m_capacity t" "ht_mset t = add_mset (hash_at t pos, entry_at t pos) (ht_mset t')"
        "\<And>x. x \<le> unat (m_capacity t) \<Longrightarrow> \<forall>i < x. m_hashes t ! i = 0 \<Longrightarrow> \<forall>i < x. m_hashes t' ! i = 0"
      using ht_remove_map [OF inv r(2)] r(4) by metis
    moreover have "unat (m_size t') \<le> unat (m_size t)"
      using s(3) ht_structD(3) [OF ht_invD(1) [OF t'(2)]] t'(5) by simp
    ultimately show ?thesis using that [of t'] found True r(1,4) by (simp add: ht_del_def)
  next
    case False
    then have "ht_map key_of t = (ht_map key_of t)(key := None)" using found by (auto simp: fun_eq_iff)
    with False r(1) found that [of t] inv show ?thesis by (simp add: ht_del_def)
  qed
qed

lemma fold_clear: "length (fold (\<lambda>pos hs. hs[pos := 0]) [0..<n] hs) = length hs"
  "i < length hs \<Longrightarrow> fold (\<lambda>pos hs. hs[pos := 0]) [0..<n] hs ! i = (if i < n then 0 else hs ! i)"
  by (induction n) (auto simp: nth_list_update less_Suc_eq)

lemma ht_clear_correct:
  assumes "ht_wf t"
  shows "ht_inv key_of hf (ht_clear t)" and "ht_map key_of (ht_clear t) = Map.empty"
    and "ht_mset (ht_clear t) = {#}"
proof -
  let ?t = "ht_clear t"
  have "ht_wf ?t = ht_wf t" by (rule ht_wf_cong) (simp_all add: ht_clear_def fold_clear)
  with assms have wf: "ht_wf ?t" by simp
  have zero: "m_hashes ?t ! i = 0" if "i < unat (m_capacity ?t)" for i
    using that assms by (simp add: ht_clear_def fold_clear)
  then have none: "\<forall>s \<in> set (slots ?t). fst s = 0"
    using wf by (metis in_set_conv_nth slots_nth_hash ht_wf_lengths(3))
  then show m: "ht_mset ?t = {#}" by (auto simp: ht_mset_def filter_mset_eq_mempty_iff)
  have "robin_hood (m_hashes ?t)" using zero wf by (simp add: robin_hood_def rh_ok_def)
  then show "ht_inv key_of hf ?t"
    using wf m assms by (simp add: ht_inv_def ht_struct_def keys_ok_def) (simp add: ht_clear_def)
  show "ht_map key_of ?t = Map.empty"
    using none by (simp add: ht_map_def filter_empty_conv)
qed

lemma hash_table_new_correct:
  assumes "k < 32" and "length hs = 2 ^ k" and "length es = 2 ^ k"
  shows "ht_inv key_of hf (hash_table_new (pow2 k) hs es)"
    and "ht_map key_of (hash_table_new (pow2 k) hs es) = Map.empty"
    and "ht_mset (hash_table_new (pow2 k) hs es) = {#}"
    and "m_capacity (hash_table_new (pow2 k) hs es) = pow2 k"
    and "m_size (hash_table_new (pow2 k) hs es) = 0"
  using assms ht_clear_correct [of "\<lparr>m_size = 0, m_capacity = pow2 k, m_mask = pow2 k - 1,
      m_hashes = hs, m_entries = es\<rparr>"]
  by (auto simp: hash_table_new_def ht_wf_def unat_pow2 ht_clear_def)

section \<open>Conditional removal\<close>

text \<open>The slots before \<open>pos\<close> hold no entry that satisfies the condition.\<close>

lemma scanned_remove:
  assumes "\<And>i. i < n \<Longrightarrow> m_hashes t' ! i \<noteq> 0 \<Longrightarrow>
      \<exists>j. slots t' ! i = slots t ! j \<and> j \<noteq> p \<and> (j = i \<or> j = cnext n i)"
    and "\<forall>i < p. fst (slots t ! i) \<noteq> 0 \<longrightarrow> \<not> q (snd (slots t ! i))" and "p < n"
    and "ht_wf t'" and "unat (m_capacity t') = n"
  shows "\<forall>i < p. fst (slots t' ! i) \<noteq> 0 \<longrightarrow> \<not> q (snd (slots t' ! i))"
proof (intro allI impI)
  fix i assume i: "i < p" "fst (slots t' ! i) \<noteq> 0"
  then have "m_hashes t' ! i \<noteq> 0" using assms(3-5) by (simp add: slots_nth_hash)
  then obtain j where j: "slots t' ! i = slots t ! j" "j \<noteq> p" "j = i \<or> j = cnext n i"
    using assms(1,3) i(1) by (meson order_less_trans)
  then have "j < p" using i(1) assms(3) by (auto simp: cnext_eq split: if_splits)
  with i(2) j(1) assms(2) show "\<not> q (snd (slots t' ! i))" by simp
qed

lemma remove_if_loop_spec:
  assumes P: "\<And>e s. P e s = (q e, f e s)"
    and "ht_struct t" and "unat pos \<le> unat (m_capacity t)"
    and "\<forall>i < unat pos. fst (slots t ! i) \<noteq> 0 \<longrightarrow> \<not> q (snd (slots t ! i))"
  shows "\<exists>t' vs. remove_if_loop P t s pos = Some (t', fold (\<lambda>r. f (snd r)) vs s) \<and> ht_struct t'
    \<and> m_capacity t' = m_capacity t \<and> ht_mset t' = filter_mset (\<lambda>r. \<not> q (snd r)) (ht_mset t)
    \<and> mset (filter (\<lambda>r. q (snd r)) vs) = filter_mset (\<lambda>r. q (snd r)) (ht_mset t)
    \<and> (\<forall>x \<le> unat (m_capacity t). (\<forall>i < x. m_hashes t ! i = 0) \<longrightarrow> (\<forall>i < x. m_hashes t' ! i = 0))"
  using assms(2-)
proof (induction "unat (m_size t) + (unat (m_capacity t) - unat pos)" arbitrary: t s pos rule: less_induct)
  case less
  note st = less.prems(1) and s = ht_structD [OF less.prems(1)]
  let ?n = "unat (m_capacity t)" and ?r = "(hash_at t pos, entry_at t pos)"
  show ?case
  proof (cases "pos < m_capacity t")
    case False
    then have pos: "unat pos = ?n" using less.prems(2) by (simp add: word_less_nat_alt)
    have "\<forall>r \<in># ht_mset t. \<not> q (snd r)"
      using less.prems(3) pos s(1) by (metis ht_mset_iff)
    then have "filter_mset (\<lambda>r. \<not> q (snd r)) (ht_mset t) = ht_mset t"
        "filter_mset (\<lambda>r. q (snd r)) (ht_mset t) = {#}"
      by (simp_all add: filter_mset_eq_conv filter_mset_eq_mempty_iff)
    with False st show ?thesis
      by (subst remove_if_loop.simps) (auto intro!: exI [of _ "[]"])
  next
    case True
    then have p: "unat pos < ?n" by (simp add: word_less_nat_alt)
    then have p1: "unat (pos + 1) = unat pos + 1"
      using capacity_le [OF s(1)] by (intro unat_Suc_lt) simp
    show ?thesis
    proof (cases "hash_at t pos \<noteq> 0 \<and> q (entry_at t pos)")
      case False
      define v where "v = (if hash_at t pos \<noteq> 0 then [?r] else [])"
      have step: "remove_if_loop P t s pos = remove_if_loop P t (fold (\<lambda>r. f (snd r)) v s) (pos + 1)"
        using True False by (subst remove_if_loop.simps) (auto simp: empty_at_def P v_def)
      have none: "filter (\<lambda>r. q (snd r)) v = []" using False by (auto simp: v_def)
      have "unat (m_size t) + (?n - unat (pos + 1)) < unat (m_size t) + (?n - unat pos)" "unat (pos + 1) \<le> ?n"
        using p p1 by simp_all
      moreover have "\<forall>i < unat (pos + 1). fst (slots t ! i) \<noteq> 0 \<longrightarrow> \<not> q (snd (slots t ! i))"
        using less.prems(3) False p s(1) by (auto simp: p1 less_Suc_eq)
      ultimately obtain t' vs where
          "remove_if_loop P t (fold (\<lambda>r. f (snd r)) v s) (pos + 1)
            = Some (t', fold (\<lambda>r. f (snd r)) vs (fold (\<lambda>r. f (snd r)) v s))"
          "ht_struct t'" "m_capacity t' = m_capacity t" "ht_mset t' = filter_mset (\<lambda>r. \<not> q (snd r)) (ht_mset t)"
          "mset (filter (\<lambda>r. q (snd r)) vs) = filter_mset (\<lambda>r. q (snd r)) (ht_mset t)"
          "\<forall>x \<le> ?n. (\<forall>i < x. m_hashes t ! i = 0) \<longrightarrow> (\<forall>i < x. m_hashes t' ! i = 0)"
        using less.hyps [of t "pos + 1" "fold (\<lambda>r. f (snd r)) v s"] st by blast
      then show ?thesis unfolding step using none by (intro exI [of _ t'] exI [of _ "v @ vs"]) simp
    next
      case rm: True
      then have h: "hash_at t pos \<noteq> 0" and q: "q (entry_at t pos)" by auto
      obtain t' where t': "ht_remove t pos = Some t'" "ht_struct t'"
          "ht_mset t' = ht_mset t - {#?r#}" "m_capacity t' = m_capacity t" "m_size t' = m_size t - 1"
          "\<And>i. i < ?n \<Longrightarrow> m_hashes t' ! i \<noteq> 0 \<Longrightarrow>
            \<exists>j. slots t' ! i = slots t ! j \<and> j \<noteq> unat pos \<and> (j = i \<or> j = cnext ?n i)"
          "\<And>x. x \<le> ?n \<Longrightarrow> \<forall>i < x. m_hashes t ! i = 0 \<Longrightarrow> \<forall>i < x. m_hashes t' ! i = 0"
        by (rule ht_remove_correct [OF st p h]) blast
      have step: "remove_if_loop P t s pos = remove_if_loop P t' (f (entry_at t pos) s) pos"
        using True h q t'(1) by (subst remove_if_loop.simps) (simp add: empty_at_def P)
      have r: "?r \<in># ht_mset t" using h p s(1) by (metis ht_mset_iff slots_nth fst_conv)
      then have m: "ht_mset t = add_mset ?r (ht_mset t')" using t'(3) by simp
      have "unat (m_size t') < unat (m_size t)"
        using ht_structD(3) [OF t'(2)] s(3) m by simp
      moreover have "\<forall>i < unat pos. fst (slots t' ! i) \<noteq> 0 \<longrightarrow> \<not> q (snd (slots t' ! i))"
        using scanned_remove [OF t'(6) less.prems(3) p ht_structD(1) [OF t'(2)]] t'(4) by simp
      ultimately obtain t2 rs where
          "remove_if_loop P t' (f (entry_at t pos) s) pos = Some (t2, fold (\<lambda>r. f (snd r)) rs (f (entry_at t pos) s))"
          "ht_struct t2" "m_capacity t2 = m_capacity t'"
          "ht_mset t2 = filter_mset (\<lambda>r. \<not> q (snd r)) (ht_mset t')"
          "mset (filter (\<lambda>r. q (snd r)) rs) = filter_mset (\<lambda>r. q (snd r)) (ht_mset t')"
          "\<forall>x \<le> ?n. (\<forall>i < x. m_hashes t' ! i = 0) \<longrightarrow> (\<forall>i < x. m_hashes t2 ! i = 0)"
        using less.hyps [of t' pos "f (entry_at t pos) s"] t'(2,4) less.prems(2) by fastforce
      moreover from this(6) t'(7)
      have "\<forall>x \<le> ?n. (\<forall>i < x. m_hashes t ! i = 0) \<longrightarrow> (\<forall>i < x. m_hashes t2 ! i = 0)" by blast
      ultimately show ?thesis unfolding step using m q t'(4)
        by (intro exI [of _ t2] exI [of _ "?r # rs"]) simp
    qed
  qed
qed

lemma ht_remove_if_visits:
  assumes "\<And>e s. P e s = (q e, f e s)" and "ht_struct t"
  obtains t' vs where "ht_remove_if P t s = Some (t', fold (\<lambda>r. f (snd r)) vs s)" and "ht_struct t'"
    and "m_capacity t' = m_capacity t" and "ht_mset t' = filter_mset (\<lambda>r. \<not> q (snd r)) (ht_mset t)"
    and "mset (filter (\<lambda>r. q (snd r)) vs) = filter_mset (\<lambda>r. q (snd r)) (ht_mset t)"
    and "\<And>x. x \<le> unat (m_capacity t) \<Longrightarrow> \<forall>i < x. m_hashes t ! i = 0 \<Longrightarrow> \<forall>i < x. m_hashes t' ! i = 0"
  using remove_if_loop_spec [where P = P and q = q and f = f, OF assms(1,2), of 0 s]
  unfolding ht_remove_if_def by auto

lemma fold_removed: "fold (\<lambda>r s. if q (snd r) then f (snd r) s else s) vs s = fold (\<lambda>r. f (snd r)) (filter (\<lambda>r. q (snd r)) vs) s"
  by (induction vs arbitrary: s) auto

lemma ht_remove_if_correct:
  assumes "\<And>e s. P e s = (if q e then (True, f e s) else (False, s))" and "ht_struct t"
  obtains t' rs where "ht_remove_if P t s = Some (t', fold (\<lambda>r. f (snd r)) rs s)" and "ht_struct t'"
    and "m_capacity t' = m_capacity t" and "ht_mset t' = filter_mset (\<lambda>r. \<not> q (snd r)) (ht_mset t)"
    and "mset rs = filter_mset (\<lambda>r. q (snd r)) (ht_mset t)"
    and "\<And>x. x \<le> unat (m_capacity t) \<Longrightarrow> \<forall>i < x. m_hashes t ! i = 0 \<Longrightarrow> \<forall>i < x. m_hashes t' ! i = 0"
proof -
  have P: "P e s = (q e, if q e then f e s else s)" for e s by (simp add: assms(1))
  obtain t' vs where v: "ht_remove_if P t s = Some (t', fold (\<lambda>r s. if q (snd r) then f (snd r) s else s) vs s)" "ht_struct t'"
      "m_capacity t' = m_capacity t" "ht_mset t' = filter_mset (\<lambda>r. \<not> q (snd r)) (ht_mset t)"
      "mset (filter (\<lambda>r. q (snd r)) vs) = filter_mset (\<lambda>r. q (snd r)) (ht_mset t)"
      "\<And>x. x \<le> unat (m_capacity t) \<Longrightarrow> \<forall>i < x. m_hashes t ! i = 0 \<Longrightarrow> \<forall>i < x. m_hashes t' ! i = 0"
    by (rule ht_remove_if_visits [where P = P and q = q and f = "\<lambda>e s. if q e then f e s else s", OF P assms(2)]) blast
  then show ?thesis using that [OF _ v(2-6)] v(1) unfolding fold_removed by blast
qed

lemma ht_map_filter:
  assumes "keys_ok key_of hf (ht_mset t)" and "ht_mset t' = filter_mset (\<lambda>r. \<not> q (snd r)) (ht_mset t)"
  shows "ht_map key_of t' k = (case ht_map key_of t k of None \<Rightarrow> None | Some e \<Rightarrow> if q e then None else Some e)"
proof -
  have ok: "keys_ok key_of hf (ht_mset t')" using keys_ok_sub [OF assms(1)] assms(2) by simp
  have iff: "ht_map key_of t' k = Some e \<longleftrightarrow> ht_map key_of t k = Some e \<and> \<not> q e" for e
    unfolding ht_map_Some_iff [OF assms(1)] ht_map_Some_iff [OF ok] assms(2) by auto
  show ?thesis
  proof (cases "ht_map key_of t k")
    case None
    then have "\<forall>e. ht_map key_of t' k \<noteq> Some e" using iff by simp
    with None show ?thesis by simp
  next
    case (Some e)
    then show ?thesis using iff [of e] iff by (cases "ht_map key_of t' k") force+
  qed
qed

section \<open>The table provides the contract of a map\<close>

interpretation ht: kv_map "ht_inv key_of hf" "ht_map key_of"
    "\<lambda>t. unat (m_capacity t) - 1 - unat (m_size t)"
    "\<lambda>t k. ht_get key_of t k (hf k)" "\<lambda>t k. ht_contains key_of t k (hf k)"
    "\<lambda>t k. ht_del key_of t k (hf k)" "\<lambda>k e. key_of e = k \<and> hf k \<noteq> 0" "\<lambda>t k e. ht_put key_of t k (hf k) e"
  for key_of :: "'e \<Rightarrow> 'k" and hf :: "'k \<Rightarrow> u32"
proof unfold_locales
  fix t :: "'e hash_table" and k :: 'k and e :: 'e
  assume inv: "ht_inv key_of hf t"
  show "ht_get key_of t k (hf k) = Some (ht_map key_of t k)" using inv by (rule ht_get_correct)
  show "ht_contains key_of t k (hf k) = Some (ht_map key_of t k \<noteq> None)"
    using ht_contains_correct [OF inv] by (simp add: dom_def)
  show "\<exists>t'. ht_del key_of t k (hf k) = Some (ht_map key_of t k \<noteq> None, t') \<and> ht_inv key_of hf t'
      \<and> ht_map key_of t' = (ht_map key_of t)(k := None)
      \<and> unat (m_capacity t) - 1 - unat (m_size t) \<le> unat (m_capacity t') - 1 - unat (m_size t')"
    by (rule ht_del_correct [OF inv, of k]) auto
  assume "0 < unat (m_capacity t) - 1 - unat (m_size t)" and "key_of e = k \<and> hf k \<noteq> 0"
  then have k: "key_of e = k" "hf k \<noteq> 0" and room: "Suc (unat (m_size t)) < unat (m_capacity t)" by auto
  show "\<exists>t'. ht_put key_of t k (hf k) e = Some (ht_map key_of t k = None, t') \<and> ht_inv key_of hf t'
      \<and> ht_map key_of t' = (ht_map key_of t)(k \<mapsto> e)
      \<and> unat (m_capacity t) - 1 - unat (m_size t) \<le> Suc (unat (m_capacity t') - 1 - unat (m_size t'))"
    by (rule ht_put_correct [OF inv k room]) auto
qed

section \<open>The load factor\<close>

lemma unat_max_size:
  "unat (max_size t) = unat (m_capacity t) * 93 mod 2 ^ 32 div 100"
  by (simp add: max_size_def max_load_factor_percent_def unat_div unat_word_ariths)

lemma max_size_less_capacity: "m_capacity t \<noteq> 0 \<Longrightarrow> unat (max_size t) < unat (m_capacity t)"
proof -
  assume "m_capacity t \<noteq> 0"
  then have "0 < unat (m_capacity t)" by simp
  moreover have "unat (m_capacity t) * 93 mod 2 ^ 32 \<le> unat (m_capacity t) * 93" by simp
  ultimately show ?thesis unfolding unat_max_size by linarith
qed

lemma room_below_threshold:
  "m_capacity t \<noteq> 0 \<Longrightarrow> \<not> threshold_reached t \<Longrightarrow> Suc (unat (m_size t)) < unat (m_capacity t)"
  using max_size_less_capacity [of t] by (simp add: threshold_reached_def word_le_nat_alt)

section \<open>Properties of the hash table\<close>

text \<open>C5: any sequence of \<^verbatim>\<open>get\<close>, \<^verbatim>\<open>put\<close> and \<^verbatim>\<open>del\<close> calls on a table that satisfies its
  invariant, with no more insertions than there is room for, returns, keeps the invariant, and gives
  exactly the results and the final contents the same calls give on a finite map.\<close>

theorem ht_history_refines:
  assumes "ht_inv key_of hf t"
    and "\<forall>c \<in> set cs. op_ok (\<lambda>k e. key_of e = k \<and> hf k \<noteq> 0) c"
    and "length (filter is_put cs) \<le> unat (m_capacity t) - 1 - unat (m_size t)"
  shows "\<exists>t'. exec_ops (\<lambda>t k. ht_get key_of t k (hf k)) (\<lambda>t k e. ht_put key_of t k (hf k) e)
        (\<lambda>t k. ht_del key_of t k (hf k)) t cs = Some (fst (spec_ops (ht_map key_of t) cs), t')
      \<and> ht_inv key_of hf t' \<and> ht_map key_of t' = snd (spec_ops (ht_map key_of t) cs)"
  by (rule ht.exec_ops_spec) (use assms in auto)

theorem ht_history_refines_witness:
  "\<exists>t'. exec_ops (\<lambda>t k. ht_get fst t k k) (\<lambda>t k e. ht_put fst t k k e) (\<lambda>t k. ht_del fst t k k)
      (hash_table_new (pow2 2) [7, 7, 7, 7] [(0, 0), (0, 0), (0, 0), (0, 0)])
      [Put 1 (1, 10), Put 5 (5, 50), Del 1, Get 5, Get (1 :: u32)]
    = Some ([Done True, Done True, Done True, Got (Some (5, 50 :: nat)), Got None], t')
    \<and> ht_inv fst (\<lambda>k. k) t' \<and> ht_map fst t' = [5 \<mapsto> (5, 50)]"
proof -
  let ?t = "hash_table_new (pow2 2) [7, 7, 7, 7] [(0, 0), (0, 0), (0, 0), (0, 0)] :: (u32 \<times> nat) hash_table"
  have new: "ht_inv fst (\<lambda>k. k) ?t" "ht_map fst ?t = Map.empty" "m_capacity ?t = pow2 2" "m_size ?t = 0"
    by (simp_all add: hash_table_new_correct)
  show ?thesis
    using ht_history_refines [of fst "\<lambda>k. k" ?t "[Put 1 (1, 10), Put 5 (5, 50), Del 1, Get 5, Get 1]"] new
    by (simp add: unat_pow2 fun_upd_twist)
qed

text \<open>C25: \<^verbatim>\<open>remove_if\<close> ends, also when removals shift entries backwards around the end of the
  array, keeps the shape of the table, removes exactly the entries that satisfy the condition, each of
  them seen once by the removing branch of the predicate, and leaves every other entry in place.\<close>

theorem ht_remove_if_removes_exactly:
  assumes "ht_inv key_of hf t"
  shows "\<exists>t' rs. ht_remove_if (\<lambda>e s. if q e then (True, f e s) else (False, s)) t s
        = Some (t', fold (\<lambda>r. f (snd r)) rs s) \<and> ht_inv key_of hf t'
      \<and> ht_map key_of t' = (\<lambda>k. case ht_map key_of t k of None \<Rightarrow> None | Some e \<Rightarrow> if q e then None else Some e)
      \<and> mset rs = filter_mset (\<lambda>r. q (snd r)) (ht_mset t)"
proof -
  note st = ht_invD(1) [OF assms] and ok = ht_invD(2) [OF assms]
  obtain t' rs where r: "ht_remove_if (\<lambda>e s. if q e then (True, f e s) else (False, s)) t s
        = Some (t', fold (\<lambda>r. f (snd r)) rs s)" "ht_struct t'"
      "ht_mset t' = filter_mset (\<lambda>r. \<not> q (snd r)) (ht_mset t)"
      "mset rs = filter_mset (\<lambda>r. q (snd r)) (ht_mset t)"
    by (rule ht_remove_if_correct [OF refl st])
  moreover have "ht_inv key_of hf t'" using r(2,3) keys_ok_sub [OF ok] by (simp add: ht_inv_def)
  ultimately show ?thesis using ht_map_filter [OF ok] by blast
qed

theorem ht_remove_if_removes_exactly_witness:
  "\<exists>t' rs. ht_remove_if (\<lambda>e s. if odd e then (True, e # s) else (False, s))
      (hash_table_new (pow2 1) [7, 7] [0, 0 :: nat]) []
    = Some (t', fold (\<lambda>r. (#) (snd r)) rs []) \<and> ht_inv id (\<lambda>_. 1) t' \<and> rs = []"
proof -
  have new: "ht_inv id (\<lambda>_. 1) (hash_table_new (pow2 1) [7, 7] [0, 0 :: nat])"
      "ht_mset (hash_table_new (pow2 1) [7, 7] [0, 0 :: nat]) = {#}"
    by (rule hash_table_new_correct; simp)+
  show ?thesis
    using ht_remove_if_removes_exactly [of id "\<lambda>_. 1" "hash_table_new (pow2 1) [7, 7] [0, 0 :: nat]" odd "(#)" "[]"]
      new by auto
qed



text \<open>The position \<^verbatim>\<open>insert\<close> returns is the slot it filled last. When the new entry displaced
  others, that slot holds the last of the displaced entries and not the one inserted: here key 9 goes
  into slot 2, key 2 moves to slot 3, and 3 is returned.\<close>

theorem insert_returns_last_filled_slot:
  "\<exists>t t' :: (u32 \<times> nat) hash_table. ht_inv fst (\<lambda>k. k) t \<and> ht_entry_for fst t 9 9 = Some (False, 2)
     \<and> ht_insert t 2 (9, 99) 9 = Some (3, t') \<and> ht_entry_for fst t' 9 9 = Some (True, 2)
     \<and> entry_at t' 3 = (2, 22)"
proof -
  let ?new = "hash_table_new (pow2 3) (replicate 8 0) (replicate 8 (0, 0)) :: (u32 \<times> nat) hash_table"
  let ?ops = "[Put 1 (1, 11), Put 2 (2, 22)] :: (u32, u32 \<times> nat) map_op list"
  have "ht_inv fst (\<lambda>k. k) ?new" by (rule hash_table_new_correct) simp_all
  then obtain t where t: "exec_ops (\<lambda>t k. ht_get fst t k k) (\<lambda>t k e. ht_put fst t k k e)
      (\<lambda>t k. ht_del fst t k k) ?new ?ops = Some (fst (spec_ops (ht_map fst ?new) ?ops), t)"
      "ht_inv fst (\<lambda>k. k) t"
    using ht.exec_ops_spec [of fst "\<lambda>k. k" ?new ?ops]
    by (auto simp: hash_table_new_def ht_clear_def unat_pow2)
  have "map_option snd (exec_ops (\<lambda>t k. ht_get fst t k k) (\<lambda>t k e. ht_put fst t k k e)
      (\<lambda>t k. ht_del fst t k k) ?new ?ops)
    = Some \<lparr>m_size = 2, m_capacity = 8, m_mask = 7, m_hashes = [0, 1, 2, 0, 0, 0, 0, 0],
        m_entries = [(0, 0), (1, 11), (2, 22), (0, 0), (0, 0), (0, 0), (0, 0), (0, 0)]\<rparr>"
    by code_simp
  with t(1) have teq: "t = \<lparr>m_size = 2, m_capacity = 8, m_mask = 7, m_hashes = [0, 1, 2, 0, 0, 0, 0, 0],
        m_entries = [(0, 0), (1, 11), (2, 22), (0, 0), (0, 0), (0, 0), (0, 0), (0, 0)]\<rparr>"
    by simp
  let ?t' = "\<lparr>m_size = 3, m_capacity = 8, m_mask = 7, m_hashes = [0, 1, 9, 2, 0, 0, 0, 0],
        m_entries = [(0, 0), (1, 11), (9, 99), (2, 22), (0, 0), (0, 0), (0, 0), (0, 0)]\<rparr> :: (u32 \<times> nat) hash_table"
  have "ht_entry_for fst t 9 9 = Some (False, 2)" unfolding teq by code_simp
  moreover have "ht_insert t 2 (9, 99) 9 = Some (3, ?t')" unfolding teq by code_simp
  moreover have "ht_entry_for fst ?t' 9 9 = Some (True, 2)" by code_simp
  moreover have "entry_at ?t' 3 = (2, 22)" by code_simp
  ultimately show ?thesis using t(2) by blast
qed

end
