(* ===== verification/Dict.thy ===== *)
theory Dict
  imports Hash_Map
begin

text \<open>
  \<^verbatim>\<open>cachelot/dict.h\<close>: the dictionary on two hash tables. When the load factor of the primary
  table passes its threshold it becomes the secondary table, a table twice as large becomes the primary
  one, and later calls move the entries in batches. The memory of a new table comes from
  \<^verbatim>\<open>new (nothrow)\<close>, the parameter \<open>fresh\<close> of the operations that allocate: \<open>None\<close> when the
  allocation fails, otherwise the uninitialised arrays. An operation returns \<open>None\<close> when a loop of
  it does not end or a table it needs is missing.
\<close>

section \<open>The dictionary and its operations\<close>

record 'e dict =
  m_primary_tbl :: "'e hash_table"
  m_secondary_tbl :: "'e hash_table option"
  m_hashpower :: u32
  m_expand_pos :: u32

type_synonym 'e fresh_arrays = "u32 \<Rightarrow> (u32 list \<times> 'e list) option"

datatype table_ref = Primary | Secondary

type_synonym dict_iterator = "table_ref \<times> u32"

definition is_expanding :: "'e dict \<Rightarrow> bool" where
  "is_expanding d \<longleftrightarrow> m_secondary_tbl d \<noteq> None"

definition dict_new :: "'e fresh_arrays \<Rightarrow> u32 \<Rightarrow> 'e dict result" where
  "dict_new fresh initial_size =
     (case fresh (roundup_pow2 initial_size) of
        None \<Rightarrow> Inl Bad_alloc
      | Some (hs, es) \<Rightarrow> Inr \<lparr>m_primary_tbl = hash_table_new (roundup_pow2 initial_size) hs es,
          m_secondary_tbl = None, m_hashpower = of_nat (log2u (roundup_pow2 initial_size)),
          m_expand_pos = 0\<rparr>)"

definition iter_bool :: "'e dict \<Rightarrow> dict_iterator \<Rightarrow> bool" where
  "iter_bool d it = (case it of
      (Primary, pos) \<Rightarrow> \<not> empty_at (m_primary_tbl d) pos
    | (Secondary, pos) \<Rightarrow> (case m_secondary_tbl d of None \<Rightarrow> False | Some s \<Rightarrow> \<not> empty_at s pos))"

definition iter_value :: "'e dict \<Rightarrow> dict_iterator \<Rightarrow> 'e option" where
  "iter_value d it = (if iter_bool d it
     then case it of
        (Primary, pos) \<Rightarrow> Some (entry_at (m_primary_tbl d) pos)
      | (Secondary, pos) \<Rightarrow> map_option (\<lambda>s. entry_at s pos) (m_secondary_tbl d)
     else None)"

definition set_entry :: "u32 \<Rightarrow> 'e \<Rightarrow> 'e hash_table \<Rightarrow> 'e hash_table" where
  "set_entry pos e t = t\<lparr>m_entries := (m_entries t)[unat pos := e]\<rparr>"

definition unsafe_replace_kv :: "'e dict \<Rightarrow> dict_iterator \<Rightarrow> 'e \<Rightarrow> 'e dict" where
  "unsafe_replace_kv d it e = (case it of
      (Primary, pos) \<Rightarrow> d\<lparr>m_primary_tbl := set_entry pos e (m_primary_tbl d)\<rparr>
    | (Secondary, pos) \<Rightarrow> d\<lparr>m_secondary_tbl := map_option (set_entry pos e) (m_secondary_tbl d)\<rparr>)"

definition dict_get :: "('e \<Rightarrow> 'k) \<Rightarrow> 'e dict \<Rightarrow> 'k \<Rightarrow> u32 \<Rightarrow> 'e option option" where
  "dict_get key_of d key hash = (case m_secondary_tbl d of
      None \<Rightarrow> ht_get key_of (m_primary_tbl d) key hash
    | Some s \<Rightarrow> (case ht_get key_of s key hash of
          None \<Rightarrow> None
        | Some (Some e) \<Rightarrow> Some (Some e)
        | Some None \<Rightarrow> ht_get key_of (m_primary_tbl d) key hash))"

text \<open>\<^verbatim>\<open>while (m_secondary_tbl->empty_at(m_expand_pos)) m_expand_pos += 1\<close>\<close>

partial_function (option) skip_empty :: "'e hash_table \<Rightarrow> u32 \<Rightarrow> u32 option" where
  "skip_empty t pos = (if empty_at t pos then skip_empty t (pos + 1) else Some pos)"

partial_function (option) rehash_loop ::
  "('e \<Rightarrow> 'k) \<Rightarrow> 'e hash_table \<Rightarrow> 'e hash_table \<Rightarrow> u32 \<Rightarrow> u32 \<Rightarrow> u32
     \<Rightarrow> ('e hash_table \<times> 'e hash_table \<times> u32) option" where
  "rehash_loop key_of p s expand_pos elements_moved batch_size =
     (if elements_moved < batch_size
      then Option.bind (skip_empty s expand_pos) (\<lambda>pos.
             let hash = hash_at s pos; e = entry_at s pos
             in Option.bind (ht_put key_of p (key_of e) hash e) (\<lambda>(_, p').
                  Option.bind (ht_remove s pos) (\<lambda>s'.
                    rehash_loop key_of p' s' pos (elements_moved + 1) batch_size)))
      else Some (p, s, expand_pos))"

definition min_batch_size :: u32 where
  "min_batch_size = 512"

definition end_expand :: "'e dict \<Rightarrow> 'e dict" where
  "end_expand d = d\<lparr>m_secondary_tbl := None, m_expand_pos := 0\<rparr>"

definition rehash_some :: "('e \<Rightarrow> 'k) \<Rightarrow> 'e dict \<Rightarrow> 'e dict option" where
  "rehash_some key_of d = (case m_secondary_tbl d of
      None \<Rightarrow> None
    | Some s \<Rightarrow>
        map_option (\<lambda>(p', s', expand_pos).
            let d' = d\<lparr>m_primary_tbl := p', m_secondary_tbl := Some s', m_expand_pos := expand_pos\<rparr>
            in if ht_empty s' then end_expand d' else d')
          (rehash_loop key_of (m_primary_tbl d) s (m_expand_pos d) 0 (min min_batch_size (m_size s))))"

definition begin_expand :: "'e fresh_arrays \<Rightarrow> ('e \<Rightarrow> 'k) \<Rightarrow> 'e dict \<Rightarrow> (unit result \<times> 'e dict) option" where
  "begin_expand fresh key_of d =
     (let cap = pow2 (unat (m_hashpower d + 1)) in
      case fresh cap of
        Some (hs, es) \<Rightarrow>
          map_option (Pair (Inr ()))
            (rehash_some key_of (d\<lparr>m_primary_tbl := hash_table_new cap hs es,
               m_secondary_tbl := Some (m_primary_tbl d), m_hashpower := m_hashpower d + 1,
               m_expand_pos := 0\<rparr>))
      | None \<Rightarrow> Some (Inl Bad_alloc, d\<lparr>m_secondary_tbl := None, m_expand_pos := 0\<rparr>))"

definition search_primary ::
  "'e fresh_arrays \<Rightarrow> ('e \<Rightarrow> 'k) \<Rightarrow> 'e dict \<Rightarrow> 'k \<Rightarrow> u32 \<Rightarrow> bool
     \<Rightarrow> ((bool \<times> dict_iterator) result \<times> 'e dict) option" where
  "search_primary fresh key_of d key hash readonly =
     Option.bind (ht_entry_for key_of (m_primary_tbl d) key hash) (\<lambda>(found, at).
       if \<not> found \<and> threshold_reached (m_primary_tbl d)
       then Option.bind (if readonly then Some (Inr (), d) else begin_expand fresh key_of d) (\<lambda>(r, d').
              case r of
                Inl e \<Rightarrow> Some (Inl e, d')
              | Inr _ \<Rightarrow> map_option (\<lambda>(found', at'). (Inr (found', Primary, at'), d'))
                          (ht_entry_for key_of (m_primary_tbl d') key hash))
       else Some (Inr (found, Primary, at), d))"

definition search_secondary ::
  "('e \<Rightarrow> 'k) \<Rightarrow> 'e dict \<Rightarrow> 'k \<Rightarrow> u32 \<Rightarrow> ((bool \<times> dict_iterator) result \<times> 'e dict) option" where
  "search_secondary key_of d key hash =
     Option.bind (rehash_some key_of d) (\<lambda>d1.
       let in_primary = map_option (\<lambda>(found, at). (Inr (found, Primary, at), d1))
             (ht_entry_for key_of (m_primary_tbl d1) key hash)
       in case m_secondary_tbl d1 of
            None \<Rightarrow> in_primary
          | Some s \<Rightarrow>
              Option.bind (ht_entry_for key_of s key hash) (\<lambda>(found, old_pos).
                if found
                then Option.bind (ht_entry_for key_of (m_primary_tbl d1) key hash) (\<lambda>(_, new_pos).
                       Option.bind (ht_insert (m_primary_tbl d1) new_pos (entry_at s old_pos) hash)
                         (\<lambda>(new_pos', p').
                           map_option (\<lambda>s'. (Inr (True, Primary, new_pos'),
                               d1\<lparr>m_primary_tbl := p', m_secondary_tbl := Some s'\<rparr>))
                             (ht_remove s old_pos)))
                else in_primary))"

definition dict_entry_for ::
  "'e fresh_arrays \<Rightarrow> ('e \<Rightarrow> 'k) \<Rightarrow> 'e dict \<Rightarrow> 'k \<Rightarrow> u32 \<Rightarrow> bool
     \<Rightarrow> ((bool \<times> dict_iterator) result \<times> 'e dict) option" where
  "dict_entry_for fresh key_of d key hash readonly =
     (if \<not> is_expanding d then search_primary fresh key_of d key hash readonly
      else search_secondary key_of d key hash)"

definition dict_insert :: "'e dict \<Rightarrow> dict_iterator \<Rightarrow> u32 \<Rightarrow> 'e \<Rightarrow> (dict_iterator \<times> 'e dict) option" where
  "dict_insert d at hash e = (case at of
      (Primary, pos) \<Rightarrow> map_option (\<lambda>(pos', t). ((Primary, pos'), d\<lparr>m_primary_tbl := t\<rparr>))
        (ht_insert (m_primary_tbl d) pos e hash)
    | (Secondary, pos) \<Rightarrow> Option.bind (m_secondary_tbl d) (\<lambda>s.
        map_option (\<lambda>(pos', t). ((Secondary, pos'), d\<lparr>m_secondary_tbl := Some t\<rparr>)) (ht_insert s pos e hash)))"

definition dict_del :: "('e \<Rightarrow> 'k) \<Rightarrow> 'e dict \<Rightarrow> 'k \<Rightarrow> u32 \<Rightarrow> (bool \<times> 'e dict) option" where
  "dict_del key_of d key hash = (case m_secondary_tbl d of
      None \<Rightarrow> map_option (\<lambda>(deleted, t). (deleted, d\<lparr>m_primary_tbl := t\<rparr>))
        (ht_del key_of (m_primary_tbl d) key hash)
    | Some s \<Rightarrow>
        Option.bind (ht_del key_of s key hash) (\<lambda>(deleted, s').
        Option.bind (if deleted then Some (True, m_primary_tbl d)
                     else ht_del key_of (m_primary_tbl d) key hash) (\<lambda>(deleted', p').
          map_option (Pair deleted')
            (rehash_some key_of (d\<lparr>m_primary_tbl := p', m_secondary_tbl := Some s'\<rparr>)))))"

definition dict_remove :: "'e dict \<Rightarrow> dict_iterator \<Rightarrow> 'e dict option" where
  "dict_remove d at = (case at of
      (Primary, pos) \<Rightarrow> map_option (\<lambda>t. d\<lparr>m_primary_tbl := t\<rparr>) (ht_remove (m_primary_tbl d) pos)
    | (Secondary, pos) \<Rightarrow> Option.bind (m_secondary_tbl d) (\<lambda>s.
        map_option (\<lambda>t. d\<lparr>m_secondary_tbl := Some t\<rparr>) (ht_remove s pos)))"

definition dict_remove_if ::
  "('e \<Rightarrow> 's \<Rightarrow> bool \<times> 's) \<Rightarrow> 'e dict \<Rightarrow> 's \<Rightarrow> ('e dict \<times> 's) option" where
  "dict_remove_if predicate d st =
     Option.bind (case m_secondary_tbl d of
         None \<Rightarrow> Some (d, st)
       | Some s \<Rightarrow> map_option (\<lambda>(s', st'). (d\<lparr>m_secondary_tbl := Some s'\<rparr>, st')) (ht_remove_if predicate s st))
       (\<lambda>(d', st'). map_option (\<lambda>(p', st''). (d'\<lparr>m_primary_tbl := p'\<rparr>, st''))
          (ht_remove_if predicate (m_primary_tbl d') st'))"

definition dict_contains :: "('e \<Rightarrow> 'k) \<Rightarrow> 'e dict \<Rightarrow> 'k \<Rightarrow> u32 \<Rightarrow> bool option" where
  "dict_contains key_of d key hash = (case m_secondary_tbl d of
      None \<Rightarrow> ht_contains key_of (m_primary_tbl d) key hash
    | Some s \<Rightarrow> Option.bind (ht_contains key_of (m_primary_tbl d) key hash) (\<lambda>c.
        if c then Some True else ht_contains key_of s key hash))"

definition dict_capacity :: "'e dict \<Rightarrow> u32" where
  "dict_capacity d = m_capacity (m_primary_tbl d)"

definition dict_size :: "'e dict \<Rightarrow> u32" where
  "dict_size d = m_size (m_primary_tbl d)
     + (case m_secondary_tbl d of None \<Rightarrow> 0 | Some s \<Rightarrow> m_size s)"

definition dict_empty :: "'e dict \<Rightarrow> bool" where
  "dict_empty d \<longleftrightarrow> dict_size d = 0"

definition dict_clear :: "'e dict \<Rightarrow> 'e dict" where
  "dict_clear d = d\<lparr>m_secondary_tbl := None, m_primary_tbl := ht_clear (m_primary_tbl d)\<rparr>"

declare skip_empty.simps [code] rehash_loop.simps [code]

section \<open>Abstraction and invariant\<close>

definition dict_mset :: "'e dict \<Rightarrow> (u32 \<times> 'e) multiset" where
  "dict_mset d = ht_mset (m_primary_tbl d)
     + (case m_secondary_tbl d of None \<Rightarrow> {#} | Some s \<Rightarrow> ht_mset s)"

definition dict_map :: "('e \<Rightarrow> 'k) \<Rightarrow> 'e dict \<Rightarrow> 'k \<Rightarrow> 'e option" where
  "dict_map key_of d = ht_map key_of (m_primary_tbl d)
     ++ (case m_secondary_tbl d of None \<Rightarrow> Map.empty | Some s \<Rightarrow> ht_map key_of s)"

text \<open>
  Every slot of the secondary table before \<open>m_expand_pos\<close> is free, and the primary table has room for
  everything that is still in the secondary one and for one insertion with each batch.
\<close>

definition secondary_ok :: "'e hash_table \<Rightarrow> 'e hash_table \<Rightarrow> u32 \<Rightarrow> bool" where
  "secondary_ok p s expand_pos \<longleftrightarrow> ht_struct s \<and> unat expand_pos \<le> unat (m_capacity s)
     \<and> (\<forall>i < unat expand_pos. m_hashes s ! i = 0)
     \<and> unat (m_size p) + 2 * unat (m_size s) + 2 \<le> unat (m_capacity p)"

definition dict_inv :: "('e \<Rightarrow> 'k) \<Rightarrow> ('k \<Rightarrow> u32) \<Rightarrow> 'e dict \<Rightarrow> bool" where
  "dict_inv key_of hf d \<longleftrightarrow> ht_struct (m_primary_tbl d) \<and> keys_ok key_of hf (dict_mset d)
     \<and> unat (m_hashpower d) < 32 \<and> m_capacity (m_primary_tbl d) = pow2 (unat (m_hashpower d))
     \<and> (case m_secondary_tbl d of None \<Rightarrow> True
         | Some s \<Rightarrow> secondary_ok (m_primary_tbl d) s (m_expand_pos d))"

text \<open>What \<^verbatim>\<open>new\<close> gives, when it gives anything, has the size asked for.\<close>

definition fresh_ok :: "'e fresh_arrays \<Rightarrow> bool" where
  "fresh_ok fresh \<longleftrightarrow> (\<forall>n hs es. fresh n = Some (hs, es) \<longrightarrow> length hs = unat n \<and> length es = unat n)"

end
