(* ===== verification/Dict_Map.thy ===== *)
theory Dict_Map
  imports Dict
begin

text \<open>
  The dictionary as a map: moving entries between the two tables never changes the contents, every
  batch ends, and each operation of \<^verbatim>\<open>cachelot/dict.h\<close> does on \<open>dict_map\<close> what its name says.
\<close>

section \<open>Notions of the proofs\<close>

text \<open>Maps that represent a multiset of entries.\<close>

definition represents :: "('e \<Rightarrow> 'k) \<Rightarrow> ('k \<Rightarrow> 'e option) \<Rightarrow> (u32 \<times> 'e) multiset \<Rightarrow> bool" where
  "represents key_of m M \<longleftrightarrow> (\<forall>k e. m k = Some e \<longleftrightarrow> (\<exists>h. (h, e) \<in># M) \<and> key_of e = k)"

definition mset_keys :: "('e \<Rightarrow> 'k) \<Rightarrow> (u32 \<times> 'e) multiset \<Rightarrow> 'k set" where
  "mset_keys key_of M = (key_of \<circ> snd) ` set_mset M"

text \<open>The dictionary is ready for one insertion at a position a search has returned.\<close>

definition dict_room :: "'e dict \<Rightarrow> bool" where
  "dict_room d \<longleftrightarrow> (case m_secondary_tbl d of
      None \<Rightarrow> Suc (unat (m_size (m_primary_tbl d))) < unat (m_capacity (m_primary_tbl d))
    | Some s \<Rightarrow> unat (m_size (m_primary_tbl d)) + 2 * unat (m_size s) + 3 \<le> unat (m_capacity (m_primary_tbl d)))"

text \<open>Repeated batches, as the calls that update the dictionary during an expansion make them.\<close>

fun rehash_times :: "('e \<Rightarrow> 'k) \<Rightarrow> nat \<Rightarrow> 'e dict \<Rightarrow> 'e dict option" where
  "rehash_times key_of 0 d = Some d"
| "rehash_times key_of (Suc n) d =
     (if is_expanding d then Option.bind (rehash_some key_of d) (rehash_times key_of n) else Some d)"

definition zero_fresh :: "nat fresh_arrays" where
  "zero_fresh n = Some (replicate (unat n) 0, replicate (unat n) 0)"

text \<open>The empty dictionary of four slots.\<close>

definition dict4 :: "nat dict" where
  "dict4 = \<lparr>m_primary_tbl = \<lparr>m_size = 0, m_capacity = 4, m_mask = 3, m_hashes = [0, 0, 0, 0], m_entries = [0, 0, 0, 0]\<rparr>,
      m_secondary_tbl = None, m_hashpower = 2, m_expand_pos = 0\<rparr>"

section \<open>Maps that represent a multiset of entries\<close>

lemma representsD: "represents key_of m M \<Longrightarrow> m k = Some e \<longleftrightarrow> (\<exists>h. (h, e) \<in># M) \<and> key_of e = k"
  by (simp add: represents_def)

lemma represents_unique:
  assumes "represents key_of m M" and "represents key_of m' M"
  shows "m = m'"
proof
  fix k
  show "m k = m' k"
    using representsD [OF assms(1), of k] representsD [OF assms(2), of k]
    by (metis option.exhaust)
qed

lemma represents_dom: "represents key_of m M \<Longrightarrow> dom m = mset_keys key_of M"
  by (force simp: represents_def mset_keys_def dom_def)

lemma represents_add:
  assumes "represents key_of m M" and "key_of e \<notin> mset_keys key_of M"
  shows "represents key_of (m(key_of e \<mapsto> e)) (add_mset (h, e) M)"
proof -
  have "(h', x) \<in># M \<Longrightarrow> key_of x \<noteq> key_of e" for h' x
    using assms(2) by (force simp: mset_keys_def)
  then show ?thesis using assms(1) by (auto simp: represents_def)
qed

lemma represents_sub:
  assumes "represents key_of m (add_mset (h, e) M)" and "key_of e \<notin> mset_keys key_of M"
  shows "represents key_of (m(key_of e := None)) M"
  using assms by (force simp: represents_def mset_keys_def)

lemma keys_okD:
  assumes "keys_ok key_of hf (M + N)"
  shows "keys_ok key_of hf M" and "keys_ok key_of hf N" and "mset_keys key_of M \<inter> mset_keys key_of N = {}"
proof -
  show "keys_ok key_of hf M" and "keys_ok key_of hf N" using keys_ok_sub [OF assms] by simp_all
  show "mset_keys key_of M \<inter> mset_keys key_of N = {}"
  proof (rule ccontr)
    assume "mset_keys key_of M \<inter> mset_keys key_of N \<noteq> {}"
    then obtain a b where ab: "a \<in># M" "b \<in># N" "key_of (snd a) = key_of (snd b)"
      by (auto simp: mset_keys_def)
    then obtain M' where "M = add_mset a M'" by (metis multi_member_split)
    then have "keys_ok key_of hf (add_mset a (M' + N))" using assms by simp
    from keys_ok_unique [OF this] ab show False by auto
  qed
qed

lemma keys_ok_hash: "keys_ok key_of hf M \<Longrightarrow> (h, e) \<in># M \<Longrightarrow> h = hf (key_of e)"
  by (force simp: keys_ok_def)

lemma ht_map_represents: "keys_ok key_of hf (ht_mset t) \<Longrightarrow> represents key_of (ht_map key_of t) (ht_mset t)"
  by (simp add: represents_def ht_map_Some_iff)

lemma ht_keys_mset: "ht_keys key_of t = mset_keys key_of (ht_mset t)"
  by (simp add: ht_keys_def mset_keys_def)

lemma dict_map_represents:
  assumes "keys_ok key_of hf (dict_mset d)"
  shows "represents key_of (dict_map key_of d) (dict_mset d)"
proof (cases "m_secondary_tbl d")
  case None
  with assms ht_map_represents show ?thesis by (simp add: dict_map_def dict_mset_def)
next
  case (Some s)
  note ok = keys_okD [of key_of hf "ht_mset (m_primary_tbl d)" "ht_mset s"]
  have sum: "dict_mset d = ht_mset (m_primary_tbl d) + ht_mset s" using Some by (simp add: dict_mset_def)
  note rp = ht_map_represents [OF ok(1)] and rs = ht_map_represents [OF ok(2)]
  have "dom (ht_map key_of (m_primary_tbl d)) \<inter> dom (ht_map key_of s) = {}"
    using represents_dom [OF rp] represents_dom [OF rs] ok(3) assms sum by simp
  then have "dict_map key_of d k = Some e \<longleftrightarrow>
      ht_map key_of (m_primary_tbl d) k = Some e \<or> ht_map key_of s k = Some e" for k e
    using Some by (auto simp: dict_map_def map_add_Some_iff)
  with rp rs assms sum show ?thesis unfolding represents_def by auto
qed

lemma dict_map_cong:
  assumes "keys_ok key_of hf (dict_mset d)" and "dict_mset d' = dict_mset d"
  shows "dict_map key_of d' = dict_map key_of d"
  using represents_unique dict_map_represents assms by metis

lemma dict_map_add:
  assumes "keys_ok key_of hf (dict_mset d')" and "dict_mset d' = add_mset (h, e) (dict_mset d)"
  shows "dict_map key_of d' = (dict_map key_of d)(key_of e \<mapsto> e)"
proof -
  have "keys_ok key_of hf ({#(h, e)#} + dict_mset d)" using assms by simp
  note ok = keys_okD [OF this]
  then have "represents key_of ((dict_map key_of d)(key_of e \<mapsto> e)) (dict_mset d')"
    unfolding assms(2) by (intro represents_add dict_map_represents) (auto simp: mset_keys_def)
  then show ?thesis using represents_unique dict_map_represents [OF assms(1)] by metis
qed

lemma dict_map_sub:
  assumes "keys_ok key_of hf (dict_mset d)" and "dict_mset d = add_mset (h, e) (dict_mset d')"
  shows "dict_map key_of d' = (dict_map key_of d)(key_of e := None)"
proof -
  have "keys_ok key_of hf ({#(h, e)#} + dict_mset d')" using assms by simp
  note ok = keys_okD [OF this]
  have "represents key_of ((dict_map key_of d)(key_of e := None)) (dict_mset d')"
    using dict_map_represents [OF assms(1)] ok(3) unfolding assms(2)
    by (intro represents_sub) (auto simp: mset_keys_def)
  then show ?thesis using represents_unique dict_map_represents [OF ok(2)] by metis
qed

lemma ht_inv_iff: "ht_inv key_of hf t \<longleftrightarrow> ht_struct t \<and> keys_ok key_of hf (ht_mset t)"
  by (simp add: ht_inv_def)

section \<open>Moving a batch\<close>

lemma skip_empty_spec:
  assumes "ht_struct s" and "\<forall>i < unat x. m_hashes s ! i = 0" and "unat (m_size s) \<noteq> 0"
  shows "\<exists>x'. skip_empty s x = Some x' \<and> unat x' < unat (m_capacity s) \<and> hash_at s x' \<noteq> 0
    \<and> (\<forall>i < unat x'. m_hashes s ! i = 0)"
proof -
  note st = ht_structD [OF assms(1)]
  have "ht_mset s \<noteq> {#}" using assms(3) st(3) by auto
  then obtain h e where "(h, e) \<in># ht_mset s" by auto
  then obtain j where j: "j < unat (m_capacity s)" "m_hashes s ! j \<noteq> 0"
    using st(1) by (metis ht_mset_iff fst_conv slots_nth_hash)
  then show ?thesis using assms(2)
  proof (induction "j - unat x" arbitrary: x)
    case 0
    have "\<not> j < unat x" using 0(3,4) by blast
    with 0(1) have "unat x = j" by simp
    with 0 show ?case by (subst skip_empty.simps) (auto simp: empty_at_def hash_at_def)
  next
    case (Suc n)
    have x1: "unat (x + 1) = unat x + 1"
      using Suc.hyps(2) Suc.prems(1) capacity_le [OF st(1)] by (intro unat_Suc_lt) simp
    show ?case
    proof (cases "empty_at s x")
      case True
      then have "\<forall>i < unat (x + 1). m_hashes s ! i = 0"
        using Suc.prems(3) by (auto simp: x1 less_Suc_eq empty_at_def hash_at_def)
      with Suc.hyps Suc.prems(1,2) have "\<exists>x'. skip_empty s (x + 1) = Some x' \<and> unat x' < unat (m_capacity s)
          \<and> hash_at s x' \<noteq> 0 \<and> (\<forall>i < unat x'. m_hashes s ! i = 0)" by (simp add: x1)
      with True show ?thesis by (subst skip_empty.simps) simp
    next
      case False
      with Suc show ?thesis by (subst skip_empty.simps) (auto simp: empty_at_def)
    qed
  qed
qed

text \<open>One element of the secondary table goes to the primary one.\<close>

lemma move_one:
  assumes "ht_struct p" and "ht_struct s" and ok: "keys_ok key_of hf (ht_mset p + ht_mset s)"
    and x: "unat x < unat (m_capacity s)" "hash_at s x \<noteq> 0" "\<forall>i < unat x. m_hashes s ! i = 0"
    and room: "Suc (unat (m_size p)) < unat (m_capacity p)"
  obtains p' s' where "ht_put key_of p (key_of (entry_at s x)) (hash_at s x) (entry_at s x) = Some (True, p')"
    and "ht_remove s x = Some s'" and "ht_struct p'" and "ht_struct s'"
    and "ht_mset p' + ht_mset s' = ht_mset p + ht_mset s"
    and "unat (m_size p') = Suc (unat (m_size p))" and "Suc (unat (m_size s')) = unat (m_size s)"
    and "m_capacity p' = m_capacity p" and "m_capacity s' = m_capacity s"
    and "\<forall>i < unat x. m_hashes s' ! i = 0" and "ht_mset p \<subseteq># ht_mset p'"
proof -
  let ?e = "entry_at s x" and ?h = "hash_at s x"
  note wf = ht_structD(1) [OF assms(2)]
  have mem: "(?h, ?e) \<in># ht_mset s" using x wf by (metis ht_mset_iff slots_nth fst_conv)
  then have h: "?h = hf (key_of ?e)" using keys_ok_hash keys_okD(2) [OF ok] by metis
  have "key_of ?e \<notin> ht_keys key_of p"
    using keys_okD(3) [OF ok] mem by (force simp: ht_keys_mset mset_keys_def)
  moreover have "ht_inv key_of hf p" using assms(1) keys_okD(1) [OF ok] by (simp add: ht_inv_iff)
  ultimately obtain p' where p': "ht_put key_of p (key_of ?e) ?h ?e = Some (True, p')" "ht_inv key_of hf p'"
      "ht_mset p' = add_mset (?h, ?e) (ht_mset p)" "m_capacity p' = m_capacity p"
    using ht_put_new [of key_of hf p ?e] room x(2) unfolding h by metis
  obtain s' where s': "ht_remove s x = Some s'" "ht_struct s'"
      "ht_mset s' = ht_mset s - {#(?h, ?e)#}" "m_capacity s' = m_capacity s"
      "\<And>y. y \<le> unat (m_capacity s) \<Longrightarrow> \<forall>i < y. m_hashes s ! i = 0 \<Longrightarrow> \<forall>i < y. m_hashes s' ! i = 0"
    by (rule ht_remove_correct [OF assms(2) x(1,2)]) blast
  have ms: "ht_mset s = add_mset (?h, ?e) (ht_mset s')" using mem s'(3) by simp
  have st': "ht_struct p'" using p'(2) by (rule ht_invD)
  have "unat (m_size p') = Suc (unat (m_size p))"
    using ht_structD(3) [OF st'] ht_structD(3) [OF assms(1)] p'(3) by simp
  moreover have "Suc (unat (m_size s')) = unat (m_size s)"
    using ht_structD(3) [OF s'(2)] ht_structD(3) [OF assms(2)] ms by simp
  moreover have "\<forall>i < unat x. m_hashes s' ! i = 0" using s'(5) [OF less_imp_le [OF x(1)] x(3)] .
  ultimately show ?thesis using that [OF p'(1) s'(1) st' s'(2)] p'(3,4) ms s'(4) by simp
qed

lemma rehash_loop_spec:
  assumes "ht_struct p" and "ht_struct s" and "keys_ok key_of hf (ht_mset p + ht_mset s)"
    and "\<forall>i < unat x. m_hashes s ! i = 0" and "unat x \<le> unat (m_capacity s)" and "moved \<le> batch"
    and "unat batch - unat moved \<le> unat (m_size s)"
    and "unat (m_size p) + (unat batch - unat moved) < unat (m_capacity p)"
  shows "\<exists>p' s' x'. rehash_loop key_of p s x moved batch = Some (p', s', x') \<and> ht_struct p' \<and> ht_struct s'
    \<and> ht_mset p' + ht_mset s' = ht_mset p + ht_mset s \<and> ht_mset p \<subseteq># ht_mset p'
    \<and> unat (m_size s') + (unat batch - unat moved) = unat (m_size s)
    \<and> m_capacity p' = m_capacity p \<and> m_capacity s' = m_capacity s
    \<and> (\<forall>i < unat x'. m_hashes s' ! i = 0) \<and> unat x' \<le> unat (m_capacity s')"
  using assms
proof (induction "unat batch - unat moved" arbitrary: p s x moved)
  case 0
  then have "\<not> moved < batch" by (simp add: word_less_nat_alt)
  with 0 show ?case by (subst rehash_loop.simps) auto
next
  case (Suc n)
  then have lt: "moved < batch" by (simp add: word_less_nat_alt)
  have m1: "unat (moved + 1) = unat moved + 1"
    using lt unat_word_lt [of batch] unfolding word_less_nat_alt by (intro unat_Suc_lt) linarith
  obtain x' where x': "skip_empty s x = Some x'" "unat x' < unat (m_capacity s)" "hash_at s x' \<noteq> 0"
      "\<forall>i < unat x'. m_hashes s ! i = 0"
    using skip_empty_spec [OF Suc.prems(2,4)] Suc.hyps(2) Suc.prems(7) by auto
  obtain p1 s1 where r: "ht_put key_of p (key_of (entry_at s x')) (hash_at s x') (entry_at s x') = Some (True, p1)"
      "ht_remove s x' = Some s1" "ht_struct p1" "ht_struct s1"
      "ht_mset p1 + ht_mset s1 = ht_mset p + ht_mset s"
      "unat (m_size p1) = Suc (unat (m_size p))" "Suc (unat (m_size s1)) = unat (m_size s)"
      "m_capacity p1 = m_capacity p" "m_capacity s1 = m_capacity s" "\<forall>i < unat x'. m_hashes s1 ! i = 0" "ht_mset p \<subseteq># ht_mset p1"
    by (rule move_one [OF Suc.prems(1-3) x'(2-4)]) (use Suc.hyps(2) Suc.prems(8) in auto)
  have step: "rehash_loop key_of p s x moved batch = rehash_loop key_of p1 s1 x' (moved + 1) batch"
    using lt x'(1) r(1,2) by (subst rehash_loop.simps) (simp add: Let_def)
  have n: "unat batch - unat (moved + 1) = n" using Suc.hyps(2) m1 by simp
  have "\<exists>p' s' x''. rehash_loop key_of p1 s1 x' (moved + 1) batch = Some (p', s', x'') \<and> ht_struct p'
      \<and> ht_struct s' \<and> ht_mset p' + ht_mset s' = ht_mset p1 + ht_mset s1 \<and> ht_mset p1 \<subseteq># ht_mset p'
      \<and> unat (m_size s') + (unat batch - unat (moved + 1)) = unat (m_size s1)
      \<and> m_capacity p' = m_capacity p1 \<and> m_capacity s' = m_capacity s1
      \<and> (\<forall>i < unat x''. m_hashes s' ! i = 0) \<and> unat x'' \<le> unat (m_capacity s')"
  proof (rule Suc.hyps(1))
    show "moved + 1 \<le> batch" using lt m1 by (simp add: word_le_nat_alt word_less_nat_alt)
  qed (use r n x'(2) Suc.prems(3,7,8) Suc.hyps(2) in simp_all)
  with n r Suc.hyps(2) show ?case unfolding step by (auto intro: subset_mset.order_trans)
qed

lemma dict_invD:
  assumes "dict_inv key_of hf d"
  shows "ht_struct (m_primary_tbl d)" and "keys_ok key_of hf (dict_mset d)"
    and "unat (m_hashpower d) < 32" and "m_capacity (m_primary_tbl d) = pow2 (unat (m_hashpower d))"
    and "m_secondary_tbl d = Some s \<Longrightarrow> secondary_ok (m_primary_tbl d) s (m_expand_pos d)"
  using assms by (auto simp: dict_inv_def)

lemma dict_inv_tables:
  assumes "dict_inv key_of hf d"
  shows "ht_inv key_of hf (m_primary_tbl d)" and "m_secondary_tbl d = Some s \<Longrightarrow> ht_inv key_of hf s"
    and "m_secondary_tbl d = Some s \<Longrightarrow> ht_keys key_of (m_primary_tbl d) \<inter> ht_keys key_of s = {}"
  using dict_invD [OF assms] keys_okD [of key_of hf "ht_mset (m_primary_tbl d)"]
  by (auto simp: ht_inv_iff dict_mset_def secondary_ok_def ht_keys_mset split: option.splits)

lemma rehash_some_spec:
  assumes inv: "dict_inv key_of hf d" and s: "m_secondary_tbl d = Some s"
  obtains d' where "rehash_some key_of d = Some d'" and "dict_inv key_of hf d'"
    and "dict_mset d' = dict_mset d" and "m_hashpower d' = m_hashpower d" and "dict_room d'"
    and "ht_mset (m_primary_tbl d) \<subseteq># ht_mset (m_primary_tbl d')"
    and "case m_secondary_tbl d' of None \<Rightarrow> unat (m_size s) \<le> 512
      | Some s' \<Rightarrow> unat (m_size s') + 512 = unat (m_size s) \<and> m_size s' \<noteq> 0"
proof -
  let ?p = "m_primary_tbl d" and ?batch = "min min_batch_size (m_size s)"
  note i = dict_invD [OF inv] and ok = dict_invD(5) [OF inv s, unfolded secondary_ok_def]
  have b: "unat ?batch \<le> unat (m_size s)" "unat (m_size s) \<noteq> 0 \<Longrightarrow> unat ?batch \<noteq> 0"
    by (simp_all add: min_def min_batch_size_def word_le_nat_alt)
  obtain p' s' x' where r: "rehash_loop key_of ?p s (m_expand_pos d) 0 ?batch = Some (p', s', x')"
      "ht_struct p'" "ht_struct s'" "ht_mset p' + ht_mset s' = ht_mset ?p + ht_mset s"
      "ht_mset ?p \<subseteq># ht_mset p'" "unat (m_size s') + unat ?batch = unat (m_size s)"
      "m_capacity p' = m_capacity ?p" "m_capacity s' = m_capacity s"
      "\<forall>i < unat x'. m_hashes s' ! i = 0" "unat x' \<le> unat (m_capacity s')"
    using rehash_loop_spec [of ?p s key_of hf "m_expand_pos d" 0 ?batch] i(1,2) s ok b(1)
    by (auto simp: dict_mset_def)
  have "size (ht_mset p') + size (ht_mset s') = size (ht_mset ?p) + size (ht_mset s)"
    using r(4) by (metis size_union)
  then have sizes: "unat (m_size p') + unat (m_size s') = unat (m_size ?p) + unat (m_size s)"
    using r(2,3) i(1) ok by (simp add: ht_structD(3))
  define d1 where "d1 = d\<lparr>m_primary_tbl := p', m_secondary_tbl := Some s', m_expand_pos := x'\<rparr>"
  define d' where "d' = (if ht_empty s' then end_expand d1 else d1)"
  have "rehash_some key_of d = Some d'"
    using s r(1) by (simp add: rehash_some_def d'_def d1_def)
  moreover have empty: "ht_empty s' \<Longrightarrow> ht_mset s' = {#} \<and> unat (m_size s') = 0"
    using ht_structD(3) [OF r(3)] by (auto simp: ht_empty_def)
  then have m: "dict_mset d' = dict_mset d"
    using r(4) s by (auto simp: d'_def d1_def dict_mset_def end_expand_def)
  moreover have "dict_room d'"
  proof (cases "ht_empty s'")
    case True
    with empty sizes r(6,7) ok b show ?thesis
      by (simp add: dict_room_def d'_def d1_def end_expand_def)
  next
    case False
    then have "unat (m_size s') \<noteq> 0" by (simp add: ht_empty_def unat_eq_0)
    then have "unat ?batch \<noteq> 0" using b r(6) by linarith
    with sizes r(6) ok have "unat (m_size p') + 2 * unat (m_size s') + 3 \<le> unat (m_capacity ?p)" by linarith
    with False r(7) show ?thesis by (simp add: dict_room_def d'_def d1_def)
  qed
  moreover have "dict_inv key_of hf d'"
    unfolding dict_inv_def m using i r ok sizes
    by (auto simp: d'_def d1_def end_expand_def secondary_ok_def split: option.splits)
  moreover have "m_hashpower d' = m_hashpower d" "ht_mset ?p \<subseteq># ht_mset (m_primary_tbl d')"
    using r(5) by (auto simp: d'_def d1_def end_expand_def)
  moreover have "case m_secondary_tbl d' of None \<Rightarrow> unat (m_size s) \<le> 512
      | Some s' \<Rightarrow> unat (m_size s') + 512 = unat (m_size s) \<and> m_size s' \<noteq> 0"
    using r(6) by (auto simp: d'_def d1_def end_expand_def ht_empty_def min_def min_batch_size_def
        word_le_nat_alt unat_eq_0 split: if_splits)
  ultimately show ?thesis by (intro that)
qed

lemma begin_expand_spec:
  assumes inv: "dict_inv key_of hf d" and s: "m_secondary_tbl d = None" and "fresh_ok fresh"
    and hp: "unat (m_hashpower d) < 31"
  obtains (failed) d' where "begin_expand fresh key_of d = Some (Inl Bad_alloc, d')" and "dict_inv key_of hf d'"
      and "dict_mset d' = dict_mset d" and "fresh (pow2 (unat (m_hashpower d) + 1)) = None"
      and "m_hashpower d' = m_hashpower d" and "m_secondary_tbl d' = None"
    | (started) d' where "begin_expand fresh key_of d = Some (Inr (), d')" and "dict_inv key_of hf d'"
      and "dict_mset d' = dict_mset d" and "dict_room d'" and "m_hashpower d' = m_hashpower d + 1"
proof -
  note i = dict_invD [OF inv]
  have hp1: "unat (m_hashpower d + 1) = unat (m_hashpower d) + 1" using hp by (intro unat_Suc_lt) simp
  let ?cap = "pow2 (unat (m_hashpower d) + 1) :: u32"
  show ?thesis
  proof (cases "fresh ?cap")
    case None
    let ?d = "d\<lparr>m_secondary_tbl := None, m_expand_pos := 0\<rparr>"
    have "dict_mset ?d = dict_mset d" using s by (simp add: dict_mset_def)
    moreover have "dict_inv key_of hf ?d" using i s by (simp add: dict_inv_def dict_mset_def)
    moreover have "begin_expand fresh key_of d = Some (Inl Bad_alloc, ?d)"
      using None by (simp add: begin_expand_def hp1)
    ultimately show ?thesis using None failed by simp
  next
    case (Some a)
    obtain hs es where a: "a = (hs, es)" by fastforce
    have len: "length hs = 2 ^ (unat (m_hashpower d) + 1)" "length es = 2 ^ (unat (m_hashpower d) + 1)"
      using assms(3) Some a hp unat_pow2 [of "unat (m_hashpower d) + 1", where 'a = 32]
      by (auto simp: fresh_ok_def)
    let ?new = "hash_table_new ?cap hs es"
    have "ht_inv key_of hf ?new" by (rule hash_table_new_correct) (use len hp in auto)
    then have new: "ht_struct ?new" "ht_mset ?new = {#}" "m_capacity ?new = ?cap" "m_size ?new = 0"
      using hash_table_new_correct(3-5) [of "unat (m_hashpower d) + 1" hs es] len hp ht_invD(1) by auto
    let ?d = "d\<lparr>m_primary_tbl := ?new, m_secondary_tbl := Some (m_primary_tbl d),
        m_hashpower := m_hashpower d + 1, m_expand_pos := 0\<rparr>"
    have m: "dict_mset ?d = dict_mset d" using s new(2) by (simp add: dict_mset_def)
    have "unat ?cap = 2 * unat (m_capacity (m_primary_tbl d))"
      using hp i(4) unat_pow2 [of "unat (m_hashpower d) + 1", where 'a = 32]
        unat_pow2 [of "unat (m_hashpower d)", where 'a = 32] by simp
    then have "dict_inv key_of hf ?d"
      unfolding dict_inv_def m using i new hp hp1 ht_structD(4) [OF i(1)]
      by (simp add: secondary_ok_def)
    then obtain d' where "rehash_some key_of ?d = Some d'" "dict_inv key_of hf d'"
        "dict_mset d' = dict_mset ?d" "m_hashpower d' = m_hashpower ?d" "dict_room d'"
      by (rule rehash_some_spec) simp_all
    with Some a m started show ?thesis by (simp add: begin_expand_def hp1)
  qed
qed

section \<open>Searching\<close>

lemma dict_map_tables:
  assumes "dict_inv key_of hf d"
  shows "dom (dict_map key_of d) = ht_keys key_of (m_primary_tbl d)
    \<union> (case m_secondary_tbl d of None \<Rightarrow> {} | Some s \<Rightarrow> ht_keys key_of s)"
  using represents_dom [OF dict_map_represents [OF dict_invD(2) [OF assms]]]
  by (auto simp: dict_mset_def ht_keys_mset mset_keys_def split: option.splits)

text \<open>A search of the primary table that finds the key finds its entry.\<close>

lemma primary_found:
  assumes inv: "dict_inv key_of hf d" and "unat pos < unat (m_capacity (m_primary_tbl d))"
    and "hash_at (m_primary_tbl d) pos \<noteq> 0" and "key_of (entry_at (m_primary_tbl d) pos) = key"
  shows "dict_map key_of d key = Some (entry_at (m_primary_tbl d) pos)"
proof -
  have "(hash_at (m_primary_tbl d) pos, entry_at (m_primary_tbl d) pos) \<in># ht_mset (m_primary_tbl d)"
    using assms(2,3) ht_structD(1) [OF dict_invD(1) [OF inv]] by (metis ht_mset_iff slots_nth fst_conv)
  then show ?thesis
    using representsD [OF dict_map_represents [OF dict_invD(2) [OF inv]], of key] assms(4)
    by (auto simp: dict_mset_def)
qed

lemma search_in_primary:
  assumes inv: "dict_inv key_of hf d"
    and "\<And>s. m_secondary_tbl d = Some s \<Longrightarrow> key \<notin> ht_keys key_of s"
  obtains found pos where "ht_entry_for key_of (m_primary_tbl d) key (hf key) = Some (found, pos)"
    and "unat pos < unat (m_capacity (m_primary_tbl d))" and "found \<longleftrightarrow> dict_map key_of d key \<noteq> None"
    and "found \<longrightarrow> iter_value d (Primary, pos) = dict_map key_of d key \<and> hash_at (m_primary_tbl d) pos \<noteq> 0"
    and "\<not> found \<longrightarrow> insertion_point (m_primary_tbl d) pos (hf key)"
proof -
  obtain found pos where r: "ht_entry_for key_of (m_primary_tbl d) key (hf key) = Some (found, pos)"
      "unat pos < unat (m_capacity (m_primary_tbl d))" "found \<longleftrightarrow> key \<in> ht_keys key_of (m_primary_tbl d)"
      "found \<Longrightarrow> hash_at (m_primary_tbl d) pos = hf key \<and> hf key \<noteq> 0 \<and> key_of (entry_at (m_primary_tbl d) pos) = key"
      "\<not> found \<Longrightarrow> insertion_point (m_primary_tbl d) pos (hf key)"
    by (rule ht_entry_for_correct [OF dict_inv_tables(1) [OF inv], of key]) blast
  have "found \<longleftrightarrow> key \<in> dom (dict_map key_of d)"
    using r(3) assms(2) dict_map_tables [OF inv] by (auto split: option.splits)
  then have "found \<longleftrightarrow> dict_map key_of d key \<noteq> None" by blast
  moreover have "found \<Longrightarrow> iter_value d (Primary, pos) = dict_map key_of d key"
    using primary_found [OF inv r(2), of key] r(4) by (simp add: iter_value_def iter_bool_def empty_at_def)
  ultimately show ?thesis using that [OF r(1,2)] r(4,5) by auto
qed

lemma insert_keeps:
  assumes inv: "dict_inv key_of hf d" and ip: "insertion_point (m_primary_tbl d) pos (hf (key_of e))"
    and "hf (key_of e) \<noteq> 0" and new: "key_of e \<notin> ht_keys key_of (m_primary_tbl d)" and room: "dict_room d"
  obtains p' t' where "ht_insert (m_primary_tbl d) pos e (hf (key_of e)) = Some (p', t')" and "ht_inv key_of hf t'"
    and "ht_mset t' = add_mset (hf (key_of e), e) (ht_mset (m_primary_tbl d))"
    and "m_capacity t' = m_capacity (m_primary_tbl d)" and "unat p' < unat (m_capacity t')"
    and "unat (m_size t') = Suc (unat (m_size (m_primary_tbl d)))" and "hash_at t' p' \<noteq> 0"
proof -
  have r: "Suc (unat (m_size (m_primary_tbl d))) < unat (m_capacity (m_primary_tbl d))"
    using room by (auto simp: dict_room_def split: option.splits)
  obtain p' t' where t': "ht_insert (m_primary_tbl d) pos e (hf (key_of e)) = Some (p', t')" "ht_inv key_of hf t'"
      "ht_mset t' = add_mset (hf (key_of e), e) (ht_mset (m_primary_tbl d))"
      "m_capacity t' = m_capacity (m_primary_tbl d)" "unat p' < unat (m_capacity (m_primary_tbl d))"
      "hash_at t' p' \<noteq> 0"
    by (rule ht_insert_map [OF dict_inv_tables(1) [OF inv] ip new assms(3) r]) blast
  have "unat (m_size t') = Suc (unat (m_size (m_primary_tbl d)))"
    using ht_structD(3) [OF ht_invD(1) [OF t'(2)]] ht_structD(3) [OF dict_invD(1) [OF inv]] t'(3) by simp
  then show ?thesis using that [OF t'(1-4)] t'(4-6) by simp
qed

lemma set_primary_add:
  assumes inv: "dict_inv key_of hf d" and "dict_room d" and "ht_struct t'"
    and "ht_mset t' = add_mset (hf (key_of e), e) (ht_mset (m_primary_tbl d))"
    and "m_capacity t' = m_capacity (m_primary_tbl d)" and "key_of e \<notin> dom (dict_map key_of d)"
    and size: "unat (m_size t') = Suc (unat (m_size (m_primary_tbl d)))"
  shows "dict_inv key_of hf (d\<lparr>m_primary_tbl := t'\<rparr>)"
    and "dict_mset (d\<lparr>m_primary_tbl := t'\<rparr>) = add_mset (hf (key_of e), e) (dict_mset d)"
    and "dict_map key_of (d\<lparr>m_primary_tbl := t'\<rparr>) = (dict_map key_of d)(key_of e \<mapsto> e)"
proof -
  let ?d = "d\<lparr>m_primary_tbl := t'\<rparr>"
  note i = dict_invD [OF inv]
  show m: "dict_mset ?d = add_mset (hf (key_of e), e) (dict_mset d)"
    using assms(4) by (simp add: dict_mset_def)
  have "key_of e \<notin> (key_of \<circ> snd) ` set_mset (dict_mset d)"
    using assms(6) represents_dom [OF dict_map_represents [OF i(2)]] by (simp add: mset_keys_def)
  then have ok: "keys_ok key_of hf (dict_mset ?d)" unfolding m by (rule keys_ok_add [OF i(2)])
  then show "dict_map key_of ?d = (dict_map key_of d)(key_of e \<mapsto> e)" using m by (rule dict_map_add)
  have "secondary_ok t' s (m_expand_pos d)" if "m_secondary_tbl d = Some s" for s
    using i(5) [OF that] assms(2,5) size that by (simp add: secondary_ok_def dict_room_def)
  with i ok assms(3,5) show "dict_inv key_of hf ?d"
    by (auto simp: dict_inv_def split: option.splits)
qed

lemma search_primary_spec:
  assumes inv: "dict_inv key_of hf d" and s: "m_secondary_tbl d = None" and fresh: "fresh_ok fresh"
    and hp: "unat (m_hashpower d) < 31"
  obtains (failed) d' where "search_primary fresh key_of d key (hf key) readonly = Some (Inl Bad_alloc, d')"
      and "dict_inv key_of hf d'" and "dict_mset d' = dict_mset d" and "\<not> readonly"
      and "dict_map key_of d key = None" and "fresh (pow2 (unat (m_hashpower d) + 1)) = None"
    | (ok) found pos d' where "search_primary fresh key_of d key (hf key) readonly = Some (Inr (found, Primary, pos), d')"
      and "dict_inv key_of hf d'" and "dict_mset d' = dict_mset d" and "found \<longleftrightarrow> dict_map key_of d key \<noteq> None"
      and "unat pos < unat (m_capacity (m_primary_tbl d'))"
      and "found \<longrightarrow> iter_value d' (Primary, pos) = dict_map key_of d key \<and> hash_at (m_primary_tbl d') pos \<noteq> 0"
      and "\<not> found \<longrightarrow> insertion_point (m_primary_tbl d') pos (hf key) \<and> (readonly \<or> dict_room d')"
proof -
  note cong = dict_map_cong [OF dict_invD(2) [OF inv]]
  obtain found pos where r: "ht_entry_for key_of (m_primary_tbl d) key (hf key) = Some (found, pos)"
      "unat pos < unat (m_capacity (m_primary_tbl d))" "found \<longleftrightarrow> dict_map key_of d key \<noteq> None"
      "found \<longrightarrow> iter_value d (Primary, pos) = dict_map key_of d key \<and> hash_at (m_primary_tbl d) pos \<noteq> 0"
      "\<not> found \<longrightarrow> insertion_point (m_primary_tbl d) pos (hf key)"
    by (rule search_in_primary [OF inv, of key]) (use s in auto)
  consider (here) "found \<or> \<not> threshold_reached (m_primary_tbl d) \<or> readonly"
    | (grow) "\<not> found" "threshold_reached (m_primary_tbl d)" "\<not> readonly" by blast
  then show ?thesis
  proof cases
    case here
    have "search_primary fresh key_of d key (hf key) readonly = Some (Inr (found, Primary, pos), d)"
      using here r(1) by (auto simp: search_primary_def)
    moreover have "\<not> found \<Longrightarrow> \<not> readonly \<Longrightarrow> dict_room d"
      using here room_below_threshold [of "m_primary_tbl d"] ht_structD(1) [OF dict_invD(1) [OF inv]] s
      by (simp add: dict_room_def)
    ultimately show ?thesis using ok [of found pos d] r inv by blast
  next
    case grow
    note absent = grow(1) [unfolded r(3), simplified]
    from inv s fresh hp show ?thesis
    proof (cases rule: begin_expand_spec)
      case (failed d')
      then show ?thesis using grow r(1) absent
        by (intro that(1) [of d']) (auto simp: search_primary_def)
    next
      case (started d')
      note eq = cong [OF started(3)]
      have no: "m_secondary_tbl d' = Some t \<Longrightarrow> key \<notin> ht_keys key_of t" for t
        using dict_map_tables [OF started(2)] absent eq domIff [of key "dict_map key_of d'"] by auto
      obtain found' pos' where r': "ht_entry_for key_of (m_primary_tbl d') key (hf key) = Some (found', pos')"
          "unat pos' < unat (m_capacity (m_primary_tbl d'))" "found' \<longleftrightarrow> dict_map key_of d' key \<noteq> None"
          "found' \<longrightarrow> iter_value d' (Primary, pos') = dict_map key_of d' key \<and> hash_at (m_primary_tbl d') pos' \<noteq> 0"
          "\<not> found' \<longrightarrow> insertion_point (m_primary_tbl d') pos' (hf key)"
        by (rule search_in_primary [OF started(2) no]) blast
      have "search_primary fresh key_of d key (hf key) readonly = Some (Inr (found', Primary, pos'), d')"
        using grow r(1) started(1) r'(1) by (simp add: search_primary_def)
      then show ?thesis using ok [of found' pos' d'] r' eq absent started(2-4) by simp
    qed
  qed
qed

lemma search_secondary_spec:
  assumes inv: "dict_inv key_of hf d" and s: "m_secondary_tbl d = Some s"
  obtains found pos d' where "search_secondary key_of d key (hf key) = Some (Inr (found, Primary, pos), d')"
    and "dict_inv key_of hf d'" and "dict_mset d' = dict_mset d" and "found \<longleftrightarrow> dict_map key_of d key \<noteq> None"
    and "unat pos < unat (m_capacity (m_primary_tbl d'))"
    and "found \<longrightarrow> hash_at (m_primary_tbl d') pos \<noteq> 0 \<and> (key \<in> ht_keys key_of (m_primary_tbl d) \<or> \<not> is_expanding d'
      \<longrightarrow> iter_value d' (Primary, pos) = dict_map key_of d key)"
    and "\<not> found \<longrightarrow> insertion_point (m_primary_tbl d') pos (hf key) \<and> dict_room d'"
proof -
  obtain d1 where d1: "rehash_some key_of d = Some d1" "dict_inv key_of hf d1" "dict_mset d1 = dict_mset d"
      "dict_room d1" "ht_mset (m_primary_tbl d) \<subseteq># ht_mset (m_primary_tbl d1)"
    by (rule rehash_some_spec [OF inv s])
  have eq: "dict_map key_of d1 = dict_map key_of d"
    using dict_invD(2) [OF inv] d1(3) by (rule dict_map_cong)
  show ?thesis
  proof (cases "\<exists>s1. m_secondary_tbl d1 = Some s1 \<and> key \<in> ht_keys key_of s1")
    case False
    then have no: "m_secondary_tbl d1 = Some s1 \<Longrightarrow> key \<notin> ht_keys key_of s1" for s1 by blast
    obtain found pos where r: "ht_entry_for key_of (m_primary_tbl d1) key (hf key) = Some (found, pos)"
        "unat pos < unat (m_capacity (m_primary_tbl d1))" "found \<longleftrightarrow> dict_map key_of d1 key \<noteq> None"
        "found \<longrightarrow> iter_value d1 (Primary, pos) = dict_map key_of d1 key \<and> hash_at (m_primary_tbl d1) pos \<noteq> 0"
        "\<not> found \<longrightarrow> insertion_point (m_primary_tbl d1) pos (hf key)"
      by (rule search_in_primary [OF d1(2) no]) blast
    have "search_secondary key_of d key (hf key) = Some (Inr (found, Primary, pos), d1)"
    proof (cases "m_secondary_tbl d1")
      case (Some s1)
      obtain pos' where "ht_entry_for key_of s1 key (hf key) = Some (False, pos')"
        by (rule ht_entry_for_correct [OF dict_inv_tables(2) [OF d1(2) Some], of key]) (use no [OF Some] in auto)
      then show ?thesis using d1(1) r(1) Some by (simp add: search_secondary_def)
    qed (use d1(1) r(1) in \<open>simp add: search_secondary_def\<close>)
    then show ?thesis using that [of found pos d1] d1(2-4) r(2-5) unfolding eq by blast
  next
    case True
    then obtain s1 where s1: "m_secondary_tbl d1 = Some s1" "key \<in> ht_keys key_of s1" by blast
    note tabs = dict_inv_tables [OF d1(2)] and ok = dict_invD(5) [OF d1(2) s1(1), unfolded secondary_ok_def]
    have absent: "key \<notin> ht_keys key_of (m_primary_tbl d1)" using tabs(3) [OF s1(1)] s1(2) by blast
    then have absent0: "key \<notin> ht_keys key_of (m_primary_tbl d)"
      using d1(5) by (auto simp: ht_keys_def dest: mset_subset_eqD)
    obtain opos where o: "ht_entry_for key_of s1 key (hf key) = Some (True, opos)"
        "unat opos < unat (m_capacity s1)" "hash_at s1 opos = hf key" "hf key \<noteq> 0" "key_of (entry_at s1 opos) = key"
      by (rule ht_entry_for_correct [OF tabs(2) [OF s1(1)], of key]) (use s1(2) in auto)
    obtain npos where n: "ht_entry_for key_of (m_primary_tbl d1) key (hf key) = Some (False, npos)"
        "insertion_point (m_primary_tbl d1) npos (hf key)"
      by (rule ht_entry_for_correct [OF tabs(1), of key]) (use absent in auto)
    let ?e = "entry_at s1 opos"
    obtain p' t' where ins: "ht_insert (m_primary_tbl d1) npos ?e (hf key) = Some (p', t')" "ht_inv key_of hf t'"
        "ht_mset t' = add_mset (hf key, ?e) (ht_mset (m_primary_tbl d1))"
        "m_capacity t' = m_capacity (m_primary_tbl d1)" "unat p' < unat (m_capacity t')"
        "unat (m_size t') = Suc (unat (m_size (m_primary_tbl d1)))" "hash_at t' p' \<noteq> 0"
      using insert_keeps [OF d1(2), of npos ?e] n(2) o(4,5) absent d1(4) by metis
    obtain s2 where s2: "ht_remove s1 opos = Some s2" "ht_inv key_of hf s2"
        "m_capacity s2 = m_capacity s1" "ht_mset s1 = add_mset (hash_at s1 opos, ?e) (ht_mset s2)"
        "\<And>x. x \<le> unat (m_capacity s1) \<Longrightarrow> \<forall>i < x. m_hashes s1 ! i = 0 \<Longrightarrow> \<forall>i < x. m_hashes s2 ! i = 0"
      by (rule ht_remove_map [OF tabs(2) [OF s1(1)] o(2)]) (use o(3,4) in auto)
    let ?d = "d1\<lparr>m_primary_tbl := t', m_secondary_tbl := Some s2\<rparr>"
    have m: "dict_mset ?d = dict_mset d1" using ins(3) s2(4) s1(1) o(3) by (simp add: dict_mset_def)
    have size: "unat (m_size s1) = Suc (unat (m_size s2))"
      using ht_structD(3) [OF ht_invD(1) [OF s2(2)]] ok s2(4) by (simp add: ht_structD(3))
    have "\<forall>i < unat (m_expand_pos d1). m_hashes s2 ! i = 0" using s2(5) ok by blast
    then have "dict_inv key_of hf ?d"
      unfolding dict_inv_def m
      using dict_invD [OF d1(2)] ht_invD(1) [OF ins(2)] ht_invD(1) [OF s2(2)] ok ins(4,6) s2(3) size
      by (simp add: secondary_ok_def)
    moreover have "search_secondary key_of d key (hf key) = Some (Inr (True, Primary, p'), ?d)"
      using d1(1) s1(1) o(1) n(1) ins(1) s2(1) by (simp add: search_secondary_def)
    moreover have "dict_map key_of d key \<noteq> None"
      using dict_map_tables [OF d1(2)] s1 eq by auto
    ultimately show ?thesis using that [of True p' ?d] m d1(3) ins(4,5,7) absent0
      by (simp add: is_expanding_def)
  qed
qed

text \<open>
  A search changes no contents. It fails only when the primary table has to grow and its memory cannot
  be had. The iterator of a key that was found refers to its entry, unless the search has itself moved
  the entry from the secondary table.
\<close>

lemma dict_entry_for_spec:
  assumes inv: "dict_inv key_of hf d" and fresh: "fresh_ok fresh" and hp: "unat (m_hashpower d) < 31"
  obtains (failed) d' where "dict_entry_for fresh key_of d key (hf key) readonly = Some (Inl Bad_alloc, d')"
      and "dict_inv key_of hf d'" and "dict_mset d' = dict_mset d" and "\<not> readonly"
      and "dict_map key_of d key = None" and "fresh (pow2 (unat (m_hashpower d) + 1)) = None"
    | (ok) found pos d' where "dict_entry_for fresh key_of d key (hf key) readonly = Some (Inr (found, Primary, pos), d')"
      and "dict_inv key_of hf d'" and "dict_mset d' = dict_mset d" and "found \<longleftrightarrow> dict_map key_of d key \<noteq> None"
      and "unat pos < unat (m_capacity (m_primary_tbl d'))"
      and "found \<longrightarrow> hash_at (m_primary_tbl d') pos \<noteq> 0 \<and> (key \<in> ht_keys key_of (m_primary_tbl d) \<or> \<not> is_expanding d'
        \<longrightarrow> iter_value d' (Primary, pos) = dict_map key_of d key)"
      and "\<not> found \<longrightarrow> insertion_point (m_primary_tbl d') pos (hf key) \<and> (readonly \<and> \<not> is_expanding d \<or> dict_room d')"
proof (cases "m_secondary_tbl d")
  case None
  then have eq: "dict_entry_for fresh key_of d key (hf key) readonly = search_primary fresh key_of d key (hf key) readonly"
    and ne: "\<not> is_expanding d" by (simp_all add: dict_entry_for_def is_expanding_def)
  from inv None fresh hp show ?thesis
    by (cases rule: search_primary_spec [where key = key and readonly = readonly])
      (use eq ne failed ok in metis)+
next
  case (Some s)
  then have eq: "dict_entry_for fresh key_of d key (hf key) readonly = search_secondary key_of d key (hf key)"
    by (simp add: dict_entry_for_def is_expanding_def)
  obtain found pos d' where "search_secondary key_of d key (hf key) = Some (Inr (found, Primary, pos), d')"
    "dict_inv key_of hf d'" "dict_mset d' = dict_mset d" "found \<longleftrightarrow> dict_map key_of d key \<noteq> None"
    "unat pos < unat (m_capacity (m_primary_tbl d'))"
    "found \<longrightarrow> hash_at (m_primary_tbl d') pos \<noteq> 0 \<and> (key \<in> ht_keys key_of (m_primary_tbl d) \<or> \<not> is_expanding d'
      \<longrightarrow> iter_value d' (Primary, pos) = dict_map key_of d key)"
    "\<not> found \<longrightarrow> insertion_point (m_primary_tbl d') pos (hf key) \<and> dict_room d'"
    by (rule search_secondary_spec [OF inv Some])
  then show ?thesis using ok [of found pos d'] eq by simp
qed

section \<open>The other operations\<close>

lemma dict_get_correct:
  assumes inv: "dict_inv key_of hf d"
  shows "dict_get key_of d key (hf key) = Some (dict_map key_of d key)"
  using ht_get_correct [OF dict_inv_tables(1) [OF inv]] ht_get_correct [OF dict_inv_tables(2) [OF inv]]
  by (auto simp: dict_get_def dict_map_def map_add_def split: option.splits)

lemma dict_contains_correct:
  assumes inv: "dict_inv key_of hf d"
  shows "dict_contains key_of d key (hf key) = Some (dict_map key_of d key \<noteq> None)"
  using ht_contains_correct [OF dict_inv_tables(1) [OF inv]] ht_contains_correct [OF dict_inv_tables(2) [OF inv]]
  by (auto simp: dict_contains_def dict_map_def map_add_def dom_def split: option.splits)

lemma dict_insert_correct:
  assumes inv: "dict_inv key_of hf d" and "insertion_point (m_primary_tbl d) pos (hf (key_of e))"
    and "hf (key_of e) \<noteq> 0" and new: "dict_map key_of d (key_of e) = None" and room: "dict_room d"
  obtains it' d' where "dict_insert d (Primary, pos) (hf (key_of e)) e = Some (it', d')"
    and "dict_inv key_of hf d'" and "dict_map key_of d' = (dict_map key_of d)(key_of e \<mapsto> e)"
    and "dict_mset d' = add_mset (hf (key_of e), e) (dict_mset d)"
proof -
  have no: "key_of e \<notin> dom (dict_map key_of d)" using new by blast
  then have "key_of e \<notin> ht_keys key_of (m_primary_tbl d)" using dict_map_tables [OF inv] by blast
  then obtain p' t' where t': "ht_insert (m_primary_tbl d) pos e (hf (key_of e)) = Some (p', t')"
      "ht_inv key_of hf t'" "ht_mset t' = add_mset (hf (key_of e), e) (ht_mset (m_primary_tbl d))"
      "m_capacity t' = m_capacity (m_primary_tbl d)" "unat (m_size t') = Suc (unat (m_size (m_primary_tbl d)))"
    using insert_keeps [OF inv assms(2,3) _ room] by metis
  note add = set_primary_add [OF inv room ht_invD(1) [OF t'(2)] t'(3,4) no t'(5)]
  have "dict_insert d (Primary, pos) (hf (key_of e)) e = Some ((Primary, p'), d\<lparr>m_primary_tbl := t'\<rparr>)"
    using t'(1) by (simp add: dict_insert_def)
  then show ?thesis using add(1,3,2) by (rule that)
qed

text \<open>Fewer entries in either table keep the invariant.\<close>

lemma set_primary_sub:
  assumes inv: "dict_inv key_of hf d" and "ht_struct t'" and "ht_mset t' \<subseteq># ht_mset (m_primary_tbl d)"
    and "m_capacity t' = m_capacity (m_primary_tbl d)"
  shows "dict_inv key_of hf (d\<lparr>m_primary_tbl := t'\<rparr>)"
proof -
  note i = dict_invD [OF inv]
  have "unat (m_size t') \<le> unat (m_size (m_primary_tbl d))"
    using ht_structD(3) [OF assms(2)] ht_structD(3) [OF i(1)] assms(3) by (simp add: size_mset_mono)
  then have "secondary_ok t' s (m_expand_pos d)" if "m_secondary_tbl d = Some s" for s
    using i(5) [OF that] assms(4) by (simp add: secondary_ok_def)
  moreover have "keys_ok key_of hf (dict_mset (d\<lparr>m_primary_tbl := t'\<rparr>))"
    using keys_ok_sub [OF i(2)] assms(3) by (simp add: dict_mset_def)
  ultimately show ?thesis using i assms(2,4) by (auto simp: dict_inv_def split: option.splits)
qed

lemma set_secondary_sub:
  assumes inv: "dict_inv key_of hf d" and s: "m_secondary_tbl d = Some s" and "ht_struct s'"
    and "ht_mset s' \<subseteq># ht_mset s" and "m_capacity s' = m_capacity s"
    and "\<And>x. x \<le> unat (m_capacity s) \<Longrightarrow> \<forall>i < x. m_hashes s ! i = 0 \<Longrightarrow> \<forall>i < x. m_hashes s' ! i = 0"
  shows "dict_inv key_of hf (d\<lparr>m_secondary_tbl := Some s'\<rparr>)"
proof -
  note i = dict_invD [OF inv] and ok = dict_invD(5) [OF inv s, unfolded secondary_ok_def]
  have "unat (m_size s') \<le> unat (m_size s)"
    using ht_structD(3) [OF assms(3)] ht_structD(3) [of s] ok assms(4) by (simp add: size_mset_mono)
  moreover have "\<forall>i < unat (m_expand_pos d). m_hashes s' ! i = 0" using assms(6) ok by blast
  moreover have "keys_ok key_of hf (dict_mset (d\<lparr>m_secondary_tbl := Some s'\<rparr>))"
    using keys_ok_sub [OF i(2)] assms(4) s by (simp add: dict_mset_def)
  ultimately show ?thesis using i ok assms(3,5) by (simp add: dict_inv_def secondary_ok_def)
qed

lemma dict_remove_correct:
  assumes inv: "dict_inv key_of hf d" and p: "unat pos < unat (m_capacity (m_primary_tbl d))"
    and "hash_at (m_primary_tbl d) pos \<noteq> 0"
  obtains d' where "dict_remove d (Primary, pos) = Some d'" and "dict_inv key_of hf d'"
    and "dict_map key_of d' = (dict_map key_of d)(key_of (entry_at (m_primary_tbl d) pos) := None)"
    and "dict_mset d = add_mset (hash_at (m_primary_tbl d) pos, entry_at (m_primary_tbl d) pos) (dict_mset d')"
proof -
  let ?r = "(hash_at (m_primary_tbl d) pos, entry_at (m_primary_tbl d) pos)"
  obtain t' where t': "ht_remove (m_primary_tbl d) pos = Some t'" "ht_inv key_of hf t'"
      "m_capacity t' = m_capacity (m_primary_tbl d)" "ht_mset (m_primary_tbl d) = add_mset ?r (ht_mset t')"
    by (rule ht_remove_map [OF dict_inv_tables(1) [OF inv] p assms(3)])
  let ?d = "d\<lparr>m_primary_tbl := t'\<rparr>"
  have "dict_inv key_of hf ?d"
    using set_primary_sub [OF inv ht_invD(1) [OF t'(2)] _ t'(3)] t'(4) by simp
  moreover have m: "dict_mset d = add_mset ?r (dict_mset ?d)" using t'(4) by (simp add: dict_mset_def)
  moreover have "dict_map key_of ?d = (dict_map key_of d)(key_of (snd ?r) := None)"
    using dict_map_sub [OF dict_invD(2) [OF inv]] m by simp
  moreover have "dict_remove d (Primary, pos) = Some ?d" using t'(1) by (simp add: dict_remove_def)
  ultimately show ?thesis using that [of ?d] by simp
qed

lemma dict_del_correct:
  assumes inv: "dict_inv key_of hf d"
  obtains d' where "dict_del key_of d key (hf key) = Some (dict_map key_of d key \<noteq> None, d')"
    and "dict_inv key_of hf d'" and "dict_map key_of d' = (dict_map key_of d)(key := None)"
    and "m_hashpower d' = m_hashpower d"
    and "\<forall>t. m_secondary_tbl d' = Some t \<longrightarrow> (\<exists>s. m_secondary_tbl d = Some s \<and> ht_mset t \<subseteq># ht_mset s)"
proof (cases "m_secondary_tbl d")
  case None
  obtain t' where t': "ht_del key_of (m_primary_tbl d) key (hf key) = Some (ht_map key_of (m_primary_tbl d) key \<noteq> None, t')"
      "ht_inv key_of hf t'" "ht_map key_of t' = (ht_map key_of (m_primary_tbl d))(key := None)"
      "m_capacity t' = m_capacity (m_primary_tbl d)" "ht_mset t' \<subseteq># ht_mset (m_primary_tbl d)"
    by (rule ht_del_correct [OF dict_inv_tables(1) [OF inv], of key])
  have "dict_inv key_of hf (d\<lparr>m_primary_tbl := t'\<rparr>)"
    using inv ht_invD(1) [OF t'(2)] t'(5,4) by (rule set_primary_sub)
  then show ?thesis using that [of "d\<lparr>m_primary_tbl := t'\<rparr>"] t' None by (simp add: dict_del_def dict_map_def)
next
  case (Some s)
  note tabs = dict_inv_tables [OF inv]
  have disj: "dom (ht_map key_of (m_primary_tbl d)) \<inter> dom (ht_map key_of s) = {}"
    using tabs(3) [OF Some] dom_ht_map ht_invD(2) [OF tabs(1)] ht_invD(2) [OF tabs(2) [OF Some]] by metis
  obtain s' where s': "ht_del key_of s key (hf key) = Some (ht_map key_of s key \<noteq> None, s')"
      "ht_inv key_of hf s'" "ht_map key_of s' = (ht_map key_of s)(key := None)"
      "m_capacity s' = m_capacity s" "ht_mset s' \<subseteq># ht_mset s"
      "\<And>x. x \<le> unat (m_capacity s) \<Longrightarrow> \<forall>i < x. m_hashes s ! i = 0 \<Longrightarrow> \<forall>i < x. m_hashes s' ! i = 0"
    by (rule ht_del_correct [OF tabs(2) [OF Some], of key]) blast
  let ?d1 = "d\<lparr>m_secondary_tbl := Some s'\<rparr>"
  have inv1: "dict_inv key_of hf ?d1"
    using inv Some ht_invD(1) [OF s'(2)] s'(5,4,6) by (rule set_secondary_sub)
  obtain t' where t': "ht_del key_of (m_primary_tbl d) key (hf key) = Some (ht_map key_of (m_primary_tbl d) key \<noteq> None, t')"
      "ht_inv key_of hf t'" "ht_map key_of t' = (ht_map key_of (m_primary_tbl d))(key := None)"
      "m_capacity t' = m_capacity (m_primary_tbl d)" "ht_mset t' \<subseteq># ht_mset (m_primary_tbl d)"
    by (rule ht_del_correct [OF tabs(1), of key])
  define p' where "p' = (if ht_map key_of s key \<noteq> None then m_primary_tbl d else t')"
  let ?d2 = "d\<lparr>m_primary_tbl := p', m_secondary_tbl := Some s'\<rparr>"
  have d2: "?d2 = ?d1\<lparr>m_primary_tbl := p'\<rparr>" by simp
  have inv2: "dict_inv key_of hf ?d2"
    unfolding d2 using inv1 set_primary_sub [OF inv1 ht_invD(1) [OF t'(2)]] t'(4,5) by (simp add: p'_def)
  have m2: "dict_map key_of ?d2 = (dict_map key_of d)(key := None)"
    using disj Some s'(3) t'(3) by (auto simp: dict_map_def p'_def fun_eq_iff map_add_def dom_def split: option.splits)
  obtain d3 where d3: "rehash_some key_of ?d2 = Some d3" "dict_inv key_of hf d3" "dict_mset d3 = dict_mset ?d2"
      "m_hashpower d3 = m_hashpower ?d2" "ht_mset (m_primary_tbl ?d2) \<subseteq># ht_mset (m_primary_tbl d3)"
    by (rule rehash_some_spec [OF inv2]) simp_all
  have sec: "ht_mset t \<subseteq># ht_mset s" if t: "m_secondary_tbl d3 = Some t" for t
  proof -
    obtain X where X: "ht_mset (m_primary_tbl d3) = ht_mset p' + X" using d3(5) by (auto simp: subset_mset.le_iff_add)
    have "ht_mset (m_primary_tbl d3) + ht_mset t = ht_mset p' + ht_mset s'" using d3(3) t by (simp add: dict_mset_def)
    then have "X + ht_mset t = ht_mset s'" by (simp add: X)
    then have "ht_mset t \<subseteq># ht_mset s'" by (metis mset_subset_eq_add_right)
    then show ?thesis using s'(5) by (rule subset_mset.order_trans)
  qed
  have "dict_map key_of d3 = dict_map key_of ?d2" using dict_invD(2) [OF inv2] d3(3) by (rule dict_map_cong)
  moreover have "dict_del key_of d key (hf key) = Some (dict_map key_of d key \<noteq> None, d3)"
    using Some s'(1) t'(1) d3(1) by (auto simp: dict_del_def p'_def dict_map_def map_add_def split: option.splits)
  ultimately show ?thesis using that [of d3] d3 m2 sec Some by simp
qed

lemma dict_remove_if_visits:
  assumes inv: "dict_inv key_of hf d" and P: "\<And>e st. P e st = (q e, f e st)"
  obtains d' vs where "dict_remove_if P d st = Some (d', fold (\<lambda>r. f (snd r)) vs st)" and "dict_inv key_of hf d'"
    and "dict_mset d' = filter_mset (\<lambda>r. \<not> q (snd r)) (dict_mset d)"
    and "mset (filter (\<lambda>r. q (snd r)) vs) = filter_mset (\<lambda>r. q (snd r)) (dict_mset d)" and "m_hashpower d' = m_hashpower d"
    and "is_expanding d' = is_expanding d"
proof (cases "m_secondary_tbl d")
  case None
  obtain t' rs where t': "ht_remove_if P (m_primary_tbl d) st = Some (t', fold (\<lambda>r. f (snd r)) rs st)" "ht_struct t'"
      "m_capacity t' = m_capacity (m_primary_tbl d)"
      "ht_mset t' = filter_mset (\<lambda>r. \<not> q (snd r)) (ht_mset (m_primary_tbl d))"
      "mset (filter (\<lambda>r. q (snd r)) rs) = filter_mset (\<lambda>r. q (snd r)) (ht_mset (m_primary_tbl d))"
    by (rule ht_remove_if_visits [where P = P and q = q and f = f, OF P dict_invD(1) [OF inv]])
  have "dict_inv key_of hf (d\<lparr>m_primary_tbl := t'\<rparr>)"
    using set_primary_sub [OF inv t'(2) _ t'(3)] t'(4) by simp
  then show ?thesis using that [of "d\<lparr>m_primary_tbl := t'\<rparr>" rs] t' None
    by (simp add: dict_remove_if_def dict_mset_def is_expanding_def)
next
  case (Some s)
  have "ht_struct s" using dict_invD(5) [OF inv Some] by (simp add: secondary_ok_def)
  then obtain s' rs where s': "ht_remove_if P s st = Some (s', fold (\<lambda>r. f (snd r)) rs st)" "ht_struct s'"
      "m_capacity s' = m_capacity s" "ht_mset s' = filter_mset (\<lambda>r. \<not> q (snd r)) (ht_mset s)"
      "mset (filter (\<lambda>r. q (snd r)) rs) = filter_mset (\<lambda>r. q (snd r)) (ht_mset s)"
      "\<And>x. x \<le> unat (m_capacity s) \<Longrightarrow> \<forall>i < x. m_hashes s ! i = 0 \<Longrightarrow> \<forall>i < x. m_hashes s' ! i = 0"
    by (rule ht_remove_if_visits [where P = P and q = q and f = f and s = st, OF P]) blast
  let ?d1 = "d\<lparr>m_secondary_tbl := Some s'\<rparr>"
  have inv1: "dict_inv key_of hf ?d1"
    using set_secondary_sub [OF inv Some s'(2) _ s'(3,6)] s'(4) by simp
  obtain t' rs' where t': "ht_remove_if P (m_primary_tbl d) (fold (\<lambda>r. f (snd r)) rs st)
        = Some (t', fold (\<lambda>r. f (snd r)) rs' (fold (\<lambda>r. f (snd r)) rs st))" "ht_struct t'"
      "m_capacity t' = m_capacity (m_primary_tbl d)"
      "ht_mset t' = filter_mset (\<lambda>r. \<not> q (snd r)) (ht_mset (m_primary_tbl d))"
      "mset (filter (\<lambda>r. q (snd r)) rs') = filter_mset (\<lambda>r. q (snd r)) (ht_mset (m_primary_tbl d))"
    by (rule ht_remove_if_visits [where P = P and q = q and f = f, OF P dict_invD(1) [OF inv]])
  have "dict_inv key_of hf (?d1\<lparr>m_primary_tbl := t'\<rparr>)"
    using set_primary_sub [OF inv1 t'(2)] t'(3,4) by simp
  then show ?thesis using that [of "?d1\<lparr>m_primary_tbl := t'\<rparr>" "rs @ rs'"] s' t' Some
    by (simp add: dict_remove_if_def dict_mset_def is_expanding_def)
qed

lemma dict_remove_if_correct:
  assumes inv: "dict_inv key_of hf d" and P: "\<And>e st. P e st = (if q e then (True, f e st) else (False, st))"
  obtains d' rs where "dict_remove_if P d st = Some (d', fold (\<lambda>r. f (snd r)) rs st)" and "dict_inv key_of hf d'"
    and "dict_mset d' = filter_mset (\<lambda>r. \<not> q (snd r)) (dict_mset d)"
    and "mset rs = filter_mset (\<lambda>r. q (snd r)) (dict_mset d)" and "m_hashpower d' = m_hashpower d"
    and "is_expanding d' = is_expanding d"
proof -
  have P': "P e st = (q e, if q e then f e st else st)" for e st by (simp add: P)
  obtain d' vs where v: "dict_remove_if P d st = Some (d', fold (\<lambda>r s. if q (snd r) then f (snd r) s else s) vs st)"
      "dict_inv key_of hf d'" "dict_mset d' = filter_mset (\<lambda>r. \<not> q (snd r)) (dict_mset d)"
      "mset (filter (\<lambda>r. q (snd r)) vs) = filter_mset (\<lambda>r. q (snd r)) (dict_mset d)" "m_hashpower d' = m_hashpower d"
      "is_expanding d' = is_expanding d"
    by (rule dict_remove_if_visits [where P = P and q = q and f = "\<lambda>e s. if q e then f e s else s" and st = st, OF inv P'])
  then show ?thesis using that [OF _ v(2-6)] v(1) unfolding fold_removed by blast
qed

lemma dict_size_correct:
  assumes inv: "dict_inv key_of hf d"
  shows "unat (dict_size d) = size (dict_mset d)" and "dict_empty d \<longleftrightarrow> dict_map key_of d = Map.empty"
proof -
  note i = dict_invD [OF inv]
  have cap: "unat (m_capacity (m_primary_tbl d)) \<le> 2147483648"
    using ht_structD(1) [OF i(1)] by (rule capacity_le)
  show size: "unat (dict_size d) = size (dict_mset d)"
  proof (cases "m_secondary_tbl d")
    case None
    then show ?thesis using ht_structD(3) [OF i(1)] by (simp add: dict_size_def dict_mset_def)
  next
    case (Some s)
    note ok = i(5) [OF Some, unfolded secondary_ok_def]
    have "unat (m_size (m_primary_tbl d) + m_size s) = unat (m_size (m_primary_tbl d)) + unat (m_size s)"
      using ok cap by (intro unat_add_lt) simp
    then show ?thesis using Some ht_structD(3) [OF i(1)] ht_structD(3) [of s] ok
      by (simp add: dict_size_def dict_mset_def)
  qed
  have "dict_map key_of d = Map.empty \<longleftrightarrow> dict_mset d = {#}"
    using represents_dom [OF dict_map_represents [OF i(2)]]
    by (metis dom_empty dom_eq_empty_conv image_is_empty mset_keys_def set_mset_eq_empty_iff)
  then show "dict_empty d \<longleftrightarrow> dict_map key_of d = Map.empty"
    using size by (metis dict_empty_def size_eq_0_iff_empty unat_0 unat_eqI)
qed

lemma dict_clear_correct:
  assumes inv: "dict_inv key_of hf d"
  shows "dict_inv key_of hf (dict_clear d)" and "dict_map key_of (dict_clear d) = Map.empty"
    and "dict_mset (dict_clear d) = {#}"
proof -
  note i = dict_invD [OF inv] and wf = ht_structD(1) [OF dict_invD(1) [OF inv]]
  note c = ht_clear_correct [OF wf]
  have "ht_inv key_of hf (ht_clear (m_primary_tbl d))" by (rule c)
  moreover have "m_capacity (ht_clear (m_primary_tbl d)) = m_capacity (m_primary_tbl d)" by (simp add: ht_clear_def)
  ultimately show "dict_inv key_of hf (dict_clear d)"
    using i by (simp add: dict_inv_def dict_clear_def dict_mset_def ht_inv_iff)
  show "dict_mset (dict_clear d) = {#}" using c(3) by (simp add: dict_mset_def dict_clear_def)
  show "dict_map key_of (dict_clear d) = Map.empty" using c(2) by (simp add: dict_map_def dict_clear_def)
qed

lemma dict_new_correct:
  assumes "n \<noteq> 0" and "unat n \<le> 2 ^ 31" and "fresh_ok fresh"
  shows "dict_new fresh n = (case fresh (roundup_pow2 n) of None \<Rightarrow> Inl Bad_alloc | Some a \<Rightarrow> dict_new (\<lambda>_. Some a) n)"
    and "dict_new fresh n = Inr d \<Longrightarrow> dict_inv key_of hf d \<and> dict_map key_of d = Map.empty
      \<and> dict_mset d = {#} \<and> unat n \<le> unat (dict_capacity d) \<and> \<not> is_expanding d \<and> dict_capacity d = roundup_pow2 n"
proof -
  obtain k where k: "k < 32" "roundup_pow2 n = (pow2 k :: u32)" "unat n \<le> unat (roundup_pow2 n)"
    using roundup_pow2_bounds [OF assms(1)] assms(2) by auto
  have lk: "log2u (pow2 k :: u32) = k" using k(1) by (intro log2u_pow2) simp
  show "dict_new fresh n = (case fresh (roundup_pow2 n) of None \<Rightarrow> Inl Bad_alloc | Some a \<Rightarrow> dict_new (\<lambda>_. Some a) n)"
    by (simp add: dict_new_def split: option.split)
  assume "dict_new fresh n = Inr d"
  then obtain hs es where a: "fresh (roundup_pow2 n) = Some (hs, es)"
      "d = \<lparr>m_primary_tbl = hash_table_new (pow2 k) hs es, m_secondary_tbl = None, m_hashpower = of_nat k, m_expand_pos = 0\<rparr>"
    by (auto simp: dict_new_def k(2) lk split: option.splits)
  have len: "length hs = 2 ^ k" "length es = 2 ^ k"
    using assms(3) a(1) k unat_pow2 [of k, where 'a = 32] by (auto simp: fresh_ok_def)
  note new = hash_table_new_correct [OF k(1) len]
  have "unat (of_nat k :: u32) = k" using k(1) by (simp add: unat_of_nat)
  then show "dict_inv key_of hf d \<and> dict_map key_of d = Map.empty
      \<and> dict_mset d = {#} \<and> unat n \<le> unat (dict_capacity d) \<and> \<not> is_expanding d \<and> dict_capacity d = roundup_pow2 n"
    using new(1) [of key_of hf] new(2) [of key_of] new(3-5) k
    by (simp add: a(2) dict_inv_def dict_mset_def dict_map_def ht_inv_iff dict_capacity_def is_expanding_def)
qed

section \<open>The dictionary provides the contract of a store\<close>

interpretation dict_store: kv_store "dict_inv key_of hf" "dict_map key_of" "\<lambda>_. 0"
    "\<lambda>d k. dict_get key_of d k (hf k)" "\<lambda>d k. dict_contains key_of d k (hf k)" "\<lambda>d k. dict_del key_of d k (hf k)"
  for key_of :: "'e \<Rightarrow> 'k" and hf :: "'k \<Rightarrow> u32"
proof unfold_locales
  fix d :: "'e dict" and k :: 'k
  assume inv: "dict_inv key_of hf d"
  show "dict_get key_of d k (hf k) = Some (dict_map key_of d k)" using inv by (rule dict_get_correct)
  show "dict_contains key_of d k (hf k) = Some (dict_map key_of d k \<noteq> None)" using inv by (rule dict_contains_correct)
  show "\<exists>d'. dict_del key_of d k (hf k) = Some (dict_map key_of d k \<noteq> None, d') \<and> dict_inv key_of hf d'
      \<and> dict_map key_of d' = (dict_map key_of d)(k := None) \<and> (0 :: nat) \<le> 0"
    by (rule dict_del_correct [OF inv, of k]) auto
qed

section \<open>Properties of the dictionary\<close>

lemma rehash_times_spec:
  assumes "dict_inv key_of hf d" and "\<And>s. m_secondary_tbl d = Some s \<Longrightarrow> unat (m_size s) \<le> 512 * n \<and> 0 < n"
  shows "\<exists>d'. rehash_times key_of n d = Some d' \<and> dict_inv key_of hf d' \<and> dict_mset d' = dict_mset d
    \<and> \<not> is_expanding d'"
  using assms
proof (induction n arbitrary: d)
  case 0
  then show ?case by (cases "m_secondary_tbl d") (auto simp: is_expanding_def)
next
  case (Suc n)
  show ?case
  proof (cases "m_secondary_tbl d")
    case None
    with Suc.prems show ?thesis by (simp add: is_expanding_def)
  next
    case (Some s)
    obtain d1 where d1: "rehash_some key_of d = Some d1" "dict_inv key_of hf d1" "dict_mset d1 = dict_mset d"
        "case m_secondary_tbl d1 of None \<Rightarrow> unat (m_size s) \<le> 512
      | Some s' \<Rightarrow> unat (m_size s') + 512 = unat (m_size s) \<and> m_size s' \<noteq> 0"
      by (rule rehash_some_spec [OF Suc.prems(1) Some])
    have "unat (m_size s1) \<le> 512 * n \<and> 0 < n" if s1: "m_secondary_tbl d1 = Some s1" for s1
    proof -
      have "unat (m_size s1) + 512 = unat (m_size s)" "0 < unat (m_size s1)" using d1(4) s1 by simp_all
      moreover have "unat (m_size s) \<le> 512 + 512 * n" using Suc.prems(2) [OF Some] by simp
      ultimately show ?thesis by linarith
    qed
    from Suc.IH [OF d1(2) this] show ?thesis using Some d1(1,3) by (auto simp: is_expanding_def)
  qed
qed

lemma zero_fresh_ok: "fresh_ok zero_fresh"
  by (simp add: fresh_ok_def zero_fresh_def)

lemma dict4_new: "dict_new zero_fresh 4 = Inr dict4"
  by code_simp

lemma dict4_inv: "dict_inv key_of hf dict4" "dict_map key_of dict4 = Map.empty" "dict_mset dict4 = {#}"
  using dict_new_correct(2) [OF _ _ zero_fresh_ok dict4_new] by auto



text \<open>C27: when a search finds the key, the iterator it returns refers to the entry of the key, if no
  expansion is in progress after the search or the entry was already in the primary table.\<close>

theorem dict_search_finds:
  assumes "dict_inv key_of hf d" and "fresh_ok fresh" and "unat (m_hashpower d) < 31"
    and "dict_entry_for fresh key_of d key (hf key) readonly = Some (Inr (True, it), d')"
    and "key \<in> ht_keys key_of (m_primary_tbl d) \<or> \<not> is_expanding d'"
  shows "iter_value d' it = dict_map key_of d key \<and> dict_map key_of d key \<noteq> None"
  using assms(1-3)
  by (cases rule: dict_entry_for_spec [where key = key and readonly = readonly]) (use assms(4,5) in auto)

theorem dict_search_finds_witness:
  "\<exists>d'. dict_insert dict4 (Primary, 3) 7 13 = Some ((Primary, 3), d')
     \<and> iter_value d' (Primary, 3) = dict_map (\<lambda>n. n mod 10) d' 3 \<and> dict_map (\<lambda>n. n mod 10) d' 3 \<noteq> None"
proof -
  let ?d' = "dict4\<lparr>m_primary_tbl := \<lparr>m_size = 1, m_capacity = 4, m_mask = 3, m_hashes = [0, 0, 0, 7], m_entries = [0, 0, 0, 13]\<rparr>\<rparr>"
  have ins: "dict_insert dict4 (Primary, 3) 7 13 = Some ((Primary, 3), ?d')" by code_simp
  have pt: "insertion_point (m_primary_tbl dict4) 3 7" "dict_room dict4"
    by (simp_all add: insertion_point_def carry_ok_def cdist_def dict_room_def dict4_def)
  have inv': "dict_inv (\<lambda>n. n mod 10) (\<lambda>_. 7) ?d'"
    by (rule dict_insert_correct [where key_of = "\<lambda>n. n mod 10" and hf = "\<lambda>_. 7" and e = 13 and pos = 3, OF dict4_inv(1)])
      (use pt ins in \<open>auto simp: dict4_inv(2)\<close>)
  have "dict_entry_for zero_fresh (\<lambda>n. n mod 10) ?d' 3 7 True = Some (Inr (True, Primary, 3), ?d')" by code_simp
  then have "iter_value ?d' (Primary, 3) = dict_map (\<lambda>n. n mod 10) ?d' 3 \<and> dict_map (\<lambda>n. n mod 10) ?d' 3 \<noteq> None"
    using dict_search_finds [OF inv' zero_fresh_ok, of 3 True "(Primary, 3)" ?d'] by (simp add: is_expanding_def dict4_def)
  with ins show ?thesis by blast
qed

text \<open>C28: an expansion ends. Every batch returns, loses and duplicates no entry, and keeps the
  invariant; \<open>n\<close> batches move all of a secondary table of up to \<open>512 * n\<close> entries.\<close>

theorem dict_expansion_ends:
  assumes "dict_inv key_of hf d" and "m_secondary_tbl d = Some s" and "unat (m_size s) \<le> 512 * n" and "0 < n"
  shows "\<exists>d'. rehash_times key_of n d = Some d' \<and> dict_inv key_of hf d' \<and> dict_mset d' = dict_mset d
    \<and> dict_map key_of d' = dict_map key_of d \<and> \<not> is_expanding d'"
proof -
  have "unat (m_size s') \<le> 512 * n \<and> 0 < n" if "m_secondary_tbl d = Some s'" for s'
    using assms(2-) that by simp
  from rehash_times_spec [OF assms(1) this] obtain d' where "rehash_times key_of n d = Some d'"
      "dict_inv key_of hf d'" "dict_mset d' = dict_mset d" "\<not> is_expanding d'" by blast
  with dict_map_cong [OF dict_invD(2) [OF assms(1)]] show ?thesis by blast
qed

theorem dict_expansion_ends_witness:
  "\<exists>d d'. rehash_times (\<lambda>n. n) 1 d = Some d' \<and> is_expanding d \<and> \<not> is_expanding d'
     \<and> dict_inv (\<lambda>n. n) (\<lambda>_. 1) d' \<and> dict_map (\<lambda>n :: nat. n) d' = dict_map (\<lambda>n. n) d"
proof -
  let ?s = "hash_table_new (pow2 1) [7, 7] [0, 0 :: nat]" and ?p = "hash_table_new (pow2 2) [7, 7, 7, 7] [0, 0, 0, 0 :: nat]"
  let ?d = "\<lparr>m_primary_tbl = ?p, m_secondary_tbl = Some ?s, m_hashpower = 2, m_expand_pos = 0\<rparr>"
  have s: "ht_inv (\<lambda>n. n) (\<lambda>_. 1) ?s" "ht_mset ?s = {#}" "m_size ?s = 0" "m_capacity ?s = pow2 1"
    and p: "ht_inv (\<lambda>n. n) (\<lambda>_. 1) ?p" "ht_mset ?p = {#}" "m_size ?p = 0" "m_capacity ?p = pow2 2"
    by (simp_all add: hash_table_new_correct)
  then have inv: "dict_inv (\<lambda>n. n) (\<lambda>_. 1) ?d"
    by (simp add: dict_inv_def secondary_ok_def dict_mset_def ht_inv_iff keys_ok_def unat_pow2)
  have sec: "m_secondary_tbl ?d = Some ?s" and size: "unat (m_size ?s) \<le> 512 * 1" using s(3) by simp_all
  obtain d' where d': "rehash_times (\<lambda>n. n) 1 ?d = Some d'" "dict_inv (\<lambda>n. n) (\<lambda>_. 1) d'"
      "dict_map (\<lambda>n. n) d' = dict_map (\<lambda>n. n) ?d" "\<not> is_expanding d'"
    using dict_expansion_ends [OF inv sec size zero_less_one] by blast
  moreover have "is_expanding ?d" by (simp add: is_expanding_def)
  ultimately show ?thesis by blast
qed

text \<open>C12: on a dictionary in any state of expansion, deleting the keys of a list one after the other
  returns, removes exactly these keys and nothing else, and every later \<^verbatim>\<open>get\<close> and
  \<^verbatim>\<open>contains\<close> agrees with the map that is left.\<close>

theorem dict_deletes_exactly:
  assumes "dict_inv key_of hf d"
  shows "\<exists>d'. del_keys (\<lambda>d k. dict_del key_of d k (hf k)) d ks = Some d' \<and> dict_inv key_of hf d'
    \<and> (\<forall>k. dict_get key_of d' k (hf k) = Some (if k \<in> set ks then None else dict_map key_of d k)
        \<and> dict_contains key_of d' k (hf k) = Some (k \<notin> set ks \<and> dict_map key_of d k \<noteq> None))"
  using dict_store.del_keys_spec [OF assms, of ks]
  by (auto simp: dict_store.get_law dict_store.contains_law restrict_map_def)

theorem dict_deletes_exactly_witness:
  "\<exists>d'. del_keys (\<lambda>d k. dict_del (\<lambda>n. n) d k 1) dict4 [3, 4] = Some d' \<and> dict_get (\<lambda>n. n) d' 4 1 = Some None"
  using dict_deletes_exactly [OF dict4_inv(1) [of "\<lambda>n. n" "\<lambda>_. 1"], of "[3, 4]"] by auto

text \<open>\<^verbatim>\<open>remove_if\<close> on the dictionary visits both tables, returns, and removes exactly the
  entries that satisfy the condition, each of them given once to the effect of the predicate;
  \<^verbatim>\<open>size\<close> counts what is left, without wrap-around.\<close>

theorem dict_remove_if_removes_exactly:
  assumes "dict_inv key_of hf d"
  shows "\<exists>d' rs. dict_remove_if (\<lambda>e st. if q e then (True, f e st) else (False, st)) d st
      = Some (d', fold (\<lambda>r. f (snd r)) rs st) \<and> dict_inv key_of hf d'
    \<and> dict_mset d' = filter_mset (\<lambda>r. \<not> q (snd r)) (dict_mset d)
    \<and> mset rs = filter_mset (\<lambda>r. q (snd r)) (dict_mset d)
    \<and> unat (dict_size d') = size (filter_mset (\<lambda>r. \<not> q (snd r)) (dict_mset d))"
proof -
  obtain d' rs where r: "dict_remove_if (\<lambda>e st. if q e then (True, f e st) else (False, st)) d st
        = Some (d', fold (\<lambda>r. f (snd r)) rs st)" "dict_inv key_of hf d'"
      "dict_mset d' = filter_mset (\<lambda>r. \<not> q (snd r)) (dict_mset d)"
      "mset rs = filter_mset (\<lambda>r. q (snd r)) (dict_mset d)"
    by (rule dict_remove_if_correct [OF assms, of _ q f st]) simp_all
  then show ?thesis using dict_size_correct(1) [OF r(2)] by auto
qed

theorem dict_remove_if_removes_exactly_witness:
  "\<exists>d'. dict_remove_if (\<lambda>e st. if e = 0 then (True, e # st) else (False, st)) dict4 [] = Some (d', []) \<and> dict_size d' = 0"
  using dict_remove_if_removes_exactly [OF dict4_inv(1) [of "\<lambda>n. n" "\<lambda>_. 1"], of "\<lambda>e. e = 0" "(#)" "[]"] dict4_inv(3)
  by (auto simp: unat_eq_0)

end
