(* ===== verification/Item.thy ===== *)
theory Item
  imports Prelude
begin

text \<open>
  \<^verbatim>\<open>cachelot/item.h\<close>, \<^verbatim>\<open>cachelot/item.cpp\<close>, \<^verbatim>\<open>cachelot/expiration_clock.h\<close> and
  \<^verbatim>\<open>cachelot/hash_fnv1a.h\<close>. An item is named by its address. Its structure is the record \<open>item\<close> at
  that address; its key and its value are bytes of the memory that follows the structure, of
  24 bytes on a 64-bit platform. A reading of the steady clock, the whole seconds cut to 32 bits, is an
  argument \<open>now\<close>; durations and time points wrap around at 32 bits as in the code.
\<close>

section \<open>Items\<close>

record item =
  m_timestamp :: u64
  m_hash :: u32
  m_value_length :: u32
  m_expiration_time :: u32
  m_opaque_flags :: u16
  m_key_length :: u8

record item_mem =
  items :: "nat \<Rightarrow> item"
  bytes :: "nat \<Rightarrow> u8"

definition max_key_length :: nat where
  "max_key_length = 250"

definition sizeof_Item :: nat where
  "sizeof_Item = 24"

definition infinite_TTL :: u32 where
  "infinite_TTL = 0"

definition clock_now :: "nat \<Rightarrow> u32" where
  "clock_now seconds_since_epoch = of_nat seconds_since_epoch"

definition memcpy :: "nat \<Rightarrow> u8 list \<Rightarrow> item_mem \<Rightarrow> item_mem" where
  "memcpy dst src M = M\<lparr>bytes := (\<lambda>a. if dst \<le> a \<and> a < dst + length src then src ! (a - dst) else bytes M a)\<rparr>"

definition byte_range :: "item_mem \<Rightarrow> nat \<Rightarrow> nat \<Rightarrow> u8 list" where
  "byte_range M a n = map (\<lambda>i. bytes M (a + i)) [0..<n]"

definition KeyOffset :: nat where
  "KeyOffset = sizeof_Item"

definition ValueOffset :: "item \<Rightarrow> nat" where
  "ValueOffset i = KeyOffset + unat (m_key_length i)"

definition item_key :: "item_mem \<Rightarrow> nat \<Rightarrow> u8 list" where
  "item_key M p = byte_range M (p + KeyOffset) (unat (m_key_length (items M p)))"

definition item_value :: "item_mem \<Rightarrow> nat \<Rightarrow> u8 list" where
  "item_value M p = byte_range M (p + ValueOffset (items M p)) (unat (m_value_length (items M p)))"

definition item_hash :: "item_mem \<Rightarrow> nat \<Rightarrow> u32" where
  "item_hash M p = m_hash (items M p)"

definition opaque_flags :: "item_mem \<Rightarrow> nat \<Rightarrow> u16" where
  "opaque_flags M p = m_opaque_flags (items M p)"

definition set_opaque_flags :: "nat \<Rightarrow> u16 \<Rightarrow> item_mem \<Rightarrow> item_mem" where
  "set_opaque_flags p f M = M\<lparr>items := (items M)(p := (items M p)\<lparr>m_opaque_flags := f\<rparr>)\<rparr>"

definition item_timestamp :: "item_mem \<Rightarrow> nat \<Rightarrow> u64" where
  "item_timestamp M p = m_timestamp (items M p)"

definition expiration_time :: "item_mem \<Rightarrow> nat \<Rightarrow> u32" where
  "expiration_time M p = m_expiration_time (items M p)"

definition is_expired :: "u32 \<Rightarrow> item_mem \<Rightarrow> nat \<Rightarrow> bool" where
  "is_expired now M p \<longleftrightarrow> m_expiration_time (items M p) \<le> now"

definition item_ttl :: "u32 \<Rightarrow> item_mem \<Rightarrow> nat \<Rightarrow> u32" where
  "item_ttl now M p = (if m_expiration_time (items M p) = - 1 then infinite_TTL
     else m_expiration_time (items M p) - now)"

definition expiration_for :: "u32 \<Rightarrow> u32 \<Rightarrow> u32" where
  "expiration_for now s = (if s = infinite_TTL then - 1 else now + s)"

definition set_ttl :: "u32 \<Rightarrow> nat \<Rightarrow> u32 \<Rightarrow> item_mem \<Rightarrow> item_mem" where
  "set_ttl now p s M = M\<lparr>items := (items M)(p := (items M p)\<lparr>m_expiration_time := expiration_for now s\<rparr>)\<rparr>"

definition item_new :: "u32 \<Rightarrow> nat \<Rightarrow> u8 list \<Rightarrow> u32 \<Rightarrow> u32 \<Rightarrow> u16 \<Rightarrow> u32 \<Rightarrow> u64 \<Rightarrow> item_mem \<Rightarrow> item_mem" where
  "item_new now p the_key the_hash value_length the_flags the_ttl the_timestamp M =
     (let M1 = M\<lparr>items := (items M)(p := \<lparr>m_timestamp = the_timestamp, m_hash = the_hash,
            m_value_length = value_length, m_expiration_time = m_expiration_time (items M p),
            m_opaque_flags = the_flags, m_key_length = of_nat (length the_key)\<rparr>)\<rparr>
      in memcpy (p + KeyOffset) the_key (set_ttl now p the_ttl M1))"

definition assign_value :: "nat \<Rightarrow> u8 list \<Rightarrow> item_mem \<Rightarrow> item_mem" where
  "assign_value p the_value M =
     (let M1 = memcpy (p + ValueOffset (items M p)) the_value M
      in M1\<lparr>items := (items M1)(p := (items M1 p)\<lparr>m_value_length := of_nat (length the_value)\<rparr>)\<rparr>)"

definition assign_compose :: "nat \<Rightarrow> u8 list \<Rightarrow> u8 list \<Rightarrow> item_mem \<Rightarrow> item_mem" where
  "assign_compose p left right M =
     (let M1 = memcpy (p + ValueOffset (items M p)) left M;
          M2 = memcpy (p + ValueOffset (items M1 p) + length left) right M1
      in M2\<lparr>items := (items M2)(p := (items M2 p)\<lparr>m_value_length := of_nat (length left + length right)\<rparr>)\<rparr>)"

definition CalcSizeRequired :: "u8 list \<Rightarrow> nat \<Rightarrow> nat" where
  "CalcSizeRequired the_key value_length = sizeof_Item + length the_key + value_length"

section \<open>The hash function\<close>

definition fnv1a :: "u32 \<Rightarrow> u32 \<Rightarrow> u8 list \<Rightarrow> u32" where
  "fnv1a seed prime data = fold (\<lambda>one_byte checksum. (checksum XOR ucast one_byte) * prime) data seed"

definition fnv1a_32 :: "u8 list \<Rightarrow> u32" where
  "fnv1a_32 = fnv1a 0x811c9dc5 0x01000193"

definition fnv1a_64 :: "u8 list \<Rightarrow> u64" where
  "fnv1a_64 data = fold (\<lambda>one_byte checksum. (checksum XOR ucast one_byte) * 0x100000001b3) data 0xcbf29ce484222325"

section \<open>The block of an item\<close>

text \<open>Two memories agree on a block; an item in a block of size \<open>s\<close>.\<close>

definition same_block :: "nat \<Rightarrow> nat \<Rightarrow> item_mem \<Rightarrow> item_mem \<Rightarrow> bool" where
  "same_block p s M M' \<longleftrightarrow> items M' p = items M p \<and> (\<forall>a. p \<le> a \<and> a < p + s \<longrightarrow> bytes M' a = bytes M a)"

definition item_fits :: "item_mem \<Rightarrow> nat \<Rightarrow> nat \<Rightarrow> bool" where
  "item_fits M p s \<longleftrightarrow> sizeof_Item + unat (m_key_length (items M p)) + unat (m_value_length (items M p)) \<le> s"

text \<open>Everything outside a block stays as it is.\<close>

definition only_block :: "nat \<Rightarrow> nat \<Rightarrow> item_mem \<Rightarrow> item_mem \<Rightarrow> bool" where
  "only_block p s M M' \<longleftrightarrow> (\<forall>q. q \<noteq> p \<longrightarrow> items M' q = items M q)
     \<and> (\<forall>a. \<not> (p \<le> a \<and> a < p + s) \<longrightarrow> bytes M' a = bytes M a)"

lemma item_simps [simp]:
  "items (memcpy d src M) = items M" "bytes (set_ttl now p s M) = bytes M"
  "items (set_ttl now p s M) q = (if q = p then (items M p)\<lparr>m_expiration_time := expiration_for now s\<rparr> else items M q)"
  by (simp_all add: memcpy_def set_ttl_def)

lemma byte_range_memcpy: "n = length src \<Longrightarrow> byte_range (memcpy a src M) a n = src"
  by (auto simp: byte_range_def memcpy_def intro: nth_equalityI)

lemma byte_range_cong:
  "(\<And>b. a \<le> b \<Longrightarrow> b < a + n \<Longrightarrow> bytes M' b = bytes M b) \<Longrightarrow> byte_range M' a n = byte_range M a n"
  by (simp add: byte_range_def)

lemma byte_range_append: "byte_range M a (n + k) = byte_range M a n @ byte_range M (a + n) k"
  by (rule nth_equalityI) (auto simp: byte_range_def nth_append add.assoc)

lemma length_byte_range [simp]: "length (byte_range M a n) = n"
  by (simp add: byte_range_def)

lemma same_block_item:
  assumes "same_block p s M M'" and "item_fits M p s"
  shows "item_key M' p = item_key M p" and "item_value M' p = item_value M p" and "item_fits M' p s"
  using assms unfolding same_block_def item_fits_def item_key_def item_value_def ValueOffset_def KeyOffset_def sizeof_Item_def
  by (auto intro!: byte_range_cong)

lemma only_block_same: "only_block p s M M' \<Longrightarrow> q + t \<le> p \<or> p + s \<le> q \<Longrightarrow> p \<noteq> q \<Longrightarrow> same_block q t M M'"
  unfolding only_block_def same_block_def by auto

lemma only_block_trans: "only_block p s M M' \<Longrightarrow> only_block p s M' M'' \<Longrightarrow> only_block p s M M''"
  unfolding only_block_def by auto

lemma max_key_length_byte: "length k \<le> max_key_length \<Longrightarrow> length k < 256"
  by (simp add: max_key_length_def)

lemma unat_key_length: "length k < 256 \<Longrightarrow> unat (of_nat (length k) :: u8) = length k"
  by (simp add: unat_of_nat)

text \<open>The constructor writes the key; the value is whatever the memory holds.\<close>

lemma item_new_spec:
  assumes "length k < 256" and "M' = item_new now p k h vl fl ttl ts M"
  shows "item_key M' p = k" and "items M' p = \<lparr>m_timestamp = ts, m_hash = h, m_value_length = vl,
      m_expiration_time = expiration_for now ttl, m_opaque_flags = fl, m_key_length = of_nat (length k)\<rparr>"
    and "24 + length k \<le> s \<Longrightarrow> only_block p s M M'"
proof -
  show i: "items M' p = \<lparr>m_timestamp = ts, m_hash = h, m_value_length = vl,
      m_expiration_time = expiration_for now ttl, m_opaque_flags = fl, m_key_length = of_nat (length k)\<rparr>"
    by (simp add: assms(2) item_new_def Let_def)
  obtain M1 where b: "bytes M' = bytes (memcpy (p + KeyOffset) k M1)" "bytes M1 = bytes M"
    by (simp add: assms(2) item_new_def Let_def)
  show "item_key M' p = k"
    unfolding item_key_def using byte_range_memcpy [of "length k" k "p + KeyOffset" M1] unat_key_length [OF assms(1)]
    by (simp add: i byte_range_def b(1))
  show "24 + length k \<le> s \<Longrightarrow> only_block p s M M'"
    unfolding only_block_def b(1)
    by (auto simp: assms(2) item_new_def Let_def memcpy_def KeyOffset_def sizeof_Item_def b(2))
qed

lemma assign_value_spec:
  assumes "length v < 2 ^ 32" and "M' = assign_value p v M"
  shows "item_value M' p = v" and "item_key M' p = item_key M p"
    and "items M' p = (items M p)\<lparr>m_value_length := of_nat (length v)\<rparr>"
    and "24 + unat (m_key_length (items M p)) + length v \<le> s \<Longrightarrow> only_block p s M M'"
proof -
  have u: "unat (of_nat (length v) :: u32) = length v" using assms(1) by (simp add: unat_of_nat)
  show i: "items M' p = (items M p)\<lparr>m_value_length := of_nat (length v)\<rparr>"
    by (simp add: assms(2) assign_value_def Let_def)
  have b: "bytes M' = bytes (memcpy (p + ValueOffset (items M p)) v M)" by (simp add: assms(2) assign_value_def Let_def)
  show "item_value M' p = v"
    unfolding item_value_def using byte_range_memcpy [of "length v" v "p + ValueOffset (items M p)" M] u
    by (simp add: i ValueOffset_def byte_range_def b)
  show "item_key M' p = item_key M p"
    unfolding item_key_def by (simp add: i byte_range_def b memcpy_def ValueOffset_def)
  show "24 + unat (m_key_length (items M p)) + length v \<le> s \<Longrightarrow> only_block p s M M'"
    by (auto simp: only_block_def b assms(2) assign_value_def Let_def memcpy_def ValueOffset_def KeyOffset_def sizeof_Item_def)
qed

lemma assign_compose_spec:
  assumes "length l + length r < 2 ^ 32" and "M' = assign_compose p l r M"
  shows "item_value M' p = l @ r" and "item_key M' p = item_key M p"
    and "items M' p = (items M p)\<lparr>m_value_length := of_nat (length l + length r)\<rparr>"
    and "24 + unat (m_key_length (items M p)) + (length l + length r) \<le> s \<Longrightarrow> only_block p s M M'"
proof -
  let ?a = "p + ValueOffset (items M p)"
  have u: "unat (of_nat (length l + length r) :: u32) = length l + length r"
    using assms(1) by (simp add: unat_of_nat del: of_nat_add)
  show i: "items M' p = (items M p)\<lparr>m_value_length := of_nat (length l + length r)\<rparr>"
    by (simp add: assms(2) assign_compose_def Let_def)
  have b: "bytes M' = bytes (memcpy (?a + length l) r (memcpy ?a l M))" by (simp add: assms(2) assign_compose_def Let_def)
  have "byte_range M' ?a (length l) = byte_range (memcpy ?a l M) ?a (length l)"
    by (rule byte_range_cong) (simp add: b memcpy_def)
  then have "byte_range M' ?a (length l) = l" by (simp add: byte_range_memcpy)
  moreover have "byte_range M' (?a + length l) (length r) = r"
    using byte_range_memcpy [of "length r" r "?a + length l" "memcpy ?a l M"] by (simp add: byte_range_def b)
  ultimately have "byte_range M' ?a (length l + length r) = l @ r" by (simp add: byte_range_append)
  then show "item_value M' p = l @ r" unfolding item_value_def using u by (simp add: i ValueOffset_def)
  show "item_key M' p = item_key M p"
    unfolding item_key_def by (simp add: i byte_range_def b memcpy_def ValueOffset_def)
  show "24 + unat (m_key_length (items M p)) + (length l + length r) \<le> s \<Longrightarrow> only_block p s M M'"
    by (auto simp: only_block_def b assms(2) assign_compose_def Let_def memcpy_def ValueOffset_def KeyOffset_def sizeof_Item_def)
qed

section \<open>Properties of items\<close>

text \<open>C31: an item built in a block of the calculated size and given a value of the announced length holds
  exactly the key, the value and the flags, and nothing outside its block has changed; so what the items
  of other blocks hold is as before.\<close>

theorem item_round_trip:
  assumes "length k \<le> max_key_length" and "length v < 2 ^ 32" and "CalcSizeRequired k (length v) \<le> s"
    and "M' = assign_value p v (item_new now p k h (of_nat (length v)) fl ttl ts M)"
  shows "item_key M' p = k \<and> item_value M' p = v \<and> item_hash M' p = h \<and> opaque_flags M' p = fl
    \<and> item_timestamp M' p = ts \<and> item_fits M' p s \<and> only_block p s M M'
    \<and> (\<forall>q t. (q + t \<le> p \<or> p + s \<le> q) \<and> item_fits M q t \<and> q \<noteq> p \<longrightarrow> item_key M' q = item_key M q \<and> item_value M' q = item_value M q)"
proof -
  define M1 where "M1 = item_new now p k h (of_nat (length v)) fl ttl ts M"
  have s: "24 + length k + length v \<le> s" using assms(3) by (simp add: CalcSizeRequired_def sizeof_Item_def)
  note n = item_new_spec [OF max_key_length_byte [OF assms(1)] M1_def] and a = assign_value_spec [OF assms(2) assms(4) [folded M1_def]]
  have kl: "unat (m_key_length (items M1 p)) = length k" using n(2) unat_key_length [OF max_key_length_byte [OF assms(1)]] by simp
  have o: "only_block p s M M'" by (rule only_block_trans [OF n(3) a(4)]) (use s kl in simp_all)
  moreover have "item_fits M' p s"
    using s kl a(3) assms(2) by (simp add: item_fits_def sizeof_Item_def unat_of_nat)
  moreover have "item_key M' q = item_key M q \<and> item_value M' q = item_value M q"
    if "q + t \<le> p \<or> p + s \<le> q" "item_fits M q t" "q \<noteq> p" for q t
    using same_block_item [OF only_block_same [OF o] that(2)] that by auto
  ultimately show ?thesis
    using n(1,2) a(1,2,3) unfolding item_hash_def opaque_flags_def item_timestamp_def by fastforce
qed

theorem item_round_trip_witness:
  "\<exists>M'. M' = assign_value 64 [7, 8] (item_new 0 64 [1, 2] 5 2 3 0 9 \<lparr>items = (\<lambda>_. undefined), bytes = (\<lambda>_. 0)\<rparr>)
    \<and> item_key M' 64 = [1, 2] \<and> item_value M' 64 = [7, 8] \<and> item_timestamp M' 64 = 9"
  using item_round_trip [of "[1, 2]" "[7, 8]" 28 _ 64 0 5 3 0 9 "\<lparr>items = (\<lambda>_. undefined), bytes = (\<lambda>_. 0)\<rparr>"]
  by (simp add: max_key_length_def CalcSizeRequired_def sizeof_Item_def)

text \<open>C32: the lifetime of an item. With no lifetime it never expires before the last representable second;
  with a lifetime, while the clock has not wrapped around, it expires exactly when the lifetime has passed,
  and until then the remaining lifetime is what is left of it.\<close>

theorem item_expiration:
  assumes "M' = set_ttl now p ttl M" and "now \<le> t" and "unat now + unat ttl < 2 ^ 32 - 1"
  shows "(is_expired t M' p \<longleftrightarrow> (if ttl = infinite_TTL then t = - 1 else unat now + unat ttl \<le> unat t))
    \<and> (\<not> is_expired t M' p \<and> ttl \<noteq> infinite_TTL
      \<longrightarrow> unat (item_ttl t M' p) = unat now + unat ttl - unat t \<and> item_ttl t M' p \<noteq> infinite_TTL)"
proof -
  have s: "unat (now + ttl) = unat now + unat ttl" using assms(3) by (simp add: unat_add_lt)
  have ne: "now + ttl \<noteq> - 1" using s assms(3) unat_minus1 [where 'a = 32] by auto
  have m: "- 1 \<le> t \<longleftrightarrow> t = (- 1 :: u32)" by (simp add: word_order.extremum_unique)
  have e: "is_expired t M' p \<longleftrightarrow> (if ttl = infinite_TTL then t = - 1 else unat now + unat ttl \<le> unat t)"
    using s m by (simp add: is_expired_def assms(1) expiration_for_def word_le_nat_alt)
  have "unat (item_ttl t M' p) = unat now + unat ttl - unat t \<and> item_ttl t M' p \<noteq> infinite_TTL"
    if a: "\<not> is_expired t M' p" "ttl \<noteq> infinite_TTL"
  proof -
    have lt: "unat t < unat now + unat ttl" using a e by simp
    then have "t \<le> now + ttl" using s by (simp add: word_le_nat_alt)
    then have "unat (now + ttl - t) = unat now + unat ttl - unat t" using s by (simp add: unat_diff_le)
    moreover have "item_ttl t M' p = now + ttl - t"
      using a(2) ne by (simp add: item_ttl_def assms(1) expiration_for_def)
    ultimately show ?thesis using lt by (auto simp: infinite_TTL_def)
  qed
  with e show ?thesis by blast
qed

theorem item_expiration_witness:
  "is_expired 20 (set_ttl 5 0 15 \<lparr>items = (\<lambda>_. undefined), bytes = (\<lambda>_. 0)\<rparr>) 0
    \<and> \<not> is_expired 19 (set_ttl 5 0 15 \<lparr>items = (\<lambda>_. undefined), bytes = (\<lambda>_. 0)\<rparr>) 0"
  using item_expiration [OF refl, of 5 20 15 0 "\<lparr>items = (\<lambda>_. undefined), bytes = (\<lambda>_. 0)\<rparr>"]
    item_expiration [OF refl, of 5 19 15 0 "\<lparr>items = (\<lambda>_. undefined), bytes = (\<lambda>_. 0)\<rparr>"]
  by (simp add: infinite_TTL_def)

text \<open>the hash function reaches 0, the value that marks a free slot of the hash table.\<close>

theorem fnv1a_reaches_zero: "fnv1a_32 [0xcc, 0x24, 0x31, 0xc4] = 0"
  by code_simp

end
