(* ===== verification/String_Conv.thy ===== *)
theory String_Conv
  imports Prelude
begin

text \<open>
  \<^verbatim>\<open>cachelot/string_conv.h\<close>: decimal numbers in ASCII. A string is a list of bytes. Values of an
  integer type are natural numbers, or integers for a signed type, and the conversion to the unsigned type
  of \<open>w\<close> bits is written out; the accumulator of the conversion to an integer is a 64-bit word. An
  \<^verbatim>\<open>error_code\<close> that is set is the left side of a sum. \<^verbatim>\<open>uint_ascii_length\<close> and
  \<^verbatim>\<open>int_ascii_length\<close>, which call the floating point \<^verbatim>\<open>log10\<close>, are not modelled.
\<close>

section \<open>Integers to strings\<close>

type_synonym byte_str = "u8 list"

definition digit :: "nat \<Rightarrow> u8" where
  "digit d = of_nat (48 + d)"

text \<open>The literals of the tables: the numbers of three and two digits one after the other, sixteen zero
  characters and the terminator.\<close>

definition three_digit_table :: byte_str where
  "three_digit_table = concat (map (\<lambda>i. [digit (i div 100), digit (i div 10 mod 10), digit (i mod 10)]) [0..<1000]) @ replicate 17 0"

definition two_digit_table :: byte_str where
  "two_digit_table = concat (map (\<lambda>i. [digit (i div 10), digit (i mod 10)]) [0..<100]) @ replicate 17 0"

text \<open>The loops write from the end of the buffer; \<open>buf\<close> is what is written so far.\<close>

function three_digits_loop :: "nat \<Rightarrow> byte_str \<Rightarrow> nat \<times> byte_str" where
  "three_digits_loop xvalue buf =
     (if xvalue \<ge> 100
      then let temp_v = xvalue div 1000; pos = 3 * (xvalue - temp_v * 1000)
           in three_digits_loop temp_v (three_digit_table ! pos # three_digit_table ! (pos + 1) # three_digit_table ! (pos + 2) # buf)
      else (xvalue, buf))"
  by pat_completeness auto
termination by (relation "measure fst") auto

declare three_digits_loop.simps [simp del]

function two_digits_loop :: "nat \<Rightarrow> byte_str \<Rightarrow> nat \<times> byte_str" where
  "two_digits_loop xvalue buf =
     (if xvalue \<ge> 10
      then let temp_v = xvalue div 100; pos = 2 * (xvalue - temp_v * 100)
           in two_digits_loop temp_v (two_digit_table ! pos # two_digit_table ! (pos + 1) # buf)
      else (xvalue, buf))"
  by pat_completeness auto
termination by (relation "measure fst") auto

declare two_digits_loop.simps [simp del]

text \<open>\<^verbatim>\<open>convert\<close> for an integer type of \<open>w\<close> bits.\<close>

definition int_to_str :: "nat \<Rightarrow> int \<Rightarrow> byte_str" where
  "int_to_str w value =
     (if value = 0 then [digit 0]
      else let negative = value < 0;
               xvalue = (if negative then nat (- (value mod 2 ^ w) mod 2 ^ w) else nat value);
               (x1, buf1) = three_digits_loop xvalue [];
               (x2, buf2) = two_digits_loop x1 buf1;
               buf3 = (if x2 > 0 then digit x2 # buf2 else buf2)
           in (if negative then [45] else []) @ buf3)"

section \<open>Strings to integers\<close>

definition isdigit :: "u8 \<Rightarrow> bool" where
  "isdigit c \<longleftrightarrow> 48 \<le> c \<and> c \<le> 57"

definition max_u64_digits :: byte_str where
  "max_u64_digits = map digit [1, 8, 4, 4, 6, 7, 4, 4, 0, 7, 3, 7, 0, 9, 5, 5, 1, 6, 1, 5]"

fun convert_digits :: "u64 \<Rightarrow> byte_str \<Rightarrow> u64" where
  "convert_digits current [] = current"
| "convert_digits current (c # cs) = convert_digits (current * 10 + (ucast c - 48)) cs"

definition str_to_big_unsigned :: "byte_str \<Rightarrow> cachelot_error_code + u64" where
  "str_to_big_unsigned str =
     (if str = [digit 0] then Inr 0
      else if \<exists>c \<in> set str. \<not> isdigit c then Inl numeric_convert
      else if length str = 20
      then if list_ex (\<lambda>i. str ! i > max_u64_digits ! i) [0..<20] then Inl numeric_overflow else Inr (convert_digits 0 str)
      else if 1 \<le> length str \<and> length str \<le> 19 then Inr (convert_digits 0 str)
      else if length str = 0 then Inl numeric_convert
      else Inl numeric_overflow)"

text \<open>The first character is read without a check; \<open>beyond\<close> is the byte after the range, which is
  read when the range is empty.\<close>

definition str_to_big_signed :: "u8 \<Rightarrow> byte_str \<Rightarrow> cachelot_error_code + int" where
  "str_to_big_signed beyond str =
     (let negative = (hd (str @ [beyond]) = 45);
          conv = (if negative then (if str = [] then Inl numeric_overflow else str_to_big_unsigned (tl str))
                  else str_to_big_unsigned str)
      in case conv of
           Inl e \<Rightarrow> Inl e
         | Inr unsigned_value \<Rightarrow>
             if unat unsigned_value < 2 ^ 63 then Inr (if negative then - int (unat unsigned_value) else int (unat unsigned_value))
             else if unat unsigned_value = 2 ^ 63 \<and> negative then Inr (- (2 ^ 63))
             else Inl numeric_overflow)"

text \<open>\<^verbatim>\<open>str_to_int\<close> for an unsigned type of \<open>w\<close> bits, and for a signed one.\<close>

definition str_to_unsigned :: "nat \<Rightarrow> byte_str \<Rightarrow> cachelot_error_code + nat" where
  "str_to_unsigned w str =
     (case str_to_big_unsigned str of
        Inl e \<Rightarrow> Inl e
      | Inr v \<Rightarrow> if unat v \<le> 2 ^ w - 1 then Inr (unat v) else Inl numeric_overflow)"

definition str_to_signed :: "nat \<Rightarrow> u8 \<Rightarrow> byte_str \<Rightarrow> cachelot_error_code + int" where
  "str_to_signed w beyond str =
     (case str_to_big_signed beyond str of
        Inl e \<Rightarrow> Inl e
      | Inr v \<Rightarrow> if - (2 ^ (w - 1)) \<le> v \<and> v \<le> 2 ^ (w - 1) - 1 then Inr v else Inl numeric_overflow)"

text \<open>The variant that throws.\<close>

definition str_to_int :: "nat \<Rightarrow> byte_str \<Rightarrow> nat result" where
  "str_to_int w str = (case str_to_unsigned w str of Inl e \<Rightarrow> Inl (System_error e) | Inr v \<Rightarrow> Inr v)"

section \<open>Reference definitions\<close>

fun decimal :: "nat \<Rightarrow> byte_str" where
  "decimal n = (if n < 10 then [digit n] else decimal (n div 10) @ [digit (n mod 10)])"

declare decimal.simps [simp del]

definition dec0 :: "nat \<Rightarrow> byte_str" where
  "dec0 n = (if n = 0 then [] else decimal n)"

fun value_from :: "nat \<Rightarrow> byte_str \<Rightarrow> nat" where
  "value_from a [] = a"
| "value_from a (c # cs) = value_from (a * 10 + (unat c - 48)) cs"

section \<open>Integers to strings: the tables and the loops\<close>

lemma concat_map_nth:
  assumes "\<And>i. length (f i) = k" and "i < n" and "j < k"
  shows "concat (map f [0..<n]) ! (k * i + j) = f i ! j"
  using assms(2)
proof (induction n)
  case (Suc n)
  have l: "length (concat (map f [0..<n])) = k * n" by (induction n) (simp_all add: assms(1))
  show ?case
  proof (cases "i = n")
    case True
    then show ?thesis using l by (simp add: nth_append)
  next
    case False
    then have "k * i + j < k * n" using Suc.prems assms(3) mult_le_mono2 [of "Suc i" n k] by simp
    then show ?thesis using Suc False l by (simp add: nth_append)
  qed
qed simp

lemma table_length: "(\<And>i. length (f i) = k) \<Longrightarrow> length (concat (map f [0..<n])) = k * n"
  by (induction n) simp_all

lemma three_digit_table_nth:
  assumes "i < 1000"
  shows "three_digit_table ! (3 * i) = digit (i div 100)" and "three_digit_table ! (3 * i + 1) = digit (i div 10 mod 10)"
    and "three_digit_table ! (3 * i + 2) = digit (i mod 10)"
proof -
  let ?f = "\<lambda>i. [digit (i div 100), digit (i div 10 mod 10), digit (i mod 10)]"
  have l: "length (concat (map ?f [0..<1000])) = 3 * 1000" by (rule table_length) simp
  have "three_digit_table ! (3 * i + j) = ?f i ! j" if "j < 3" for j
  proof -
    have "3 * i + j < 3 * 1000" using assms that by simp
    then have "three_digit_table ! (3 * i + j) = concat (map ?f [0..<1000]) ! (3 * i + j)"
      unfolding three_digit_table_def nth_append l by (simp only: if_True)
    also have "\<dots> = ?f i ! j" by (rule concat_map_nth [of ?f 3]) (use assms that in simp_all)
    finally show ?thesis .
  qed
  from this [of 0] this [of 1] this [of 2]
  show "three_digit_table ! (3 * i) = digit (i div 100)" and "three_digit_table ! (3 * i + 1) = digit (i div 10 mod 10)"
    and "three_digit_table ! (3 * i + 2) = digit (i mod 10)" by simp_all
qed

lemma two_digit_table_nth:
  assumes "i < 100"
  shows "two_digit_table ! (2 * i) = digit (i div 10)" and "two_digit_table ! (2 * i + 1) = digit (i mod 10)"
proof -
  let ?f = "\<lambda>i. [digit (i div 10), digit (i mod 10)]"
  have l: "length (concat (map ?f [0..<100])) = 2 * 100" by (rule table_length) simp
  have "two_digit_table ! (2 * i + j) = ?f i ! j" if "j < 2" for j
  proof -
    have "2 * i + j < 2 * 100" using assms that by simp
    then have "two_digit_table ! (2 * i + j) = concat (map ?f [0..<100]) ! (2 * i + j)"
      unfolding two_digit_table_def nth_append l by (simp only: if_True)
    also have "\<dots> = ?f i ! j" by (rule concat_map_nth [of ?f 2]) (use assms that in simp_all)
    finally show ?thesis .
  qed
  from this [of 0] this [of 1]
  show "two_digit_table ! (2 * i) = digit (i div 10)" and "two_digit_table ! (2 * i + 1) = digit (i mod 10)" by simp_all
qed

lemma dec0_step: "0 < n \<Longrightarrow> dec0 n = dec0 (n div 10) @ [digit (n mod 10)]"
  by (cases "n < 10") (simp_all add: dec0_def decimal.simps [of n] div_eq_0_iff)

lemma dec0_100: "10 \<le> n \<Longrightarrow> dec0 n = dec0 (n div 100) @ [digit (n div 10 mod 10), digit (n mod 10)]"
  using dec0_step [of n] dec0_step [of "n div 10"] by (simp add: div_mult2_eq [symmetric])

lemma dec0_1000: "100 \<le> n \<Longrightarrow> dec0 n = dec0 (n div 1000) @ [digit (n div 100 mod 10), digit (n div 10 mod 10), digit (n mod 10)]"
  using dec0_step [of n] dec0_100 [of "n div 10"] by (simp add: div_mult2_eq [symmetric])

lemma three_digits_loop_dec:
  "\<exists>x' d. three_digits_loop x buf = (x', d @ buf) \<and> x' < 100 \<and> dec0 x = dec0 x' @ d"
proof (induction x buf rule: three_digits_loop.induct)
  case (1 x buf)
  show ?case
  proof (cases "100 \<le> x")
    case False
    then show ?thesis by (subst three_digits_loop.simps) simp
  next
    case True
    define r where "r = x - x div 1000 * 1000"
    have r: "r = x mod 1000" by (simp add: r_def modulo_nat_def)
    then have r1: "r < 1000" by simp
    have dig: "r div 100 = x div 100 mod 10" "r div 10 mod 10 = x div 10 mod 10" "r mod 10 = x mod 10"
    proof -
      have "r = 100 * (x div 100 mod 10) + x mod 100" unfolding r using mod_mult2_eq [of x 100 10] by simp
      then show "r div 100 = x div 100 mod 10" by simp
      have "r = 10 * (x div 10 mod 100) + x mod 10" unfolding r using mod_mult2_eq [of x 10 100] by simp
      then have "r div 10 = x div 10 mod 100" "r mod 10 = x mod 10" by simp_all
      then show "r div 10 mod 10 = x div 10 mod 10" "r mod 10 = x mod 10" by (simp_all add: mod_mod_cancel)
    qed
    obtain x' d where IH: "three_digits_loop (x div 1000) (three_digit_table ! (3 * r) # three_digit_table ! (3 * r + 1)
        # three_digit_table ! (3 * r + 2) # buf) = (x', d @ three_digit_table ! (3 * r) # three_digit_table ! (3 * r + 1)
        # three_digit_table ! (3 * r + 2) # buf)" "x' < 100" "dec0 (x div 1000) = dec0 x' @ d"
      using "1.IH" [OF True refl refl, folded r_def] by blast
    have "three_digits_loop x buf = (x', (d @ [digit (r div 100), digit (r div 10 mod 10), digit (r mod 10)]) @ buf)"
    proof -
      have "three_digits_loop x buf = three_digits_loop (x div 1000) (three_digit_table ! (3 * r) # three_digit_table ! (3 * r + 1)
          # three_digit_table ! (3 * r + 2) # buf)"
        by (subst three_digits_loop.simps) (simp only: True if_True Let_def r_def)
      with IH(1) show ?thesis unfolding three_digit_table_nth [OF r1] by simp
    qed
    moreover have "dec0 x = dec0 x' @ d @ [digit (r div 100), digit (r div 10 mod 10), digit (r mod 10)]"
      unfolding dec0_1000 [OF True] dig IH(3) by simp
    ultimately show ?thesis using IH(2) by blast
  qed
qed

lemma two_digits_loop_dec:
  "\<exists>x' d. two_digits_loop x buf = (x', d @ buf) \<and> x' < 10 \<and> dec0 x = dec0 x' @ d"
proof (induction x buf rule: two_digits_loop.induct)
  case (1 x buf)
  show ?case
  proof (cases "10 \<le> x")
    case False
    then show ?thesis by (subst two_digits_loop.simps) simp
  next
    case True
    define r where "r = x - x div 100 * 100"
    have r: "r = x mod 100" by (simp add: r_def modulo_nat_def)
    then have r1: "r < 100" by simp
    have "r = 10 * (x div 10 mod 10) + x mod 10" unfolding r using mod_mult2_eq [of x 10 10] by simp
    then have dig: "r div 10 = x div 10 mod 10" "r mod 10 = x mod 10" by simp_all
    obtain x' d where IH: "two_digits_loop (x div 100) (two_digit_table ! (2 * r) # two_digit_table ! (2 * r + 1) # buf)
        = (x', d @ two_digit_table ! (2 * r) # two_digit_table ! (2 * r + 1) # buf)" "x' < 10" "dec0 (x div 100) = dec0 x' @ d"
      using "1.IH" [OF True refl refl, folded r_def] by blast
    have "two_digits_loop x buf = (x', (d @ [digit (r div 10), digit (r mod 10)]) @ buf)"
    proof -
      have "two_digits_loop x buf = two_digits_loop (x div 100) (two_digit_table ! (2 * r) # two_digit_table ! (2 * r + 1) # buf)"
        by (subst two_digits_loop.simps) (simp only: True if_True Let_def r_def)
      with IH(1) show ?thesis unfolding two_digit_table_nth [OF r1] by simp
    qed
    moreover have "dec0 x = dec0 x' @ d @ [digit (r div 10), digit (r mod 10)]"
      unfolding dec0_100 [OF True] dig IH(3) by simp
    ultimately show ?thesis using IH(2) by blast
  qed
qed

lemma loops_dec:
  assumes "three_digits_loop x [] = (x1, buf1)" and "two_digits_loop x1 buf1 = (x2, buf2)"
  shows "(if x2 > 0 then digit x2 # buf2 else buf2) = dec0 x"
proof -
  obtain d1 where d1: "buf1 = d1" "dec0 x = dec0 x1 @ d1" using three_digits_loop_dec [of x "[]"] assms(1) by auto
  obtain d2 where d2: "buf2 = d2 @ buf1" "x2 < 10" "dec0 x1 = dec0 x2 @ d2"
    using two_digits_loop_dec [of x1 buf1] assms(2) by auto
  have "dec0 x2 = (if x2 > 0 then [digit x2] else [])" using d2(2) by (simp add: dec0_def decimal.simps)
  then show ?thesis using d1 d2 by simp
qed

section \<open>Strings to integers: the value\<close>

lemma value_from_append [simp]: "value_from a (xs @ ys) = value_from (value_from a xs) ys"
  by (induction xs arbitrary: a) simp_all

lemma unat_digit: "d < 10 \<Longrightarrow> unat (digit d) = 48 + d"
  by (simp add: digit_def unat_of_nat del: of_nat_add)

lemma isdigit_digit: "d < 10 \<Longrightarrow> isdigit (digit d)"
  by (simp add: isdigit_def word_le_nat_alt unat_digit)

lemma isdigit_bounds: "isdigit c \<Longrightarrow> 48 \<le> unat c \<and> unat c \<le> 57"
  by (simp add: isdigit_def word_le_nat_alt)

lemma value_from_mono: "a \<le> b \<Longrightarrow> value_from a s \<le> value_from b s"
proof (induction s arbitrary: a b)
  case (Cons c s)
  have "a * 10 + (unat c - 48) \<le> b * 10 + (unat c - 48)" using Cons.prems by simp
  then show ?case using Cons.IH by simp
qed simp

lemma value_from_bound:
  assumes "\<forall>c \<in> set s. isdigit c"
  shows "value_from a s < (a + 1) * 10 ^ length s"
  using assms
proof (induction s arbitrary: a)
  case (Cons c s)
  have "value_from a (c # s) < (a * 10 + (unat c - 48) + 1) * 10 ^ length s" using Cons by simp
  also have "\<dots> \<le> ((a + 1) * 10) * 10 ^ length s"
  proof (rule mult_le_mono1)
    have "unat c - 48 \<le> 9" using isdigit_bounds [of c] Cons.prems by auto
    then show "a * 10 + (unat c - 48) + 1 \<le> (a + 1) * 10" by simp
  qed
  finally show ?case by (simp add: algebra_simps)
qed simp

lemma le_value_from: "a \<le> value_from a s"
proof (induction s arbitrary: a)
  case (Cons c s)
  show ?case using Cons [of "a * 10 + (unat c - 48)"] by simp
qed simp

lemma convert_digits_value:
  assumes "\<forall>c \<in> set s. isdigit c" and "value_from (unat a) s < 2 ^ 64"
  shows "unat (convert_digits a s) = value_from (unat a) s"
  using assms
proof (induction s arbitrary: a)
  case (Cons c s)
  have c: "48 \<le> unat c" "unat c \<le> 57" using isdigit_bounds Cons.prems(1) by simp_all
  have d: "unat (ucast c - 48 :: u64) = unat c - 48"
  proof -
    have "unat c < 2 ^ 64" using c(2) by simp
    then have u: "unat (ucast c :: u64) = unat c" by (simp add: unsigned_ucast_eq take_bit_nat_eq_self_iff)
    then have "48 \<le> (ucast c :: u64)" using c by (simp add: word_le_nat_alt)
    then show ?thesis using u by (simp add: unat_diff_le)
  qed
  have lt: "unat a * 10 + (unat c - 48) < 2 ^ 64"
    using le_value_from [of "unat a * 10 + (unat c - 48)" s] Cons.prems(2) by simp
  then have "unat (a * 10) = unat a * 10" by (simp add: unat_word_ariths)
  then have "unat (a * 10 + (ucast c - 48)) = unat a * 10 + (unat c - 48)"
    using lt d by (simp add: unat_add_lt)
  then show ?case using Cons.IH [of "a * 10 + (ucast c - 48)"] Cons.prems by simp
qed simp

text \<open>The check of a string of twenty digits, digit by digit, keeps the value below the bound.\<close>

lemma digitwise_le:
  assumes "length s = length t" and "\<forall>i < length s. s ! i \<le> t ! i" and "a \<le> b"
  shows "value_from a s \<le> value_from b t"
  using assms
proof (induction s t arbitrary: a b rule: list_induct2)
  case (Cons c s d t)
  have "unat c \<le> unat d" using Cons.prems(1) by (auto simp: word_le_nat_alt)
  then have "a * 10 + (unat c - 48) \<le> b * 10 + (unat d - 48)" using Cons.prems(2) by linarith
  moreover have "\<forall>i < length s. s ! i \<le> t ! i" using Cons.prems(1) by auto
  ultimately show ?case using Cons.IH by simp
qed simp

lemma max_u64_value: "value_from 0 max_u64_digits = 2 ^ 64 - 1" "length max_u64_digits = 20"
  by (simp_all add: max_u64_digits_def unat_digit)

text \<open>A successful conversion: only digits, and the value of the string.\<close>

lemma str_to_big_unsigned_value:
  assumes "str_to_big_unsigned s = Inr v"
  shows "s \<noteq> [] \<and> (\<forall>c \<in> set s. isdigit c) \<and> unat v = value_from 0 s"
proof (cases "s = [digit 0]")
  case True
  then show ?thesis using assms isdigit_digit [of 0] unat_digit [of 0] by (simp add: str_to_big_unsigned_def)
next
  case False
  then have dig: "\<forall>c \<in> set s. isdigit c" and v: "v = convert_digits 0 s" and ne: "s \<noteq> []"
    and len: "length s = 20 \<and> (\<forall>i < 20. \<not> s ! i > max_u64_digits ! i) \<or> length s \<le> 19"
    using assms by (auto simp: str_to_big_unsigned_def list_ex_iff split: if_splits)
  have "value_from 0 s < 2 ^ 64"
  proof (cases "length s \<le> 19")
    case True
    have "value_from 0 s < 10 ^ length s" using value_from_bound [OF dig, of 0] by simp
    also have "(10 :: nat) ^ length s \<le> 10 ^ 19" using True by (intro power_increasing) auto
    also have "(10 :: nat) ^ 19 < 2 ^ 64" by simp
    finally show ?thesis .
  next
    case False
    then have "value_from 0 s \<le> value_from 0 max_u64_digits"
      using len max_u64_value(2) by (intro digitwise_le) (auto simp: not_less)
    then show ?thesis using max_u64_value(1) by simp
  qed
  then show ?thesis using convert_digits_value [OF dig, of 0] v ne dig by simp
qed

lemma str_to_big_unsigned_short:
  assumes "\<forall>c \<in> set s. isdigit c" and "s \<noteq> []" and "length s \<le> 19"
  shows "\<exists>v. str_to_big_unsigned s = Inr v"
  using assms by (cases "s = [digit 0]") (auto simp: str_to_big_unsigned_def Suc_le_eq)

lemma decimal_digits: "\<forall>c \<in> set (decimal n). isdigit c" "decimal n \<noteq> []" "value_from 0 (decimal n) = n"
proof -
  have "(\<forall>c \<in> set (decimal n). isdigit c) \<and> decimal n \<noteq> [] \<and> value_from 0 (decimal n) = n"
  proof (induction n rule: decimal.induct)
    case (1 n)
    show ?case
    proof (cases "n < 10")
      case True
      then show ?thesis by (subst (1 2 3) decimal.simps) (simp add: isdigit_digit unat_digit)
    next
      case False
      then show ?thesis using 1 by (subst (1 2 3) decimal.simps) (simp add: isdigit_digit unat_digit)
    qed
  qed
  then show "\<forall>c \<in> set (decimal n). isdigit c" "decimal n \<noteq> []" "value_from 0 (decimal n) = n" by blast+
qed

lemma length_decimal: "n < 10 ^ k \<Longrightarrow> 0 < k \<Longrightarrow> length (decimal n) \<le> k"
proof (induction k arbitrary: n)
  case (Suc k)
  show ?case
  proof (cases "n < 10")
    case True
    then show ?thesis by (simp add: decimal.simps)
  next
    case False
    then have "n div 10 < 10 ^ k" "0 < k" using Suc.prems by (auto intro!: Nat.gr0I simp: less_mult_imp_div_less mult.commute)
    then show ?thesis using Suc.IH False by (simp add: decimal.simps [of n])
  qed
qed simp

lemma int_to_str_dec:
  assumes "- (2 ^ w) < value" and "value < 2 ^ w"
  shows "int_to_str w value = (if value < 0 then [45] else []) @ decimal (nat \<bar>value\<bar>)"
proof (cases "value = 0")
  case True
  then show ?thesis by (simp add: int_to_str_def decimal.simps)
next
  case False
  define x where "x = (if value < 0 then nat (- (value mod 2 ^ w) mod 2 ^ w) else nat value)"
  have x: "x = nat \<bar>value\<bar>"
  proof (cases "value < 0")
    case True
    then have "- (value mod 2 ^ w) mod 2 ^ w = - value" using assms by (simp add: mod_minus_eq)
    then show ?thesis using True by (simp add: x_def)
  qed (simp add: x_def)
  obtain x1 buf1 x2 buf2 where l: "three_digits_loop x [] = (x1, buf1)" "two_digits_loop x1 buf1 = (x2, buf2)"
    by fastforce
  have "(if x2 > 0 then digit x2 # buf2 else buf2) = decimal (nat \<bar>value\<bar>)"
    unfolding loops_dec [OF l] using x False by (simp add: dec0_def)
  then show ?thesis
    using False l unfolding int_to_str_def Let_def x_def [symmetric] by simp
qed

section \<open>Properties of the conversions\<close>

text \<open>C20: the table-driven conversion of an integer gives its decimal digits with no leading zero, and a
  sign in front of a negative one, for every value of a signed or unsigned type.\<close>

theorem int_to_str_decimal:
  assumes "- (2 ^ w) < value" and "value < 2 ^ w"
  shows "int_to_str w value = (if value < 0 then [45] else []) @ decimal (nat \<bar>value\<bar>)"
  by (rule int_to_str_dec [OF assms])

theorem int_to_str_decimal_witness:
  "int_to_str 32 (- 1203) = [45, 49, 50, 48, 51]"
  using int_to_str_decimal [of 32 "- 1203"] by (simp add: decimal.simps digit_def)

text \<open>C33: a number of up to nineteen digits survives the conversion to a string and back, whatever the
  width of the type that holds it.\<close>

theorem number_round_trip:
  assumes "n < 10 ^ 19" and "n < 2 ^ w"
  shows "str_to_unsigned w (int_to_str w (int n)) = Inr n"
proof -
  have s: "int_to_str w (int n) = decimal n"
    using int_to_str_dec [of w "int n"] assms(2) by (simp add: of_nat_less_numeral_power_cancel_iff)
  have "length (decimal n) \<le> 19" using length_decimal [OF assms(1)] by simp
  then obtain v where v: "str_to_big_unsigned (decimal n) = Inr v"
    using str_to_big_unsigned_short decimal_digits by blast
  then have "unat v = n" using str_to_big_unsigned_value [OF v] decimal_digits(3) by simp
  then show ?thesis using assms(2) by (simp add: str_to_unsigned_def s v Suc_le_eq flip: less_Suc_eq_le)
qed

theorem number_round_trip_witness: "str_to_unsigned 64 (int_to_str 64 (int 18446744073)) = Inr 18446744073"
  using number_round_trip [of 18446744073 64] by simp

text \<open>C34: a string is converted to an unsigned integer only if it is made of digits, and then to its value,
  which fits the type; a string of up to nineteen digits whose value fits is always converted; an empty
  string or one with another character is a conversion error.\<close>

theorem str_to_unsigned_spec:
  assumes "0 < w" and "w \<le> 64"
  shows "(\<forall>v. str_to_unsigned w s = Inr v \<longrightarrow> s \<noteq> [] \<and> (\<forall>c \<in> set s. isdigit c) \<and> v = value_from 0 s \<and> v < 2 ^ w)
    \<and> ((\<forall>c \<in> set s. isdigit c) \<and> s \<noteq> [] \<and> length s \<le> 19 \<longrightarrow>
        str_to_unsigned w s = (if value_from 0 s < 2 ^ w then Inr (value_from 0 s) else Inl numeric_overflow))
    \<and> (s = [] \<or> (\<exists>c \<in> set s. \<not> isdigit c) \<longrightarrow> str_to_unsigned w s = Inl numeric_convert)"
proof (intro conjI impI allI)
  have le: "(x \<le> 2 ^ w - Suc 0) \<longleftrightarrow> x < 2 ^ w" for x :: nat
    using less_Suc_eq_le [of x "2 ^ w - 1"] by simp
  { fix v assume a: "str_to_unsigned w s = Inr v"
    then obtain u where u: "str_to_big_unsigned s = Inr u" "v = unat u" "unat u < 2 ^ w"
      by (auto simp: str_to_unsigned_def le split: sum.splits if_splits)
    note b = str_to_big_unsigned_value [OF u(1)]
    show "s \<noteq> []" "v = value_from 0 s" "v < 2 ^ w" using b u by simp_all
    show "\<forall>c \<in> set s. isdigit c" using b by simp }
  { assume a: "(\<forall>c \<in> set s. isdigit c) \<and> s \<noteq> [] \<and> length s \<le> 19"
    then obtain v where v: "str_to_big_unsigned s = Inr v" using str_to_big_unsigned_short by blast
    show "str_to_unsigned w s = (if value_from 0 s < 2 ^ w then Inr (value_from 0 s) else Inl numeric_overflow)"
      using str_to_big_unsigned_value [OF v] by (simp add: str_to_unsigned_def v le) }
  { assume a: "s = [] \<or> (\<exists>c \<in> set s. \<not> isdigit c)"
    then have "s \<noteq> [digit 0]" using isdigit_digit [of 0] by auto
    then show "str_to_unsigned w s = Inl numeric_convert"
      using a by (auto simp: str_to_unsigned_def str_to_big_unsigned_def) }
qed

theorem str_to_unsigned_spec_witness:
  "str_to_unsigned 16 (map digit [6, 5, 5, 3, 5]) = Inr 65535 \<and> str_to_unsigned 16 (map digit [6, 5, 5, 3, 6]) = Inl numeric_overflow
    \<and> str_to_unsigned 16 [] = Inl numeric_convert"
proof -
  define s t where "s = map digit [6, 5, 5, 3, 5]" and "t = map digit [6, 5, 5, 3, 6]"
  have v: "value_from 0 s = 65535" "value_from 0 t = 65536" by (simp_all add: s_def t_def unat_digit)
  have d: "(\<forall>c \<in> set s. isdigit c) \<and> s \<noteq> [] \<and> length s \<le> 19" "(\<forall>c \<in> set t. isdigit c) \<and> t \<noteq> [] \<and> length t \<le> 19"
    by (simp_all add: s_def t_def isdigit_digit)
  have w: "(0 :: nat) < 16" "16 \<le> (64 :: nat)" by simp_all
  note spec = str_to_unsigned_spec [OF w]
  have "str_to_unsigned 16 s = (if value_from 0 s < 2 ^ 16 then Inr (value_from 0 s) else Inl numeric_overflow)"
      "str_to_unsigned 16 t = (if value_from 0 t < 2 ^ 16 then Inr (value_from 0 t) else Inl numeric_overflow)"
      "str_to_unsigned 16 [] = Inl numeric_convert"
    using spec [of s] spec [of t] spec [of "[]"] d by blast+
  then show ?thesis unfolding v s_def [symmetric] t_def [symmetric] by simp
qed

text \<open>a number of twenty digits is compared with the largest 64-bit number one digit at a time, so that
  it is reported as an overflow although it fits, and the conversion back of such a number fails.\<close>

theorem twenty_digits_rejected:
  "str_to_unsigned 64 (int_to_str 64 10000000000000000009) = Inl numeric_overflow \<and> (10000000000000000009 :: nat) < 2 ^ 64"
proof -
  let ?s = "map digit [1, 0, 0, 0, 0, 0, 0, 0, 0, 0, 0, 0, 0, 0, 0, 0, 0, 0, 0, 9]"
  have "int_to_str 64 10000000000000000009 = decimal 10000000000000000009"
    using int_to_str_dec [of 64 10000000000000000009] by simp
  also have "\<dots> = ?s" by (simp add: decimal.simps)
  finally have "int_to_str 64 10000000000000000009 = ?s" .
  moreover have "str_to_unsigned 64 ?s = Inl numeric_overflow" by code_simp
  ultimately show ?thesis by simp
qed

end
