(* ===== verification/Cache.thy ===== *)
theory Cache
  imports Allocator Dict_Map Item String_Conv
begin

text \<open>
  Class \<^verbatim>\<open>cache::Cache\<close> of \<^verbatim>\<open>cachelot/cache.h\<close>. An entry of the dictionary is the address of
  an item, its key is read from the item's memory, so \<^verbatim>\<open>ItemDictEntry::key\<close> is \<open>item_key\<close> of the
  memory. The memory of the arena is the field \<open>c_mem\<close>; freeing a block leaves its bytes alone. The
  function \<^verbatim>\<open>on_eviction\<close> of the user acts on a state \<open>'u\<close> of the user's. Parameters of the
  operations stand for what the system gives: \<open>fresh\<close> the memory of a larger table (see \<open>Dict\<close>) and
  \<open>clk\<close> the clock, whose \<open>i\<close>-th reading within the operation is \<open>clk i\<close>. An operation that throws
  returns \<open>Inl\<close> with the state it leaves; \<open>None\<close> is a loop that does not end or a null pointer that
  is read.
\<close>

section \<open>The cache\<close>

record 'u cache =
  m_allocator :: memalloc
  m_dict :: "nat dict"
  m_evictions_enabled :: bool
  m_oldest_timestamp :: u64
  m_newest_timestamp :: u64
  on_eviction :: "(item_mem \<Rightarrow> nat \<Rightarrow> 'u \<Rightarrow> 'u) option"
  c_mem :: item_mem
  c_stats :: "cache_stat \<Rightarrow> u64"
  c_hash_is_expanding :: bool
  c_user :: 'u

type_synonym ('a, 'u) outcome = "('a result \<times> 'u cache) option"

datatype ArithmeticOperation = INCR | DECR

datatype ExtendOperation = APPEND | PREPEND

definition count_stat :: "cache_stat \<Rightarrow> 'u cache \<Rightarrow> 'u cache" where
  "count_stat name c = c\<lparr>c_stats := stat_incr name 1 (c_stats c)\<rparr>"

definition entry_key :: "'u cache \<Rightarrow> nat \<Rightarrow> u8 list" where
  "entry_key c p = item_key (c_mem c) p"

text \<open>The system's part in the constructor: the address and the contents of the arena, the memory of the
  hash table, the statistics, which are global, and the user's callback and state.\<close>

definition Cache_new ::
  "nat option \<Rightarrow> headers \<Rightarrow> item_mem \<Rightarrow> (mem_stat \<Rightarrow> u64) \<Rightarrow> (cache_stat \<Rightarrow> u64) \<Rightarrow> nat fresh_arrays \<Rightarrow> 'u
    \<Rightarrow> u64 \<Rightarrow> u32 \<Rightarrow> u32 \<Rightarrow> bool \<Rightarrow> 'u cache result option" where
  "Cache_new arena h mem mst cst fresh user memory_limit page_sz initial_dict_size enable_evictions =
     Option.bind (memalloc_new arena h mst (unat memory_limit) (unat page_sz)) (\<lambda>r.
       case r of
         Inl e \<Rightarrow> Some (Inl e)
       | Inr allocator \<Rightarrow> (case dict_new fresh initial_dict_size of
             Inl e \<Rightarrow> Some (Inl e)
           | Inr d \<Rightarrow> Some (Inr \<lparr>m_allocator = allocator, m_dict = d, m_evictions_enabled = enable_evictions,
               m_oldest_timestamp = - 1, m_newest_timestamp = 0, on_eviction = None, c_mem = mem, c_stats = cst,
               c_hash_is_expanding = False, c_user = user\<rparr>)))"

definition Cache_Create ::
  "nat option \<Rightarrow> headers \<Rightarrow> item_mem \<Rightarrow> (mem_stat \<Rightarrow> u64) \<Rightarrow> (cache_stat \<Rightarrow> u64) \<Rightarrow> nat fresh_arrays \<Rightarrow> 'u
    \<Rightarrow> u64 \<Rightarrow> u64 \<Rightarrow> u64 \<Rightarrow> bool \<Rightarrow> 'u cache result option" where
  "Cache_Create arena h mem mst cst fresh user memory_limit page_sz initial_dict_size enable_evictions =
     (if \<not> ispow2 memory_limit then Some (Inl (Invalid_argument ''memory_limit must be power of 2''))
      else if memory_limit < page_sz * 4
      then Some (Inl (Invalid_argument ''memory_limit should be enough for at least 4 pages''))
      else if \<not> ispow2 page_sz then Some (Inl (Invalid_argument ''mem_page_size must be power of 2''))
      else if page_sz = 0 then Some (Inl (Invalid_argument ''mem_page_size must be non-zero''))
      else if page_sz > 0xffffffff then Some (Inl (Invalid_argument ''mem_page_size is too big (max is INT32_MAX)''))
      else if page_sz < 256 then Some (Inl (Invalid_argument ''mem_page_size is too small (min 256b)''))
      else if memory_limit mod page_sz \<noteq> 0
      then Some (Inl (Invalid_argument ''memory_limit must be divisible by mem_page_size''))
      else if \<not> ispow2 initial_dict_size then Some (Inl (Invalid_argument ''initial_dict_size must be power of 2''))
      else if initial_dict_size > 0xffffffff then Some (Inl (Invalid_argument ''initial_dict_size is too big''))
      else Cache_new arena h mem mst cst fresh user memory_limit (ucast page_sz) (ucast initial_dict_size) enable_evictions)"

section \<open>Items of the cache\<close>

definition destroy_item :: "nat \<Rightarrow> 'u cache \<Rightarrow> 'u cache option" where
  "destroy_item item c = map_option (\<lambda>m. c\<lparr>m_allocator := m\<rparr>) (mem_free (m_allocator c) item)"

definition cache_destroy :: "'u cache \<Rightarrow> 'u cache option" where
  "cache_destroy c =
     Option.bind (dict_remove_if (\<lambda>item m. (True, Option.bind m (\<lambda>m. mem_free m item))) (m_dict c) (Some (m_allocator c)))
       (\<lambda>(d, m). map_option (\<lambda>m. c\<lparr>m_dict := d, m_allocator := m\<rparr>) m)"

definition retrieve_item ::
  "nat fresh_arrays \<Rightarrow> u32 \<Rightarrow> u8 list \<Rightarrow> u32 \<Rightarrow> bool \<Rightarrow> 'u cache \<Rightarrow> (bool \<times> dict_iterator, 'u) outcome" where
  "retrieve_item fresh now key hash readonly c =
     Option.bind (dict_entry_for fresh (entry_key c) (m_dict c) key hash readonly) (\<lambda>(r, d).
       case r of
         Inl e \<Rightarrow> Some (Inl e, c\<lparr>m_dict := d\<rparr>)
       | Inr (found, at) \<Rightarrow>
           if found
           then Option.bind (iter_value d at) (\<lambda>item.
                  if \<not> is_expired now (c_mem c) item
                  then Some (Inr (True, at), c\<lparr>m_dict := d, m_allocator := mem_touch (m_allocator c) item\<rparr>)
                  else Option.bind (dict_remove d at) (\<lambda>d'.
                         map_option (\<lambda>c'. (Inr (False, at), c')) (destroy_item item (c\<lparr>m_dict := d'\<rparr>))))
           else Some (Inr (False, at), c\<lparr>m_dict := d\<rparr>))"

definition replace_item_at :: "dict_iterator \<Rightarrow> nat \<Rightarrow> 'u cache \<Rightarrow> 'u cache option" where
  "replace_item_at at new_item c =
     Option.bind (iter_value (m_dict c) at) (\<lambda>old_item.
       map_option (\<lambda>c'. c'\<lparr>m_dict := unsafe_replace_kv (m_dict c') at new_item\<rparr>) (destroy_item old_item c))"

definition insert_item_at :: "dict_iterator \<Rightarrow> nat \<Rightarrow> 'u cache \<Rightarrow> 'u cache option" where
  "insert_item_at at item c =
     map_option (\<lambda>(_, d). c\<lparr>m_dict := d\<rparr>) (dict_insert (m_dict c) at (item_hash (c_mem c) item) item)"

text \<open>\<^verbatim>\<open>ItemAutoDelete\<close>: the end of the scope destroys the item, also when an exception leaves it.\<close>

definition auto_delete :: "nat \<Rightarrow> 'a result \<Rightarrow> 'u cache \<Rightarrow> ('a, 'u) outcome" where
  "auto_delete item r c = map_option (Pair r) (destroy_item item c)"

definition on_delete :: "'u cache \<Rightarrow> nat \<Rightarrow> nat dict option \<times> 'u \<Rightarrow> nat dict option \<times> 'u" where
  "on_delete c item = (\<lambda>(d, u).
     (Option.bind d (\<lambda>d. map_option snd (dict_del (entry_key c) d (item_key (c_mem c) item) (item_hash (c_mem c) item))),
      case on_eviction c of None \<Rightarrow> u | Some f \<Rightarrow> f (c_mem c) item u))"

definition create_item ::
  "u32 \<Rightarrow> u8 list \<Rightarrow> u32 \<Rightarrow> nat \<Rightarrow> u16 \<Rightarrow> u32 \<Rightarrow> 'u cache \<Rightarrow> (nat, 'u) outcome" where
  "create_item now key hash value_length flags keepalive c =
     (let size_required = CalcSizeRequired key value_length in
      if length key > max_key_length then Some (Inl (System_error key_too_long), c)
      else if size_required > page_size (m_allocator c) then Some (Inl (System_error item_too_big), c)
      else Option.bind (alloc_or_evict (m_allocator c) size_required (m_evictions_enabled c) (on_delete c) (Some (m_dict c), c_user c))
        (\<lambda>(memory, m, d, u). Option.bind d (\<lambda>d.
           let c1 = c\<lparr>m_allocator := m, m_dict := d, c_user := u\<rparr> in
           case memory of
             None \<Rightarrow> Some (Inl (System_error out_of_memory), c1)
           | Some p \<Rightarrow> let ts = m_newest_timestamp c + 1
                       in Some (Inr p, c1\<lparr>m_newest_timestamp := ts,
                            c_mem := item_new now p key hash (of_nat value_length) flags keepalive ts (c_mem c)\<rparr>))))"

section \<open>The commands\<close>

definition do_get :: "nat fresh_arrays \<Rightarrow> (nat \<Rightarrow> u32) \<Rightarrow> u8 list \<Rightarrow> u32 \<Rightarrow> 'u cache \<Rightarrow> (nat option, 'u) outcome" where
  "do_get fresh clk key hash c =
     Option.bind (retrieve_item fresh (clk 0) key hash True (count_stat cmd_get c)) (\<lambda>(r, c1).
       case r of
         Inl e \<Rightarrow> Some (Inl e, c1)
       | Inr (found, at) \<Rightarrow>
           if found then map_option (\<lambda>item. (Inr (Some item), count_stat get_hits c1)) (iter_value (m_dict c1) at)
           else Some (Inr None, count_stat get_misses c1))"

definition do_set :: "nat fresh_arrays \<Rightarrow> (nat \<Rightarrow> u32) \<Rightarrow> nat \<Rightarrow> 'u cache \<Rightarrow> (unit, 'u) outcome" where
  "do_set fresh clk item c =
     Option.bind (retrieve_item fresh (clk 0) (item_key (c_mem c) item) (item_hash (c_mem c) item) False (count_stat cmd_set c))
       (\<lambda>(r, c1).
         case r of
           Inl e \<Rightarrow> auto_delete item (Inl e) c1
         | Inr (found, at) \<Rightarrow>
             if \<not> found then map_option (Pair (Inr ())) (insert_item_at at item (count_stat set_new c1))
             else map_option (Pair (Inr ())) (replace_item_at at item (count_stat set_existing c1)))"

definition do_add :: "nat fresh_arrays \<Rightarrow> (nat \<Rightarrow> u32) \<Rightarrow> nat \<Rightarrow> 'u cache \<Rightarrow> (bool, 'u) outcome" where
  "do_add fresh clk item c =
     Option.bind (retrieve_item fresh (clk 0) (item_key (c_mem c) item) (item_hash (c_mem c) item) False (count_stat cmd_add c))
       (\<lambda>(r, c1).
         case r of
           Inl e \<Rightarrow> auto_delete item (Inl e) c1
         | Inr (found, at) \<Rightarrow>
             if \<not> found
             then map_option (\<lambda>c2. (Inr True, count_stat add_stored c2)) (insert_item_at at item c1)
             else auto_delete item (Inr False) (count_stat add_not_stored c1))"

definition do_replace :: "nat fresh_arrays \<Rightarrow> (nat \<Rightarrow> u32) \<Rightarrow> nat \<Rightarrow> 'u cache \<Rightarrow> (bool, 'u) outcome" where
  "do_replace fresh clk item c =
     Option.bind (retrieve_item fresh (clk 0) (item_key (c_mem c) item) (item_hash (c_mem c) item) False (count_stat cmd_replace c))
       (\<lambda>(r, c1).
         case r of
           Inl e \<Rightarrow> auto_delete item (Inl e) c1
         | Inr (found, at) \<Rightarrow>
             if found
             then map_option (\<lambda>c2. (Inr True, count_stat replace_stored c2)) (replace_item_at at item c1)
             else auto_delete item (Inr False) (count_stat replace_not_stored c1))"

definition do_cas :: "nat fresh_arrays \<Rightarrow> (nat \<Rightarrow> u32) \<Rightarrow> nat \<Rightarrow> u64 \<Rightarrow> 'u cache \<Rightarrow> (bool \<times> bool, 'u) outcome" where
  "do_cas fresh clk item cas_unique c =
     Option.bind (retrieve_item fresh (clk 0) (item_key (c_mem c) item) (item_hash (c_mem c) item) False (count_stat cmd_cas c))
       (\<lambda>(r, c1).
         case r of
           Inl e \<Rightarrow> auto_delete item (Inl e) c1
         | Inr (found, at) \<Rightarrow>
             if found
             then Option.bind (iter_value (m_dict c1) at) (\<lambda>old_item.
                    if cas_unique = item_timestamp (c_mem c1) old_item
                    then map_option (\<lambda>c2. (Inr (True, True), count_stat cas_stored c2)) (replace_item_at at item c1)
                    else auto_delete item (Inr (True, False)) (count_stat cas_badval c1))
             else auto_delete item (Inr (False, False)) (count_stat cas_misses c1))"

definition do_extend :: "nat fresh_arrays \<Rightarrow> (nat \<Rightarrow> u32) \<Rightarrow> ExtendOperation \<Rightarrow> nat \<Rightarrow> 'u cache \<Rightarrow> (bool, 'u) outcome" where
  "do_extend fresh clk op piece c =
     Option.bind (retrieve_item fresh (clk 0) (item_key (c_mem c) piece) (item_hash (c_mem c) piece) False
         (count_stat (if op = APPEND then cmd_append else cmd_prepend) c))
       (\<lambda>(r, c1).
         case r of
           Inl e \<Rightarrow> auto_delete piece (Inl e) c1
         | Inr (found, at) \<Rightarrow>
             if found
             then Option.bind (iter_value (m_dict c1) at) (\<lambda>old_item.
                    let M = c_mem c1;
                        old_value = item_value M old_item; piece_value = item_value M piece;
                        new_value_size = length old_value + length piece_value
                    in Option.bind (alloc_or_evict (m_allocator c1) (CalcSizeRequired (item_key M old_item) new_value_size) False (\<lambda>_ u. u) ())
                         (\<lambda>(memory, m, _).
                           let c2 = c1\<lparr>m_allocator := m\<rparr> in
                           case memory of
                             None \<Rightarrow> auto_delete piece (Inl (System_error out_of_memory)) c2
                           | Some p \<Rightarrow>
                               let ts = m_newest_timestamp c2 + 1;
                                   M1 = item_new (clk 2) p (item_key M old_item) (item_hash M old_item) (of_nat new_value_size)
                                          (opaque_flags M old_item) (item_ttl (clk 1) M old_item) ts M;
                                   M2 = (if op = APPEND then assign_compose p old_value piece_value M1
                                         else assign_compose p piece_value old_value M1);
                                   c3 = count_stat (if op = APPEND then append_stored else prepend_stored)
                                          (c2\<lparr>m_newest_timestamp := ts, c_mem := M2\<rparr>)
                               in Option.bind (replace_item_at at p c3) (auto_delete piece (Inr True))))
             else auto_delete piece (Inr False) (count_stat (if op = APPEND then append_misses else prepend_misses) c1))"

definition do_append :: "nat fresh_arrays \<Rightarrow> (nat \<Rightarrow> u32) \<Rightarrow> nat \<Rightarrow> 'u cache \<Rightarrow> (bool, 'u) outcome" where
  "do_append fresh clk = do_extend fresh clk APPEND"

definition do_prepend :: "nat fresh_arrays \<Rightarrow> (nat \<Rightarrow> u32) \<Rightarrow> nat \<Rightarrow> 'u cache \<Rightarrow> (bool, 'u) outcome" where
  "do_prepend fresh clk = do_extend fresh clk PREPEND"

definition do_delete :: "nat fresh_arrays \<Rightarrow> (nat \<Rightarrow> u32) \<Rightarrow> u8 list \<Rightarrow> u32 \<Rightarrow> 'u cache \<Rightarrow> (bool, 'u) outcome" where
  "do_delete fresh clk key hash c =
     Option.bind (retrieve_item fresh (clk 0) key hash True (count_stat cmd_delete c)) (\<lambda>(r, c1).
       case r of
         Inl e \<Rightarrow> Some (Inl e, c1)
       | Inr (found, at) \<Rightarrow>
           if found
           then Option.bind (iter_value (m_dict c1) at) (\<lambda>item.
                  Option.bind (dict_remove (m_dict c1) at) (\<lambda>d.
                    map_option (\<lambda>c2. (Inr True, count_stat delete_hits c2)) (destroy_item item (c1\<lparr>m_dict := d\<rparr>))))
           else Some (Inr False, count_stat delete_misses c1))"

definition do_touch :: "nat fresh_arrays \<Rightarrow> (nat \<Rightarrow> u32) \<Rightarrow> u8 list \<Rightarrow> u32 \<Rightarrow> u32 \<Rightarrow> 'u cache \<Rightarrow> (bool, 'u) outcome" where
  "do_touch fresh clk key hash keepalive c =
     Option.bind (retrieve_item fresh (clk 0) key hash True (count_stat cmd_touch c)) (\<lambda>(r, c1).
       case r of
         Inl e \<Rightarrow> Some (Inl e, c1)
       | Inr (found, at) \<Rightarrow>
           if found
           then map_option (\<lambda>item. (Inr True, count_stat touch_hits
                  (c1\<lparr>m_allocator := mem_touch (m_allocator c1) item, c_mem := set_ttl (clk 1) item keepalive (c_mem c1)\<rparr>)))
                  (iter_value (m_dict c1) at)
           else Some (Inr False, count_stat touch_misses c1))"

definition do_flush_all :: "(nat \<Rightarrow> u32) \<Rightarrow> 'u cache \<Rightarrow> (unit, 'u) outcome" where
  "do_flush_all clk c =
     Option.bind (dict_remove_if (\<lambda>item (i, m).
           if is_expired (clk i) (c_mem c) item then (True, i + 1, Option.bind m (\<lambda>m. mem_free m item)) else (False, i + 1, m))
         (m_dict c) (0, Some (m_allocator c)))
       (\<lambda>(d, _, m). map_option (\<lambda>m. (Inr (), count_stat cmd_flush (c\<lparr>m_dict := d, m_allocator := m\<rparr>))) m)"

definition do_arithmetic ::
  "nat fresh_arrays \<Rightarrow> (nat \<Rightarrow> u32) \<Rightarrow> ArithmeticOperation \<Rightarrow> u8 list \<Rightarrow> u32 \<Rightarrow> u64 \<Rightarrow> 'u cache \<Rightarrow> (bool \<times> u64, 'u) outcome" where
  "do_arithmetic fresh clk op key hash delta c =
     Option.bind (retrieve_item fresh (clk 0) key hash False (count_stat (if op = INCR then cmd_incr else cmd_decr) c))
       (\<lambda>(r, c1).
         case r of
           Inl e \<Rightarrow> Some (Inl e, c1)
         | Inr (found, at) \<Rightarrow>
             if \<not> found then Some (Inr (False, 0), count_stat (if op = INCR then incr_misses else decr_misses) c1)
             else Option.bind (iter_value (m_dict c1) at) (\<lambda>old_item.
               let M = c_mem c1 in
               case str_to_int 64 (item_value M old_item) of
                 Inl e \<Rightarrow> Some (Inl e, c1)
               | Inr old_nat \<Rightarrow>
                   let old_int_value = of_nat old_nat :: u64;
                       new_int_value = (if op = INCR
                          then (if - 1 - old_int_value \<ge> delta then old_int_value + delta else - 1)
                          else (if old_int_value \<ge> delta then old_int_value - delta else 0));
                       c2 = count_stat (if op = INCR then incr_hits else decr_hits) c1;
                       new_ascii_value = int_to_str 64 (int (unat new_int_value))
                   in Option.bind (create_item (clk 2) (item_key M old_item) (item_hash M old_item) (length new_ascii_value)
                          (opaque_flags M old_item) (item_ttl (clk 1) M old_item) c2) (\<lambda>(r', c3).
                        case r' of
                          Inl e \<Rightarrow> Some (Inl e, c3)
                        | Inr new_item \<Rightarrow>
                            map_option (Pair (Inr (True, new_int_value)))
                              (replace_item_at at new_item (c3\<lparr>c_mem := assign_value new_item new_ascii_value (c_mem c3)\<rparr>)))))"

definition do_incr :: "nat fresh_arrays \<Rightarrow> (nat \<Rightarrow> u32) \<Rightarrow> u8 list \<Rightarrow> u32 \<Rightarrow> u64 \<Rightarrow> 'u cache \<Rightarrow> (bool \<times> u64, 'u) outcome" where
  "do_incr fresh clk = do_arithmetic fresh clk INCR"

definition do_decr :: "nat fresh_arrays \<Rightarrow> (nat \<Rightarrow> u32) \<Rightarrow> u8 list \<Rightarrow> u32 \<Rightarrow> u64 \<Rightarrow> 'u cache \<Rightarrow> (bool \<times> u64, 'u) outcome" where
  "do_decr fresh clk = do_arithmetic fresh clk DECR"

definition publish_stats :: "'u cache \<Rightarrow> 'u cache" where
  "publish_stats c = c\<lparr>c_stats := stat_set curr_items (ucast (dict_size (m_dict c)))
      (stat_set hash_capacity (ucast (dict_capacity (m_dict c))) (c_stats c)),
     c_hash_is_expanding := is_expanding (m_dict c)\<rparr>"

end
