(* ===== verification/Cache_Dict.thy ===== *)
theory Cache_Dict
  imports Dict_Map
begin

text \<open>
  What the cache needs of the dictionary beyond the operations of \<open>Dict_Map\<close>: keys that are read from
  a memory that changes, the replacement of an entry in place, the position of a removed entry as a place
  for its successor, and the growth of the table.
\<close>

text \<open>The system has no memory for a table of \<open>2 ^ 31\<close> slots, so the dictionary never grows to a size its
  32-bit positions cannot count.\<close>

definition fresh_limited :: "'e fresh_arrays \<Rightarrow> bool" where
  "fresh_limited fresh \<longleftrightarrow> fresh_ok fresh \<and> (\<forall>n. 2 ^ 31 \<le> unat n \<longrightarrow> fresh n = None)"

text \<open>The key is not waiting in the secondary table of an expansion.\<close>

definition settled :: "('e \<Rightarrow> 'k) \<Rightarrow> 'e dict \<Rightarrow> 'k \<Rightarrow> bool" where
  "settled key_of d key \<longleftrightarrow> (case m_secondary_tbl d of None \<Rightarrow> True | Some s \<Rightarrow> key \<notin> ht_keys key_of s)"

section \<open>Keys read from memory\<close>

lemma keys_ok_entries:
  assumes "\<And>h e. (h, e) \<in># M \<Longrightarrow> key_of' e = key_of e"
  shows "keys_ok key_of' hf M = keys_ok key_of hf M"
proof -
  have "filter_mset (\<lambda>s. key_of' (snd s) = k) M = filter_mset (\<lambda>s. key_of (snd s) = k) M" for k
    using assms by (intro filter_mset_cong) auto
  moreover have "(\<forall>s \<in># M. fst s = hf (key_of' (snd s))) = (\<forall>s \<in># M. fst s = hf (key_of (snd s)))"
    using assms by fastforce
  ultimately show ?thesis by (simp add: keys_ok_def)
qed

lemma dict_entries:
  assumes "dict_inv key_of hf d" and "\<And>h e. (h, e) \<in># dict_mset d \<Longrightarrow> key_of' e = key_of e"
  shows "dict_inv key_of' hf d" and "dict_map key_of' d = dict_map key_of d"
proof -
  have ok: "keys_ok key_of' hf (dict_mset d)"
    using keys_ok_entries [of "dict_mset d" key_of' key_of hf] assms(2) dict_invD(2) [OF assms(1)] by simp
  then show "dict_inv key_of' hf d" using assms(1) by (simp add: dict_inv_def)
  have "represents key_of' (dict_map key_of d) (dict_mset d)"
    using dict_map_represents [OF dict_invD(2) [OF assms(1)]] assms(2) unfolding represents_def by metis
  then show "dict_map key_of' d = dict_map key_of d"
    using dict_map_represents [OF ok] by (intro represents_unique)
qed

lemma dict_ran:
  assumes "dict_inv key_of hf d"
  shows "ran (dict_map key_of d) = snd ` set_mset (dict_mset d)"
    and "dict_map key_of d k = Some e \<Longrightarrow> key_of e = k \<and> (hf k, e) \<in># dict_mset d"
proof -
  note r = representsD [OF dict_map_represents [OF dict_invD(2) [OF assms]]]
  show "ran (dict_map key_of d) = snd ` set_mset (dict_mset d)"
    unfolding ran_def using r by force
  show "key_of e = k \<and> (hf k, e) \<in># dict_mset d" if "dict_map key_of d k = Some e"
    using r [of k e] that keys_ok_hash [OF dict_invD(2) [OF assms]] by auto
qed

lemma dict_same_keys:
  assumes "dict_inv key_of hf d" and "dict_inv key_of' hf d" and "dict_map key_of' d = dict_map key_of d"
    and "(h, e) \<in># dict_mset d"
  shows "key_of' e = key_of e"
proof -
  have "dict_map key_of d (key_of e) = Some e"
    using representsD [OF dict_map_represents [OF dict_invD(2) [OF assms(1)]], of "key_of e" e] assms(4) by blast
  then show ?thesis using dict_ran(2) [OF assms(2), of "key_of e" e] assms(3) by simp
qed

lemma settled_primary:
  assumes "dict_inv key_of hf d" and "settled key_of d key" and "dict_map key_of d key \<noteq> None"
  shows "key \<in> ht_keys key_of (m_primary_tbl d)"
  using dict_map_tables [OF assms(1)] assms(2,3) by (auto simp: settled_def split: option.splits)

lemma absent_settled:
  assumes "dict_inv key_of hf d" and "dict_map key_of d key = None"
  shows "settled key_of d key"
  using dict_map_tables [OF assms(1)] assms(2) by (auto simp: settled_def split: option.splits)

lemma settled_sub:
  assumes "settled key_of d key"
    and "\<forall>t. m_secondary_tbl d' = Some t \<longrightarrow> (\<exists>s. m_secondary_tbl d = Some s \<and> ht_mset t \<subseteq># ht_mset s)"
  shows "settled key_of d' key"
proof (cases "m_secondary_tbl d'")
  case (Some t)
  then obtain s where s: "m_secondary_tbl d = Some s" "ht_mset t \<subseteq># ht_mset s" using assms(2) by blast
  have "ht_keys key_of t \<subseteq> ht_keys key_of s" unfolding ht_keys_def using s(2) by (intro image_mono) (rule set_mset_mono)
  then show ?thesis using assms(1) s(1) Some by (auto simp: settled_def)
qed (simp add: settled_def)

lemma settled_entries:
  assumes "settled key_of d key" and "\<And>h e. (h, e) \<in># dict_mset d \<Longrightarrow> key_of' e = key_of e"
  shows "settled key_of' d key"
proof (cases "m_secondary_tbl d")
  case (Some s)
  have "key_of' e = key_of e" if "(h, e) \<in># ht_mset s" for h e
    using assms(2) [of h e] that Some by (simp add: dict_mset_def)
  then have "(key_of' \<circ> snd) ` set_mset (ht_mset s) = (key_of \<circ> snd) ` set_mset (ht_mset s)"
    by (intro image_cong) auto
  then show ?thesis using assms(1) Some by (simp add: settled_def ht_keys_def)
qed (simp add: settled_def)

section \<open>Positions\<close>

lemma iter_value_primary: "iter_value d (Primary, pos) = Some e \<longleftrightarrow> hash_at (m_primary_tbl d) pos \<noteq> 0 \<and> entry_at (m_primary_tbl d) pos = e"
  by (simp add: iter_value_def iter_bool_def empty_at_def)

lemma primary_settled:
  assumes inv: "dict_inv key_of hf d" and p: "unat pos < unat (m_capacity (m_primary_tbl d))"
    and at: "iter_value d (Primary, pos) = Some e"
  shows "settled key_of d (key_of e)"
proof (cases "m_secondary_tbl d")
  case (Some s)
  let ?t = "m_primary_tbl d"
  have h: "hash_at ?t pos \<noteq> 0" "entry_at ?t pos = e" using at by (simp_all add: iter_value_primary)
  have "(hash_at ?t pos, e) \<in># ht_mset ?t"
    using p h ht_structD(1) [OF dict_invD(1) [OF inv]] by (metis ht_mset_iff slots_nth fst_conv)
  then obtain M where M: "ht_mset ?t = add_mset (hash_at ?t pos, e) M" by (metis insert_DiffM)
  then have d: "dict_mset d = add_mset (hash_at ?t pos, e) (M + ht_mset s)" using Some by (simp add: dict_mset_def)
  have "key_of e \<notin> (key_of \<circ> snd) ` set_mset (M + ht_mset s)"
    using keys_ok_unique dict_invD(2) [OF inv] d by (metis snd_conv)
  then show ?thesis using Some by (auto simp: settled_def ht_keys_def)
qed (simp add: settled_def)

text \<open>Where an entry was removed there is a place for another entry of its hash.\<close>

lemma dict_remove_here:
  assumes inv: "dict_inv key_of hf d" and p: "unat pos < unat (m_capacity (m_primary_tbl d))"
    and at: "iter_value d (Primary, pos) = Some e"
  obtains d' where "dict_remove d (Primary, pos) = Some d'" and "dict_inv key_of hf d'"
    and "dict_map key_of d' = (dict_map key_of d)(key_of e := None)"
    and "dict_mset d = add_mset (hf (key_of e), e) (dict_mset d')"
    and "insertion_point (m_primary_tbl d') pos (hf (key_of e))" and "dict_room d'"
    and "m_hashpower d' = m_hashpower d"
proof -
  let ?t = "m_primary_tbl d"
  have h: "hash_at ?t pos \<noteq> 0" "entry_at ?t pos = e" using at by (simp_all add: iter_value_primary)
  obtain d' where d': "dict_remove d (Primary, pos) = Some d'" "dict_inv key_of hf d'"
      "dict_map key_of d' = (dict_map key_of d)(key_of (entry_at ?t pos) := None)"
      "dict_mset d = add_mset (hash_at ?t pos, entry_at ?t pos) (dict_mset d')"
    by (rule dict_remove_correct [OF inv p h(1)])
  have hash: "hash_at ?t pos = hf (key_of e)"
    using keys_ok_hash [OF dict_invD(2) [OF inv], of "hash_at ?t pos" e] d'(4) h(2) by simp
  obtain t' where t': "ht_remove ?t pos = Some t'" "ht_inv key_of hf t'" "m_capacity t' = m_capacity ?t"
      "ht_mset ?t = add_mset (hash_at ?t pos, entry_at ?t pos) (ht_mset t')"
    by (rule ht_remove_map [OF dict_inv_tables(1) [OF inv] p h(1)])
  have eq: "d' = d\<lparr>m_primary_tbl := t'\<rparr>" using d'(1) t'(1) by (simp add: dict_remove_def)
  note st = dict_invD(1) [OF inv] and st' = ht_invD(1) [OF t'(2)]
  have "length (m_hashes t') = length (m_hashes ?t)"
    using ht_structD(1) [OF st] ht_structD(1) [OF st'] t'(3) by simp
  then have "insertion_point t' pos (hf (key_of e))"
    using ht_remove_insertion_point [OF st p h(1) t'(1,3)] hash by simp
  moreover have "unat (m_size ?t) = Suc (unat (m_size t'))"
    using ht_structD(3) [OF st] ht_structD(3) [OF st'] t'(4) by simp
  then have "dict_room d'"
    using ht_structD(4) [OF st] dict_invD(5) [OF inv] t'(3)
    by (auto simp: dict_room_def eq secondary_ok_def split: option.splits)
  ultimately show ?thesis using that [OF d'(1,2)] d'(3,4) h(2) hash eq by simp
qed

text \<open>The replacement in place of an entry by another of the same key.\<close>

lemma dict_replace_correct:
  assumes inv: "dict_inv key_of hf d" and p: "unat pos < unat (m_capacity (m_primary_tbl d))"
    and at: "iter_value d (Primary, pos) = Some e" and key: "key_of e' = key_of e"
  defines "d' \<equiv> unsafe_replace_kv d (Primary, pos) e'"
  shows "dict_inv key_of hf d'" and "dict_map key_of d' = (dict_map key_of d)(key_of e \<mapsto> e')"
    and "m_hashpower d' = m_hashpower d" and "is_expanding d' = is_expanding d"
    and "add_mset (hf (key_of e), e) (dict_mset d') = add_mset (hf (key_of e), e') (dict_mset d)"
proof -
  let ?t = "m_primary_tbl d"
  define t' where "t' = ?t\<lparr>m_entries := (m_entries ?t)[unat pos := e']\<rparr>"
  have eq: "d' = d\<lparr>m_primary_tbl := t'\<rparr>" by (simp add: d'_def unsafe_replace_kv_def t'_def set_entry_def)
  have h: "hash_at ?t pos \<noteq> 0" "entry_at ?t pos = e" using at by (simp_all add: iter_value_primary)
  note i = dict_invD [OF inv] and wf = ht_structD(1) [OF dict_invD(1) [OF inv]]
  have inv': "ht_inv key_of hf t'"
    unfolding t'_def using dict_inv_tables(1) [OF inv] p h(1) by (rule set_entry_correct) (simp add: h(2) key)
  have t'_slot: "t' = set_slot pos (hash_at ?t pos) e' ?t"
    using p wf by (simp add: t'_def set_slot_def hash_at_def)
  have swap: "add_mset (hash_at ?t pos, e) (ht_mset t') = add_mset (hash_at ?t pos, e') (ht_mset ?t)"
    unfolding t'_slot h(2) [symmetric] using wf p h(1,1) by (rule ht_mset_set_slot_used)
  have mem: "(hash_at ?t pos, e) \<in># ht_mset ?t" using p h wf by (metis ht_mset_iff slots_nth fst_conv)
  then have hash: "hash_at ?t pos = hf (key_of e)"
    using keys_ok_hash [OF ht_invD(2) [OF dict_inv_tables(1) [OF inv]]] by blast
  show m: "add_mset (hf (key_of e), e) (dict_mset d') = add_mset (hf (key_of e), e') (dict_mset d)"
    using swap unfolding hash dict_mset_def eq by (auto split: option.splits)
  obtain M where M: "dict_mset d = add_mset (hf (key_of e), e) M"
    using mem hash by (metis dict_mset_def insert_DiffM union_iff)
  then have M': "dict_mset d' = add_mset (hf (key_of e'), e') M" using m key by (simp add: add_mset_commute)
  have "keys_ok key_of hf M" using keys_ok_sub [OF i(2)] M by simp
  moreover have new: "key_of e' \<notin> (key_of \<circ> snd) ` set_mset M"
    using keys_ok_unique i(2) M key by (metis snd_conv)
  ultimately have ok: "keys_ok key_of hf (dict_mset d')" unfolding M' by (rule keys_ok_add)
  have st': "ht_struct t'" "m_capacity t' = m_capacity ?t" "m_size t' = m_size ?t"
    using ht_invD(1) [OF inv'] by (simp_all add: t'_def)
  show "dict_inv key_of hf d'"
    using i ok st' by (auto simp: dict_inv_def eq secondary_ok_def split: option.splits)
  have "represents key_of ((dict_map key_of d)(key_of e' := None)) M"
    using dict_map_represents [OF i(2)] new unfolding M key by (intro represents_sub) (simp_all add: mset_keys_def key)
  then have "represents key_of ((dict_map key_of d)(key_of e' := None, key_of e' \<mapsto> e')) (dict_mset d')"
    unfolding M' using new by (intro represents_add) (simp_all add: mset_keys_def)
  then show "dict_map key_of d' = (dict_map key_of d)(key_of e \<mapsto> e')"
    using represents_unique [OF dict_map_represents [OF ok]] key by fastforce
qed (simp_all add: d'_def unsafe_replace_kv_def is_expanding_def)

section \<open>The size of the table\<close>

lemma rehash_some_hashpower: "rehash_some key_of d = Some d' \<Longrightarrow> m_hashpower d' = m_hashpower d"
  by (auto simp: rehash_some_def Let_def end_expand_def split: option.splits if_splits)

lemma dict_insert_hashpower: "dict_insert d it h e = Some (it', d') \<Longrightarrow> m_hashpower d' = m_hashpower d"
  by (auto simp: dict_insert_def Option.bind_eq_Some_conv split: prod.splits table_ref.splits)

lemma dict_entry_for_hashpower:
  assumes "dict_entry_for fresh key_of d key h readonly = Some (r, d')"
  shows "m_hashpower d' = m_hashpower d
    \<or> m_hashpower d' = m_hashpower d + 1 \<and> fresh (pow2 (unat (m_hashpower d + 1))) \<noteq> None"
proof (cases "is_expanding d")
  case True
  then have "search_secondary key_of d key h = Some (r, d')" using assms by (simp add: dict_entry_for_def)
  then show ?thesis
    by (auto simp: search_secondary_def Option.bind_eq_Some_conv Let_def split: option.splits if_splits dest!: rehash_some_hashpower)
next
  case False
  then have "search_primary fresh key_of d key h readonly = Some (r, d')" using assms by (simp add: dict_entry_for_def)
  then show ?thesis
    by (auto simp: search_primary_def begin_expand_def Option.bind_eq_Some_conv Let_def
        split: option.splits if_splits sum.splits dest!: rehash_some_hashpower) (metis old.unit.exhaust sum.exhaust)
qed

lemma dict_entry_for_small:
  assumes "dict_entry_for fresh key_of d key h readonly = Some (r, d')" and "fresh_limited fresh"
    and "unat (m_hashpower d) < 31"
  shows "unat (m_hashpower d') < 31"
proof -
  have "fresh (pow2 31) = None" using assms(2) unat_pow2 [of 31, where 'a = 32] by (simp add: fresh_limited_def)
  moreover have "unat (m_hashpower d + 1) = Suc (unat (m_hashpower d))" using assms(3) unat_Suc_lt [of "m_hashpower d"] by simp
  ultimately show ?thesis
    using dict_entry_for_hashpower [OF assms(1)] assms(3) by (cases "unat (m_hashpower d) = 30") auto
qed

end
