(* ===== verification/Cache_Inv.thy ===== *)
theory Cache_Inv
  imports Cache Cache_Dict
begin

text \<open>
  The invariant of the cache: the blocks in use of the allocator are exactly the items of the dictionary
  and the loose items, those created and not yet stored; every item lies within its block and carries
  the hash of its key. The steps the commands are made of keep it: destroying, storing, replacing and
  writing an item, and creating one with the evictions this takes.
\<close>

section \<open>The contents and the invariant\<close>

record entry_view =
  v_value :: "u8 list"
  v_flags :: u16
  v_expiration :: u32
  v_timestamp :: u64

definition item_view :: "item_mem \<Rightarrow> nat \<Rightarrow> entry_view" where
  "item_view M p = \<lparr>v_value = item_value M p, v_flags = opaque_flags M p, v_expiration = expiration_time M p,
     v_timestamp = item_timestamp M p\<rparr>"

definition cached :: "'u cache \<Rightarrow> u8 list \<Rightarrow> nat option" where
  "cached c = dict_map (entry_key c) (m_dict c)"

definition contents :: "'u cache \<Rightarrow> u8 list \<Rightarrow> entry_view option" where
  "contents c k = map_option (item_view (c_mem c)) (cached c k)"

definition items_ok :: "(u8 list \<Rightarrow> u32) \<Rightarrow> item_mem \<Rightarrow> (nat \<times> nat) set \<Rightarrow> bool" where
  "items_ok hf M A \<longleftrightarrow> (\<forall>(p, s) \<in> A. item_fits M p s \<and> item_hash M p = hf (item_key M p))"

definition cache_rep :: "nat \<Rightarrow> (u8 list \<Rightarrow> u32) \<Rightarrow> nat set \<Rightarrow> 'u cache \<Rightarrow> (nat \<times> nat) set \<Rightarrow> bool" where
  "cache_rep P hf L c A \<longleftrightarrow> mem_inv (m_allocator c) A \<and> page_size (m_allocator c) = P \<and> dict_inv (entry_key c) hf (m_dict c)
     \<and> unat (m_hashpower (m_dict c)) < 31 \<and> fst ` A = ran (cached c) \<union> L \<and> ran (cached c) \<inter> L = {}
     \<and> items_ok hf (c_mem c) A"

definition cache_ok :: "nat \<Rightarrow> (u8 list \<Rightarrow> u32) \<Rightarrow> nat set \<Rightarrow> 'u cache \<Rightarrow> bool" where
  "cache_ok P hf L c \<longleftrightarrow> (\<exists>A. cache_rep P hf L c A)"

text \<open>What the callback of the user does for the evicted items.\<close>

definition told :: "'u cache \<Rightarrow> nat list \<Rightarrow> 'u \<Rightarrow> 'u" where
  "told c ptrs u = (case on_eviction c of None \<Rightarrow> u | Some f \<Rightarrow> fold (f (c_mem c)) ptrs u)"

section \<open>Consequences of the invariant\<close>

lemma entry_key_simps [simp]:
  "entry_key (c\<lparr>m_dict := d\<rparr>) = entry_key c" "entry_key (c\<lparr>m_allocator := m\<rparr>) = entry_key c"
  "entry_key (c\<lparr>c_stats := st\<rparr>) = entry_key c" "entry_key (c\<lparr>c_user := u\<rparr>) = entry_key c"
  "entry_key (c\<lparr>m_newest_timestamp := ts\<rparr>) = entry_key c"
  by (simp_all add: entry_key_def fun_eq_iff)

lemma cached_simps [simp]:
  "cached (c\<lparr>m_dict := d\<rparr>) = dict_map (entry_key c) d" "cached (c\<lparr>m_allocator := m\<rparr>) = cached c"
  "cached (c\<lparr>c_stats := st\<rparr>) = cached c" "cached (c\<lparr>c_user := u\<rparr>) = cached c"
  "cached (c\<lparr>m_newest_timestamp := ts\<rparr>) = cached c"
  by (simp_all add: cached_def)

lemma count_stat_simps [simp]:
  "m_allocator (count_stat n c) = m_allocator c" "m_dict (count_stat n c) = m_dict c" "c_mem (count_stat n c) = c_mem c"
  "entry_key (count_stat n c) = entry_key c" "cached (count_stat n c) = cached c"
  "m_evictions_enabled (count_stat n c) = m_evictions_enabled c" "m_newest_timestamp (count_stat n c) = m_newest_timestamp c"
  "on_eviction (count_stat n c) = on_eviction c" "c_user (count_stat n c) = c_user c"
  by (simp_all add: count_stat_def)

lemma cache_rep_count [simp]: "cache_rep P hf L (count_stat n c) A = cache_rep P hf L c A"
  by (simp add: cache_rep_def)

lemma cache_ok_count [simp]: "cache_ok P hf L (count_stat n c) = cache_ok P hf L c"
  by (simp add: cache_ok_def)

lemma contents_count [simp]: "contents (count_stat n c) = contents c"
  by (simp add: contents_def fun_eq_iff)

lemma cache_repD:
  assumes "cache_rep P hf L c A"
  shows "mem_inv (m_allocator c) A" and "dict_inv (entry_key c) hf (m_dict c)"
    and "unat (m_hashpower (m_dict c)) < 31" and "fst ` A = ran (cached c) \<union> L" and "ran (cached c) \<inter> L = {}"
    and "items_ok hf (c_mem c) A" and "page_size (m_allocator c) = P"
  using assms by (simp_all add: cache_rep_def)

lemma cached_item:
  assumes "cache_rep P hf L c A" and "cached c k = Some p"
  shows "item_key (c_mem c) p = k" and "p \<in> ran (cached c)" and "p \<notin> L" and "(hf k, p) \<in># dict_mset (m_dict c)"
    and "\<exists>s. (p, s) \<in> A"
proof -
  note r = cache_repD [OF assms(1)]
  have "entry_key c p = k \<and> (hf k, p) \<in># dict_mset (m_dict c)" using dict_ran(2) [OF r(2)] assms(2) by (simp add: cached_def)
  then show "item_key (c_mem c) p = k" "(hf k, p) \<in># dict_mset (m_dict c)" by (simp_all add: entry_key_def)
  show p: "p \<in> ran (cached c)" using assms(2) by (rule ranI)
  then show "p \<notin> L" using r(5) by blast
  have "p \<in> fst ` A" using p r(4) by blast
  then show "\<exists>s. (p, s) \<in> A" by force
qed

lemma held_once: "mem_inv m A \<Longrightarrow> (p, s) \<in> A \<Longrightarrow> (p, t) \<in> A \<Longrightarrow> s = t"
  using held_blocks_apart [of m A p s p t] by auto

lemma ran_upd_None:
  assumes "m k = Some p" and inj: "\<And>k'. m k' = Some p \<Longrightarrow> k' = k"
  shows "ran (m(k := None)) = ran m - {p}"
proof (intro set_eqI iffI)
  fix q assume "q \<in> ran (m(k := None))"
  then obtain k' where "m k' = Some q" "k' \<noteq> k" by (auto simp: ran_def split: if_splits)
  with inj show "q \<in> ran m - {p}" by (metis DiffI ranI singletonD)
next
  fix q assume "q \<in> ran m - {p}"
  then obtain k' where "m k' = Some q" "q \<noteq> p" by (auto simp: ran_def)
  with assms(1) have "(m(k := None)) k' = Some q" by auto
  then show "q \<in> ran (m(k := None))" by (rule ranI)
qed

lemma ran_remove:
  assumes "cache_rep P hf L c A" and "cached c k = Some p"
  shows "ran ((cached c)(k := None)) = ran (cached c) - {p}"
proof -
  have "k' = k" if "cached c k' = Some p" for k'
    using cached_item(1) [OF assms(1) that] cached_item(1) [OF assms] by simp
  with assms(2) show ?thesis by (rule ran_upd_None)
qed

lemma cached_ran_mset:
  assumes "dict_inv (entry_key c) hf (m_dict c)"
  shows "ran (cached c) = snd ` set_mset (dict_mset (m_dict c))"
  unfolding cached_def using assms by (rule dict_ran)

text \<open>The dictionary may be rearranged.\<close>

lemma cache_rep_dict:
  assumes "cache_rep P hf L c A" and "dict_inv (entry_key c) hf d" and "dict_mset d = dict_mset (m_dict c)"
    and "unat (m_hashpower d) < 31"
  shows "cache_rep P hf L (c\<lparr>m_dict := d\<rparr>) A" and "dict_map (entry_key c) d = cached c"
proof -
  show eq: "dict_map (entry_key c) d = cached c"
    unfolding cached_def by (rule dict_map_cong [OF dict_invD(2) [OF cache_repD(2) [OF assms(1)]] assms(3)])
  show "cache_rep P hf L (c\<lparr>m_dict := d\<rparr>) A" using assms eq by (simp add: cache_rep_def)
qed

lemma mem_inv_touch: "mem_inv m A \<Longrightarrow> mem_inv (mem_touch m p) A"
  unfolding mem_inv_def mem_rep_def using mem_ok_touch by (fastforce simp: mem_touch_def used_stat_def)

lemma page_size_touch [simp]: "page_size (mem_touch m p) = page_size m"
  by (simp add: mem_touch_def)

lemma cache_rep_touch: "cache_rep P hf L c A \<Longrightarrow> cache_rep P hf L (c\<lparr>m_allocator := mem_touch (m_allocator c) p\<rparr>) A"
  by (simp add: cache_rep_def mem_inv_touch page_size_touch)

section \<open>Destroying a loose item\<close>

lemma mem_free_held:
  assumes "mem_inv m A" and "p \<in> fst ` A"
  obtains m' s where "mem_free m p = Some m'" and "mem_inv m' (A - {(p, s)})" and "fst ` (A - {(p, s)}) = fst ` A - {p}"
    and "same_geometry m m'"
proof -
  obtain s where s: "(p, s) \<in> A" using assms(2) by force
  have "fst ` (A - {(p, s)}) = fst ` A - {p}" using held_once [OF assms(1) s] by force
  with mem_free_inv [OF assms(1) s] that show ?thesis by blast
qed

lemma destroy_item_ok:
  assumes "cache_rep P hf L c A" and "p \<in> L"
  obtains m A' where "destroy_item p c = Some (c\<lparr>m_allocator := m\<rparr>)" and "cache_rep P hf (L - {p}) (c\<lparr>m_allocator := m\<rparr>) A'"
    and "A' \<subseteq> A" and "same_geometry (m_allocator c) m"
proof -
  note r = cache_repD [OF assms(1)]
  have "p \<in> fst ` A" using r(4) assms(2) by blast
  then obtain m s where m: "mem_free (m_allocator c) p = Some m" "mem_inv m (A - {(p, s)})" "fst ` (A - {(p, s)}) = fst ` A - {p}"
      "same_geometry (m_allocator c) m"
    using mem_free_held [OF r(1)] by blast
  have "ran (cached c) \<union> L - {p} = ran (cached c) \<union> (L - {p})" using r(5) assms(2) by blast
  then have "cache_rep P hf (L - {p}) (c\<lparr>m_allocator := m\<rparr>) (A - {(p, s)})"
    using r m(2-4) by (auto simp: cache_rep_def items_ok_def same_geometry_def)
  then show ?thesis using that m(1,4) by (simp add: destroy_item_def)
qed

text \<open>An item taken out of the dictionary is loose.\<close>

lemma cache_rep_unlink:
  assumes rep: "cache_rep P hf L c A" and p: "cached c k = Some p" and inv: "dict_inv (entry_key c) hf d"
    and m: "dict_map (entry_key c) d = (cached c)(k := None)" and hp: "m_hashpower d = m_hashpower (m_dict c)"
  shows "cache_rep P hf (insert p L) (c\<lparr>m_dict := d\<rparr>) A"
proof -
  note r = cache_repD [OF rep] and i = cached_item [OF rep p]
  have "ran (dict_map (entry_key c) d) = ran (cached c) - {p}" unfolding m by (rule ran_remove [OF rep p])
  then show ?thesis using r i(2,3) inv hp by (auto simp: cache_rep_def)
qed

section \<open>Storing a loose item\<close>

lemma insert_item_ok:
  assumes rep: "cache_rep P hf L c A" and p: "p \<in> L" and "item_key (c_mem c) p = k" and "cached c k = None" and "hf k \<noteq> 0"
    and "insertion_point (m_primary_tbl (m_dict c)) pos (hf k)" and "dict_room (m_dict c)"
  obtains d where "insert_item_at (Primary, pos) p c = Some (c\<lparr>m_dict := d\<rparr>)" and "cache_rep P hf (L - {p}) (c\<lparr>m_dict := d\<rparr>) A"
    and "dict_map (entry_key c) d = (cached c)(k \<mapsto> p)" and "settled (entry_key c) d k"
proof -
  note r = cache_repD [OF rep]
  have pA: "p \<in> fst ` A" using r(4) p by blast
  then have hash: "item_hash (c_mem c) p = hf k" using r(6) assms(3) by (auto simp: items_ok_def)
  have key: "entry_key c p = k" using assms(3) by (simp add: entry_key_def)
  obtain it d where d: "dict_insert (m_dict c) (Primary, pos) (hf k) p = Some (it, d)" "dict_inv (entry_key c) hf d"
      "dict_map (entry_key c) d = (cached c)(k \<mapsto> p)"
    by (rule dict_insert_correct [OF r(2), of pos p]) (use assms key in \<open>auto simp: cached_def\<close>)
  have "ran ((cached c)(k \<mapsto> p)) = insert p (ran (cached c))" using assms(4) by (rule ran_map_upd)
  then have "cache_rep P hf (L - {p}) (c\<lparr>m_dict := d\<rparr>) A"
    using r p d(2,3) dict_insert_hashpower [OF d(1)] by (auto simp: cache_rep_def)
  moreover have "settled (entry_key c) d k"
    using absent_settled [OF r(2)] assms(4) d(1) by (auto simp: cached_def settled_def dict_insert_def split: prod.splits)
  ultimately show ?thesis using that d(1,3) hash by (simp add: insert_item_at_def)
qed

lemma replace_item_ok:
  assumes rep: "cache_rep P hf L c A" and p: "p \<in> L" and key: "item_key (c_mem c) p = k" and q: "cached c k = Some q"
    and pos: "unat pos < unat (m_capacity (m_primary_tbl (m_dict c)))" and at: "iter_value (m_dict c) (Primary, pos) = Some q"
  obtains d m A' where "replace_item_at (Primary, pos) p c = Some (c\<lparr>m_dict := d, m_allocator := m\<rparr>)"
    and "cache_rep P hf (L - {p}) (c\<lparr>m_dict := d, m_allocator := m\<rparr>) A'" and "A' \<subseteq> A"
    and "dict_map (entry_key c) d = (cached c)(k \<mapsto> p)" and "settled (entry_key c) d k"
proof -
  note r = cache_repD [OF rep] and i = cached_item [OF rep q]
  have ks: "entry_key c p = entry_key c q" "entry_key c q = k" using key i(1) by (simp_all add: entry_key_def)
  define d where "d = unsafe_replace_kv (m_dict c) (Primary, pos) p"
  note d = dict_replace_correct [OF r(2) pos at ks(1), folded d_def]
  have qA: "q \<in> fst ` A" using r(4) i(2) by blast
  obtain m s where m: "mem_free (m_allocator c) q = Some m" "mem_inv m (A - {(q, s)})" "fst ` (A - {(q, s)}) = fst ` A - {q}"
      "same_geometry (m_allocator c) m"
    by (rule mem_free_held [OF r(1) qA])
  have map: "dict_map (entry_key c) d = (cached c)(k \<mapsto> p)" using d(2) ks(2) by (simp add: cached_def)
  have "ran ((cached c)(k \<mapsto> p)) = insert p (ran ((cached c)(k := None)))" by (auto simp: ran_def)
  then have ran: "ran ((cached c)(k \<mapsto> p)) = insert p (ran (cached c) - {q})" using ran_remove [OF rep q] by simp
  have "fst ` A - {q} = insert p (ran (cached c) - {q}) \<union> (L - {p})" "insert p (ran (cached c) - {q}) \<inter> (L - {p}) = {}"
    using r(4,5) i(3) p by auto
  then have "cache_rep P hf (L - {p}) (c\<lparr>m_dict := d, m_allocator := m\<rparr>) (A - {(q, s)})"
    using r(3,6,7) m(2-4) d(1,3) map ran by (simp add: cache_rep_def items_ok_def same_geometry_def)
  moreover have "replace_item_at (Primary, pos) p c = Some (c\<lparr>m_dict := d, m_allocator := m\<rparr>)"
    using at m(1) by (simp add: replace_item_at_def destroy_item_def d_def)
  moreover have "settled (entry_key c) d k"
    using primary_settled [OF r(2) pos at] ks(2) by (simp add: d_def unsafe_replace_kv_def settled_def)
  ultimately show ?thesis using that map by blast
qed

section \<open>Writing to a loose item\<close>

lemma item_view_same:
  assumes "same_block p s M M'" and "item_fits M p s"
  shows "item_view M' p = item_view M p"
  using same_block_item [OF assms] assms(1)
  by (simp add: item_view_def opaque_flags_def expiration_time_def item_timestamp_def same_block_def)

lemma others_same:
  assumes "mem_inv m A" and "(p, s) \<in> A" and "only_block p s M M'" and "(q, t) \<in> A" and "q \<noteq> p"
  shows "same_block q t M M'"
  using held_blocks_apart [OF assms(1,2,4)] only_block_same [OF assms(3), of q t] assms(5) by auto

lemma entry_key_eq: "entry_key c = item_key (c_mem c)"
  by (simp add: entry_key_def fun_eq_iff)

text \<open>Writing to one block changes the key and the value of no item in another.\<close>

lemma write_block:
  assumes inv: "mem_inv m A" and p: "(p, s) \<in> A" and w: "only_block p s M M'" and ok: "items_ok hf M (A - {(p, s)})"
    and new: "item_fits M' p s" "item_hash M' p = hf (item_key M' p)"
    and d: "dict_inv (item_key M) hf d" "p \<notin> ran (dict_map (item_key M) d)" "ran (dict_map (item_key M) d) \<subseteq> fst ` A"
  shows "items_ok hf M' A" and "dict_inv (item_key M') hf d" and "dict_map (item_key M') d = dict_map (item_key M) d"
    and "dict_map (item_key M) d k = Some q \<Longrightarrow> item_view M' q = item_view M q"
proof -
  have same: "same_block q t M M' \<and> item_fits M q t \<and> item_hash M q = hf (item_key M q)" if "(q, t) \<in> A" "q \<noteq> p" for q t
    using others_same [OF inv p w that] ok that by (auto simp: items_ok_def)
  have stored: "\<exists>t. (q, t) \<in> A \<and> q \<noteq> p" if "q \<in> ran (dict_map (item_key M) d)" for q
  proof -
    have "q \<in> fst ` A" "q \<noteq> p" using that d(2,3) by auto
    then show ?thesis by force
  qed
  have "item_key M' q = item_key M q" if "(h, q) \<in># dict_mset d" for h q
  proof -
    have "q \<in> ran (dict_map (item_key M) d)" using that dict_ran(1) [OF d(1)] by force
    from stored [OF this] obtain t where t: "(q, t) \<in> A" "q \<noteq> p" by blast
    show ?thesis using same [OF t] same_block_item(1) by blast
  qed
  note dd = dict_entries [where key_of' = "item_key M'", OF d(1) this]
  show "dict_inv (item_key M') hf d" by (rule dd(1))
  show "dict_map (item_key M') d = dict_map (item_key M) d" by (rule dd(2))
  show "items_ok hf M' A"
    unfolding items_ok_def
  proof clarify
    fix q t assume q: "(q, t) \<in> A"
    show "item_fits M' q t \<and> item_hash M' q = hf (item_key M' q)"
    proof (cases "q = p")
      case True
      then show ?thesis using held_once [OF inv p] q new by blast
    next
      case False
      with same [OF q] same_block_item [of q t M M'] show ?thesis by (simp add: item_hash_def same_block_def)
    qed
  qed
  assume "dict_map (item_key M) d k = Some q"
  then have "q \<in> ran (dict_map (item_key M) d)" by (rule ranI)
  from stored [OF this] obtain t where t: "(q, t) \<in> A" "q \<noteq> p" by blast
  show "item_view M' q = item_view M q" using same [OF t] item_view_same by blast
qed

lemma write_item_ok:
  assumes rep: "cache_rep P hf L c A" and p: "p \<in> L" "(p, s) \<in> A" and w: "only_block p s (c_mem c) M"
    and "item_fits M p s" and "item_hash M p = hf (item_key M p)"
  shows "cache_rep P hf L (c\<lparr>c_mem := M\<rparr>) A" and "cached (c\<lparr>c_mem := M\<rparr>) = cached c" and "contents (c\<lparr>c_mem := M\<rparr>) = contents c"
proof -
  note r = cache_repD [OF rep]
  have ok: "items_ok hf (c_mem c) (A - {(p, s)})" using r(6) by (auto simp: items_ok_def)
  have d: "dict_inv (item_key (c_mem c)) hf (m_dict c)" "p \<notin> ran (dict_map (item_key (c_mem c)) (m_dict c))"
      "ran (dict_map (item_key (c_mem c)) (m_dict c)) \<subseteq> fst ` A"
    using r(2,4,5) p(1) by (auto simp: entry_key_eq cached_def)
  note b = write_block [OF r(1) p(2) w ok assms(5,6) d]
  show eq: "cached (c\<lparr>c_mem := M\<rparr>) = cached c" using b(3) by (simp add: cached_def entry_key_eq)
  show "cache_rep P hf L (c\<lparr>c_mem := M\<rparr>) A" using r b(1,2) eq by (simp add: cache_rep_def entry_key_eq)
  show "contents (c\<lparr>c_mem := M\<rparr>) = contents c"
    unfolding contents_def eq using b(4) by (auto simp: fun_eq_iff cached_def entry_key_eq intro!: map_option_cong)
qed

section \<open>Evictions\<close>

lemma evicted:
  assumes "dict_inv (entry_key c) hf d" and "\<forall>p \<in> set ptrs. item_hash (c_mem c) p = hf (item_key (c_mem c) p)"
  shows "\<exists>d'. fold (on_delete c) ptrs (Some d, u) = (Some d', told c ptrs u) \<and> dict_inv (entry_key c) hf d'
    \<and> dict_map (entry_key c) d' = dict_map (entry_key c) d |` (- item_key (c_mem c) ` set ptrs) \<and> m_hashpower d' = m_hashpower d
    \<and> (\<forall>k. settled (entry_key c) d k \<longrightarrow> settled (entry_key c) d' k)"
  using assms
proof (induction ptrs arbitrary: d u)
  case Nil
  then show ?case by (simp add: told_def split: option.split)
next
  case (Cons p ptrs)
  let ?k = "item_key (c_mem c) p"
  obtain d1 where d1: "dict_del (entry_key c) d ?k (hf ?k) = Some (dict_map (entry_key c) d ?k \<noteq> None, d1)"
      "dict_inv (entry_key c) hf d1" "dict_map (entry_key c) d1 = (dict_map (entry_key c) d)(?k := None)"
      "m_hashpower d1 = m_hashpower d"
      "\<forall>t. m_secondary_tbl d1 = Some t \<longrightarrow> (\<exists>s. m_secondary_tbl d = Some s \<and> ht_mset t \<subseteq># ht_mset s)"
    by (rule dict_del_correct [OF Cons.prems(1), of ?k])
  have step: "on_delete c p (Some d, u) = (Some d1, told c [p] u)"
    using d1(1) Cons.prems(2) by (simp add: on_delete_def told_def split: option.split)
  obtain d' where "fold (on_delete c) ptrs (Some d1, told c [p] u) = (Some d', told c ptrs (told c [p] u))"
      "dict_inv (entry_key c) hf d'" "m_hashpower d' = m_hashpower d1"
      "dict_map (entry_key c) d' = dict_map (entry_key c) d1 |` (- item_key (c_mem c) ` set ptrs)"
      "\<forall>k. settled (entry_key c) d1 k \<longrightarrow> settled (entry_key c) d' k"
    using Cons.IH [OF d1(2), of "told c [p] u"] Cons.prems(2) by auto
  moreover have "told c ptrs (told c [p] u) = told c (p # ptrs) u" by (simp add: told_def split: option.split)
  moreover have "(dict_map (entry_key c) d)(?k := None) |` (- item_key (c_mem c) ` set ptrs)
      = dict_map (entry_key c) d |` (- item_key (c_mem c) ` set (p # ptrs))"
    by (auto simp: fun_eq_iff restrict_map_def)
  moreover have "settled (entry_key c) d k \<Longrightarrow> settled (entry_key c) d1 k" for k using d1(5) by (rule settled_sub [rotated])
  ultimately show ?case using step d1(3,4) by simp
qed

end
