(* ===== verification/Cache_Steps.thy ===== *)
theory Cache_Steps
  imports Cache_Inv
begin

text \<open>
  The two steps every command of the cache is made of: \<^verbatim>\<open>create_item\<close> with the evictions it takes,
  and \<^verbatim>\<open>retrieve_item\<close> with the removal of an expired item.
\<close>

section \<open>Creating an item\<close>

text \<open>The keys of the items in a set of blocks.\<close>

definition keys_in :: "'u cache \<Rightarrow> (nat \<times> nat) set \<Rightarrow> u8 list set" where
  "keys_in c V = item_key (c_mem c) ` fst ` V"

lemma cached_key:
  assumes "cache_rep P hf L c A" and "p \<in> ran (cached c)"
  shows "cached c (item_key (c_mem c) p) = Some p"
proof -
  obtain k where k: "cached c k = Some p" using assms(2) by (auto simp: ran_def)
  then show ?thesis using cached_item(1) [OF assms(1) k] by simp
qed

lemma ran_evicted:
  assumes rep: "cache_rep P hf L c A" and V: "fst ` V \<subseteq> ran (cached c)"
  shows "ran (cached c |` (- keys_in c V)) = ran (cached c) - fst ` V"
proof (intro set_eqI iffI)
  fix p assume "p \<in> ran (cached c |` (- keys_in c V))"
  then obtain k where k: "cached c k = Some p" "k \<notin> keys_in c V" by (auto simp: ran_def restrict_map_def split: if_splits)
  then have "p \<notin> fst ` V" using cached_item(1) [OF rep k(1)] by (auto simp: keys_in_def)
  then show "p \<in> ran (cached c) - fst ` V" using ranI [of "cached c"] k(1) by simp
next
  fix p assume p: "p \<in> ran (cached c) - fst ` V"
  let ?k = "item_key (c_mem c) p"
  have k: "cached c ?k = Some p" using cached_key [OF rep] p by simp
  have "?k \<notin> keys_in c V"
  proof
    assume "?k \<in> keys_in c V"
    then obtain q where q: "q \<in> fst ` V" "?k = item_key (c_mem c) q" by (auto simp: keys_in_def)
    then have "cached c ?k = Some q" using cached_key [OF rep] V by (metis subsetD)
    then show False using k q(1) p by simp
  qed
  then have "(cached c |` (- keys_in c V)) ?k = Some p" using k by (simp add: restrict_map_def)
  then show "p \<in> ran (cached c |` (- keys_in c V))" by (rule ranI)
qed

lemma held_below: "mem_inv m A \<Longrightarrow> (p, s) \<in> A \<Longrightarrow> s < 2 ^ 32"
  using held_size(2,3) total_le_arena(2) unfolding mem_inv_def mem_rep_def by fastforce

text \<open>The block of a new item is initialised in a cache whose evictions are done.\<close>

lemma new_item_ok:
  assumes m: "mem_inv m A" and A: "(p, s) \<in> A" "items_ok hf (c_mem c) (A - {(p, s)})"
    and d: "dict_inv (entry_key c) hf d" "unat (m_hashpower d) < 31"
      "fst ` A = ran (dict_map (entry_key c) d) \<union> insert p L" "ran (dict_map (entry_key c) d) \<inter> insert p L = {}"
    and size: "CalcSizeRequired key n \<le> s" "length key < 256" and ps: "page_size m = P"
    and c'_def: "c' = c\<lparr>m_allocator := m, m_dict := d, c_user := u, m_newest_timestamp := ts,
    c_mem := item_new now p key (hf key) (of_nat n) flags ttl ts (c_mem c)\<rparr>"
  shows "cache_rep P hf (insert p L) c' A" and "cached c' = dict_map (entry_key c) d"
    and "contents c' k = map_option (item_view (c_mem c)) (dict_map (entry_key c) d k)"
proof -
  let ?M = "item_new now p key (hf key) (of_nat n) flags ttl ts (c_mem c)"
  have s: "24 + length key + n \<le> s" using size(1) by (simp add: CalcSizeRequired_def sizeof_Item_def)
  have n: "unat (of_nat n :: u32) = n" using s held_below [OF m A(1)] by (simp add: unat_of_nat)
  note sp = item_new_spec [OF size(2) refl, where now = now and p = p and h = "hf key" and vl = "of_nat n"
      and fl = flags and ttl = ttl and ts = ts and M = "c_mem c"]
  have w: "only_block p s (c_mem c) ?M" using sp(3) s by simp
  have fits: "item_fits ?M p s" "item_hash ?M p = hf (item_key ?M p)"
    using s n unat_key_length [OF size(2)] sp(1) by (simp_all add: item_fits_def item_hash_def sp(2) sizeof_Item_def)
  have dd: "dict_inv (item_key (c_mem c)) hf d" "p \<notin> ran (dict_map (item_key (c_mem c)) d)"
      "ran (dict_map (item_key (c_mem c)) d) \<subseteq> fst ` A"
    using d(1,3,4) by (auto simp: entry_key_eq)
  note b = write_block [OF m A(1) w A(2) fits dd]
  show eq: "cached c' = dict_map (entry_key c) d" using b(3) by (simp add: cached_def c'_def entry_key_eq)
  show "cache_rep P hf (insert p L) c' A"
    using m b(1,2) d(2-4) eq ps by (simp add: cache_rep_def c'_def entry_key_eq)
  show "contents c' k = map_option (item_view (c_mem c)) (dict_map (entry_key c) d k)"
    unfolding contents_def eq using b(4) by (auto simp: c'_def entry_key_eq intro!: map_option_cong)
qed

text \<open>
  \<^verbatim>\<open>create_item\<close> for a size that fits a page with its header. When evictions are enabled nothing may be
  loose: an eviction takes for granted that every block of the page is in the dictionary.
\<close>

lemma create_item_ok:
  assumes rep: "cache_rep P hf L c A" and key: "length key \<le> max_key_length"
    and size: "CalcSizeRequired key n + 8 \<le> P" and L: "L = {} \<or> \<not> m_evictions_enabled c"
  obtains (full) m where "create_item now key (hf key) n flags ttl c = Some (Inl (System_error out_of_memory), c\<lparr>m_allocator := m\<rparr>)"
      and "\<not> m_evictions_enabled c" and "cache_rep P hf L (c\<lparr>m_allocator := m\<rparr>) A"
  | (made) p s c' m d V ptrs A' where "create_item now key (hf key) n flags ttl c = Some (Inr p, c')"
      and "c' = c\<lparr>m_allocator := m, m_dict := d, c_user := told c ptrs (c_user c), m_newest_timestamp := m_newest_timestamp c + 1,
        c_mem := item_new now p key (hf key) (of_nat n) flags ttl (m_newest_timestamp c + 1) (c_mem c)\<rparr>"
      and "cache_rep P hf (insert p L) c' A'" and "(p, s) \<in> A'" and "CalcSizeRequired key n \<le> s" and "p \<notin> L"
      and "cached c' = cached c |` (- keys_in c V)" and "contents c' = contents c |` (- keys_in c V)"
      and "V = {} \<or> m_evictions_enabled c \<and> V = lru_page_mem (m_allocator c) A" and "set ptrs = fst ` V" and "distinct ptrs"
      and "V = {} \<Longrightarrow> d = m_dict c" and "\<forall>k. settled (entry_key c) (m_dict c) k \<longrightarrow> settled (entry_key c') (m_dict c') k"
proof -
  let ?n = "CalcSizeRequired key n"
  note r = cache_repD [OF rep]
  have n: "?n < page_size (m_allocator c)" "\<not> page_size (m_allocator c) < ?n + 8" using size r(7) by simp_all
  have guards: "create_item now key (hf key) n flags ttl c = Option.bind (alloc_or_evict (m_allocator c) ?n (m_evictions_enabled c)
      (on_delete c) (Some (m_dict c), c_user c)) (\<lambda>(memory, m, d, u). Option.bind d (\<lambda>d.
        let c1 = c\<lparr>m_allocator := m, m_dict := d, c_user := u\<rparr> in
        case memory of
          None \<Rightarrow> Some (Inl (System_error out_of_memory), c1)
        | Some p \<Rightarrow> let ts = m_newest_timestamp c + 1
            in Some (Inr p, c1\<lparr>m_newest_timestamp := ts, c_mem := item_new now p key (hf key) (of_nat n) flags ttl ts (c_mem c)\<rparr>)))"
    using key n(1) by (simp add: create_item_def Let_def)
  obtain x m st where a: "alloc_or_evict (m_allocator c) ?n (m_evictions_enabled c) (on_delete c) (Some (m_dict c), c_user c) = Some (x, m, st)"
      "same_geometry (m_allocator c) m"
      "case x of None \<Rightarrow> \<not> m_evictions_enabled c \<and> mem_inv m A \<and> st = (Some (m_dict c), c_user c)
      | Some p \<Rightarrow> 8 dvd p \<and> (\<exists>sz V ptrs. V \<subseteq> A \<and> p \<notin> fst ` (A - V) \<and> mem_inv m (insert (p, sz) (A - V))
          \<and> st = fold (on_delete c) ptrs (Some (m_dict c), c_user c) \<and> distinct ptrs \<and> set ptrs = fst ` V
          \<and> (V = {} \<or> m_evictions_enabled c \<and> V = lru_page_mem (m_allocator c) A)
          \<and> (m_evictions_enabled c \<and> page_size (m_allocator c) < ?n + 8 \<or> ?n \<le> sz) \<and> sz + 8 \<le> page_size (m_allocator c))"
    using mem_alloc_inv [OF r(1) n(1), of "m_evictions_enabled c" "on_delete c" "(Some (m_dict c), c_user c)"] by blast
  have ps: "page_size m = P" using a(2) r(7) by (simp add: same_geometry_def)
  show ?thesis
  proof (cases x)
    case None
    then show ?thesis using a full [of m] r ps by (simp add: guards cache_rep_def)
  next
    case (Some p)
    then obtain s V ptrs where v: "V \<subseteq> A" "p \<notin> fst ` (A - V)" "mem_inv m (insert (p, s) (A - V))"
        "st = fold (on_delete c) ptrs (Some (m_dict c), c_user c)" "distinct ptrs" "set ptrs = fst ` V"
        "V = {} \<or> m_evictions_enabled c \<and> V = lru_page_mem (m_allocator c) A" "?n \<le> s"
      using a(3) n(2) by auto
    have VR: "fst ` V \<subseteq> ran (cached c)" using v(1,7) L r(4) by auto
    have hashes: "\<forall>q \<in> set ptrs. item_hash (c_mem c) q = hf (item_key (c_mem c) q)"
      using r(6) v(1,6) by (fastforce simp: items_ok_def)
    from evicted [OF r(2) hashes, of "c_user c"] obtain d where d: "st = (Some d, told c ptrs (c_user c))"
        "dict_inv (entry_key c) hf d" "m_hashpower d = m_hashpower (m_dict c)"
        "dict_map (entry_key c) d = cached c |` (- keys_in c V)" "\<forall>k. settled (entry_key c) (m_dict c) k \<longrightarrow> settled (entry_key c) d k"
      using v(4,6) by (auto simp: cached_def keys_in_def)
    have "p \<notin> ran (cached c) - fst ` V" "p \<notin> L"
      using v(2) r(4,5) VR by (force)+
    note ran = ran_evicted [OF rep VR]
    have fstA: "fst ` (A - V) = fst ` A - fst ` V"
      using held_once [OF r(1)] v(1) by (auto simp: image_iff) (metis subsetD)+
    have A': "fst ` insert (p, s) (A - V) = ran (dict_map (entry_key c) d) \<union> insert p L"
      using ran r(4,5) VR fstA by (auto simp: d(4))
    have disj: "ran (dict_map (entry_key c) d) \<inter> insert p L = {}"
      using r(5) ran \<open>p \<notin> ran (cached c) - fst ` V\<close> by (auto simp: d(4))
    have ok: "items_ok hf (c_mem c) (insert (p, s) (A - V) - {(p, s)})" using r(6) by (auto simp: items_ok_def)
    have hp: "unat (m_hashpower d) < 31" using d(3) r(3) by simp
    define c' where "c' = c\<lparr>m_allocator := m, m_dict := d, c_user := told c ptrs (c_user c), m_newest_timestamp := m_newest_timestamp c + 1,
        c_mem := item_new now p key (hf key) (of_nat n) flags ttl (m_newest_timestamp c + 1) (c_mem c)\<rparr>"
    note new = new_item_ok [OF v(3) insertI1 ok d(2) hp A' disj v(8) max_key_length_byte [OF key] ps c'_def]
    have "settled (entry_key c') (m_dict c') k" if "settled (entry_key c) (m_dict c) k" for k
    proof -
      have d': "m_dict c' = d" by (simp add: c'_def)
      have eq: "dict_map (entry_key c') d = dict_map (entry_key c) d" using new(2) by (simp add: cached_def d')
      have ks: "entry_key c' e = entry_key c e" if "(h, e) \<in># dict_mset d" for h e
        by (rule dict_same_keys [OF d(2) cache_repD(2) [OF new(1), unfolded d'] eq that])
      have st: "settled (entry_key c) d k" using d(5) that by blast
      show ?thesis unfolding d' by (rule settled_entries [where key_of' = "entry_key c'", OF st ks])
    qed
    moreover have "V = {} \<Longrightarrow> d = m_dict c" using v(4,6) d(1) by simp
    moreover have "map_option (item_view (c_mem c)) (dict_map (entry_key c) d k) = (contents c |` (- keys_in c V)) k" for k
      by (simp add: d(4) restrict_map_def contents_def)
    moreover have "create_item now key (hf key) n flags ttl c = Some (Inr p, c')"
      using a(1) Some d(1) by (simp add: guards Let_def c'_def)
    ultimately show ?thesis
      using made [OF _ c'_def new(1) insertI1 v(8) \<open>p \<notin> L\<close>, of V] new(2,3) d(4) v(5-7) by (simp add: fun_eq_iff)
  qed
qed

section \<open>Looking an item up\<close>

lemma update_same_allocator: "c\<lparr>m_dict := d, m_allocator := m_allocator c\<rparr> = c\<lparr>m_dict := d\<rparr>"
  by (cases c) simp

text \<open>
  A key that is not waiting in the secondary table is looked up with no surprise: it is found, and touched,
  when it is stored and has not expired; otherwise it is not there any more and, unless the search was
  read-only, the position is one for its insertion. The search fails only when the table has to grow and
  there is no memory.
\<close>

lemma retrieve_item_ok:
  assumes rep: "cache_rep P hf L c A" and fresh: "fresh_limited fresh" and st: "settled (entry_key c) (m_dict c) key"
  obtains (failed) d where "retrieve_item fresh now key (hf key) ro c = Some (Inl Bad_alloc, c\<lparr>m_dict := d\<rparr>)"
      and "cache_rep P hf L (c\<lparr>m_dict := d\<rparr>) A" and "dict_map (entry_key c) d = cached c" and "\<not> ro" and "cached c key = None"
      and "fresh (pow2 (unat (m_hashpower (m_dict c)) + 1)) = None"
  | (hit) p pos d m where "retrieve_item fresh now key (hf key) ro c = Some (Inr (True, Primary, pos), c\<lparr>m_dict := d, m_allocator := m\<rparr>)"
      and "cache_rep P hf L (c\<lparr>m_dict := d, m_allocator := m\<rparr>) A" and "dict_map (entry_key c) d = cached c"
      and "cached c key = Some p" and "\<not> is_expired now (c_mem c) p"
      and "unat pos < unat (m_capacity (m_primary_tbl d))" and "iter_value d (Primary, pos) = Some p"
      and "m = mem_touch (m_allocator c) p"
  | (miss) pos d m A' where "retrieve_item fresh now key (hf key) ro c = Some (Inr (False, Primary, pos), c\<lparr>m_dict := d, m_allocator := m\<rparr>)"
      and "cache_rep P hf L (c\<lparr>m_dict := d, m_allocator := m\<rparr>) A'" and "A' \<subseteq> A" and "dict_map (entry_key c) d = (cached c)(key := None)"
      and "\<forall>p. cached c key = Some p \<longrightarrow> is_expired now (c_mem c) p"
      and "ro \<or> insertion_point (m_primary_tbl d) pos (hf key) \<and> dict_room d"
proof -
  note r = cache_repD [OF rep]
  have fo: "fresh_ok fresh" using fresh by (simp add: fresh_limited_def)
  from r(2) fo r(3) show ?thesis
  proof (cases rule: dict_entry_for_spec [where key = key and readonly = ro])
    case (failed d)
    have "unat (m_hashpower d) < 31" using failed(1) fresh r(3) by (rule dict_entry_for_small)
    note cr = cache_rep_dict [OF rep failed(2,3) this]
    show ?thesis using that(1) [of d] failed(1,4-6) cr by (simp add: retrieve_item_def cached_def)
  next
    case (ok found pos d)
    have hp: "unat (m_hashpower d) < 31" using ok(1) fresh r(3) by (rule dict_entry_for_small)
    note cr = cache_rep_dict [OF rep ok(2,3) hp]
    show ?thesis
    proof (cases found)
      case False
      then have "cached c key = None" "(cached c)(key := None) = cached c" using ok(4) by (auto simp: cached_def)
      moreover have "ro \<or> insertion_point (m_primary_tbl d) pos (hf key) \<and> dict_room d" using ok(7) False by blast
      moreover have "retrieve_item fresh now key (hf key) ro c = Some (Inr (False, Primary, pos), c\<lparr>m_dict := d, m_allocator := m_allocator c\<rparr>)"
        using False ok(1) by (simp add: retrieve_item_def update_same_allocator)
      ultimately show ?thesis using miss [where pos = pos and d = d and m = "m_allocator c" and A' = A] cr unfolding update_same_allocator by simp
    next
      case True
      then obtain p where p: "cached c key = Some p" using ok(4) by (auto simp: cached_def)
      have "key \<in> ht_keys (entry_key c) (m_primary_tbl (m_dict c))"
        using settled_primary [OF r(2) st] ok(4) True by simp
      then have at: "iter_value d (Primary, pos) = Some p" using ok(6) True p by (simp add: cached_def)
      show ?thesis
      proof (cases "is_expired now (c_mem c) p")
        case False
        have "retrieve_item fresh now key (hf key) ro c
            = Some (Inr (True, Primary, pos), c\<lparr>m_dict := d, m_allocator := mem_touch (m_allocator c) p\<rparr>)"
          using ok(1) True at False by (simp add: retrieve_item_def)
        moreover have "cache_rep P hf L (c\<lparr>m_dict := d, m_allocator := mem_touch (m_allocator c) p\<rparr>) A"
          using cache_rep_touch [OF cr(1), of p] by simp
        ultimately show ?thesis using hit [where pos = pos and d = d and p = p] cr(2) p False ok(5) at
          by (simp add: mem_touch_def)
      next
        case gone: True
        have key: "entry_key c p = key" using cached_item(1) [OF rep p] by (simp add: entry_key_def)
        obtain d' where d': "dict_remove d (Primary, pos) = Some d'" "dict_inv (entry_key c) hf d'"
            "dict_map (entry_key c) d' = (dict_map (entry_key c) d)(key := None)"
            "insertion_point (m_primary_tbl d') pos (hf key)" "dict_room d'" "m_hashpower d' = m_hashpower d"
          by (rule dict_remove_here [OF ok(2,5) at, unfolded key])
        let ?c = "c\<lparr>m_dict := d\<rparr>"
        have "cached ?c key = Some p" using p cr(2) by simp
        then have rep': "cache_rep P hf (insert p L) (c\<lparr>m_dict := d'\<rparr>) A"
          using cache_rep_unlink [OF cr(1), of key p d'] d' by simp
        obtain m A' where m: "destroy_item p (c\<lparr>m_dict := d'\<rparr>) = Some (c\<lparr>m_dict := d', m_allocator := m\<rparr>)"
            "cache_rep P hf (insert p L - {p}) (c\<lparr>m_dict := d', m_allocator := m\<rparr>) A'" "A' \<subseteq> A"
            "same_geometry (m_allocator (c\<lparr>m_dict := d'\<rparr>)) m"
          by (rule destroy_item_ok [OF rep' insertI1])
        have "insert p L - {p} = L" using cached_item(3) [OF rep p] by simp
        then have "cache_rep P hf L (c\<lparr>m_dict := d', m_allocator := m\<rparr>) A'" using m(2) by simp
        moreover have "retrieve_item fresh now key (hf key) ro c = Some (Inr (False, Primary, pos), c\<lparr>m_dict := d', m_allocator := m\<rparr>)"
          using ok(1) True at gone d'(1) m(1) by (simp add: retrieve_item_def)
        ultimately show ?thesis using miss [where pos = pos and d = d' and m = m and A' = A'] m(3,4) d'(3-5) cr(2) gone p by (simp add: same_geometry_def)
      qed
    qed
  qed
qed

end
