(* ===== verification/Cache_Commands.thy ===== *)
theory Cache_Commands
  imports Cache_Steps
begin

text \<open>
  The commands of the cache on its contents: what each of them returns and stores on every branch, for a
  cache in its invariant. \<open>L\<close> are the loose items; a command that is given an item takes it out of
  them, whether it stores or destroys it.
\<close>

section \<open>What is visible at a time\<close>

definition live :: "u32 \<Rightarrow> 'u cache \<Rightarrow> u8 list \<Rightarrow> entry_view option" where
  "live now c k = (case contents c k of None \<Rightarrow> None | Some v \<Rightarrow> if v_expiration v \<le> now then None else Some v)"

text \<open>The key can be searched for.\<close>

definition ready :: "nat fresh_arrays \<Rightarrow> 'u cache \<Rightarrow> u8 list \<Rightarrow> bool" where
  "ready fresh c key \<longleftrightarrow> fresh_limited fresh \<and> settled (entry_key c) (m_dict c) key"

definition no_room :: "nat fresh_arrays \<Rightarrow> 'u cache \<Rightarrow> bool" where
  "no_room fresh c \<longleftrightarrow> fresh (pow2 (unat (m_hashpower (m_dict c)) + 1)) = None"

lemma contents_upd:
  assumes "c_mem c' = c_mem c"
  shows "cached c' = cached c \<Longrightarrow> contents c' = contents c"
    and "cached c' = (cached c)(k := None) \<Longrightarrow> contents c' = (contents c)(k := None)"
    and "cached c' = (cached c)(k \<mapsto> p) \<Longrightarrow> contents c' = (contents c)(k \<mapsto> item_view (c_mem c) p)"
  using assms by (auto simp: contents_def fun_eq_iff)

lemma contents_miss: "\<forall>p. cached c k = Some p \<longrightarrow> is_expired now (c_mem c) p \<Longrightarrow> live now c k = None"
  by (auto simp: live_def contents_def item_view_def is_expired_def expiration_time_def split: option.splits)

lemma contents_hit:
  "cached c k = Some p \<Longrightarrow> \<not> is_expired now (c_mem c) p \<Longrightarrow> live now c k = Some (item_view (c_mem c) p)"
  by (simp add: live_def contents_def item_view_def is_expired_def expiration_time_def)

lemma live_count [simp]: "live now (count_stat n c) = live now c"
  by (simp add: live_def fun_eq_iff)

lemma ready_count [simp]: "ready fresh (count_stat n c) key = ready fresh c key"
  by (simp add: ready_def)

lemma cache_okI: "cache_rep P hf L c A \<Longrightarrow> cache_ok P hf L c"
  by (auto simp: cache_ok_def)

text \<open>\<^verbatim>\<open>retrieve_item\<close> in terms of the contents.\<close>

lemma retrieve_cases:
  assumes "cache_ok P hf L c" and "ready fresh c key"
  obtains (failed) c' where "retrieve_item fresh now key (hf key) ro c = Some (Inl Bad_alloc, c')" and "cache_ok P hf L c'"
      and "contents c' = contents c" and "\<not> ro" and "contents c key = None" and "no_room fresh c" and "c_mem c' = c_mem c"
      and "c_stats c' = c_stats c"
  | (hit) p pos c' where "retrieve_item fresh now key (hf key) ro c = Some (Inr (True, Primary, pos), c')" and "cache_ok P hf L c'"
      and "contents c' = contents c" and "cached c' key = Some p" and "live now c key = Some (item_view (c_mem c) p)"
      and "unat pos < unat (m_capacity (m_primary_tbl (m_dict c')))" and "iter_value (m_dict c') (Primary, pos) = Some p"
      and "c_mem c' = c_mem c" and "c_stats c' = c_stats c"
      and "m_evictions_enabled c' = m_evictions_enabled c" and "m_newest_timestamp c' = m_newest_timestamp c"
  | (miss) pos c' where "retrieve_item fresh now key (hf key) ro c = Some (Inr (False, Primary, pos), c')" and "cache_ok P hf L c'"
      and "contents c' = (contents c)(key := None)" and "live now c key = None" and "cached c' key = None"
      and "ro \<or> insertion_point (m_primary_tbl (m_dict c')) pos (hf key) \<and> dict_room (m_dict c')"
      and "c_mem c' = c_mem c" and "c_stats c' = c_stats c"
proof -
  obtain A where rep: "cache_rep P hf L c A" using assms(1) by (auto simp: cache_ok_def)
  have f: "fresh_limited fresh" "settled (entry_key c) (m_dict c) key" using assms(2) by (simp_all add: ready_def)
  from rep f show ?thesis
  proof (cases rule: retrieve_item_ok [where now = now and ro = ro])
    case (failed d)
    note cs = contents_upd(1) [of "c\<lparr>m_dict := d\<rparr>" c]
    show ?thesis by (rule that(1) [OF failed(1) cache_okI [OF failed(2)]])
        (use failed(3-6) cs in \<open>simp_all add: no_room_def contents_def\<close>)
  next
    case (hit p pos d m)
    note cs = contents_upd(1) [of "c\<lparr>m_dict := d, m_allocator := m\<rparr>" c]
    show ?thesis by (rule that(2) [OF hit(1) cache_okI [OF hit(2)]])
        (use hit(3-7) cs contents_hit [OF hit(4,5)] in simp_all)
  next
    case (miss pos d m A')
    note cs = contents_upd(2) [of "c\<lparr>m_dict := d, m_allocator := m\<rparr>" c key]
    show ?thesis by (rule that(3) [OF miss(1) cache_okI [OF miss(2)]])
        (use miss(4,6) cs contents_miss [OF miss(5)] in simp_all)
  qed
qed

section \<open>Reading, deleting, touching\<close>

lemma do_get_ok:
  assumes "cache_ok P hf L c" and "ready fresh c key"
  shows "\<exists>r c'. do_get fresh clk key (hf key) c = Some (Inr r, c') \<and> cache_ok P hf L c' \<and> c_mem c' = c_mem c
    \<and> map_option (item_view (c_mem c)) r = live (clk 0) c key \<and> (\<forall>p. r = Some p \<longrightarrow> cached c' key = Some p)
    \<and> contents c' = (if live (clk 0) c key = None then (contents c)(key := None) else contents c)
    \<and> c_stats c' = stat_incr (if live (clk 0) c key = None then get_misses else get_hits) 1 (stat_incr cmd_get 1 (c_stats c))"
proof -
  have "cache_ok P hf L (count_stat cmd_get c)" "ready fresh (count_stat cmd_get c) key" using assms by simp_all
  then show ?thesis
    by (cases rule: retrieve_cases [where now = "clk 0" and ro = True]) (simp_all add: do_get_def, simp_all add: count_stat_def)
qed

lemma do_delete_ok:
  assumes "cache_ok P hf L c" and "ready fresh c key"
  shows "\<exists>c'. do_delete fresh clk key (hf key) c = Some (Inr (live (clk 0) c key \<noteq> None), c') \<and> cache_ok P hf L c'
    \<and> c_mem c' = c_mem c \<and> contents c' = (contents c)(key := None)"
proof -
  have "cache_ok P hf L (count_stat cmd_delete c)" "ready fresh (count_stat cmd_delete c) key" using assms by simp_all
  then show ?thesis
  proof (cases rule: retrieve_cases [where now = "clk 0" and ro = True])
    case (hit p pos c1)
    obtain A where rep: "cache_rep P hf L c1 A" using hit(2) by (auto simp: cache_ok_def)
    note r = cache_repD [OF rep] and i = cached_item [OF rep hit(4)]
    have key: "entry_key c1 p = key" using i(1) by (simp add: entry_key_def)
    obtain d where d: "dict_remove (m_dict c1) (Primary, pos) = Some d" "dict_inv (entry_key c1) hf d"
        "dict_map (entry_key c1) d = (cached c1)(key := None)" "m_hashpower d = m_hashpower (m_dict c1)"
      by (rule dict_remove_here [OF r(2) hit(6,7), unfolded key, folded cached_def])
    note rep' = cache_rep_unlink [OF rep hit(4) d(2-4)]
    obtain m A' where m: "destroy_item p (c1\<lparr>m_dict := d\<rparr>) = Some (c1\<lparr>m_dict := d, m_allocator := m\<rparr>)"
        "cache_rep P hf (insert p L - {p}) (c1\<lparr>m_dict := d, m_allocator := m\<rparr>) A'"
      by (rule destroy_item_ok [OF rep' insertI1])
    have "insert p L - {p} = L" using i(3) by simp
    then have "cache_ok P hf L (c1\<lparr>m_dict := d, m_allocator := m\<rparr>)" using m(2) cache_okI by metis
    moreover have "contents (c1\<lparr>m_dict := d, m_allocator := m\<rparr>) = (contents c)(key := None)"
      using contents_upd(2) [of "c1\<lparr>m_dict := d, m_allocator := m\<rparr>" c1 key] d(3) hit(3) by simp
    ultimately show ?thesis using hit(1,5,7,8) d(1) m(1) by (simp add: do_delete_def)
  qed (simp_all add: do_delete_def)
qed

lemma touched_item:
  assumes rep: "cache_rep P hf L c A" and p: "cached c key = Some p" and M_def: "M = set_ttl now p ttl (c_mem c)"
  shows "cache_rep P hf L (c\<lparr>m_allocator := mem_touch (m_allocator c) p, c_mem := M\<rparr>) A"
    and "contents (c\<lparr>m_allocator := mem_touch (m_allocator c) p, c_mem := M\<rparr>)
      = (contents c)(key \<mapsto> (item_view (c_mem c) p)\<lparr>v_expiration := expiration_for now ttl\<rparr>)"
proof -
  let ?c = "c\<lparr>m_allocator := mem_touch (m_allocator c) p, c_mem := M\<rparr>"
  note r = cache_repD [OF rep]
  have k: "item_key M q = item_key (c_mem c) q" "item_value M q = item_value (c_mem c) q" for q
    by (simp_all add: M_def item_key_def item_value_def byte_range_def ValueOffset_def)
  then have eq: "item_key M = item_key (c_mem c)" by blast
  have same: "q \<noteq> p \<Longrightarrow> item_view M q = item_view (c_mem c) q" for q
    using k by (simp add: item_view_def M_def opaque_flags_def expiration_time_def item_timestamp_def)
  have it: "items M q = (if q = p then (items (c_mem c) p)\<lparr>m_expiration_time := expiration_for now ttl\<rparr> else items (c_mem c) q)" for q
    by (simp add: M_def)
  have "items_ok hf M A" using r(6) by (fastforce simp: items_ok_def item_fits_def item_hash_def eq it)
  then show "cache_rep P hf L ?c A"
    using r mem_inv_touch [OF r(1)] by (simp add: cache_rep_def cached_def entry_key_eq eq)
  have "item_view M q = item_view (c_mem c) q" if "k \<noteq> key" "cached c k = Some q" for k q
    using that same cached_item(1) [OF rep p] cached_item(1) [OF rep that(2)] by metis
  moreover have "cached ?c = cached c" by (simp add: cached_def entry_key_eq eq)
  moreover have "item_view M p = (item_view (c_mem c) p)\<lparr>v_expiration := expiration_for now ttl\<rparr>"
    using k by (simp add: item_view_def it opaque_flags_def expiration_time_def item_timestamp_def)
  ultimately show "contents ?c = (contents c)(key \<mapsto> (item_view (c_mem c) p)\<lparr>v_expiration := expiration_for now ttl\<rparr>)"
    using p by (intro ext) (auto simp: contents_def intro!: map_option_cong)
qed

lemma do_touch_ok:
  assumes "cache_ok P hf L c" and "ready fresh c key"
  shows "\<exists>c'. do_touch fresh clk key (hf key) ttl c = Some (Inr (live (clk 0) c key \<noteq> None), c') \<and> cache_ok P hf L c'
    \<and> contents c' = (contents c)(key := map_option (v_expiration_update (\<lambda>_. expiration_for (clk 1) ttl)) (live (clk 0) c key))"
proof -
  have "cache_ok P hf L (count_stat cmd_touch c)" "ready fresh (count_stat cmd_touch c) key" using assms by simp_all
  then show ?thesis
  proof (cases rule: retrieve_cases [where now = "clk 0" and ro = True])
    case (hit p pos c1)
    obtain A where rep: "cache_rep P hf L c1 A" using hit(2) by (auto simp: cache_ok_def)
    note t = touched_item [OF rep hit(4) refl, of "clk 1" ttl]
    show ?thesis using hit(1,3,5,7,8) t(2) cache_okI [OF t(1)] by (simp add: do_touch_def)
  qed (simp_all add: do_touch_def)
qed

section \<open>Storing\<close>

lemma insert_stored:
  assumes "cache_ok P hf L c" and "p \<in> L" and "item_key (c_mem c) p = key" and "cached c key = None" and "hf key \<noteq> 0"
    and "insertion_point (m_primary_tbl (m_dict c)) pos (hf key)" and "dict_room (m_dict c)"
  obtains c' where "insert_item_at (Primary, pos) p c = Some c'" and "cache_ok P hf (L - {p}) c'"
    and "contents c' = (contents c)(key \<mapsto> item_view (c_mem c) p)" and "c_mem c' = c_mem c" and "c_stats c' = c_stats c"
    and "settled (entry_key c') (m_dict c') key"
proof -
  obtain A where rep: "cache_rep P hf L c A" using assms(1) by (auto simp: cache_ok_def)
  obtain d where d: "insert_item_at (Primary, pos) p c = Some (c\<lparr>m_dict := d\<rparr>)" "cache_rep P hf (L - {p}) (c\<lparr>m_dict := d\<rparr>) A"
      "dict_map (entry_key c) d = (cached c)(key \<mapsto> p)"
      "settled (entry_key c) d key"
    by (rule insert_item_ok [OF rep assms(2-7)])
  show ?thesis
    by (rule that [OF d(1) cache_okI [OF d(2)]]) (use contents_upd(3) [of "c\<lparr>m_dict := d\<rparr>" c key p] d(3,4) in simp_all)
qed

lemma replace_stored:
  assumes "cache_ok P hf L c" and "p \<in> L" and "item_key (c_mem c) p = key" and "cached c key = Some q"
    and "unat pos < unat (m_capacity (m_primary_tbl (m_dict c)))" and "iter_value (m_dict c) (Primary, pos) = Some q"
  obtains c' where "replace_item_at (Primary, pos) p c = Some c'" and "cache_ok P hf (L - {p}) c'"
    and "contents c' = (contents c)(key \<mapsto> item_view (c_mem c) p)" and "c_mem c' = c_mem c" and "c_stats c' = c_stats c"
    and "settled (entry_key c') (m_dict c') key"
proof -
  obtain A where rep: "cache_rep P hf L c A" using assms(1) by (auto simp: cache_ok_def)
  obtain d m A' where d: "replace_item_at (Primary, pos) p c = Some (c\<lparr>m_dict := d, m_allocator := m\<rparr>)"
      "cache_rep P hf (L - {p}) (c\<lparr>m_dict := d, m_allocator := m\<rparr>) A'" "dict_map (entry_key c) d = (cached c)(key \<mapsto> p)"
      "settled (entry_key c) d key"
    by (rule replace_item_ok [OF rep assms(2-6)])
  show ?thesis
    by (rule that [OF d(1) cache_okI [OF d(2)]])
      (use contents_upd(3) [of "c\<lparr>m_dict := d, m_allocator := m\<rparr>" c key p] d(3,4) in simp_all)
qed

lemma auto_deleted:
  assumes "cache_ok P hf L c" and "p \<in> L"
  obtains c' where "auto_delete p r c = Some (r, c')" and "cache_ok P hf (L - {p}) c'" and "contents c' = contents c"
    and "c_mem c' = c_mem c" and "c_stats c' = c_stats c"
proof -
  obtain A where rep: "cache_rep P hf L c A" using assms(1) by (auto simp: cache_ok_def)
  obtain m A' where m: "destroy_item p c = Some (c\<lparr>m_allocator := m\<rparr>)" "cache_rep P hf (L - {p}) (c\<lparr>m_allocator := m\<rparr>) A'"
    by (rule destroy_item_ok [OF rep assms(2)])
  show ?thesis
    by (rule that [OF _ cache_okI [OF m(2)]]) (use m(1) in \<open>simp_all add: auto_delete_def contents_def fun_eq_iff\<close>)
qed

text \<open>The commands that store: either the table cannot grow, which changes nothing but that the item is
  destroyed, or the command does what its name says.\<close>

lemma do_set_ok:
  assumes ok: "cache_ok P hf L c" and "ready fresh c key" and p: "p \<in> L" "item_key (c_mem c) p = key"
    and hash: "item_hash (c_mem c) p = hf key" "hf key \<noteq> 0"
  shows "(\<exists>c'. do_set fresh clk p c = Some (Inl Bad_alloc, c') \<and> cache_ok P hf (L - {p}) c' \<and> contents c' = contents c
      \<and> contents c key = None \<and> no_room fresh c)
    \<or> (\<exists>c'. do_set fresh clk p c = Some (Inr (), c') \<and> cache_ok P hf (L - {p}) c'
      \<and> contents c' = (contents c)(key \<mapsto> item_view (c_mem c) p) \<and> settled (entry_key c') (m_dict c') key)"
proof -
  have "cache_ok P hf L (count_stat cmd_set c)" "ready fresh (count_stat cmd_set c) key" using assms by simp_all
  then show ?thesis
  proof (cases rule: retrieve_cases [where now = "clk 0" and ro = False])
    case (failed c1)
    obtain c' where "auto_delete p (Inl Bad_alloc :: unit result) c1 = Some (Inl Bad_alloc, c')" "cache_ok P hf (L - {p}) c'" "contents c' = contents c1"
      by (rule auto_deleted [OF failed(2) p(1)])
    then show ?thesis using failed p(2) hash(1) by (intro disjI1) (auto simp: do_set_def no_room_def)
  next
    case (hit q pos c1)
    obtain c' where c': "replace_item_at (Primary, pos) p (count_stat set_existing c1) = Some c'" "cache_ok P hf (L - {p}) c'"
        "contents c' = (contents (count_stat set_existing c1))(key \<mapsto> item_view (c_mem (count_stat set_existing c1)) p)"
        "settled (entry_key c') (m_dict c') key"
      by (rule replace_stored [of P hf L "count_stat set_existing c1" p key q pos]) (use hit p in simp_all)
    then show ?thesis using hit(1,3,8) p(2) hash(1) by (intro disjI2) (auto simp: do_set_def)
  next
    case (miss pos c1)
    obtain c' where c': "insert_item_at (Primary, pos) p (count_stat set_new c1) = Some c'" "cache_ok P hf (L - {p}) c'"
        "contents c' = (contents (count_stat set_new c1))(key \<mapsto> item_view (c_mem (count_stat set_new c1)) p)"
        "settled (entry_key c') (m_dict c') key"
      by (rule insert_stored [of P hf L "count_stat set_new c1" p key pos]) (use miss p hash(2) in simp_all)
    then show ?thesis using miss(1,3,7) p(2) hash(1) by (intro disjI2) (auto simp: do_set_def)
  qed
qed

lemma do_add_ok:
  assumes ok: "cache_ok P hf L c" and "ready fresh c key" and p: "p \<in> L" "item_key (c_mem c) p = key"
    and hash: "item_hash (c_mem c) p = hf key" "hf key \<noteq> 0"
  shows "(\<exists>c'. do_add fresh clk p c = Some (Inl Bad_alloc, c') \<and> cache_ok P hf (L - {p}) c' \<and> contents c' = contents c
      \<and> contents c key = None \<and> no_room fresh c)
    \<or> (\<exists>c'. do_add fresh clk p c = Some (Inr (live (clk 0) c key = None), c') \<and> cache_ok P hf (L - {p}) c'
      \<and> contents c' = (if live (clk 0) c key = None then (contents c)(key \<mapsto> item_view (c_mem c) p) else contents c))"
proof -
  have "cache_ok P hf L (count_stat cmd_add c)" "ready fresh (count_stat cmd_add c) key" using assms by simp_all
  then show ?thesis
  proof (cases rule: retrieve_cases [where now = "clk 0" and ro = False])
    case (failed c1)
    obtain c' where "auto_delete p (Inl Bad_alloc :: bool result) c1 = Some (Inl Bad_alloc, c')" "cache_ok P hf (L - {p}) c'" "contents c' = contents c1"
      by (rule auto_deleted [OF failed(2) p(1)])
    then show ?thesis using failed p(2) hash(1) by (intro disjI1) (auto simp: do_add_def no_room_def)
  next
    case (hit q pos c1)
    obtain c' where "auto_delete p (Inr False) (count_stat add_not_stored c1) = Some (Inr False, c')" "cache_ok P hf (L - {p}) c'"
        "contents c' = contents (count_stat add_not_stored c1)"
      by (rule auto_deleted [of P hf L "count_stat add_not_stored c1" p]) (use hit(2) p(1) in simp_all)
    then show ?thesis using hit(1,3,5) p(2) hash(1) by (intro disjI2) (auto simp: do_add_def)
  next
    case (miss pos c1)
    obtain c' where c': "insert_item_at (Primary, pos) p c1 = Some c'" "cache_ok P hf (L - {p}) c'"
        "contents c' = (contents c1)(key \<mapsto> item_view (c_mem c1) p)"
      by (rule insert_stored [of P hf L c1 p key pos]) (use miss p hash(2) in simp_all)
    then show ?thesis using miss(1,3,4,7) p(2) hash(1) by (intro disjI2) (auto simp: do_add_def)
  qed
qed

lemma do_replace_ok:
  assumes ok: "cache_ok P hf L c" and "ready fresh c key" and p: "p \<in> L" "item_key (c_mem c) p = key"
    and hash: "item_hash (c_mem c) p = hf key"
  shows "(\<exists>c'. do_replace fresh clk p c = Some (Inl Bad_alloc, c') \<and> cache_ok P hf (L - {p}) c' \<and> contents c' = contents c
      \<and> contents c key = None \<and> no_room fresh c)
    \<or> (\<exists>c'. do_replace fresh clk p c = Some (Inr (live (clk 0) c key \<noteq> None), c') \<and> cache_ok P hf (L - {p}) c'
      \<and> contents c' = (contents c)(key := map_option (\<lambda>_. item_view (c_mem c) p) (live (clk 0) c key)))"
proof -
  have "cache_ok P hf L (count_stat cmd_replace c)" "ready fresh (count_stat cmd_replace c) key" using assms by simp_all
  then show ?thesis
  proof (cases rule: retrieve_cases [where now = "clk 0" and ro = False])
    case (failed c1)
    obtain c' where "auto_delete p (Inl Bad_alloc :: bool result) c1 = Some (Inl Bad_alloc, c')" "cache_ok P hf (L - {p}) c'" "contents c' = contents c1"
      by (rule auto_deleted [OF failed(2) p(1)])
    then show ?thesis using failed p(2) hash by (intro disjI1) (auto simp: do_replace_def no_room_def)
  next
    case (hit q pos c1)
    obtain c' where "replace_item_at (Primary, pos) p c1 = Some c'" "cache_ok P hf (L - {p}) c'"
        "contents c' = (contents c1)(key \<mapsto> item_view (c_mem c1) p)"
      by (rule replace_stored [of P hf L c1 p key q pos]) (use hit p in simp_all)
    then show ?thesis using hit(1,3,5,8) p(2) hash by (intro disjI2) (auto simp: do_replace_def)
  next
    case (miss pos c1)
    obtain c' where "auto_delete p (Inr False) (count_stat replace_not_stored c1) = Some (Inr False, c')" "cache_ok P hf (L - {p}) c'"
        "contents c' = contents (count_stat replace_not_stored c1)"
      by (rule auto_deleted [of P hf L "count_stat replace_not_stored c1" p]) (use miss(2) p(1) in simp_all)
    then show ?thesis using miss(1,3,4) p(2) hash by (intro disjI2) (auto simp: do_replace_def)
  qed
qed

lemma do_cas_ok:
  assumes ok: "cache_ok P hf L c" and "ready fresh c key" and p: "p \<in> L" "item_key (c_mem c) p = key"
    and hash: "item_hash (c_mem c) p = hf key"
  shows "(\<exists>c'. do_cas fresh clk p n c = Some (Inl Bad_alloc, c') \<and> cache_ok P hf (L - {p}) c' \<and> contents c' = contents c
      \<and> contents c key = None \<and> no_room fresh c)
    \<or> (\<exists>c'. do_cas fresh clk p n c = Some (Inr (live (clk 0) c key \<noteq> None, map_option v_timestamp (live (clk 0) c key) = Some n), c')
      \<and> cache_ok P hf (L - {p}) c'
      \<and> contents c' = (contents c)(key := (case live (clk 0) c key of None \<Rightarrow> None
          | Some v \<Rightarrow> Some (if v_timestamp v = n then item_view (c_mem c) p else v))))"
proof -
  have "cache_ok P hf L (count_stat cmd_cas c)" "ready fresh (count_stat cmd_cas c) key" using assms by simp_all
  then show ?thesis
  proof (cases rule: retrieve_cases [where now = "clk 0" and ro = False])
    case (failed c1)
    obtain c' where "auto_delete p (Inl Bad_alloc :: (bool \<times> bool) result) c1 = Some (Inl Bad_alloc, c')" "cache_ok P hf (L - {p}) c'" "contents c' = contents c1"
      by (rule auto_deleted [OF failed(2) p(1)])
    then show ?thesis using failed p(2) hash by (intro disjI1) (auto simp: do_cas_def no_room_def)
  next
    case (hit q pos c1)
    have ts: "v_timestamp (item_view (c_mem c) q) = item_timestamp (c_mem c1) q" using hit(8) by (simp add: item_view_def)
    have lv: "live (clk 0) c key = Some (item_view (c_mem c) q)" and ct: "contents c1 key = Some (item_view (c_mem c) q)"
      using hit(4,5,8) by (simp_all add: contents_def)
    show ?thesis
    proof (cases "n = item_timestamp (c_mem c1) q")
      case True
      obtain c' where "replace_item_at (Primary, pos) p c1 = Some c'" "cache_ok P hf (L - {p}) c'"
          "contents c' = (contents c1)(key \<mapsto> item_view (c_mem c1) p)"
        by (rule replace_stored [of P hf L c1 p key q pos]) (use hit p in simp_all)
      then show ?thesis using hit(1,3,7,8) p(2) hash True ts lv by (intro disjI2) (auto simp: do_cas_def)
    next
      case False
      obtain c' where "auto_delete p (Inr (True, False)) (count_stat cas_badval c1) = Some (Inr (True, False), c')" "cache_ok P hf (L - {p}) c'"
          "contents c' = contents (count_stat cas_badval c1)"
        by (rule auto_deleted [of P hf L "count_stat cas_badval c1" p]) (use hit(2) p(1) in simp_all)
      then show ?thesis using hit(1,3,7,8) p(2) hash False ts lv ct by (intro disjI2) (auto simp: do_cas_def fun_eq_iff)
    qed
  next
    case (miss pos c1)
    obtain c' where "auto_delete p (Inr (False, False)) (count_stat cas_misses c1) = Some (Inr (False, False), c')" "cache_ok P hf (L - {p}) c'"
        "contents c' = contents (count_stat cas_misses c1)"
      by (rule auto_deleted [of P hf L "count_stat cas_misses c1" p]) (use miss(2) p(1) in simp_all)
    then show ?thesis using miss(1,3,4) p(2) hash by (intro disjI2) (auto simp: do_cas_def)
  qed
qed

end
