(* ===== verification/Cache_Update.thy ===== *)
theory Cache_Update
  imports Cache_Commands
begin

text \<open>
  The commands of the cache that walk the dictionary, \<^verbatim>\<open>flush_all\<close> and the destructor, and those that
  build a new value from a stored one, \<^verbatim>\<open>append\<close>, \<^verbatim>\<open>prepend\<close>, \<^verbatim>\<open>incr\<close> and \<^verbatim>\<open>decr\<close>.
\<close>

section \<open>Specifications of the new values\<close>

definition ttl_left :: "u32 \<Rightarrow> entry_view \<Rightarrow> u32" where
  "ttl_left now v = (if v_expiration v = - 1 then infinite_TTL else v_expiration v - now)"

definition extended :: "(nat \<Rightarrow> u32) \<Rightarrow> ExtendOperation \<Rightarrow> u64 \<Rightarrow> u8 list \<Rightarrow> entry_view \<Rightarrow> entry_view" where
  "extended clk op ts w v = \<lparr>v_value = (if op = APPEND then v_value v @ w else w @ v_value v), v_flags = v_flags v,
     v_expiration = expiration_for (clk 2) (ttl_left (clk 1) v), v_timestamp = ts\<rparr>"

definition counted :: "ArithmeticOperation \<Rightarrow> nat \<Rightarrow> nat \<Rightarrow> nat" where
  "counted op n delta = (if op = INCR then min (n + delta) (2 ^ 64 - 1) else n - delta)"

definition recounted :: "(nat \<Rightarrow> u32) \<Rightarrow> u64 \<Rightarrow> nat \<Rightarrow> entry_view \<Rightarrow> entry_view" where
  "recounted clk ts n v = \<lparr>v_value = decimal n, v_flags = v_flags v,
     v_expiration = expiration_for (clk 2) (ttl_left (clk 1) v), v_timestamp = ts\<rparr>"

section \<open>Walking the dictionary\<close>

lemma distinct_entries:
  assumes "keys_ok key_of hf (mset rs)"
  shows "distinct (map snd rs)"
  using assms
proof (induction rs)
  case (Cons r rs)
  have "keys_ok key_of hf (mset rs)" using keys_ok_sub [OF Cons.prems] by simp
  moreover have "key_of (snd r) \<notin> (key_of \<circ> snd) ` set rs" using keys_ok_unique [of key_of hf r "mset rs"] Cons.prems by simp
  then have "snd r \<notin> set (map snd rs)" by (metis image_comp image_eqI list.set_map)
  ultimately show ?case using Cons.IH by simp
qed simp

lemma dict_map_filter:
  assumes "dict_inv key_of hf d" and "dict_inv key_of hf d'" and "dict_mset d' = filter_mset (\<lambda>r. \<not> q (snd r)) (dict_mset d)"
  shows "dict_map key_of d' k = (case dict_map key_of d k of None \<Rightarrow> None | Some e \<Rightarrow> if q e then None else Some e)"
proof -
  have "dict_map key_of d' k = Some e \<longleftrightarrow> dict_map key_of d k = Some e \<and> \<not> q e" for e
    using representsD [OF dict_map_represents [OF dict_invD(2) [OF assms(1)]], of k e]
      representsD [OF dict_map_represents [OF dict_invD(2) [OF assms(2)]], of k e] assms(3) by auto
  note iff = this
  show ?thesis
  proof (cases "dict_map key_of d k")
    case None
    then have "dict_map key_of d' k = None" using iff by (metis not_Some_eq option.distinct(1))
    with None show ?thesis by simp
  next
    case (Some e)
    then have "dict_map key_of d' k = (if q e then None else Some e)" using iff by (metis not_Some_eq option.inject)
    with Some show ?thesis by simp
  qed
qed

lemma frees:
  assumes "mem_inv m A" and "distinct ps" and "set ps \<subseteq> fst ` A"
  shows "\<exists>m' A'. fold (\<lambda>p m. Option.bind m (\<lambda>m. mem_free m p)) ps (Some m) = Some m' \<and> mem_inv m' A' \<and> A' \<subseteq> A
    \<and> fst ` A' = fst ` A - set ps \<and> page_size m' = page_size m"
  using assms
proof (induction ps arbitrary: m A)
  case (Cons p ps)
  have "p \<in> fst ` A" using Cons.prems(3) by simp
  then obtain m1 s where m1: "mem_free m p = Some m1" "mem_inv m1 (A - {(p, s)})" "fst ` (A - {(p, s)}) = fst ` A - {p}"
      "same_geometry m m1"
    by (rule mem_free_held [OF Cons.prems(1)])
  have "set ps \<subseteq> fst ` (A - {(p, s)})" using Cons.prems(2,3) m1(3) by auto
  from Cons.IH [OF m1(2) _ this] obtain m' A' where "fold (\<lambda>p m. Option.bind m (\<lambda>m. mem_free m p)) ps (Some m1) = Some m'"
      "mem_inv m' A'" "A' \<subseteq> A - {(p, s)}" "fst ` A' = fst ` (A - {(p, s)}) - set ps" "page_size m' = page_size m1"
    using Cons.prems(2) by auto
  with m1(1,3,4) show ?case by (intro exI [of _ m'] exI [of _ A']) (auto simp: same_geometry_def)
qed auto

text \<open>Every item that satisfies a condition is taken out of the dictionary and freed.\<close>

lemma sweep:
  assumes rep: "cache_rep P hf L c A" and Q: "\<And>e st. Q e st = (q e, f e st)"
    and f: "\<And>(vs :: (u32 \<times> nat) list) m. proj (fold (\<lambda>r. f (snd r)) vs (st m)) = fold (\<lambda>r m. if q (snd r) then Option.bind m (\<lambda>m. mem_free m (snd r)) else m) vs m"
  obtains d and vs :: "(u32 \<times> nat) list" and m A' where "dict_remove_if Q (m_dict c) (st (Some (m_allocator c))) = Some (d, fold (\<lambda>r. f (snd r)) vs (st (Some (m_allocator c))))"
    and "proj (fold (\<lambda>r. f (snd r)) vs (st (Some (m_allocator c)))) = Some m"
    and "cache_rep P hf L (c\<lparr>m_dict := d, m_allocator := m\<rparr>) A'" and "A' \<subseteq> A"
    and "\<forall>k. dict_map (entry_key c) d k = (case cached c k of None \<Rightarrow> None | Some e \<Rightarrow> if q e then None else Some e)"
proof -
  note r = cache_repD [OF rep]
  obtain d vs where d: "dict_remove_if Q (m_dict c) (st (Some (m_allocator c))) = Some (d, fold (\<lambda>r. f (snd r)) vs (st (Some (m_allocator c))))"
      "dict_inv (entry_key c) hf d" "dict_mset d = filter_mset (\<lambda>r. \<not> q (snd r)) (dict_mset (m_dict c))"
      "mset (filter (\<lambda>r. q (snd r)) vs) = filter_mset (\<lambda>r. q (snd r)) (dict_mset (m_dict c))" "m_hashpower d = m_hashpower (m_dict c)"
    by (rule dict_remove_if_visits [where P = Q and q = q and f = f, OF r(2) Q])
  let ?rs = "filter (\<lambda>r. q (snd r)) vs"
  have "keys_ok (entry_key c) hf (mset ?rs)" unfolding d(4) using keys_ok_sub [OF dict_invD(2) [OF r(2)]] by simp
  then have dist: "distinct (map snd ?rs)" by (rule distinct_entries)
  have rs: "set (map snd ?rs) = {p \<in> ran (cached c). q p}"
  proof -
    have "set ?rs = {r. r \<in># dict_mset (m_dict c) \<and> q (snd r)}" using d(4) by (metis set_mset_filter set_mset_mset)
    then show ?thesis unfolding cached_ran_mset [OF r(2)] by auto
  qed
  have sub: "set (map snd ?rs) \<subseteq> fst ` A" using rs r(4) by auto
  obtain m A' where m: "fold (\<lambda>p m. Option.bind m (\<lambda>m. mem_free m p)) (map snd ?rs) (Some (m_allocator c)) = Some m" "mem_inv m A'"
      "A' \<subseteq> A" "fst ` A' = fst ` A - set (map snd ?rs)" "page_size m = page_size (m_allocator c)"
    using frees [OF r(1) dist sub] by blast
  have p: "proj (fold (\<lambda>r. f (snd r)) vs (st (Some (m_allocator c)))) = Some m"
    using m(1) f [of vs "Some (m_allocator c)"] fold_removed [where q = q and f = "\<lambda>p m. Option.bind m (\<lambda>m. mem_free m p)" and vs = vs]
    by (simp add: fold_map comp_def)
  have map: "dict_map (entry_key c) d k = (case cached c k of None \<Rightarrow> None | Some e \<Rightarrow> if q e then None else Some e)" for k
    unfolding cached_def by (rule dict_map_filter [OF r(2) d(2,3)])
  have "ran (dict_map (entry_key c) d) = ran (cached c) - set (map snd ?rs)"
    unfolding dict_ran(1) [OF d(2)] rs cached_ran_mset [OF r(2)] d(3) by auto
  then have rep': "cache_rep P hf L (c\<lparr>m_dict := d, m_allocator := m\<rparr>) A'"
    using r d(2,5) m(2-5) rs by (auto simp: cache_rep_def items_ok_def)
  show ?thesis by (rule that [where d = d and vs = vs and m = m and A' = A']) (use d(1) p rep' m(3) map in simp_all)
qed

text \<open>\<^verbatim>\<open>flush_all\<close> within one second of the clock.\<close>

lemma do_flush_all_ok:
  assumes "cache_ok P hf L c" and clk: "\<And>i. clk i = now"
  shows "\<exists>c'. do_flush_all clk c = Some (Inr (), c') \<and> cache_ok P hf L c' \<and> contents c' = live now c"
proof -
  obtain A where rep: "cache_rep P hf L c A" using assms(1) by (auto simp: cache_ok_def)
  let ?q = "is_expired now (c_mem c)"
  let ?f = "\<lambda>item (i :: nat, m). (i + 1, if ?q item then Option.bind m (\<lambda>m. mem_free m item) else m)"
  let ?P = "\<lambda>item (i :: nat, m). if is_expired (clk i) (c_mem c) item then (True, i + 1, Option.bind m (\<lambda>m. mem_free m item)) else (False, i + 1, m)"
  have P: "?P e st = (?q e, ?f e st)" for e :: nat and st :: "nat \<times> memalloc option" by (simp add: clk split: prod.split)
  have f: "snd (fold (\<lambda>r. ?f (snd r)) vs (n, m)) = fold (\<lambda>r m. if ?q (snd r) then Option.bind m (\<lambda>m. mem_free m (snd r)) else m) vs m"
    for vs :: "(u32 \<times> nat) list" and m and n :: nat
    by (induction vs arbitrary: n m) auto
  obtain d and vs :: "(u32 \<times> nat) list" and m A' where d: "dict_remove_if ?P (m_dict c) (0, Some (m_allocator c)) = Some (d, fold (\<lambda>r. ?f (snd r)) vs (0, Some (m_allocator c)))"
      "snd (fold (\<lambda>r. ?f (snd r)) vs (0, Some (m_allocator c))) = Some m" "cache_rep P hf L (c\<lparr>m_dict := d, m_allocator := m\<rparr>) A'"
      "\<forall>k. dict_map (entry_key c) d k = (case cached c k of None \<Rightarrow> None | Some e \<Rightarrow> if ?q e then None else Some e)"
    by (rule sweep [where Q = ?P and q = ?q and f = ?f and proj = snd and st = "\<lambda>m. (0, m)", OF rep P f])
  have "contents (c\<lparr>m_dict := d, m_allocator := m\<rparr>) = live now c"
    using d(4) by (intro ext) (auto simp: contents_def live_def item_view_def is_expired_def expiration_time_def split: option.split)
  then show ?thesis
    using d(1,2) cache_okI [OF d(3)] by (auto simp: do_flush_all_def split: prod.split)
qed

text \<open>The destructor frees every item.\<close>

lemma cache_destroy_ok:
  assumes "cache_rep P hf {} c A"
  shows "\<exists>c'. cache_destroy c = Some c' \<and> mem_inv (m_allocator c') {} \<and> cached c' = Map.empty"
proof -
  let ?f = "\<lambda>item m. Option.bind m (\<lambda>m. mem_free m item)"
  obtain d and vs :: "(u32 \<times> nat) list" and m A' where d: "dict_remove_if (\<lambda>item m. (True, ?f item m)) (m_dict c) (Some (m_allocator c)) = Some (d, fold (\<lambda>r. ?f (snd r)) vs (Some (m_allocator c)))"
      "fold (\<lambda>r. ?f (snd r)) vs (Some (m_allocator c)) = Some m" "cache_rep P hf {} (c\<lparr>m_dict := d, m_allocator := m\<rparr>) A'"
      "\<forall>k. dict_map (entry_key c) d k = (case cached c k of None \<Rightarrow> None | Some e \<Rightarrow> if True then None else Some e)"
    by (rule sweep [where Q = "\<lambda>item m. (True, ?f item m)" and q = "\<lambda>_. True" and f = ?f and proj = "\<lambda>m. m" and st = "\<lambda>m. m", OF assms refl])
      (simp only: if_True)
  have "dict_map (entry_key c) d = Map.empty" using d(4) by (intro ext) (simp split: option.split)
  then show ?thesis using d(1-3) by (auto simp: cache_destroy_def cache_rep_def)
qed

section \<open>New values\<close>

text \<open>The value of a loose item is written within its block.\<close>

lemma fill_item:
  assumes rep: "cache_rep P hf L c A" and p: "p \<in> L" "(p, s) \<in> A" and key: "item_key (c_mem c) p = key"
    and size: "24 + length key + length w \<le> s"
    and M: "item_key M p = key" "item_value M p = w" "items M p = (items (c_mem c) p)\<lparr>m_value_length := of_nat (length w)\<rparr>"
      "only_block p s (c_mem c) M"
  shows "cache_rep P hf L (c\<lparr>c_mem := M\<rparr>) A" and "cached (c\<lparr>c_mem := M\<rparr>) = cached c" and "contents (c\<lparr>c_mem := M\<rparr>) = contents c"
    and "item_hash M p = hf key" and "item_view M p = (item_view (c_mem c) p)\<lparr>v_value := w\<rparr>"
proof -
  note r = cache_repD [OF rep]
  have kl: "unat (m_key_length (items (c_mem c) p)) = length key" using key by (auto simp: item_key_def)
  have "length w < 2 ^ 32" using held_below [OF r(1) p(2)] size by simp
  then have fits: "item_fits M p s" using size kl by (simp add: item_fits_def M(3) sizeof_Item_def unat_of_nat)
  show h: "item_hash M p = hf key" using r(6) p(2) key by (auto simp: items_ok_def item_hash_def M(3))
  have hk: "item_hash M p = hf (item_key M p)" using h M(1) by simp
  note w = write_item_ok [OF rep p M(4) fits hk]
  show "cache_rep P hf L (c\<lparr>c_mem := M\<rparr>) A" "cached (c\<lparr>c_mem := M\<rparr>) = cached c" "contents (c\<lparr>c_mem := M\<rparr>) = contents c"
    by (rule w)+
  show "item_view M p = (item_view (c_mem c) p)\<lparr>v_value := w\<rparr>"
    using M(2) by (simp add: item_view_def M(3) opaque_flags_def expiration_time_def item_timestamp_def)
qed

lemma update_same_dict:
  "c\<lparr>m_allocator := m, m_dict := m_dict c, c_user := c_user c, m_newest_timestamp := ts, c_mem := M\<rparr>
    = c\<lparr>m_allocator := m, m_newest_timestamp := ts, c_mem := M\<rparr>"
  by (cases c) simp

lemma ttl_left_view: "item_ttl now M p = ttl_left now (item_view M p)"
  by (simp add: item_ttl_def ttl_left_def item_view_def expiration_time_def)

text \<open>A copy of a stored item with a longer value, built without eviction.\<close>

lemma extend_item:
  assumes rep: "cache_rep P hf L c A" and q: "cached c key = Some q"
    and size: "CalcSizeRequired key (length a + length b) < P"
  obtains (full) m where "alloc_or_evict (m_allocator c) (CalcSizeRequired key (length a + length b)) False (\<lambda>_ u. u) () = Some (None, m, ())"
      and "cache_rep P hf L (c\<lparr>m_allocator := m\<rparr>) A"
  | (built) p m A' c' where "alloc_or_evict (m_allocator c) (CalcSizeRequired key (length a + length b)) False (\<lambda>_ u. u) () = Some (Some p, m, ())"
      and "p \<notin> L" and "c' = c\<lparr>m_allocator := m, m_newest_timestamp := ts,
        c_mem := assign_compose p a b (item_new now p key (hf key) (of_nat (length a + length b)) flags ttl ts (c_mem c))\<rparr>"
      and "cache_rep P hf (insert p L) c' A'" and "cached c' = cached c" and "contents c' = contents c" and "item_key (c_mem c') p = key"
      and "item_view (c_mem c') p = \<lparr>v_value = a @ b, v_flags = flags, v_expiration = expiration_for now ttl, v_timestamp = ts\<rparr>"
proof -
  let ?n = "CalcSizeRequired key (length a + length b)"
  note r = cache_repD [OF rep]
  have sz: "?n < page_size (m_allocator c)" using size r(7) by simp
  obtain x m where a: "alloc_or_evict (m_allocator c) ?n False (\<lambda>_ u. u) () = Some (x, m, ())"
      "case x of None \<Rightarrow> mem_inv m A
      | Some p \<Rightarrow> \<exists>s. p \<notin> fst ` A \<and> mem_inv m (insert (p, s) A) \<and> ?n \<le> s"
      "same_geometry (m_allocator c) m"
    using mem_alloc_inv [OF r(1) sz, of False "\<lambda>_ u. u" "()"] by (fastforce split: option.splits)
  show ?thesis
  proof (cases x)
    case None
    then show ?thesis using a full [of m] r by (simp add: cache_rep_def same_geometry_def)
  next
    case (Some p)
    have ps: "page_size m = P" using a(3) r(7) by (simp add: same_geometry_def)
    from Some obtain s where s: "p \<notin> fst ` A" "mem_inv m (insert (p, s) A)" "?n \<le> s" using a(2) by auto
    have new: "p \<notin> L" "p \<notin> ran (cached c)" using s(1) r(4) by auto
    have kb: "length key < 256"
      using cached_item(1) [OF rep q] unat_word_lt [of "m_key_length (items (c_mem c) q)"] by (auto simp: item_key_def)
    have ok: "items_ok hf (c_mem c) (insert (p, s) A - {(p, s)})" using r(6) by (auto simp: items_ok_def)
    have A': "fst ` insert (p, s) A = ran (dict_map (entry_key c) (m_dict c)) \<union> insert p L"
        "ran (dict_map (entry_key c) (m_dict c)) \<inter> insert p L = {}"
      using r(4,5) new by (auto simp: cached_def)
    let ?M1 = "item_new now p key (hf key) (of_nat (length a + length b)) flags ttl ts (c_mem c)"
    define c1 where "c1 = c\<lparr>m_allocator := m, m_dict := m_dict c, c_user := c_user c, m_newest_timestamp := ts, c_mem := ?M1\<rparr>"
    note n1 = new_item_ok [OF s(2) insertI1 ok r(2,3) A' s(3) kb ps c1_def]
    have ct1: "contents c1 = contents c" using n1(3) by (simp add: fun_eq_iff contents_def cached_def)
    note sp = item_new_spec [OF kb refl, where now = now and p = p and h = "hf key" and vl = "of_nat (length a + length b)"
        and fl = flags and ttl = ttl and ts = ts and M = "c_mem c"]
    have sz: "24 + length key + length (a @ b) \<le> s" using s(3) by (simp add: CalcSizeRequired_def sizeof_Item_def)
    have lt: "length a + length b < 2 ^ 32" using held_below [OF s(2) insertI1] sz by simp
    note as = assign_compose_spec [OF lt refl, where p = p and M = ?M1]
    define M2 where "M2 = assign_compose p a b ?M1"
    have M1: "c_mem c1 = ?M1" by (simp add: c1_def)
    have k1: "item_key (c_mem c1) p = key" using sp(1) M1 by simp
    have ob: "only_block p s (c_mem c1) M2"
      using as(4) sz unat_key_length [OF kb] unfolding M1 M2_def sp(2) by simp
    have kM: "item_key M2 p = key" using as(2) sp(1) by (simp add: M2_def)
    have vM: "item_value M2 p = a @ b" using as(1) by (simp add: M2_def)
    have iM: "items M2 p = (items (c_mem c1) p)\<lparr>m_value_length := of_nat (length (a @ b))\<rparr>" using as(3) by (simp add: M2_def M1)
    note fill = fill_item [OF n1(1) insertI1 insertI1 k1 sz kM vM iM ob]
    have c': "c1\<lparr>c_mem := M2\<rparr> = c\<lparr>m_allocator := m, m_newest_timestamp := ts, c_mem := M2\<rparr>"
      unfolding c1_def update_same_dict by simp
    have "item_view ?M1 p = \<lparr>v_value = item_value ?M1 p, v_flags = flags, v_expiration = expiration_for now ttl, v_timestamp = ts\<rparr>"
      unfolding item_view_def opaque_flags_def expiration_time_def item_timestamp_def sp(2) by simp
    then have view: "item_view M2 p = \<lparr>v_value = a @ b, v_flags = flags, v_expiration = expiration_for now ttl, v_timestamp = ts\<rparr>"
      using fill(5) unfolding M1 by simp
    show ?thesis
      by (rule built [OF _ new(1), of m "c1\<lparr>c_mem := M2\<rparr>" "insert (p, s) A"])
        (use a(1) Some fill(1,3) trans [OF fill(2) n1(2), folded cached_def] ct1 kM view c' in \<open>simp_all add: M2_def\<close>)
  qed
qed

text \<open>The run of an extension that finds the item.\<close>

lemma do_extend_run:
  assumes ret: "retrieve_item fresh (clk 0) (item_key (c_mem c) p) (item_hash (c_mem c) p) False
      (count_stat (if op = APPEND then cmd_append else cmd_prepend) c) = Some (Inr (True, Primary, pos), c1)"
    and at: "iter_value (m_dict c1) (Primary, pos) = Some q" and M: "c_mem c1 = c_mem c" "m_newest_timestamp c1 = m_newest_timestamp c"
    and kq: "item_key (c_mem c) q = key" and hq: "item_hash (c_mem c) q = h" and w: "item_value (c_mem c) p = w"
    and a_def: "a = (if op = APPEND then v_value (item_view (c_mem c) q) else w)"
    and b_def: "b = (if op = APPEND then w else v_value (item_view (c_mem c) q))"
  shows "do_extend fresh clk op p c =
    Option.bind (alloc_or_evict (m_allocator c1) (CalcSizeRequired key (length a + length b)) False (\<lambda>_ u. u) ()) (\<lambda>(memory, m, _).
      case memory of None \<Rightarrow> auto_delete p (Inl (System_error out_of_memory)) (c1\<lparr>m_allocator := m\<rparr>)
      | Some x \<Rightarrow> Option.bind (replace_item_at (Primary, pos) x (count_stat (if op = APPEND then append_stored else prepend_stored)
          (c1\<lparr>m_allocator := m, m_newest_timestamp := m_newest_timestamp c + 1,
            c_mem := assign_compose x a b (item_new (clk 2) x key (h) (of_nat (length a + length b)) (v_flags (item_view (c_mem c) q))
              (ttl_left (clk 1) (item_view (c_mem c) q)) (m_newest_timestamp c + 1) (c_mem c))\<rparr>)))
          (auto_delete p (Inr True)))"
proof -
  let ?v = "item_view (c_mem c) q"
  have view: "opaque_flags (c_mem c) q = v_flags ?v" "item_value (c_mem c) q = v_value ?v" by (simp_all add: item_view_def)
  have len: "length (v_value ?v) + length w = length a + length b" by (simp add: a_def b_def)
  show ?thesis
  proof (cases "alloc_or_evict (m_allocator c1) (CalcSizeRequired key (length a + length b)) False (\<lambda>_ u. u) ()")
    case None
    then show ?thesis unfolding do_extend_def Let_def ret by (simp add: at M kq w view len)
  next
    case (Some r)
    obtain memory m u where r: "r = (memory, m, u)" by (cases r)
    have "assign_compose x a b N = (if op = APPEND then assign_compose x (v_value ?v) w N else assign_compose x w (v_value ?v) N)" for x N
      by (simp add: a_def b_def)
    with Some r show ?thesis
      unfolding do_extend_def Let_def ret
      by (cases memory) (simp_all add: at M kq hq w view len ttl_left_view del: of_nat_add)
  qed
qed

lemma do_extend_ok:
  assumes ok: "cache_ok P hf L c" and "ready fresh c key" and p: "p \<in> L" "item_key (c_mem c) p = key"
    and hash: "item_hash (c_mem c) p = hf key" and w: "item_value (c_mem c) p = w"
    and size: "\<And>v. live (clk 0) c key = Some v \<Longrightarrow> CalcSizeRequired key (length (v_value v) + length w) < P"
  shows "(\<exists>e c'. do_extend fresh clk op p c = Some (Inl e, c') \<and> cache_ok P hf (L - {p}) c' \<and> contents c' = contents c
      \<and> (e = Bad_alloc \<and> contents c key = None \<and> no_room fresh c
        \<or> e = System_error out_of_memory \<and> live (clk 0) c key \<noteq> None))
    \<or> (\<exists>c'. do_extend fresh clk op p c = Some (Inr (live (clk 0) c key \<noteq> None), c') \<and> cache_ok P hf (L - {p}) c'
      \<and> contents c' = (contents c)(key := map_option (extended clk op (m_newest_timestamp c + 1) w) (live (clk 0) c key)))"
    (is "?fails \<or> ?does")
proof -
  define c0 where "c0 = count_stat (if op = APPEND then cmd_append else cmd_prepend) c"
  have c0: "cache_ok P hf L c0" "ready fresh c0 key" and c0': "live now c0 = live now c" "contents c0 = contents c" "no_room fresh c0 = no_room fresh c"
      "c_mem c0 = c_mem c" "page_size (m_allocator c0) = page_size (m_allocator c)" "m_newest_timestamp c0 = m_newest_timestamp c" for now
    using assms by (simp_all add: c0_def no_room_def)
  from c0 show ?thesis
  proof (cases rule: retrieve_cases [where now = "clk 0" and ro = False])
    case (failed c1)
    obtain c' where "auto_delete p (Inl Bad_alloc :: bool result) c1 = Some (Inl Bad_alloc, c')" "cache_ok P hf (L - {p}) c'" "contents c' = contents c1"
      by (rule auto_deleted [OF failed(2) p(1)])
    then have ?fails using failed c0' p(2) hash by (auto simp: do_extend_def c0_def)
    then show ?thesis ..
  next
    case (miss pos c1)
    let ?c1 = "count_stat (if op = APPEND then append_misses else prepend_misses) c1"
    obtain c' where "auto_delete p (Inr False) ?c1 = Some (Inr False, c')" "cache_ok P hf (L - {p}) c'" "contents c' = contents ?c1"
      by (rule auto_deleted [of P hf L ?c1 p]) (use miss(2) p(1) in simp_all)
    then have ?does using miss(1,3,4) c0' p(2) hash by (auto simp: do_extend_def c0_def)
    then show ?thesis ..
  next
    case (hit q pos c1)
    obtain A where rep: "cache_rep P hf L c1 A" using hit(2) by (auto simp: cache_ok_def)
    note i = cached_item [OF rep hit(4)]
    let ?M = "c_mem c" and ?v = "item_view (c_mem c) q" and ?ts = "m_newest_timestamp c + 1"
    have M: "c_mem c1 = ?M" "m_newest_timestamp c1 = m_newest_timestamp c" using hit(8,11) c0' by simp_all
    have lv: "live (clk 0) c key = Some ?v" using hit(5) c0' by simp
    have kq: "item_key ?M q = key" using i(1) M by simp
    have hq: "item_hash ?M q = hf key"
      using cache_repD(6) [OF rep] i(1,5) M by (auto simp: items_ok_def)
    define a b where "a = (if op = APPEND then v_value ?v else w)" and "b = (if op = APPEND then w else v_value ?v)"
    have ab: "length (item_value ?M q) + length (item_value ?M p) = length a + length b"
      using w by (simp add: a_def b_def item_view_def)
    have sz: "CalcSizeRequired key (length a + length b) < P"
      using size [OF lv] ab w by (simp add: item_view_def)
    have ret: "retrieve_item fresh (clk 0) (item_key ?M p) (item_hash ?M p) False c0 = Some (Inr (True, Primary, pos), c1)"
      using hit(1) p(2) hash by simp
    note run = do_extend_run [where clk = clk, OF ret [unfolded c0_def] hit(7) M kq hq w a_def b_def]
    from rep hit(4) sz show ?thesis
    proof (cases rule: extend_item [where now = "clk 2" and flags = "v_flags ?v" and ttl = "ttl_left (clk 1) ?v" and ts = ?ts])
      case (full m)
      obtain c' where "auto_delete p (Inl (System_error out_of_memory) :: bool result) (c1\<lparr>m_allocator := m\<rparr>)
          = Some (Inl (System_error out_of_memory), c')" "cache_ok P hf (L - {p}) c'" "contents c' = contents (c1\<lparr>m_allocator := m\<rparr>)"
        by (rule auto_deleted [OF cache_okI [OF full(2)] p(1)])
      moreover have "contents (c1\<lparr>m_allocator := m\<rparr>) = contents c" using hit(3) c0' by (simp add: contents_def fun_eq_iff)
      ultimately have ?fails using full(1) lv by (simp add: run)
      then show ?thesis ..
    next
      case (built x m A' c')
      let ?c2 = "count_stat (if op = APPEND then append_stored else prepend_stored) c'"
      have c2: "cache_ok P hf (insert x L) ?c2" "item_key (c_mem ?c2) x = key" "cached ?c2 key = Some q" "m_dict ?c2 = m_dict c1"
        using cache_okI [OF built(4)] built(3,5,7) hit(4) by simp_all
      obtain c3 where c3: "replace_item_at (Primary, pos) x ?c2 = Some c3" "cache_ok P hf (insert x L - {x}) c3"
          "contents c3 = (contents ?c2)(key \<mapsto> item_view (c_mem ?c2) x)"
        by (rule replace_stored [OF c2(1) insertI1 c2(2,3)]) (use hit(6,7) c2(4) in simp_all)
      have "insert x L - {x} = L" using built(2) by simp
      then have "cache_ok P hf L c3" using c3(2) by simp
      then obtain c4 where c4: "auto_delete p (Inr True) c3 = Some (Inr True, c4)" "cache_ok P hf (L - {p}) c4" "contents c4 = contents c3"
        by (rule auto_deleted [OF _ p(1)])
      have "a @ b = (if op = APPEND then v_value ?v @ w else w @ v_value ?v)" by (simp add: a_def b_def)
      then have "item_view (c_mem c') x = extended clk op ?ts w ?v" using built(8) by (simp add: extended_def)
      then have ct: "contents c4 = (contents c)(key \<mapsto> extended clk op ?ts w ?v)"
        using c4(3) c3(3) built(6) hit(3) c0' by simp
      have "do_extend fresh clk op p c = Some (Inr True, c4)"
        using built(1) c3(1) c4(1) M unfolding built(3) by (simp add: run)
      then have ?does using c4(2) ct lv by simp
      then show ?thesis ..
    qed
  qed
qed

text \<open>\<^verbatim>\<open>incr\<close> and \<^verbatim>\<open>decr\<close> in a cache without evictions.\<close>

lemma counted_word:
  fixes x delta :: u64
  shows "unat (if op = INCR then (if - 1 - x \<ge> delta then x + delta else - 1) else (if x \<ge> delta then x - delta else 0))
    = counted op (unat x) (unat delta)"
proof -
  have m: "unat (- 1 - x) = 2 ^ 64 - 1 - unat x"
    using unat_minus1 [where 'a = 64] by (simp add: unat_diff_le)
  have "unat (x + delta) = unat x + unat delta" if "unat delta \<le> 2 ^ 64 - 1 - unat x"
    using that unat_word_lt [of x] by (intro unat_add_lt) simp
  then show ?thesis
    using m unat_minus1 [where 'a = 64] unat_word_lt [of x] unat_word_lt [of delta]
    by (auto simp: counted_def word_le_nat_alt min_def unat_diff_le)
qed

lemma ascii_number:
  "int_to_str 64 (int (unat (x :: u64))) = decimal (unat x)" "length (decimal (unat (x :: u64))) \<le> 20"
proof -
  have lt: "unat x < 2 ^ 64" using unat_word_lt [of x] by simp
  have "int (unat x) < int (2 ^ 64)" unfolding of_nat_less_iff by (rule lt)
  then have "int (unat x) < 2 ^ 64" "- (2 ^ 64) < int (unat x)" unfolding of_nat_power of_nat_numeral by linarith+
  then show "int_to_str 64 (int (unat x)) = decimal (unat x)" by (subst int_to_str_dec) simp_all
  have "unat x < 10 ^ 20" using lt by simp
  then show "length (decimal (unat x)) \<le> 20" by (rule length_decimal) simp
qed

lemma settled_same:
  assumes "cache_rep P hf L c A" and "cache_rep P hf L' c' A'" and "m_dict c' = m_dict c" and "cached c' = cached c"
    and "settled (entry_key c) (m_dict c) k"
  shows "settled (entry_key c') (m_dict c') k"
proof -
  have eq: "dict_map (entry_key c') (m_dict c) = dict_map (entry_key c) (m_dict c)" using assms(3,4) by (simp add: cached_def)
  have "entry_key c' e = entry_key c e" if "(h, e) \<in># dict_mset (m_dict c)" for h e
    by (rule dict_same_keys [OF cache_repD(2) [OF assms(1)] cache_repD(2) [OF assms(2), unfolded assms(3)] eq that])
  then show ?thesis unfolding assms(3) using assms(5) by (rule settled_entries [rotated])
qed

text \<open>A new item of the size of a value, filled with it.\<close>

lemma create_filled:
  assumes rep: "cache_rep P hf L c A" and key: "length key \<le> max_key_length" and size: "CalcSizeRequired key (length w) + 8 \<le> P"
    and L: "L = {} \<or> \<not> m_evictions_enabled c"
  obtains (full) m where "create_item now key (hf key) (length w) flags ttl c = Some (Inl (System_error out_of_memory), c\<lparr>m_allocator := m\<rparr>)"
      and "\<not> m_evictions_enabled c" and "cache_rep P hf L (c\<lparr>m_allocator := m\<rparr>) A"
  | (made) p c1 c' V A' where "create_item now key (hf key) (length w) flags ttl c = Some (Inr p, c1)"
      and "c' = c1\<lparr>c_mem := assign_value p w (c_mem c1)\<rparr>" and "cache_rep P hf (insert p L) c' A'" and "p \<notin> L"
      and "cached c' = cached c |` (- keys_in c V)" and "contents c' = contents c |` (- keys_in c V)"
      and "V = {} \<or> m_evictions_enabled c \<and> V = lru_page_mem (m_allocator c) A" and "V = {} \<Longrightarrow> m_dict c' = m_dict c"
      and "item_key (c_mem c') p = key" and "item_hash (c_mem c') p = hf key"
      and "item_view (c_mem c') p = \<lparr>v_value = w, v_flags = flags, v_expiration = expiration_for now ttl, v_timestamp = m_newest_timestamp c + 1\<rparr>"
      and "\<forall>k. settled (entry_key c) (m_dict c) k \<longrightarrow> settled (entry_key c') (m_dict c') k"
  using rep key size L
proof (cases rule: create_item_ok [where now = now and flags = flags and ttl = ttl])
  case (full m)
  then show ?thesis by (rule that(1))
next
  case (made p s c1 m d V ptrs A')
  have sz: "24 + length key + length w \<le> s" using made(5) by (simp add: CalcSizeRequired_def sizeof_Item_def)
  have lw: "length w < 2 ^ 32" using held_below [OF cache_repD(1) [OF made(3)] made(4)] sz by simp
  note sp = item_new_spec [OF max_key_length_byte [OF key] refl, where now = now and p = p and h = "hf key" and vl = "of_nat (length w)"
      and fl = flags and ttl = ttl and ts = "m_newest_timestamp c + 1" and M = "c_mem c"]
  have M1: "c_mem c1 = item_new now p key (hf key) (of_nat (length w)) flags ttl (m_newest_timestamp c + 1) (c_mem c)"
    by (simp add: made(2))
  note as = assign_value_spec [OF lw refl, where p = p and M = "c_mem c1"]
  have k1: "item_key (c_mem c1) p = key" using sp(1) M1 by simp
  have ob: "only_block p s (c_mem c1) (assign_value p w (c_mem c1))"
    using as(4) sz unat_key_length [OF max_key_length_byte [OF key]] unfolding M1 sp(2) by simp
  have kM: "item_key (assign_value p w (c_mem c1)) p = key" using as(2) k1 by simp
  note fill = fill_item [OF made(3) insertI1 made(4) k1 sz kM as(1,3) ob]
  define c' where "c' = c1\<lparr>c_mem := assign_value p w (c_mem c1)\<rparr>"
  have view: "item_view (c_mem c') p = \<lparr>v_value = w, v_flags = flags, v_expiration = expiration_for now ttl, v_timestamp = m_newest_timestamp c + 1\<rparr>"
    using fill(5) unfolding M1 by (simp add: c'_def M1 item_view_def opaque_flags_def expiration_time_def item_timestamp_def sp(2))
  have d': "m_dict c' = m_dict c1" "m_dict c1 = d" by (simp_all add: c'_def made(2))
  have st: "settled (entry_key c) (m_dict c) k \<Longrightarrow> settled (entry_key c') (m_dict c') k" for k
    using settled_same [OF made(3) fill(1) _ fill(2), of k] made(13) unfolding c'_def by simp
  show ?thesis
    by (rule that(2) [where p = p and V = V, OF made(1) c'_def]) (use fill(1-4) made(6-9,12) d' view st kM in \<open>simp_all add: c'_def\<close>)
qed

text \<open>A new item put in the place of a stored one.\<close>

lemma renew_item:
  assumes rep: "cache_rep P hf L c A" and q: "cached c key = Some q" "unat pos < unat (m_capacity (m_primary_tbl (m_dict c)))"
      "iter_value (m_dict c) (Primary, pos) = Some q"
    and key: "length key \<le> max_key_length" and size: "CalcSizeRequired key (length w) + 8 \<le> P"
    and ev: "\<not> m_evictions_enabled c"
  obtains (full) c' where "create_item now key (hf key) (length w) flags ttl c = Some (Inl (System_error out_of_memory), c')"
      and "cache_ok P hf L c'" and "contents c' = contents c"
  | (renewed) p c1 c' where "create_item now key (hf key) (length w) flags ttl c = Some (Inr p, c1)"
      and "replace_item_at (Primary, pos) p (c1\<lparr>c_mem := assign_value p w (c_mem c1)\<rparr>) = Some c'" and "cache_ok P hf L c'"
      and "contents c' = (contents c)(key \<mapsto> \<lparr>v_value = w, v_flags = flags, v_expiration = expiration_for now ttl,
        v_timestamp = m_newest_timestamp c + 1\<rparr>)"
proof -
  have L: "L = {} \<or> \<not> m_evictions_enabled c" using ev by simp
  from rep key size L show ?thesis
  proof (cases rule: create_filled [where now = now and flags = flags and ttl = ttl])
    case (full m)
    have "contents (c\<lparr>m_allocator := m\<rparr>) = contents c" by (simp add: contents_def fun_eq_iff)
    then show ?thesis using that(1) [OF full(1) cache_okI [OF full(3)]] by blast
  next
    case (made p c1 c2 V A')
    have V: "V = {}" using made(7) ev by simp
    have same: "cached c2 = cached c" "contents c2 = contents c" "m_dict c2 = m_dict c"
      using made(5,6,8) V by (simp_all add: keys_in_def restrict_map_def)
    obtain c' where c': "replace_item_at (Primary, pos) p c2 = Some c'" "cache_ok P hf (insert p L - {p}) c'"
        "contents c' = (contents c2)(key \<mapsto> item_view (c_mem c2) p)"
      by (rule replace_stored [OF cache_okI [OF made(3)] insertI1, of key q pos]) (use q same made(9) in simp_all)
    have "insert p L - {p} = L" using made(4) by simp
    then have ok: "cache_ok P hf L c'" using c'(2) by simp
    show ?thesis using that(2) [OF made(1) c'(1) [unfolded made(2)] ok] c'(3) made(11) same(2) by simp
  qed
qed

lemma do_arithmetic_run:
  assumes at: "iter_value (m_dict c1) (Primary, pos) = Some q" and M: "c_mem c1 = c_mem c"
    and kq: "item_key (c_mem c) q = key" "item_hash (c_mem c) q = h"
    and view: "item_value (c_mem c) q = v_value (item_view (c_mem c) q)" "opaque_flags (c_mem c) q = v_flags (item_view (c_mem c) q)"
    and ret: "retrieve_item fresh (clk 0) key h False (count_stat (if op = INCR then cmd_incr else cmd_decr) c) = Some (Inr (True, Primary, pos), c1)"
    and n: "str_to_int 64 (v_value (item_view (c_mem c) q)) = Inr n"
    and r: "r = (if op = INCR then (if - 1 - of_nat n \<ge> delta then of_nat n + delta else - 1) else (if of_nat n \<ge> delta then of_nat n - delta else 0))"
  shows "do_arithmetic fresh clk op key h delta c = Option.bind (create_item (clk 2) key h (length (decimal (unat r)))
      (v_flags (item_view (c_mem c) q)) (ttl_left (clk 1) (item_view (c_mem c) q)) (count_stat (if op = INCR then incr_hits else decr_hits) c1))
      (\<lambda>(r', c3). case r' of Inl e \<Rightarrow> Some (Inl e, c3)
        | Inr p \<Rightarrow> map_option (Pair (Inr (True, r))) (replace_item_at (Primary, pos) p (c3\<lparr>c_mem := assign_value p (decimal (unat r)) (c_mem c3)\<rparr>)))"
  by (simp only: do_arithmetic_def ret Option.bind.simps prod.case sum.case not_True_eq_False if_False at Let_def M kq view n
      ascii_number(1) ttl_left_view r [symmetric])

lemma str_to_int_bound: "str_to_int 64 s = Inr n \<Longrightarrow> n < 2 ^ 64"
  using unat_word_lt [where 'a = 64] by (auto simp: str_to_int_def str_to_unsigned_def split: sum.splits if_splits)

lemma do_arithmetic_ok:
  assumes "cache_ok P hf L c" and "ready fresh c key" and ev: "\<not> m_evictions_enabled c" and key: "length key \<le> max_key_length"
    and size: "CalcSizeRequired key 20 + 8 \<le> P"
  shows "(\<exists>e c'. do_arithmetic fresh clk op key (hf key) delta c = Some (Inl e, c') \<and> cache_ok P hf L c' \<and> contents c' = contents c
      \<and> (case live (clk 0) c key of
          None \<Rightarrow> e = Bad_alloc \<and> contents c key = None \<and> no_room fresh c
        | Some v \<Rightarrow> (case str_to_int 64 (v_value v) of Inl e' \<Rightarrow> e = e' | Inr n \<Rightarrow> e = System_error out_of_memory)))
    \<or> (\<exists>c'. live (clk 0) c key = None \<and> do_arithmetic fresh clk op key (hf key) delta c = Some (Inr (False, 0), c')
      \<and> cache_ok P hf L c' \<and> contents c' = (contents c)(key := None))
    \<or> (\<exists>c' v n r. live (clk 0) c key = Some v \<and> str_to_int 64 (v_value v) = Inr n
      \<and> do_arithmetic fresh clk op key (hf key) delta c = Some (Inr (True, r), c') \<and> unat r = counted op n (unat delta)
      \<and> cache_ok P hf L c' \<and> contents c' = (contents c)(key \<mapsto> recounted clk (m_newest_timestamp c + 1) (unat r) v))"
    (is "?fails \<or> ?absent \<or> ?does")
proof -
  define c0 where "c0 = count_stat (if op = INCR then cmd_incr else cmd_decr) c"
  have c0: "cache_ok P hf L c0" "ready fresh c0 key" and c0': "live now c0 = live now c" "contents c0 = contents c" "no_room fresh c0 = no_room fresh c"
      "c_mem c0 = c_mem c" "page_size (m_allocator c0) = page_size (m_allocator c)" "m_newest_timestamp c0 = m_newest_timestamp c"
      "m_evictions_enabled c0 = m_evictions_enabled c" for now
    using assms by (simp_all add: c0_def no_room_def)
  from c0 show ?thesis
  proof (cases rule: retrieve_cases [where now = "clk 0" and ro = False])
    case (failed c1)
    have "live (clk 0) c key = None" using failed(5) c0' by (simp add: live_def)
    then have ?fails using failed c0' by (simp add: do_arithmetic_def c0_def)
    then show ?thesis ..
  next
    case (miss pos c1)
    then have ?absent using c0' by (simp add: do_arithmetic_def c0_def)
    then show ?thesis by blast
  next
    case (hit q pos c1)
    obtain A where rep: "cache_rep P hf L c1 A" using hit(2) by (auto simp: cache_ok_def)
    note i = cached_item [OF rep hit(4)]
    let ?v = "item_view (c_mem c) q" and ?c2 = "count_stat (if op = INCR then incr_hits else decr_hits) c1"
    have M: "c_mem c1 = c_mem c" using hit(8) c0' by simp
    have lv: "live (clk 0) c key = Some ?v" using hit(5) c0' by simp
    have view: "item_value (c_mem c) q = v_value ?v" "opaque_flags (c_mem c) q = v_flags ?v" by (simp_all add: item_view_def)
    have kq: "item_key (c_mem c) q = key" "item_hash (c_mem c) q = hf key"
      using cache_repD(6) [OF rep] i(1,5) M by (auto simp: items_ok_def)
    show ?thesis
    proof (cases "str_to_int 64 (v_value ?v)")
      case (Inl e)
      then have ?fails using hit(1-3,7) lv M view c0' by (simp add: do_arithmetic_def c0_def)
      then show ?thesis ..
    next
      case (Inr n)
      define x :: u64 where "x = of_nat n"
      define r where "r = (if op = INCR then (if - 1 - x \<ge> delta then x + delta else - 1) else (if x \<ge> delta then x - delta else 0))"
      have r: "unat r = counted op n (unat delta)"
        using counted_word [of op delta x] str_to_int_bound [OF Inr] by (simp add: r_def x_def unat_of_nat)
      have rep2: "cache_rep P hf L ?c2 A" and ev2: "\<not> m_evictions_enabled ?c2" using rep hit(10) ev c0' by simp_all
      have size2: "CalcSizeRequired key (length (decimal (unat r))) + 8 \<le> P"
        using size ascii_number(2) [of r] by (simp add: CalcSizeRequired_def)
      have q2: "cached ?c2 key = Some q" "unat pos < unat (m_capacity (m_primary_tbl (m_dict ?c2)))" "iter_value (m_dict ?c2) (Primary, pos) = Some q"
        using hit(4,6,7) by simp_all
      have run: "do_arithmetic fresh clk op key (hf key) delta c = Option.bind (create_item (clk 2) key (hf key) (length (decimal (unat r)))
          (v_flags ?v) (ttl_left (clk 1) ?v) ?c2) (\<lambda>(r', c3). case r' of Inl e \<Rightarrow> Some (Inl e, c3)
            | Inr p \<Rightarrow> map_option (Pair (Inr (True, r))) (replace_item_at (Primary, pos) p (c3\<lparr>c_mem := assign_value p (decimal (unat r)) (c_mem c3)\<rparr>)))"
        using hit(1) Inr r_def unfolding c0_def x_def by (intro do_arithmetic_run [OF hit(7) M kq view])
      from rep2 q2 key size2 ev2 show ?thesis
      proof (cases rule: renew_item [where now = "clk 2" and flags = "v_flags ?v" and ttl = "ttl_left (clk 1) ?v"])
        case (full c')
        then have ?fails using lv Inr hit(3) c0' by (simp add: run)
        then show ?thesis ..
      next
        case (renewed p c3 c')
        have "do_arithmetic fresh clk op key (hf key) delta c = Some (Inr (True, r), c')" using renewed(1,2) by (simp add: run)
        moreover have "contents c' = (contents c)(key \<mapsto> recounted clk (m_newest_timestamp c + 1) (unat r) ?v)"
          using renewed(4) hit(3,11) c0' by (simp add: recounted_def)
        ultimately have ?does using lv Inr r renewed(3) by blast
        then show ?thesis by blast
      qed
    qed
  qed
qed

end
