(* ===== verification/Errors.thy ===== *)
theory Errors
  imports Prelude
begin

text \<open>
  \<^verbatim>\<open>cachelot/error.h\<close>: the numbers and the texts of the application errors. An \<^verbatim>\<open>error_code\<close> of
  boost is a number and a category; it counts as an error when the number is not zero.
\<close>

text \<open>The macro \<^verbatim>\<open>CACHELOT_ERROR_ENUM\<close> unfolds to an enumeration from 0 on.\<close>

fun error_value :: "cachelot_error_code \<Rightarrow> int" where
  "error_value unknown_error = 0"
| "error_value out_of_memory = 1"
| "error_value numeric_convert = 2"
| "error_value numeric_overflow = 3"
| "error_value key_too_long = 4"
| "error_value item_too_big = 5"
| "error_value not_implemented = 6"
| "error_value incomplete_request = 7"
| "error_value broken_request = 8"

definition category_name :: string where
  "category_name = ''Application error''"

definition message :: "int \<Rightarrow> string" where
  "message value =
     (if value = error_value unknown_error then ''Unknown error''
      else if value = error_value out_of_memory then ''Out of memory''
      else if value = error_value numeric_convert then ''Numeric conversion error''
      else if value = error_value numeric_overflow then ''Numeric value is out of range''
      else if value = error_value key_too_long then ''Key is too long''
      else if value = error_value item_too_big then ''Item size exceeds the page size''
      else if value = error_value not_implemented then ''Operation does not supported''
      else if value = error_value incomplete_request then ''Request packet is incomplete''
      else if value = error_value broken_request then ''Request packet is broken''
      else ''Invalid error code'')"

record error_code =
  ec_value :: int
  ec_category :: string

definition make_error_code :: "cachelot_error_code \<Rightarrow> error_code" where
  "make_error_code ec = \<lparr>ec_value = error_value ec, ec_category = category_name\<rparr>"

text \<open>\<^verbatim>\<open>error_code::operator bool\<close> of boost.\<close>

definition is_error :: "error_code \<Rightarrow> bool" where
  "is_error ec \<longleftrightarrow> ec_value ec \<noteq> 0"

lemma error_value_inject: "error_value a = error_value b \<longleftrightarrow> a = b"
  by (cases a; cases b) simp_all

lemma is_error_iff: "is_error (make_error_code ec) \<longleftrightarrow> ec \<noteq> unknown_error"
  by (cases ec) (simp_all add: is_error_def make_error_code_def)

end
