(* ===== verification/Memcached.thy ===== *)
theory Memcached
  imports IO_Buffer Cache_Update Errors
begin

text \<open>
  What the memcached protocols share: commands and responses (\<^verbatim>\<open>memcached/proto_defs.h\<close>), protocol errors
  (\<^verbatim>\<open>memcached/error.h\<close>), the check of a key (\<^verbatim>\<open>memcached/memcached.h\<close>), the replies of a
  conversation (\<^verbatim>\<open>network.h\<close>), and the actions the handlers are made of. A handler works on a \<open>request\<close>: the
  two buffers of the connection and the cache. An action returns a value or throws; \<open>None\<close> is what it is in the theories of the
  cache and of the buffer. A slice that is handed around is the list of its bytes.
\<close>

section \<open>Commands, responses, errors\<close>

datatype Command =
    ADD | APPEND | CAS | DECR | DEL | GET | GETS | INCR | PREPEND | REPLACE | SET | STATS | TOUCH | QUIT | VERSION
  | FLUSH_ALL | UNDEFINED

datatype Response = STORED | NOT_STORED | EXISTS | NOT_FOUND | DELETED | TOUCHED | NOT_A_RESPONSE

datatype ConversationReply = READ_MORE | SEND_REPLY_AND_READ | CLOSE_IMMEDIATELY

datatype protocol_error_code =
    key_length | value_length | crlf_expected | value_crlf_expected | key_expected | noreply_expected | udp_header_size
  | udp_proto_reserverd

definition ascii :: "string \<Rightarrow> u8 list" where
  "ascii s = map of_char s"

fun AsciiResponse :: "Response \<Rightarrow> u8 list" where
  "AsciiResponse STORED = ascii ''STORED''"
| "AsciiResponse NOT_STORED = ascii ''NOT_STORED''"
| "AsciiResponse EXISTS = ascii ''EXISTS''"
| "AsciiResponse NOT_FOUND = ascii ''NOT_FOUND''"
| "AsciiResponse DELETED = ascii ''DELETED''"
| "AsciiResponse TOUCHED = ascii ''TOUCHED''"
| "AsciiResponse NOT_A_RESPONSE = ascii ''NOT_A_RESPONSE''"

text \<open>The texts of the errors spell out the backslashes.\<close>

definition crlf_text :: string where
  "crlf_text = [CHR 0x5C, CHR ''r'', CHR 0x5C, CHR ''n'']"

fun protocol_message :: "protocol_error_code \<Rightarrow> string" where
  "protocol_message key_length = ''Maximum key length exceeded''"
| "protocol_message value_length = ''Maximum value length exceeded''"
| "protocol_message crlf_expected = ''Invalid request: '' @ crlf_text @ '' expected''"
| "protocol_message value_crlf_expected = ''Invalid value: '' @ crlf_text @ '' expected''"
| "protocol_message key_expected = ''Invalid request: key expected''"
| "protocol_message noreply_expected = ''Invalid request: expected noreply''"
| "protocol_message udp_header_size = ''UDP packet header is too small''"
| "protocol_message udp_proto_reserverd = ''UDP reserved flag expected to be zero''"

text \<open>What a handler throws: what the cache or the buffers throw, or a \<^verbatim>\<open>system_error\<close> of the protocol's category.\<close>

datatype server_exn = Thrown exn | Protocol protocol_error_code

definition validate_key :: "u8 list \<Rightarrow> server_exn + unit" where
  "validate_key key =
     (if key = [] then Inl (Protocol key_expected)
      else if length key > max_key_length then Inl (Protocol key_length)
      else Inr ())"

section \<open>Actions\<close>

record 'u request =
  rq_recv :: io_buffer
  rq_send :: io_buffer
  rq_cache :: "'u cache"

text \<open>What the system, the settings and the build give: \<^verbatim>\<open>realloc\<close> for the buffers, the memory of tables, the clock, the
  page size of the settings, the version text and the text of \<^verbatim>\<open>std::bad_alloc\<close>.\<close>

record server_env =
  env_realloc :: reallocation
  env_fresh :: "nat fresh_arrays"
  env_clk :: "nat \<Rightarrow> u32"
  env_page_size :: nat
  env_version :: string
  env_bad_alloc :: string

type_synonym ('a, 'u) action = "'u request \<Rightarrow> ((server_exn + 'a) \<times> 'u request) option"

definition sum_bind :: "'e + 'a \<Rightarrow> ('a \<Rightarrow> 'e + 'b) \<Rightarrow> 'e + 'b" where
  "sum_bind r f = (case r of Inl e \<Rightarrow> Inl e | Inr a \<Rightarrow> f a)"

definition and_then :: "('a, 'u) action \<Rightarrow> ('a \<Rightarrow> ('b, 'u) action) \<Rightarrow> ('b, 'u) action" where
  "and_then m f s = (case m s of
      None \<Rightarrow> None
    | Some (Inl e, s') \<Rightarrow> Some (Inl e, s')
    | Some (Inr a, s') \<Rightarrow> f a s')"

definition give :: "'a \<Rightarrow> ('a, 'u) action" where
  "give a s = Some (Inr a, s)"

definition raise :: "server_exn \<Rightarrow> ('a, 'u) action" where
  "raise e s = Some (Inl e, s)"

definition from_sum :: "server_exn + 'a \<Rightarrow> ('a, 'u) action" where
  "from_sum r s = Some (r, s)"

text \<open>A call of the cache.\<close>

definition call :: "('u cache \<Rightarrow> ('a, 'u) outcome) \<Rightarrow> ('a, 'u) action" where
  "call f s = map_option (\<lambda>(r, c). (map_sum Thrown id r, s\<lparr>rq_cache := c\<rparr>)) (f (rq_cache s))"

text \<open>The operators \<^verbatim>\<open><<\<close> on the send buffer. A piece is the size that \<^verbatim>\<open>begin_write\<close> is asked for and the bytes
  that are written.\<close>

type_synonym piece = "nat \<times> u8 list"

definition max_str_length :: "nat \<Rightarrow> nat" where
  "max_str_length w = (if w = 16 then 5 else if w = 32 then 10 else 20)"

definition put_slice :: "u8 list \<Rightarrow> piece" where
  "put_slice value = (length value, value)"

definition put_string :: "string \<Rightarrow> piece" where
  "put_string value = put_slice (ascii value)"

definition put_char :: "u8 \<Rightarrow> piece" where
  "put_char value = (1, [value])"

definition put_bool :: "bool \<Rightarrow> piece" where
  "put_bool value = (if value then put_char 49 else put_char 48)"

definition put_response :: "Response \<Rightarrow> piece" where
  "put_response resp = put_slice (AsciiResponse resp)"

definition serialize_integer :: "nat \<Rightarrow> nat \<Rightarrow> piece" where
  "serialize_integer w x = (max_str_length w, int_to_str w (int x))"

fun send :: "reallocation \<Rightarrow> piece list \<Rightarrow> io_buffer \<Rightarrow> (unit result \<times> io_buffer) option" where
  "send ra [] b = Some (Inr (), b)"
| "send ra ((n, bs) # ps) b = (case buf_write ra n bs b of
      None \<Rightarrow> None
    | Some (Inl e, b') \<Rightarrow> Some (Inl e, b')
    | Some (Inr _, b') \<Rightarrow> send ra ps b')"

definition put :: "server_env \<Rightarrow> piece list \<Rightarrow> (unit, 'u) action" where
  "put env ps s = map_option (\<lambda>(r, b). (map_sum Thrown id r, s\<lparr>rq_send := b\<rparr>)) (send (env_realloc env) ps (rq_send s))"

end
