(* ===== verification/Proto_Ascii.thy ===== *)
theory Proto_Ascii
  imports Memcached
begin

text \<open>
  \<^verbatim>\<open>server/memcached/proto_ascii.cpp\<close>: the text protocol. \<open>handle_received_data_ascii\<close> reads one command from the
  receive buffer, calls the cache and writes the reply; its \<^verbatim>\<open>catch\<close> clauses are \<open>on_system_error\<close> and
  \<open>on_exception\<close>. The \<open>i\<close>-th reading of the clock within a command is \<open>env_clk env i\<close>.
\<close>

section \<open>Words of the protocol\<close>

definition SPACE :: u8 where
  "SPACE = 32"

definition CRLF :: "u8 list" where
  "CRLF = [13, 10]"

definition NOREPLY :: "u8 list" where
  "NOREPLY = ascii ''noreply''"

definition calc_hash :: "u8 list \<Rightarrow> u32" where
  "calc_hash key = fnv1a_32 key"

text \<open>The function objects that compare a command with a literal of the same length whose first
  character is known.\<close>

definition is_3 :: "u8 list \<Rightarrow> u8 list \<Rightarrow> bool" where
  "is_3 literal cmd \<longleftrightarrow> cmd ! 1 = literal ! 1 \<and> cmd ! 2 = literal ! 2"

definition is_4 :: "u8 list \<Rightarrow> u8 list \<Rightarrow> bool" where
  "is_4 literal cmd \<longleftrightarrow> is_3 literal cmd \<and> cmd ! 3 = literal ! 3"

definition is_5 :: "u8 list \<Rightarrow> u8 list \<Rightarrow> bool" where
  "is_5 literal cmd \<longleftrightarrow> is_4 literal cmd \<and> cmd ! 4 = literal ! 4"

definition is_6 :: "u8 list \<Rightarrow> u8 list \<Rightarrow> bool" where
  "is_6 literal cmd \<longleftrightarrow> is_5 literal cmd \<and> cmd ! 5 = literal ! 5"

definition is_7 :: "u8 list \<Rightarrow> u8 list \<Rightarrow> bool" where
  "is_7 literal cmd \<longleftrightarrow> is_6 literal cmd \<and> cmd ! 6 = literal ! 6"

definition parse_command_name :: "u8 list \<Rightarrow> Command" where
  "parse_command_name command =
     (if command = [] then UNDEFINED
      else let first_char = command ! 0; n = length command in
        if n = 3 then
          (if first_char = of_char CHR ''a'' then (if is_3 (ascii ''add'') command then ADD else UNDEFINED)
           else if first_char = of_char CHR ''c'' then (if is_3 (ascii ''cas'') command then CAS else UNDEFINED)
           else if first_char = of_char CHR ''g'' then (if is_3 (ascii ''get'') command then GET else UNDEFINED)
           else if first_char = of_char CHR ''s'' then (if is_3 (ascii ''set'') command then SET else UNDEFINED)
           else UNDEFINED)
        else if n = 4 then
          (if first_char = of_char CHR ''d'' then (if is_4 (ascii ''decr'') command then DECR else UNDEFINED)
           else if first_char = of_char CHR ''g'' then (if is_4 (ascii ''gets'') command then GETS else UNDEFINED)
           else if first_char = of_char CHR ''i'' then (if is_4 (ascii ''incr'') command then INCR else UNDEFINED)
           else if first_char = of_char CHR ''q'' then (if is_4 (ascii ''quit'') command then QUIT else UNDEFINED)
           else UNDEFINED)
        else if n = 5 then
          (if first_char = of_char CHR ''t'' then (if is_5 (ascii ''touch'') command then TOUCH else UNDEFINED)
           else if first_char = of_char CHR ''s'' then (if is_5 (ascii ''stats'') command then STATS else UNDEFINED)
           else UNDEFINED)
        else if n = 6 then
          (if first_char = of_char CHR ''a'' then (if is_6 (ascii ''append'') command then APPEND else UNDEFINED)
           else if first_char = of_char CHR ''d'' then (if is_6 (ascii ''delete'') command then DEL else UNDEFINED)
           else UNDEFINED)
        else if n = 7 then
          (if first_char = of_char CHR ''p'' then (if is_7 (ascii ''prepend'') command then PREPEND else UNDEFINED)
           else if first_char = of_char CHR ''r'' then (if is_7 (ascii ''replace'') command then REPLACE else UNDEFINED)
           else if first_char = of_char CHR ''v'' then (if is_7 (ascii ''version'') command then VERSION else UNDEFINED)
           else UNDEFINED)
        else if n = 9 then (if take 9 command = ascii ''flush_all'' then FLUSH_ALL else UNDEFINED)
        else UNDEFINED)"

section \<open>Arguments\<close>

definition parse_key :: "u8 list \<Rightarrow> server_exn + (u8 list \<times> u8 list)" where
  "parse_key args = (case split_bytes [SPACE] args of (key, rest) \<Rightarrow> sum_bind (validate_key key) (\<lambda>_. Inr (key, rest)))"

definition maybe_noreply :: "u8 list \<Rightarrow> server_exn + bool" where
  "maybe_noreply args =
     (if args = [] then Inr False
      else if args = NOREPLY then Inr True
      else Inl (Protocol noreply_expected))"

text \<open>A number up to the next space: the two lines that the handlers repeat.\<close>

definition parse_number :: "nat \<Rightarrow> u8 list \<Rightarrow> server_exn + (nat \<times> u8 list)" where
  "parse_number w args = (case split_bytes [SPACE] args of (parsed, rest) \<Rightarrow>
     (case str_to_int w parsed of Inl e \<Rightarrow> Inl (Thrown e) | Inr n \<Rightarrow> Inr (n, rest)))"

section \<open>Replies\<close>

definition reply_with_response :: "server_env \<Rightarrow> Response \<Rightarrow> bool \<Rightarrow> (ConversationReply, 'u) action" where
  "reply_with_response env response noreply =
     (if \<not> noreply then and_then (put env [put_response response, put_slice CRLF]) (\<lambda>_. give SEND_REPLY_AND_READ)
      else give READ_MORE)"

section \<open>get, gets\<close>

definition value_pieces :: "Command \<Rightarrow> item_mem \<Rightarrow> nat \<Rightarrow> piece list" where
  "value_pieces cmd M i =
     [put_string ''VALUE'', put_char SPACE, put_slice (item_key M i), put_char SPACE, serialize_integer 16 (unat (opaque_flags M i)),
      put_char SPACE, serialize_integer 32 (unat (of_nat (length (item_value M i)) :: u32))]
     @ (if cmd = GETS then [put_char SPACE, serialize_integer 64 (unat (item_timestamp M i))] else [])
     @ [put_slice CRLF, put_slice (item_value M i), put_slice CRLF]"

definition retrieve_one :: "server_env \<Rightarrow> Command \<Rightarrow> nat \<Rightarrow> u8 list \<Rightarrow> (unit, 'u) action" where
  "retrieve_one env cmd n key =
     and_then (call (do_get (env_fresh env) (\<lambda>_. env_clk env n) key (calc_hash key))) (\<lambda>i.
       case i of
         None \<Rightarrow> give ()
       | Some item \<Rightarrow> (\<lambda>s. put env (value_pieces cmd (c_mem (rq_cache s)) item) s))"

function retrieval_loop :: "server_env \<Rightarrow> Command \<Rightarrow> nat \<Rightarrow> u8 list \<Rightarrow> (unit, 'u) action" where
  "retrieval_loop env cmd n args s =
     (case parse_key args of
        Inl e \<Rightarrow> Some (Inl e, s)
      | Inr (key, rest) \<Rightarrow> (case retrieve_one env cmd n key s of
            None \<Rightarrow> None
          | Some (Inl e, s') \<Rightarrow> Some (Inl e, s')
          | Some (Inr _, s') \<Rightarrow> if rest = [] then Some (Inr (), s') else retrieval_loop env cmd (Suc n) rest s'))"
  by pat_completeness auto
termination
  by (relation "measure (\<lambda>(env, cmd, n, args, s). length args)")
    (auto simp: parse_key_def sum_bind_def dest: split_bytes_shorter split: sum.splits prod.splits)

declare retrieval_loop.simps [simp del]

definition handle_retrieval_command :: "server_env \<Rightarrow> Command \<Rightarrow> u8 list \<Rightarrow> (ConversationReply, 'u) action" where
  "handle_retrieval_command env cmd args =
     and_then (retrieval_loop env cmd 0 args) (\<lambda>_.
       and_then (put env [put_string ''END'', put_slice CRLF]) (\<lambda>_. give SEND_REPLY_AND_READ))"

section \<open>add, append, cas, prepend, replace, set\<close>

record storage_args =
  sa_key :: "u8 list"
  sa_flags :: nat
  sa_keep_alive :: nat
  sa_datalen :: nat
  sa_cas_unique :: nat
  sa_noreply :: bool

definition parse_storage_args :: "server_env \<Rightarrow> Command \<Rightarrow> u8 list \<Rightarrow> server_exn + storage_args" where
  "parse_storage_args env cmd args =
     sum_bind (parse_key args) (\<lambda>(key, args).
     sum_bind (parse_number 16 args) (\<lambda>(flags, args).
     sum_bind (parse_number 32 args) (\<lambda>(keep_alive_duration, args).
     sum_bind (parse_number 32 args) (\<lambda>(datalen, args).
     if datalen > env_page_size env then Inl (Protocol value_length)
     else sum_bind (if cmd = CAS then parse_number 64 args else Inr (0, args)) (\<lambda>(cas_unique, args).
     sum_bind (maybe_noreply args) (\<lambda>noreply.
       Inr \<lparr>sa_key = key, sa_flags = flags, sa_keep_alive = keep_alive_duration, sa_datalen = datalen,
         sa_cas_unique = cas_unique, sa_noreply = noreply\<rparr>))))))"

definition read_value :: "server_env \<Rightarrow> nat \<Rightarrow> (u8 list, 'u) action" where
  "read_value env datalen s =
     (let b = rq_recv s; n = datalen + length CRLF in
      if non_read b < n
      then (case ensure_capacity (env_realloc env) (n - non_read b) b of
              (Inl e, b') \<Rightarrow> Some (Inl (Thrown e), s\<lparr>rq_recv := b'\<rparr>)
            | (Inr _, b') \<Rightarrow> Some (Inl (Thrown (System_error incomplete_request)), s\<lparr>rq_recv := b'\<rparr>))
      else case buf_bytes b (slice_of_length (m_read_pos b) n) of
          None \<Rightarrow> None
        | Some val \<Rightarrow>
            if endswith_bytes CRLF val
            then Some (Inr (take (length val - length CRLF) val), s\<lparr>rq_recv := snd (confirm_read n b)\<rparr>)
            else Some (Inl (Protocol value_crlf_expected), s))"

definition make_item :: "server_env \<Rightarrow> storage_args \<Rightarrow> u8 list \<Rightarrow> (nat, 'u) action" where
  "make_item env a val =
     call (\<lambda>c. map_option (\<lambda>(r, c1). (r, case r of
           Inr new_item \<Rightarrow> c1\<lparr>c_mem := assign_value new_item val (c_mem c1)\<rparr>
         | Inl _ \<Rightarrow> c1))
       (create_item (env_clk env 0) (sa_key a) (calc_hash (sa_key a)) (length val) (of_nat (sa_flags a)) (of_nat (sa_keep_alive a)) c))"

definition store_item :: "server_env \<Rightarrow> Command \<Rightarrow> storage_args \<Rightarrow> nat \<Rightarrow> (Response, 'u) action" where
  "store_item env cmd a new_item =
     (let fresh = env_fresh env; clk = (\<lambda>n. env_clk env (n + 1)); stored = (\<lambda>found. give (if found then STORED else NOT_STORED)) in
      case cmd of
        SET \<Rightarrow> and_then (call (do_set fresh clk new_item)) (\<lambda>_. give STORED)
      | ADD \<Rightarrow> and_then (call (do_add fresh clk new_item)) stored
      | REPLACE \<Rightarrow> and_then (call (do_replace fresh clk new_item)) stored
      | CAS \<Rightarrow> and_then (call (do_cas fresh clk new_item (of_nat (sa_cas_unique a)))) (\<lambda>(found, st).
          give (if found then (if st then STORED else EXISTS) else NOT_FOUND))
      | APPEND \<Rightarrow> and_then (call (do_append fresh clk new_item)) stored
      | PREPEND \<Rightarrow> and_then (call (do_prepend fresh clk new_item)) stored
      | _ \<Rightarrow> raise (Thrown (System_error unknown_error)))"

definition handle_storage_command :: "server_env \<Rightarrow> Command \<Rightarrow> u8 list \<Rightarrow> (ConversationReply, 'u) action" where
  "handle_storage_command env cmd args =
     and_then (from_sum (parse_storage_args env cmd args)) (\<lambda>a.
     and_then (read_value env (sa_datalen a)) (\<lambda>val.
     and_then (make_item env a val) (\<lambda>new_item.
     and_then (store_item env cmd a new_item) (\<lambda>response.
       reply_with_response env response (sa_noreply a)))))"

section \<open>delete, incr, decr, touch, stats, version, flush_all\<close>

definition handle_delete_command :: "server_env \<Rightarrow> u8 list \<Rightarrow> (ConversationReply, 'u) action" where
  "handle_delete_command env args =
     and_then (from_sum (sum_bind (parse_key args) (\<lambda>(key, args). sum_bind (maybe_noreply args) (\<lambda>noreply. Inr (key, noreply)))))
       (\<lambda>(key, noreply). and_then (call (do_delete (env_fresh env) (env_clk env) key (calc_hash key))) (\<lambda>found.
          reply_with_response env (if found then DELETED else NOT_FOUND) noreply))"

definition handle_arithmetic_command :: "server_env \<Rightarrow> Command \<Rightarrow> u8 list \<Rightarrow> (ConversationReply, 'u) action" where
  "handle_arithmetic_command env cmd args =
     and_then (from_sum (sum_bind (parse_key args) (\<lambda>(key, args). sum_bind (parse_number 64 args) (\<lambda>(delta, args).
         sum_bind (maybe_noreply args) (\<lambda>noreply. Inr (key, delta, noreply))))))
       (\<lambda>(key, delta, noreply).
          and_then (call ((if cmd = INCR then do_incr else do_decr) (env_fresh env) (env_clk env) key (calc_hash key) (of_nat delta)))
            (\<lambda>(found, new_value).
              if noreply then give READ_MORE
              else and_then (put env [if found then serialize_integer 64 (unat new_value) else put_response NOT_FOUND, put_slice CRLF])
                (\<lambda>_. give SEND_REPLY_AND_READ)))"

definition handle_touch_command :: "server_env \<Rightarrow> u8 list \<Rightarrow> (ConversationReply, 'u) action" where
  "handle_touch_command env args =
     and_then (from_sum (sum_bind (parse_key args) (\<lambda>(key, args). sum_bind (parse_number 32 args) (\<lambda>(keep_alive_duration, args).
         sum_bind (maybe_noreply args) (\<lambda>noreply. Inr (key, keep_alive_duration, noreply))))))
       (\<lambda>(key, keep_alive_duration, noreply).
          and_then (call (do_touch (env_fresh env) (env_clk env) key (calc_hash key) (of_nat keep_alive_duration))) (\<lambda>found.
            reply_with_response env (if found then TOUCHED else NOT_FOUND) noreply))"

definition cache_stat_names :: "(string \<times> cache_stat) list" where
  "cache_stat_names =
     [(''cmd_get'', cmd_get), (''get_hits'', get_hits), (''get_misses'', get_misses), (''cmd_set'', cmd_set), (''set_new'', set_new),
      (''set_existing'', set_existing), (''cmd_add'', cmd_add), (''add_stored'', add_stored), (''add_not_stored'', add_not_stored),
      (''cmd_replace'', cmd_replace), (''replace_stored'', replace_stored), (''replace_not_stored'', replace_not_stored),
      (''cmd_cas'', cmd_cas), (''cas_misses'', cas_misses), (''cas_stored'', cas_stored), (''cas_badval'', cas_badval),
      (''cmd_delete'', cmd_delete), (''delete_hits'', delete_hits), (''delete_misses'', delete_misses), (''cmd_touch'', cmd_touch),
      (''touch_hits'', touch_hits), (''touch_misses'', touch_misses), (''cmd_incr'', cmd_incr), (''incr_hits'', incr_hits),
      (''incr_misses'', incr_misses), (''cmd_decr'', cmd_decr), (''decr_hits'', decr_hits), (''decr_misses'', decr_misses),
      (''cmd_append'', cmd_append), (''append_stored'', append_stored), (''append_misses'', append_misses), (''cmd_prepend'', cmd_prepend),
      (''prepend_stored'', prepend_stored), (''prepend_misses'', prepend_misses), (''cmd_flush'', cmd_flush),
      (''hash_capacity'', hash_capacity), (''curr_items'', curr_items)]"

definition mem_stat_names :: "(string \<times> mem_stat) list" where
  "mem_stat_names =
     [(''num_malloc'', mem_num_malloc), (''num_free'', mem_num_free), (''num_realloc'', mem_num_realloc),
      (''num_alloc_errors'', mem_num_alloc_errors), (''num_realloc_errors'', mem_num_realloc_errors), (''used_memory'', mem_used_memory),
      (''total_requested'', mem_total_requested), (''total_served'', mem_total_served), (''total_unserved'', mem_total_unserved),
      (''total_realloc_requested'', mem_total_realloc_requested), (''total_realloc_served'', mem_total_realloc_served),
      (''total_realloc_unserved'', mem_total_realloc_unserved), (''num_free_table_hits'', mem_num_free_table_hits),
      (''num_free_table_weak_hits'', mem_num_free_table_weak_hits), (''limit_maxbytes'', mem_limit_maxbytes),
      (''page_size'', mem_page_size), (''evictions'', mem_evictions)]"

definition stat_pieces :: "string \<Rightarrow> piece \<Rightarrow> piece list" where
  "stat_pieces name val = [put_string ''STAT'', put_char SPACE, put_string name, put_char SPACE, val, put_slice CRLF]"

definition statistics_pieces :: "'u cache \<Rightarrow> piece list" where
  "statistics_pieces c =
     concat (map (\<lambda>(name, st). stat_pieces name (serialize_integer 64 (unat (c_stats c st)))) cache_stat_names)
     @ stat_pieces ''hash_is_expanding'' (put_bool (c_hash_is_expanding c))
     @ concat (map (\<lambda>(name, st). stat_pieces name (serialize_integer 64 (unat (m_stats (m_allocator c) st)))) mem_stat_names)
     @ [put_string ''END'', put_slice CRLF]"

definition handle_statistics_command :: "server_env \<Rightarrow> u8 list \<Rightarrow> (ConversationReply, 'u) action" where
  "handle_statistics_command env args =
     (if args \<noteq> [] then raise (Thrown (System_error not_implemented))
      else and_then (call (\<lambda>c. Some (Inr (), publish_stats c))) (\<lambda>_ s.
        and_then (put env (statistics_pieces (rq_cache s))) (\<lambda>_. give SEND_REPLY_AND_READ) s))"

definition handle_version_command :: "server_env \<Rightarrow> u8 list \<Rightarrow> (ConversationReply, 'u) action" where
  "handle_version_command env args =
     (if args \<noteq> [] then raise (Protocol crlf_expected)
      else and_then (put env [put_string ''VERSION'', put_char SPACE, put_string (env_version env), put_slice CRLF])
        (\<lambda>_. give SEND_REPLY_AND_READ))"

definition handle_flush_all_command :: "server_env \<Rightarrow> u8 list \<Rightarrow> (ConversationReply, 'u) action" where
  "handle_flush_all_command env args =
     and_then (from_sum (maybe_noreply args)) (\<lambda>noreply.
       and_then (call (do_flush_all (env_clk env))) (\<lambda>_.
         if noreply then give READ_MORE
         else and_then (put env [put_string ''OK'', put_slice CRLF]) (\<lambda>_. give SEND_REPLY_AND_READ)))"

section \<open>One command\<close>

definition read_header :: "(u8 list, 'u) action" where
  "read_header s = (case try_read_until CRLF (rq_recv s) of
      None \<Rightarrow> None
    | Some (header, b) \<Rightarrow>
        if slice_empty header then Some (Inl (Thrown (System_error incomplete_request)), s\<lparr>rq_recv := b\<rparr>)
        else map_option (\<lambda>bs. (Inr bs, s\<lparr>rq_recv := b\<rparr>)) (buf_bytes b (rtrim_n header (length CRLF))))"

definition dispatch :: "server_env \<Rightarrow> Command \<Rightarrow> u8 list \<Rightarrow> (ConversationReply, 'u) action" where
  "dispatch env command args =
     (case command of
        GET \<Rightarrow> handle_retrieval_command env command args
      | GETS \<Rightarrow> handle_retrieval_command env command args
      | ADD \<Rightarrow> handle_storage_command env command args
      | APPEND \<Rightarrow> handle_storage_command env command args
      | CAS \<Rightarrow> handle_storage_command env command args
      | PREPEND \<Rightarrow> handle_storage_command env command args
      | REPLACE \<Rightarrow> handle_storage_command env command args
      | SET \<Rightarrow> handle_storage_command env command args
      | DEL \<Rightarrow> handle_delete_command env args
      | INCR \<Rightarrow> handle_arithmetic_command env command args
      | DECR \<Rightarrow> handle_arithmetic_command env command args
      | TOUCH \<Rightarrow> handle_touch_command env args
      | STATS \<Rightarrow> handle_statistics_command env args
      | VERSION \<Rightarrow> handle_version_command env args
      | FLUSH_ALL \<Rightarrow> handle_flush_all_command env args
      | QUIT \<Rightarrow> give CLOSE_IMMEDIATELY
      | UNDEFINED \<Rightarrow> raise (Thrown (System_error broken_request)))"

definition try_command :: "server_env \<Rightarrow> (ConversationReply, 'u) action" where
  "try_command env =
     and_then read_header (\<lambda>header. case split_bytes [SPACE] header of (ascii_cmd, args) \<Rightarrow>
       dispatch env (parse_command_name ascii_cmd) args)"

text \<open>The handlers of exceptions write to the send buffer too; the function is \<^verbatim>\<open>noexcept\<close>, so the program ends when
  that throws: \<open>None\<close>.\<close>

definition error_reply :: "server_env \<Rightarrow> piece list \<Rightarrow> 'u request \<Rightarrow> (ConversationReply \<times> 'u request) option" where
  "error_reply env ps s = (case put env (ps @ [put_slice CRLF]) s of
      Some (Inr _, s') \<Rightarrow> Some (SEND_REPLY_AND_READ, s')
    | _ \<Rightarrow> None)"

definition on_system_error ::
  "server_env \<Rightarrow> nat \<Rightarrow> cachelot_error_code \<Rightarrow> 'u request \<Rightarrow> (ConversationReply \<times> 'u request) option" where
  "on_system_error env r_savepoint e s =
     (let errmsg = message (error_value e) in
      case e of
        incomplete_request \<Rightarrow> Some (READ_MORE, s\<lparr>rq_recv := rollback_read_transaction r_savepoint (rq_recv s)\<rparr>)
      | broken_request \<Rightarrow> error_reply env [put_string ''ERROR''] (s\<lparr>rq_recv := snd (read_all (rq_recv s))\<rparr>)
      | numeric_convert \<Rightarrow> error_reply env [put_string ''CLIENT_ERROR'', put_char SPACE, put_string errmsg] s
      | numeric_overflow \<Rightarrow> error_reply env [put_string ''CLIENT_ERROR'', put_char SPACE, put_string errmsg] s
      | _ \<Rightarrow> error_reply env [put_string ''SERVER_ERROR'', put_char SPACE, put_string errmsg] s)"

fun exception_what :: "server_env \<Rightarrow> exn \<Rightarrow> string" where
  "exception_what env Bad_alloc = env_bad_alloc env"
| "exception_what env (Invalid_argument msg) = msg"
| "exception_what env (Length_error msg) = msg"
| "exception_what env (System_error e) = message (error_value e)"

definition on_exception ::
  "server_env \<Rightarrow> nat \<Rightarrow> nat \<Rightarrow> server_exn \<Rightarrow> 'u request \<Rightarrow> (ConversationReply \<times> 'u request) option" where
  "on_exception env r_savepoint w_savepoint x s0 =
     (let s = s0\<lparr>rq_send := rollback_write_transaction w_savepoint (rq_send s0)\<rparr> in
      case x of
        Protocol e \<Rightarrow> map_option (\<lambda>(r, s'). (r, s'\<lparr>rq_recv := buf_reset (rq_recv s')\<rparr>))
          (error_reply env [put_string ''CLIENT_ERROR'', put_char SPACE, put_string (protocol_message e)] s)
      | Thrown (System_error e) \<Rightarrow> on_system_error env r_savepoint e s
      | Thrown e \<Rightarrow> error_reply env [put_string ''SERVER_ERROR'', put_char SPACE, put_string (exception_what env e)] s)"

definition handle_received_data_ascii :: "server_env \<Rightarrow> 'u request \<Rightarrow> (ConversationReply \<times> 'u request) option" where
  "handle_received_data_ascii env s =
     (let r_savepoint = read_savepoint (rq_recv s); w_savepoint = write_savepoint (rq_send s) in
      case try_command env s of
        None \<Rightarrow> None
      | Some (Inr reply, s') \<Rightarrow> Some (reply, s')
      | Some (Inl e, s') \<Rightarrow> on_exception env r_savepoint w_savepoint e s')"

end
