(* ===== verification/Proto_Buffers.thy ===== *)
theory Proto_Buffers
  imports Proto_Ascii "HOL-Library.Sublist"
begin

text \<open>
  What the handlers of the text protocol do to the buffers of a connection, whatever the cache does: a
  reply is appended, or taken back and replaced by an error line, and what waits to be sent or read is not touched.
\<close>

section \<open>Definitions\<close>

definition env_memory :: "server_env \<Rightarrow> bool" where
  "env_memory env \<longleftrightarrow> realloc_ok (env_realloc env) \<and> (\<forall>n. env_realloc env n \<noteq> None)"

definition pieces_ok :: "piece list \<Rightarrow> bool" where
  "pieces_ok ps \<longleftrightarrow> (\<forall>(n, bs) \<in> set ps. length bs \<le> n)"

definition text_of :: "piece list \<Rightarrow> u8 list" where
  "text_of ps = concat (map snd ps)"

definition room_for :: "piece list \<Rightarrow> nat" where
  "room_for ps = sum_list (map fst ps)"

definition bufs_ok :: "'u request \<Rightarrow> bool" where
  "bufs_ok s \<longleftrightarrow> buffer_ok (rq_recv s) \<and> buffer_ok (rq_send s)"

text \<open>From one request to the next: what was received stays, what waits to be sent stays.\<close>

definition grows :: "'u request \<Rightarrow> 'u request \<Rightarrow> bool" where
  "grows s s' \<longleftrightarrow> bufs_ok s' \<and> prefix (written (rq_send s)) (written (rq_send s')) \<and> m_read_pos (rq_send s') = m_read_pos (rq_send s)
     \<and> m_max_size (rq_send s') = m_max_size (rq_send s) \<and> written (rq_recv s') = written (rq_recv s)
     \<and> m_read_pos (rq_recv s) \<le> m_read_pos (rq_recv s') \<and> m_max_size (rq_recv s') = m_max_size (rq_recv s)"

definition keeps :: "('a, 'u) action \<Rightarrow> bool" where
  "keeps m \<longleftrightarrow> (\<forall>s r s'. bufs_ok s \<longrightarrow> m s = Some (r, s') \<longrightarrow> grows s s')"

definition silent :: "('a, 'u) action \<Rightarrow> bool" where
  "silent m \<longleftrightarrow> (\<forall>s r s'. m s = Some (r, s') \<longrightarrow> rq_send s' = rq_send s)"

definition quiet :: "(ConversationReply, 'u) action \<Rightarrow> bool" where
  "quiet m \<longleftrightarrow> (\<forall>s s'. m s = Some (Inr READ_MORE, s') \<longrightarrow> rq_send s' = rq_send s)"

text \<open>A reply that is sent ends its last line.\<close>

definition ended :: "(ConversationReply, 'u) action \<Rightarrow> bool" where
  "ended m \<longleftrightarrow> (\<forall>s s'. bufs_ok s \<longrightarrow> m s = Some (Inr SEND_REPLY_AND_READ, s') \<longrightarrow> (\<exists>t. written (rq_send s') = written (rq_send s) @ t @ CRLF))"

text \<open>The outcome of one command for the buffers.\<close>

definition well_replied :: "'u request \<Rightarrow> ConversationReply \<Rightarrow> 'u request \<Rightarrow> bool" where
  "well_replied s reply s' \<longleftrightarrow> bufs_ok s' \<and> m_read_pos (rq_send s') = m_read_pos (rq_send s) \<and> m_max_size (rq_recv s') = m_max_size (rq_recv s)
     \<and> (\<exists>t. written (rq_send s') = written (rq_send s) @ t \<and> (reply = READ_MORE \<longrightarrow> t = []) \<and> (reply = SEND_REPLY_AND_READ \<longrightarrow> (\<exists>u. t = u @ CRLF)))"

named_theorems keeps_rules \<open>actions that keep the buffers\<close>
named_theorems ended_rules \<open>actions whose replies are whole lines\<close>
named_theorems quiet_rules \<open>actions that write nothing without a reply\<close>

section \<open>Pieces\<close>

lemma pieces_simps [simp]:
  "pieces_ok []" "pieces_ok (p # ps) \<longleftrightarrow> length (snd p) \<le> fst p \<and> pieces_ok ps" "pieces_ok (ps @ qs) \<longleftrightarrow> pieces_ok ps \<and> pieces_ok qs"
  "text_of [] = []" "text_of (p # ps) = snd p @ text_of ps" "text_of (ps @ qs) = text_of ps @ text_of qs"
  "room_for [] = 0" "room_for (p # ps) = fst p + room_for ps" "room_for (ps @ qs) = room_for ps + room_for qs"
  by (auto simp: pieces_ok_def text_of_def room_for_def)

lemma pieces_ok_concat [simp]: "pieces_ok (concat (map f xs)) \<longleftrightarrow> (\<forall>x \<in> set xs. pieces_ok (f x))"
  by (auto simp: pieces_ok_def)

lemma put_simps [simp]:
  "snd (put_slice bs) = bs" "fst (put_slice bs) = length bs" "snd (put_string t) = ascii t" "fst (put_string t) = length t"
  "snd (put_char c) = [c]" "fst (put_char c) = 1" "snd (put_response r) = AsciiResponse r" "fst (put_response r) = length (AsciiResponse r)"
  "length (ascii t) = length t"
  by (simp_all add: put_slice_def put_string_def put_char_def put_response_def ascii_def)

lemma put_bool_ok [simp]: "length (snd (put_bool b)) \<le> fst (put_bool b)"
  by (simp add: put_bool_def)

lemma serialize_text: "x < 2 ^ w \<Longrightarrow> snd (serialize_integer w x) = decimal x"
  using int_to_str_dec [of w "int x"] by (simp add: serialize_integer_def flip: of_nat_power)

lemma serialize_ok:
  assumes "x < 2 ^ w" and "w = 16 \<or> w = 32 \<or> w = 64"
  shows "length (snd (serialize_integer w x)) \<le> fst (serialize_integer w x)"
proof -
  have "length (decimal x) \<le> max_str_length w"
    using assms by (intro length_decimal) (auto simp: max_str_length_def)
  then show ?thesis using serialize_text [OF assms(1)] by (simp add: serialize_integer_def)
qed

lemma serialize_word_ok [simp]:
  "length (snd (serialize_integer 16 (unat (a :: u16)))) \<le> fst (serialize_integer 16 (unat a))"
  "length (snd (serialize_integer 32 (unat (b :: u32)))) \<le> fst (serialize_integer 32 (unat b))"
  "length (snd (serialize_integer 64 (unat (c :: u64)))) \<le> fst (serialize_integer 64 (unat c))"
  using unat_word_lt [of a] unat_word_lt [of b] unat_word_lt [of c] by (auto intro!: serialize_ok)

lemma value_pieces_ok [simp]: "pieces_ok (value_pieces cmd M i)"
  by (simp add: value_pieces_def)

lemma statistics_pieces_ok [simp]: "pieces_ok (statistics_pieces c)"
  by (auto simp: statistics_pieces_def stat_pieces_def)

section \<open>Sending\<close>

lemma send_ok:
  assumes "buffer_ok b" and "realloc_ok ra" and "\<And>n. ra n \<noteq> None" and "pieces_ok ps"
  shows "(\<exists>b'. send ra ps b = Some (Inr (), b') \<and> buffer_ok b' \<and> written b' = written b @ text_of ps
      \<and> m_read_pos b' = m_read_pos b \<and> m_max_size b' = m_max_size b)
    \<or> m_max_size b < m_write_pos b + room_for ps \<and> (\<exists>b' ws. send ra ps b = Some (Inl (Length_error ''maximal IO buffer capacity exceeded''), b')
      \<and> buffer_ok b' \<and> written b' = written b @ ws \<and> m_read_pos b' = m_read_pos b \<and> m_max_size b' = m_max_size b)"
  using assms(1,4)
proof (induction ps arbitrary: b)
  case (Cons p ps)
  obtain n bs where p: "p = (n, bs)" by (cases p)
  have len: "length bs \<le> n" "pieces_ok ps" using Cons.prems(2) p by simp_all
  from Cons.prems(1) assms(2) len(1) show ?case
  proof (cases rule: buf_write_ok)
    case (wrote b1)
    have pos: "m_write_pos b1 \<le> m_write_pos b + n"
      using buffer_okD(5) [OF wrote(2)] buffer_okD(5) [OF Cons.prems(1)] wrote(3) len(1) by simp
    from Cons.IH [OF wrote(2) len(2)] show ?thesis
    proof (elim disjE conjE exE)
      fix b' assume "send ra ps b1 = Some (Inr (), b')" "buffer_ok b'" "written b' = written b1 @ text_of ps"
        "m_read_pos b' = m_read_pos b1" "m_max_size b' = m_max_size b1"
      then show ?thesis using wrote p by (intro disjI1 exI [of _ b']) simp
    next
      fix b' ws assume "m_max_size b1 < m_write_pos b1 + room_for ps"
        "send ra ps b1 = Some (Inl (Length_error ''maximal IO buffer capacity exceeded''), b')" "buffer_ok b'" "written b' = written b1 @ ws"
        "m_read_pos b' = m_read_pos b1" "m_max_size b' = m_max_size b1"
      then show ?thesis using wrote pos p by (intro disjI2 conjI exI [of _ b'] exI [of _ "bs @ ws"]) simp_all
    qed
  next
    case too_long
    then show ?thesis using p Cons.prems(1) by (intro disjI2 conjI exI [of _ b] exI [of _ "[]"]) simp_all
  next
    case no_memory
    then show ?thesis using assms(3) by blast
  qed
qed simp

lemma put_ok:
  assumes "bufs_ok s" and "env_memory env" and "pieces_ok ps"
  obtains (sent) b where "put env ps s = Some (Inr (), s\<lparr>rq_send := b\<rparr>)" and "buffer_ok b" and "written b = written (rq_send s) @ text_of ps"
      and "m_read_pos b = m_read_pos (rq_send s)" and "m_max_size b = m_max_size (rq_send s)"
  | (too_long) b ws where "put env ps s = Some (Inl (Thrown (Length_error ''maximal IO buffer capacity exceeded'')), s\<lparr>rq_send := b\<rparr>)"
      and "buffer_ok b" and "written b = written (rq_send s) @ ws" and "m_read_pos b = m_read_pos (rq_send s)"
      and "m_max_size b = m_max_size (rq_send s)" and "m_max_size (rq_send s) < m_write_pos (rq_send s) + room_for ps"
  using send_ok [of "rq_send s" "env_realloc env" ps] assms that unfolding bufs_ok_def env_memory_def put_def by fastforce

section \<open>Actions keep the buffers\<close>

lemma grows_refl: "bufs_ok s \<Longrightarrow> grows s s"
  by (simp add: grows_def)

lemma grows_trans: "grows s s1 \<Longrightarrow> grows s1 s2 \<Longrightarrow> grows s s2"
  by (auto simp: grows_def intro: prefix_order.trans)

lemma grows_ok: "grows s s' \<Longrightarrow> bufs_ok s'"
  by (simp add: grows_def)

lemma grows_cache: "grows s s' \<Longrightarrow> grows s (s'\<lparr>rq_cache := c\<rparr>)"
  by (simp add: grows_def bufs_ok_def)

lemma keepsD: "keeps m \<Longrightarrow> bufs_ok s \<Longrightarrow> m s = Some (r, s') \<Longrightarrow> grows s s'"
  by (auto simp: keeps_def)

lemma keeps_and_then [keeps_rules]:
  assumes "keeps m" and "\<And>a. keeps (f a)"
  shows "keeps (and_then m f)"
  unfolding keeps_def
proof (intro allI impI)
  fix s r s' assume s: "bufs_ok s" and m: "and_then m f s = Some (r, s')"
  then obtain r1 s1 where 1: "m s = Some (r1, s1)" by (auto simp: and_then_def split: option.splits)
  note g = keepsD [OF assms(1) s 1]
  show "grows s s'"
  proof (cases r1)
    case (Inl e)
    then show ?thesis using m 1 g by (simp add: and_then_def)
  next
    case (Inr a)
    then have "f a s1 = Some (r, s')" using m 1 by (simp add: and_then_def)
    then show ?thesis using keepsD [OF assms(2) grows_ok [OF g]] g grows_trans by blast
  qed
qed

lemma keeps_simple [keeps_rules]: "keeps (give a)" "keeps (raise e)" "keeps (from_sum x)" "keeps (call f)"
proof -
  show "keeps (call f)" unfolding keeps_def
    by (auto simp: call_def split: prod.splits intro!: grows_cache grows_refl)
qed (simp_all add: keeps_def give_def raise_def from_sum_def grows_refl)

lemma keeps_put:
  assumes "env_memory env" and "pieces_ok ps"
  shows "keeps (put env ps)"
  unfolding keeps_def
proof (intro allI impI)
  fix s :: "'a request" and r s' assume s: "bufs_ok s" and p: "put env ps s = Some (r, s')"
  from s assms show "grows s s'"
  proof (cases rule: put_ok)
    case (sent b)
    then show ?thesis using p s by (auto simp: grows_def bufs_ok_def)
  next
    case (too_long b ws)
    then show ?thesis using p s by (auto simp: grows_def bufs_ok_def)
  qed
qed

lemma keeps_if [keeps_rules]: "(b \<Longrightarrow> keeps m) \<Longrightarrow> (\<not> b \<Longrightarrow> keeps m') \<Longrightarrow> keeps (if b then m else m')"
  by simp

lemma keeps_split [keeps_rules]: "(\<And>a b. keeps (f a b)) \<Longrightarrow> keeps (case x of (a, b) \<Rightarrow> f a b)"
  by (cases x) simp

lemma keeps_state: "(\<And>c. keeps (f c)) \<Longrightarrow> keeps (\<lambda>s. f (rq_cache s) s)"
  by (auto simp: keeps_def)

lemma keeps_reply [keeps_rules]: "env_memory env \<Longrightarrow> keeps (reply_with_response env resp noreply)"
  unfolding reply_with_response_def by (intro keeps_rules keeps_put) simp_all

lemma keeps_retrieve_one: "env_memory env \<Longrightarrow> keeps (retrieve_one env cmd n key)"
  unfolding retrieve_one_def
  by (intro keeps_and_then keeps_simple) (auto split: option.split intro!: keeps_simple keeps_put keeps_state [where f = "\<lambda>c. put env (value_pieces cmd (c_mem c) _)"])

lemma keeps_retrieval_loop: "env_memory env \<Longrightarrow> keeps (retrieval_loop env cmd n args)"
  unfolding keeps_def
proof (intro allI impI)
  fix s :: "'a request" and r s'
  assume env: "env_memory env" and "bufs_ok s" and "retrieval_loop env cmd n args s = Some (r, s')"
  then show "grows s s'"
  proof (induction env cmd n args s rule: retrieval_loop.induct)
    case (1 env cmd n args s)
    show ?case
    proof (cases "parse_key args")
      case (Inl e)
      then show ?thesis using 1(2-4) by (simp add: retrieval_loop.simps [of env cmd n args] grows_refl)
    next
      case (Inr x)
      obtain key rest where x: "x = (key, rest)" by (cases x)
      obtain r1 s1 where o: "retrieve_one env cmd n key s = Some (r1, s1)"
        using 1(4) Inr x by (auto simp: retrieval_loop.simps [of env cmd n args] split: option.splits)
      note g = keepsD [OF keeps_retrieve_one [OF 1(2)] 1(3) o]
      show ?thesis
      proof (cases "\<exists>e. r1 = Inl e \<or> rest = []")
        case True
        then show ?thesis using 1(4) Inr x o g by (auto simp: retrieval_loop.simps [of env cmd n args] split: sum.splits if_splits)
      next
        case False
        then obtain u where u: "r1 = Inr u" "rest \<noteq> []" by (cases r1) auto
        have "retrieval_loop env cmd (Suc n) rest s1 = Some (r, s')"
          using 1(4) Inr x o u by (simp add: retrieval_loop.simps [of env cmd n args])
        then have "grows s1 s'" by (rule 1(1) [OF Inr x [symmetric] o refl u(1,2) 1(2) grows_ok [OF g]])
        then show ?thesis using g grows_trans by blast
      qed
    qed
  qed
qed

lemma keeps_read_value: "env_memory env \<Longrightarrow> keeps (read_value env n)"
  unfolding keeps_def
proof (intro allI impI)
  fix s :: "'a request" and r s'
  assume env: "env_memory env" and s: "bufs_ok s" and v: "read_value env n s = Some (r, s')"
  let ?b = "rq_recv s" and ?n = "n + length CRLF"
  have ok: "buffer_ok ?b" "realloc_ok (env_realloc env)" using s env by (simp_all add: bufs_ok_def env_memory_def)
  show "grows s s'"
  proof (cases "non_read ?b < ?n")
    case True
    from ok show ?thesis
    proof (cases rule: ensure_capacity_ok [where n = "?n - non_read ?b"])
      case (enough b')
      then show ?thesis using v True s by (auto simp: read_value_def Let_def grows_def bufs_ok_def)
    next
      case too_long
      then show ?thesis using v True s by (auto simp: read_value_def Let_def grows_def bufs_ok_def)
    next
      case no_memory
      then show ?thesis using env unfolding env_memory_def by blast
    qed
  next
    case False
    obtain sl b' where c: "confirm_read ?n ?b = (sl, b')" by (cases "confirm_read ?n ?b")
    have "?n \<le> non_read ?b" using False by simp
    note r = confirm_read_ok [OF ok(1) this c]
    have "m_read_pos ?b \<le> m_read_pos b'" "m_max_size b' = m_max_size ?b" using c by (auto simp: confirm_read_def)
    then show ?thesis using v False r(1,4) c s
      by (auto simp: read_value_def Let_def grows_def bufs_ok_def split: option.splits if_splits)
  qed
qed

lemma keeps_read_header: "keeps read_header"
  unfolding keeps_def
proof (intro allI impI)
  fix s :: "'a request" and r s'
  assume s: "bufs_ok s" and h: "read_header s = Some (r, s')"
  let ?b = "rq_recv s"
  have ok: "buffer_ok ?b" using s by (simp add: bufs_ok_def)
  have ne: "CRLF \<noteq> []" by (simp add: CRLF_def)
  show "grows s s'"
  proof (cases "find_bytes CRLF (unread ?b)")
    case None
    then show ?thesis using h s try_read_until_ok [OF ok ne] by (simp add: read_header_def grows_refl)
  next
    case (Some i)
    obtain sl b' where c: "confirm_read (i + length CRLF) ?b = (sl, b')" by (cases "confirm_read (i + length CRLF) ?b")
    have "i + length CRLF \<le> non_read ?b" using find_bytes_Some(2) [OF Some] buffer_okD(6) [OF ok] by simp
    note r = confirm_read_ok [OF ok this c]
    have "m_read_pos ?b \<le> m_read_pos b'" "m_max_size b' = m_max_size ?b" using c by (auto simp: confirm_read_def)
    then show ?thesis using h s r(1,4) c Some try_read_until_ok [OF ok ne]
      by (auto simp: read_header_def grows_def bufs_ok_def split: if_splits)
  qed
qed

lemma keeps_dispatch:
  assumes "env_memory env"
  shows "keeps (dispatch env command args)"
proof -
  note kr = keeps_rules keeps_put [OF assms] keeps_reply [OF assms]
  have "keeps (handle_retrieval_command env cmd args)" for cmd
    unfolding handle_retrieval_command_def by (intro kr keeps_retrieval_loop [OF assms]) simp_all
  moreover have "keeps (handle_storage_command env cmd args)" for cmd
    unfolding handle_storage_command_def make_item_def store_item_def Let_def
    by (intro kr keeps_read_value [OF assms]) (auto split: Command.split intro!: kr)
  moreover have "keeps (handle_delete_command env args)"
    unfolding handle_delete_command_def by (intro kr)
  moreover have "keeps (handle_arithmetic_command env cmd args)" for cmd
    unfolding handle_arithmetic_command_def by (intro kr) simp_all
  moreover have "keeps (handle_touch_command env args)"
    unfolding handle_touch_command_def by (intro kr)
  moreover have "keeps (handle_statistics_command env args)"
    unfolding handle_statistics_command_def
    by (intro kr keeps_state [where f = "\<lambda>c. and_then (put env (statistics_pieces c)) (\<lambda>_. give SEND_REPLY_AND_READ)"]) simp_all
  moreover have "keeps (handle_version_command env args)"
    unfolding handle_version_command_def by (intro kr) simp_all
  moreover have "keeps (handle_flush_all_command env args)"
    unfolding handle_flush_all_command_def by (intro kr) simp_all
  ultimately show ?thesis unfolding dispatch_def by (auto split: Command.split intro!: kr)
qed

lemma keeps_try_command: "env_memory env \<Longrightarrow> keeps (try_command env)"
  unfolding try_command_def by (intro keeps_rules keeps_read_header keeps_dispatch)

section \<open>No reply, nothing written\<close>

lemma silent_simple: "silent (give a)" "silent (raise e)" "silent (from_sum x)" "silent (call f)" "silent (read_value env n)" "silent read_header"
  by (auto simp: silent_def give_def raise_def from_sum_def call_def read_value_def read_header_def Let_def
      split: prod.splits if_splits option.splits sum.splits)

lemma silent_and_then: "silent m \<Longrightarrow> (\<And>a. silent (f a)) \<Longrightarrow> silent (and_then m f)"
  by (fastforce simp: silent_def and_then_def split: option.splits prod.splits sum.splits)

lemma silent_if: "silent m \<Longrightarrow> silent m' \<Longrightarrow> silent (if b then m else m')"
  by simp

lemma silent_split: "(\<And>a b. silent (f a b)) \<Longrightarrow> silent (case x of (a, b) \<Rightarrow> f a b)"
  by (cases x) simp

lemmas silent_rules = silent_simple silent_and_then silent_if silent_split

lemma quiet_and_then [quiet_rules]: "silent m \<Longrightarrow> (\<And>a. quiet (f a)) \<Longrightarrow> quiet (and_then m f)"
  by (fastforce simp: silent_def quiet_def and_then_def split: option.splits prod.splits sum.splits)

lemma quiet_if [quiet_rules]: "(b \<Longrightarrow> quiet m) \<Longrightarrow> (\<not> b \<Longrightarrow> quiet m') \<Longrightarrow> quiet (if b then m else m')"
  by simp

lemma quiet_split [quiet_rules]: "(\<And>a b. quiet (f a b)) \<Longrightarrow> quiet (case x of (a, b) \<Rightarrow> f a b)"
  by (cases x) simp

lemma quiet_simple [quiet_rules]: "quiet (give reply)" "quiet (raise e)"
  by (auto simp: quiet_def give_def raise_def)

lemma quiet_replies [quiet_rules]: "quiet (and_then m (\<lambda>_. give SEND_REPLY_AND_READ))"
  by (auto simp: quiet_def give_def and_then_def split: option.splits prod.splits sum.splits)

lemma quiet_twice: "quiet (and_then m (\<lambda>_. and_then m' (\<lambda>_. give SEND_REPLY_AND_READ)))"
  by (auto simp: quiet_def give_def and_then_def split: option.splits prod.splits sum.splits)

lemma quiet_dispatch: "quiet (dispatch env command args)"
proof -
  note qr = quiet_rules silent_simple
  have "quiet (handle_retrieval_command env cmd args)" for cmd
    unfolding handle_retrieval_command_def by (rule quiet_twice)
  moreover have store: "silent (store_item env cmd a i)" for cmd a i
    unfolding store_item_def Let_def by (auto split: Command.split intro!: silent_rules)
  have "quiet (handle_storage_command env cmd args)" for cmd
    unfolding handle_storage_command_def make_item_def reply_with_response_def by (intro qr store)
  moreover have "quiet (handle_delete_command env args)"
    unfolding handle_delete_command_def reply_with_response_def by (intro qr)
  moreover have "quiet (handle_arithmetic_command env cmd args)" for cmd
    unfolding handle_arithmetic_command_def by (intro qr)
  moreover have "quiet (handle_touch_command env args)"
    unfolding handle_touch_command_def reply_with_response_def by (intro qr)
  moreover have "quiet (handle_statistics_command env args)"
    unfolding handle_statistics_command_def
    by (auto simp: quiet_def give_def raise_def and_then_def split: option.splits prod.splits sum.splits)
  moreover have "quiet (handle_version_command env args)"
    unfolding handle_version_command_def by (intro qr)
  moreover have "quiet (handle_flush_all_command env args)"
    unfolding handle_flush_all_command_def by (intro qr)
  ultimately show ?thesis unfolding dispatch_def by (auto split: Command.split intro!: qr)
qed

lemma quiet_try_command: "quiet (try_command env)"
  unfolding try_command_def by (intro quiet_rules silent_simple quiet_dispatch)

section \<open>Whole lines\<close>

lemma ended_and_then [ended_rules]:
  assumes "keeps m" and "\<And>a. ended (f a)"
  shows "ended (and_then m f)"
  unfolding ended_def
proof (intro allI impI)
  fix s s' assume s: "bufs_ok s" and m: "and_then m f s = Some (Inr SEND_REPLY_AND_READ, s')"
  then obtain a s1 where 1: "m s = Some (Inr a, s1)" "f a s1 = Some (Inr SEND_REPLY_AND_READ, s')"
    by (auto simp: and_then_def split: option.splits sum.splits)
  note g = keepsD [OF assms(1) s 1(1)]
  then obtain u where u: "written (rq_send s1) = written (rq_send s) @ u" by (auto simp: grows_def prefix_def)
  obtain t where "written (rq_send s') = written (rq_send s1) @ t @ CRLF"
    using assms(2) [of a] 1(2) grows_ok [OF g] by (auto simp: ended_def)
  then show "\<exists>t. written (rq_send s') = written (rq_send s) @ t @ CRLF" using u by (intro exI [of _ "u @ t"]) simp
qed

lemma ended_simple [ended_rules]: "ended (give READ_MORE)" "ended (give CLOSE_IMMEDIATELY)" "ended (raise e)"
  by (auto simp: ended_def give_def raise_def)

lemma ended_if [ended_rules]: "(b \<Longrightarrow> ended m) \<Longrightarrow> (\<not> b \<Longrightarrow> ended m') \<Longrightarrow> ended (if b then m else m')"
  by simp

lemma ended_split [ended_rules]: "(\<And>a b. ended (f a b)) \<Longrightarrow> ended (case x of (a, b) \<Rightarrow> f a b)"
  by (cases x) simp

lemma ended_put:
  assumes "env_memory env" and "pieces_ok ps" and "text_of ps = t @ CRLF"
  shows "ended (and_then (put env ps) (\<lambda>_. give SEND_REPLY_AND_READ))"
  unfolding ended_def
proof (intro allI impI)
  fix s s' :: "'a request"
  assume s: "bufs_ok s" and m: "and_then (put env ps) (\<lambda>_. give SEND_REPLY_AND_READ) s = Some (Inr SEND_REPLY_AND_READ, s')"
  from s assms(1,2) show "\<exists>t. written (rq_send s') = written (rq_send s) @ t @ CRLF"
  proof (cases rule: put_ok)
    case (sent b)
    then show ?thesis using m assms(3) by (auto simp: and_then_def give_def)
  next
    case (too_long b ws)
    then show ?thesis using m by (simp add: and_then_def)
  qed
qed

lemma ended_dispatch:
  assumes "env_memory env"
  shows "ended (dispatch env command args)"
proof -
  note kr = keeps_rules keeps_put [OF assms] keeps_reply [OF assms] keeps_retrieval_loop [OF assms] keeps_read_value [OF assms]
  note er = ended_rules ended_put [OF assms]
  have reply: "ended (reply_with_response env resp noreply)" for resp noreply
    unfolding reply_with_response_def by (intro er) simp_all
  have store: "keeps (store_item env cmd a i)" for cmd a i
    unfolding store_item_def Let_def by (auto split: Command.split intro!: kr)
  have "ended (handle_retrieval_command env cmd args)" for cmd
    unfolding handle_retrieval_command_def by (intro er kr) simp_all
  moreover have "ended (handle_storage_command env cmd args)" for cmd
    unfolding handle_storage_command_def make_item_def by (intro er kr reply store)
  moreover have "ended (handle_delete_command env args)"
    unfolding handle_delete_command_def by (intro er kr reply)
  moreover have "ended (handle_arithmetic_command env cmd args)" for cmd
    unfolding handle_arithmetic_command_def by (intro er kr) simp_all
  moreover have "ended (handle_touch_command env args)"
    unfolding handle_touch_command_def by (intro er kr reply)
  moreover have "ended (\<lambda>s :: 'a request. and_then (put env (statistics_pieces (rq_cache s))) (\<lambda>_. give SEND_REPLY_AND_READ) s)"
  proof -
    have "ended (and_then (put env (statistics_pieces c)) (\<lambda>_. give SEND_REPLY_AND_READ))" for c :: "'a cache"
    proof -
      have "\<exists>t. text_of (statistics_pieces c) = t @ CRLF" by (simp add: statistics_pieces_def flip: append_assoc)
      then show ?thesis using ended_put [OF assms statistics_pieces_ok] by blast
    qed
    then show ?thesis unfolding ended_def by blast
  qed
  then have "ended (handle_statistics_command env args :: (ConversationReply, 'a) action)"
    unfolding handle_statistics_command_def by (intro er kr)
  moreover have "ended (handle_version_command env args)"
    unfolding handle_version_command_def by (intro er) simp_all
  moreover have "ended (handle_flush_all_command env args)"
    unfolding handle_flush_all_command_def by (intro er kr) simp_all
  ultimately show ?thesis unfolding dispatch_def by (auto split: Command.split intro!: ended_simple)
qed

lemma ended_try_command: "env_memory env \<Longrightarrow> ended (try_command env)"
  unfolding try_command_def by (intro ended_rules keeps_read_header ended_dispatch)

section \<open>One command\<close>

lemma error_replied:
  assumes env: "env_memory env" and s: "bufs_ok s" and ps: "pieces_ok ps" and e: "error_reply env ps s = Some (reply, s')"
  obtains b where "reply = SEND_REPLY_AND_READ" and "s' = s\<lparr>rq_send := b\<rparr>" and "buffer_ok b" and "m_read_pos b = m_read_pos (rq_send s)"
    and "written b = written (rq_send s) @ text_of ps @ CRLF"
proof -
  have "pieces_ok (ps @ [put_slice CRLF])" using ps by simp
  from s env this show ?thesis
  proof (cases rule: put_ok)
    case (sent b)
    then show ?thesis using that [of b] e by (simp add: error_reply_def)
  next
    case (too_long b ws)
    then show ?thesis using e by (simp add: error_reply_def)
  qed
qed

lemma rollback_appended:
  assumes "buffer_ok b" and "buffer_ok b'" and "written b' = written b @ t" and "m_read_pos b' = m_read_pos b"
  shows "buffer_ok (rollback_write_transaction (write_savepoint b) b')" and "written (rollback_write_transaction (write_savepoint b) b') = written b"
proof -
  have "m_write_pos b \<le> m_write_pos b'" using buffer_okD(5) [OF assms(1)] buffer_okD(5) [OF assms(2)] assms(3) by (metis le_add1 length_append)
  then have "written (b'\<lparr>m_write_pos := m_write_pos b\<rparr>) = take (m_write_pos b) (written b')" by (simp add: written_def buf_data_def min_def)
  also have "\<dots> = written b" using assms(3) buffer_okD(5) [OF assms(1)] by simp
  finally show "written (rollback_write_transaction (write_savepoint b) b') = written b" by (simp add: rollback_write_transaction_def write_savepoint_def)
  show "buffer_ok (rollback_write_transaction (write_savepoint b) b')"
    using assms(2,4) buffer_okD(1) [OF assms(1)] \<open>m_write_pos b \<le> m_write_pos b'\<close>
    by (auto simp: buffer_ok_def rollback_write_transaction_def write_savepoint_def)
qed

lemma rolled_back:
  assumes "bufs_ok s" and g: "grows s s1" and b: "b = rollback_write_transaction (write_savepoint (rq_send s)) (rq_send s1)"
  shows "buffer_ok b" and "written b = written (rq_send s)" and "m_read_pos b = m_read_pos (rq_send s)"
proof -
  have ok: "buffer_ok (rq_send s)" "buffer_ok (rq_send s1)" using assms(1) grows_ok [OF g] by (simp_all add: bufs_ok_def)
  obtain u where u: "written (rq_send s1) = written (rq_send s) @ u" using g by (auto simp: grows_def prefix_def)
  have p: "m_read_pos (rq_send s1) = m_read_pos (rq_send s)" using g by (simp add: grows_def)
  show "m_read_pos b = m_read_pos (rq_send s)" using p by (simp add: b rollback_write_transaction_def)
  show "buffer_ok b" "written b = written (rq_send s)" using rollback_appended [OF ok u p] by (simp_all add: b)
qed

lemma error_well_replied:
  assumes "env_memory env" and "bufs_ok s" and "pieces_ok ps" and "error_reply env ps s = Some (reply, s')"
  shows "well_replied s reply s'"
proof (rule error_replied [OF assms])
  fix b assume "reply = SEND_REPLY_AND_READ" "s' = s\<lparr>rq_send := b\<rparr>" "buffer_ok b" "m_read_pos b = m_read_pos (rq_send s)"
    "written b = written (rq_send s) @ text_of ps @ CRLF"
  then show ?thesis using assms(2) by (simp add: well_replied_def bufs_ok_def)
qed

lemma handled_ok:
  assumes env: "env_memory env" and s: "bufs_ok s" and h: "handle_received_data_ascii env s = Some (reply, s')"
  shows "well_replied s reply s'"
proof -
  obtain r s1 where t: "try_command env s = Some (r, s1)"
    using h by (auto simp: handle_received_data_ascii_def Let_def split: option.splits)
  note g = keepsD [OF keeps_try_command [OF env] s t]
  show ?thesis
  proof (cases r)
    case (Inr a)
    then have a: "reply = a" "s' = s1" using h t by (simp_all add: handle_received_data_ascii_def)
    obtain u where u: "written (rq_send s1) = written (rq_send s) @ u" using g by (auto simp: grows_def prefix_def)
    have "a = READ_MORE \<longrightarrow> u = []" using quiet_try_command [of env] t Inr u unfolding quiet_def by (metis append_self_conv)
    moreover have "a = SEND_REPLY_AND_READ \<longrightarrow> (\<exists>v. u = v @ CRLF)"
      using ended_try_command [OF env] t Inr u s by (auto simp: ended_def)
    ultimately show ?thesis using g u a by (auto simp: well_replied_def grows_def)
  next
    case (Inl x)
    define s2 where "s2 = s1\<lparr>rq_send := rollback_write_transaction (write_savepoint (rq_send s)) (rq_send s1)\<rparr>"
    note rb = rolled_back [OF s g refl]
    have ok2: "bufs_ok s2" using rb(1) grows_ok [OF g] by (simp add: s2_def bufs_ok_def)
    have to2: "well_replied s reply s'" if "well_replied s2 reply s'" using that rb(2,3) g by (simp add: well_replied_def s2_def grows_def)
    have err: "well_replied s reply s'" if "error_reply env ps (s2\<lparr>rq_recv := b\<rparr>) = Some (reply, s')" "pieces_ok ps" "buffer_ok b" "m_max_size b = m_max_size (rq_recv s2)" for ps b
      using error_well_replied [OF env _ that(2,1)] ok2 that(3,4) by (intro to2) (simp add: bufs_ok_def well_replied_def)
    have s2r: "s2\<lparr>rq_recv := rq_recv s2\<rparr> = s2" by simp
    note err2 = err [of _ "rq_recv s2", unfolded s2r, OF _ _ _ refl]
    have ok1: "buffer_ok (rq_recv s2)" using ok2 by (simp add: bufs_ok_def)
    have x: "on_exception env (read_savepoint (rq_recv s)) (write_savepoint (rq_send s)) x s1 = Some (reply, s')"
      using h t Inl by (simp add: handle_received_data_ascii_def)
    show ?thesis
    proof (cases x)
      case (Protocol e)
      obtain s3 where s3: "error_reply env [put_string ''CLIENT_ERROR'', put_char SPACE, put_string (protocol_message e)] s2 = Some (reply, s3)"
          "s' = s3\<lparr>rq_recv := buf_reset (rq_recv s3)\<rparr>"
        using x Protocol by (auto simp: on_exception_def s2_def [symmetric])
      have "well_replied s2 reply s3" using error_well_replied [OF env ok2 _ s3(1)] by simp
      then show ?thesis unfolding s3(2)
        by (intro to2 [unfolded s3(2)]) (auto simp: well_replied_def bufs_ok_def buf_reset_def buffer_ok_def)
    next
      case (Thrown e)
      show ?thesis
      proof (cases e)
        case (System_error ec)
        note y = x [unfolded Thrown System_error on_exception_def Let_def s2_def [symmetric], simplified, unfolded on_system_error_def Let_def]
        have rp: "buffer_ok (rollback_read_transaction (read_savepoint (rq_recv s)) (rq_recv s2))"
          "buffer_ok (snd (read_all (rq_recv s2)))"
        proof -
          have ok0: "buffer_ok (rq_recv s)" using s by (simp add: bufs_ok_def)
          have "m_write_pos (rq_recv s1) = m_write_pos (rq_recv s)"
            using g buffer_okD(5) [OF ok0] buffer_okD(5) [OF ok1] by (simp add: grows_def s2_def)
          then show "buffer_ok (rollback_read_transaction (read_savepoint (rq_recv s)) (rq_recv s2))"
            using ok1 buffer_okD(1) [OF ok0] by (simp add: buffer_ok_def rollback_read_transaction_def read_savepoint_def s2_def)
          show "buffer_ok (snd (read_all (rq_recv s2)))"
            using ok1 by (auto simp: buffer_ok_def read_all_def confirm_read_def non_read_def)
        qed
        show ?thesis
        proof (cases "ec = incomplete_request")
          case True
          then have "well_replied s2 reply s'" using y ok2 rp(1) by (auto simp: well_replied_def bufs_ok_def rollback_read_transaction_def)
          then show ?thesis by (rule to2)
        next
          case False
          then show ?thesis
          proof (cases "ec = broken_request")
            case True
            then show ?thesis using y rp(2) err [of "[put_string ''ERROR'']" "snd (read_all (rq_recv s2))"] by (simp add: read_all_def confirm_read_def)
          next
            case nb: False
            then show ?thesis using y ok1 \<open>ec \<noteq> incomplete_request\<close> by (cases ec) (auto intro!: err2)
          qed
        qed
      qed (use x Thrown in \<open>auto simp: on_exception_def s2_def [symmetric] intro!: err2 ok1\<close>)
    qed
  qed
qed

end
