(* ===== verification/Proto_Parse.thy ===== *)
theory Proto_Parse
  imports Proto_Buffers
begin

text \<open>
  The requests of the text protocol as a client writes them, and that the parser reads them back: the names
  of the commands, the lines of the requests, their arguments and the data block.
\<close>

section \<open>Requests\<close>

definition command_table :: "(u8 list \<times> Command) list" where
  "command_table = map (\<lambda>(name, cmd). (ascii name, cmd))
     [(''add'', ADD), (''append'', APPEND), (''cas'', CAS), (''decr'', DECR), (''delete'', DEL), (''get'', GET), (''gets'', GETS),
      (''incr'', INCR), (''prepend'', PREPEND), (''replace'', REPLACE), (''set'', SET), (''stats'', STATS), (''touch'', TOUCH),
      (''quit'', QUIT), (''version'', VERSION), (''flush_all'', FLUSH_ALL)]"

definition sendable_key :: "u8 list \<Rightarrow> bool" where
  "sendable_key key \<longleftrightarrow> key \<noteq> [] \<and> length key \<le> max_key_length \<and> SPACE \<notin> set key \<and> 13 \<notin> set key"

definition get_request :: "u8 list \<Rightarrow> u8 list" where
  "get_request key = ascii ''get '' @ key @ CRLF"

definition set_request :: "u8 list \<Rightarrow> nat \<Rightarrow> nat \<Rightarrow> u8 list \<Rightarrow> u8 list" where
  "set_request key flags exptime val =
     ascii ''set '' @ key @ SPACE # decimal flags @ SPACE # decimal exptime @ SPACE # decimal (length val) @ CRLF @ val @ CRLF"

definition value_reply :: "u8 list \<Rightarrow> entry_view \<Rightarrow> u8 list" where
  "value_reply key v = ascii ''VALUE '' @ key @ SPACE # decimal (unat (v_flags v)) @ SPACE # decimal (length (v_value v)) @ CRLF @ v_value v @ CRLF"

section \<open>Names of commands\<close>

lemma length_split:
  "length xs = Suc n \<longleftrightarrow> (\<exists>y ys. xs = y # ys \<and> length ys = n)"
  by (cases xs) auto

lemma command_length:
  assumes "(c, k) \<in> set command_table"
  shows "length c \<in> {3, 4, 5, 6, 7, 9}"
  using assms by (auto simp: command_table_def ascii_def)

lemma parse_command_name_table:
  "parse_command_name c = (case map_of command_table c of None \<Rightarrow> UNDEFINED | Some k \<Rightarrow> k)"
proof -
  consider "length c = 3" | "length c = 4" | "length c = 5" | "length c = 6" | "length c = 7" | "length c = 9" | "length c \<notin> {3, 4, 5, 6, 7, 9}" by auto
  then show ?thesis
  proof cases
    case 1
    then obtain a1 a2 a3 where c: "c = [a1, a2, a3]" by (auto simp: numeral_eq_Suc length_split)
    show ?thesis unfolding c by (simp add: parse_command_name_def command_table_def ascii_def is_3_def Let_def)
  next
    case 2
    then obtain a1 a2 a3 a4 where c: "c = [a1, a2, a3, a4]" by (auto simp: numeral_eq_Suc length_split)
    show ?thesis unfolding c by (simp add: parse_command_name_def command_table_def ascii_def is_3_def is_4_def Let_def)
  next
    case 3
    then obtain a1 a2 a3 a4 a5 where c: "c = [a1, a2, a3, a4, a5]" by (auto simp: numeral_eq_Suc length_split)
    show ?thesis unfolding c by (simp add: parse_command_name_def command_table_def ascii_def is_3_def is_4_def is_5_def Let_def)
  next
    case 4
    then obtain a1 a2 a3 a4 a5 a6 where c: "c = [a1, a2, a3, a4, a5, a6]" by (auto simp: numeral_eq_Suc length_split)
    show ?thesis unfolding c by (simp add: parse_command_name_def command_table_def ascii_def is_3_def is_4_def is_5_def is_6_def Let_def)
  next
    case 5
    then obtain a1 a2 a3 a4 a5 a6 a7 where c: "c = [a1, a2, a3, a4, a5, a6, a7]" by (auto simp: numeral_eq_Suc length_split)
    show ?thesis unfolding c by (simp add: parse_command_name_def command_table_def ascii_def is_3_def is_4_def is_5_def is_6_def is_7_def Let_def)
  next
    case 6
    then obtain a1 a2 a3 a4 a5 a6 a7 a8 a9 where c: "c = [a1, a2, a3, a4, a5, a6, a7, a8, a9]" by (auto simp: numeral_eq_Suc length_split)
    show ?thesis unfolding c by (simp add: parse_command_name_def command_table_def ascii_def Let_def)
  next
    case 7
    have "map_of command_table c = None"
    proof (cases "map_of command_table c")
      case (Some k)
      then show ?thesis using command_length [OF map_of_SomeD [OF Some]] 7 by blast
    qed
    then show ?thesis using 7 by (simp add: parse_command_name_def Let_def)
  qed
qed

section \<open>Lines\<close>

lemma find_crlf_none: "13 \<notin> set u \<Longrightarrow> find_bytes CRLF u = None"
proof -
  assume u: "13 \<notin> set u"
  have "take (length CRLF) (drop i u) \<noteq> CRLF" for i
  proof
    assume "take (length CRLF) (drop i u) = CRLF"
    then have "13 \<in> set (take (length CRLF) (drop i u))" by (simp add: CRLF_def del: take_Suc_Cons)
    then show False using u by (meson in_set_dropD in_set_takeD)
  qed
  then show ?thesis by (simp add: find_bytes_def find_None_iff)
qed

lemma find_crlf: "13 \<notin> set h \<Longrightarrow> find_bytes CRLF (h @ CRLF @ rest) = Some (length h)"
proof (rule find_bytes_append)
  fix j assume h: "13 \<notin> set h" and j: "j < length h"
  have "drop j (h @ CRLF @ rest) = h ! j # drop (Suc j) h @ CRLF @ rest"
    using j by (simp add: Cons_nth_drop_Suc [symmetric])
  moreover have "h ! j \<noteq> 13" using h j nth_mem by metis
  ultimately show "take (length CRLF) (drop j (h @ CRLF @ rest)) \<noteq> CRLF" by (simp add: CRLF_def)
qed (simp add: CRLF_def)

lemma read_header_ok:
  assumes s: "bufs_ok s" and u: "unread (rq_recv s) = h @ CRLF @ rest" and h: "13 \<notin> set h"
  obtains b where "read_header s = Some (Inr h, s\<lparr>rq_recv := b\<rparr>)" and "buffer_ok b" and "unread b = rest"
    and "m_max_size b = m_max_size (rq_recv s)"
proof -
  let ?b = "rq_recv s"
  have ok: "buffer_ok ?b" using s by (simp add: bufs_ok_def)
  obtain sl b where c: "confirm_read (length h + length CRLF) ?b = (sl, b)" by (cases "confirm_read (length h + length CRLF) ?b")
  have n: "length h + length CRLF \<le> non_read ?b" using buffer_okD(6) [OF ok] u by simp
  note r = confirm_read_ok [OF ok n c]
  have sl: "sl = slice_of_length (m_read_pos ?b) (length h + length CRLF)" using c by (simp add: confirm_read_def)
  have "try_read_until CRLF ?b = Some (sl, b)"
    using try_read_until_ok [OF ok, of CRLF] u find_crlf [OF h] c by (simp add: CRLF_def)
  moreover have "rtrim_n sl (length CRLF) = slice_of_length (m_read_pos ?b) (length h)"
    by (simp add: sl rtrim_n_def subslice_def slice_nth_def slice_of_length_def slice_length_def)
  moreover have "buf_bytes b (slice_of_length (m_read_pos ?b) (length h)) = Some h"
  proof -
    have "m_end (slice_of_length (m_read_pos ?b) (length h)) \<le> m_write_pos b"
      using n c buffer_okD(1) [OF ok] by (auto simp: slice_of_length_def confirm_read_def non_read_def)
    then show ?thesis using buf_bytes_written [OF r(1)] r(4) u by (simp add: slice_of_length_def unread_def)
  qed
  moreover have "\<not> slice_empty sl" by (simp add: sl slice_empty_def slice_of_length_def CRLF_def)
  ultimately have "read_header s = Some (Inr h, s\<lparr>rq_recv := b\<rparr>)" by (simp add: read_header_def)
  moreover have "unread b = rest" using r(2) u by simp
  ultimately show ?thesis using that r(1,6) by blast
qed

section \<open>Arguments\<close>

lemma digits_plain: "c \<in> set (decimal n) \<Longrightarrow> c \<noteq> 32 \<and> c \<noteq> 13"
  using decimal_digits(1) [of n] isdigit_bounds [of c] by auto

lemma parse_key_ok:
  assumes "sendable_key key"
  shows "parse_key (key @ SPACE # rest) = Inr (key, rest)" and "parse_key key = Inr (key, [])"
  using assms by (simp_all add: parse_key_def sendable_key_def split_byte_append split_byte_none validate_key_def sum_bind_def)

lemma parse_number_ok:
  assumes "n < 2 ^ w" and "n < 10 ^ 19"
  shows "parse_number w (decimal n @ SPACE # rest) = Inr (n, rest)" and "parse_number w (decimal n) = Inr (n, [])"
proof -
  have sp: "SPACE \<notin> set (decimal n)" using digits_plain by (auto simp: SPACE_def)
  have "length (decimal n) \<le> 19" using length_decimal [OF assms(2)] by simp
  then obtain v where v: "str_to_big_unsigned (decimal n) = Inr v"
    using str_to_big_unsigned_short decimal_digits(1,2) by blast
  have "unat v = n" using str_to_big_unsigned_value [OF v] decimal_digits(3) [of n] by simp
  then have "str_to_int w (decimal n) = Inr n" using v assms(1) by (simp add: str_to_int_def str_to_unsigned_def)
  then show "parse_number w (decimal n @ SPACE # rest) = Inr (n, rest)" "parse_number w (decimal n) = Inr (n, [])"
    using sp by (simp_all add: parse_number_def split_byte_append split_byte_none)
qed

lemma parse_set_args:
  assumes "sendable_key key" and "flags < 2 ^ 16" and "exptime < 2 ^ 32" and "n < 2 ^ 32" and "n \<le> env_page_size env" and "cmd \<noteq> CAS"
  shows "parse_storage_args env cmd (key @ SPACE # decimal flags @ SPACE # decimal exptime @ SPACE # decimal n)
    = Inr \<lparr>sa_key = key, sa_flags = flags, sa_keep_alive = exptime, sa_datalen = n, sa_cas_unique = 0, sa_noreply = False\<rparr>"
  using assms by (simp add: parse_storage_args_def sum_bind_def parse_key_ok parse_number_ok maybe_noreply_def)

section \<open>The data block\<close>

lemma read_value_ok:
  assumes s: "bufs_ok s" and u: "unread (rq_recv s) = val @ CRLF @ rest"
  obtains b where "read_value env (length val) s = Some (Inr val, s\<lparr>rq_recv := b\<rparr>)" and "buffer_ok b" and "unread b = rest"
    and "m_max_size b = m_max_size (rq_recv s)"
proof -
  let ?b = "rq_recv s" and ?n = "length val + length CRLF"
  have ok: "buffer_ok ?b" using s by (simp add: bufs_ok_def)
  obtain sl b where c: "confirm_read ?n ?b = (sl, b)" by (cases "confirm_read ?n ?b")
  have n: "?n \<le> non_read ?b" using buffer_okD(6) [OF ok] u by simp
  note r = confirm_read_ok [OF ok n c]
  have sl: "sl = slice_of_length (m_read_pos ?b) ?n" using c by (simp add: confirm_read_def)
  then have "buf_bytes ?b (slice_of_length (m_read_pos ?b) ?n) = Some (val @ CRLF)" using r(5) u by simp
  moreover have "endswith_bytes CRLF (val @ CRLF)" by (simp add: endswith_bytes_def)
  ultimately have "read_value env (length val) s = Some (Inr val, s\<lparr>rq_recv := b\<rparr>)"
    using n c by (simp add: read_value_def Let_def)
  moreover have "unread b = rest" using r(2) u by simp
  ultimately show ?thesis using that r(1,6) by blast
qed

text \<open>Too little data: the request is put back, and the buffer made large enough for the rest.\<close>

lemma read_value_short:
  assumes "bufs_ok s" and "env_memory env" and "non_read (rq_recv s) < n + length CRLF"
    and "m_write_pos (rq_recv s) + (n + length CRLF - non_read (rq_recv s)) \<le> m_max_size (rq_recv s)"
  obtains b where "read_value env n s = Some (Inl (Thrown (System_error incomplete_request)), s\<lparr>rq_recv := b\<rparr>)" and "buffer_ok b"
    and "written b = written (rq_recv s)" and "m_read_pos b = m_read_pos (rq_recv s)" and "n + length CRLF \<le> non_read b + available b"
proof -
  let ?b = "rq_recv s" and ?k = "n + length CRLF - non_read (rq_recv s)"
  have ok: "buffer_ok ?b" "realloc_ok (env_realloc env)" using assms(1,2) by (simp_all add: bufs_ok_def env_memory_def)
  then show ?thesis
  proof (cases rule: ensure_capacity_ok [where n = ?k])
    case (enough b)
    have "n + length CRLF \<le> non_read b + available b" using enough(3,5,6) assms(3) by (simp add: non_read_def)
    then show ?thesis using that [of b] enough(1,2,4,5) assms(3) by (simp add: read_value_def Let_def)
  next
    case too_long
    then show ?thesis using assms(4) by simp
  next
    case no_memory
    then show ?thesis using assms(2) unfolding env_memory_def by blast
  qed
qed

lemma split_command:
  assumes "SPACE \<notin> set (ascii name)"
  shows "split_bytes [SPACE] (ascii name @ SPACE # args) = (ascii name, args)" and "split_bytes [SPACE] (ascii name) = (ascii name, [])"
  using assms by (simp_all add: split_byte_append split_byte_none)

end
