(* ===== verification/Proto_Commands.thy ===== *)
theory Proto_Commands
  imports Proto_Parse
begin

text \<open>
  Commands of the text protocol from the bytes received to the bytes sent: what the reply is and what
  becomes of the cache.
\<close>

section \<open>Errors\<close>

text \<open>An error of the server side, thrown before anything was written.\<close>

fun server_fault :: "exn \<Rightarrow> bool" where
  "server_fault (System_error e) \<longleftrightarrow> e \<in> {unknown_error, out_of_memory, key_too_long, item_too_big, not_implemented}"
| "server_fault e \<longleftrightarrow> True"

definition server_error_line :: "server_env \<Rightarrow> exn \<Rightarrow> piece list" where
  "server_error_line env e = [put_string ''SERVER_ERROR'', put_char SPACE, put_string (exception_what env e), put_slice CRLF]"

text \<open>Why an item could not be stored: no memory in the arena with evictions disabled, or none for a larger table.\<close>

fun no_memory_for :: "server_env \<Rightarrow> 'u cache \<Rightarrow> exn \<Rightarrow> bool" where
  "no_memory_for env c (System_error e) \<longleftrightarrow> e = out_of_memory \<and> \<not> m_evictions_enabled c"
| "no_memory_for env c Bad_alloc \<longleftrightarrow> (cached c = Map.empty \<longrightarrow> no_room (env_fresh env) c)"
| "no_memory_for env c _ \<longleftrightarrow> False"

section \<open>Running actions\<close>

lemma and_then_simps:
  "m s = Some (Inr a, s') \<Longrightarrow> and_then m f s = f a s'" "m s = Some (Inl e, s') \<Longrightarrow> and_then m f s = Some (Inl e, s')"
  by (simp_all add: and_then_def)

lemma call_simps:
  "f (rq_cache s) = Some (Inr a, c) \<Longrightarrow> call f s = Some (Inr a, s\<lparr>rq_cache := c\<rparr>)"
  "f (rq_cache s) = Some (Inl e, c) \<Longrightarrow> call f s = Some (Inl (Thrown e), s\<lparr>rq_cache := c\<rparr>)"
  by (simp_all add: call_def)

lemma text_within: "pieces_ok ps \<Longrightarrow> length (text_of ps) \<le> room_for ps"
  by (induction ps) (auto simp: add_mono)

lemma put_room:
  assumes "bufs_ok s" and "env_memory env" and "pieces_ok ps" and "m_write_pos (rq_send s) + room_for ps \<le> m_max_size (rq_send s)"
  obtains b where "put env ps s = Some (Inr (), s\<lparr>rq_send := b\<rparr>)" and "buffer_ok b" and "written b = written (rq_send s) @ text_of ps"
    and "m_read_pos b = m_read_pos (rq_send s)" and "m_max_size b = m_max_size (rq_send s)"
  using assms(1-3) by (cases rule: put_ok) (use assms(4) that in auto)

lemma rollback_same: "s\<lparr>rq_send := rollback_write_transaction (write_savepoint (rq_send s)) (rq_send s)\<rparr> = s"
  by (simp add: rollback_write_transaction_def write_savepoint_def)

lemma server_fault_replied:
  assumes t: "try_command env s = Some (Inl (Thrown e), s1)" and same: "rq_send s1 = rq_send s" and e: "server_fault e"
    and ok: "bufs_ok s1" "env_memory env" and room: "m_write_pos (rq_send s) + room_for (server_error_line env e) \<le> m_max_size (rq_send s)"
  obtains b where "handle_received_data_ascii env s = Some (SEND_REPLY_AND_READ, s1\<lparr>rq_send := b\<rparr>)" and "buffer_ok b"
    and "written b = written (rq_send s) @ text_of (server_error_line env e)"
proof -
  let ?ps = "[put_string ''SERVER_ERROR'', put_char SPACE, put_string (exception_what env e)]"
  have x: "on_exception env r (write_savepoint (rq_send s)) (Thrown e) s1 = error_reply env ?ps s1" for r
  proof (cases e)
    case (System_error ec)
    then show ?thesis using e rollback_same [of s1] same
      by (cases ec) (auto simp: on_exception_def on_system_error_def Let_def)
  qed (use rollback_same [of s1] same in \<open>simp_all add: on_exception_def\<close>)
  have "pieces_ok (server_error_line env e)" by (simp add: server_error_line_def)
  then obtain b where b: "put env (server_error_line env e) s1 = Some (Inr (), s1\<lparr>rq_send := b\<rparr>)" "buffer_ok b"
      "written b = written (rq_send s1) @ text_of (server_error_line env e)"
    using put_room [OF ok] room same by metis
  have "handle_received_data_ascii env s = Some (SEND_REPLY_AND_READ, s1\<lparr>rq_send := b\<rparr>)"
    using t x b(1) [unfolded server_error_line_def] by (simp add: handle_received_data_ascii_def error_reply_def Let_def)
  then show ?thesis using that b(2,3) same by simp
qed

section \<open>get\<close>

lemma value_pieces_text:
  assumes "item_key M p = key"
  shows "text_of (value_pieces GET M p) = value_reply key (item_view M p)"
    and "room_for (value_pieces GET M p) = 27 + length key + length (item_value M p)"
proof -
  have len: "length (item_value M p) = unat (m_value_length (items M p))" by (simp add: item_value_def byte_range_def)
  then have l: "unat (of_nat (length (item_value M p)) :: u32) = length (item_value M p)" by simp
  have f: "unat (opaque_flags M p) < 2 ^ 16" "length (item_value M p) < 2 ^ 32"
    using unat_word_lt [of "opaque_flags M p"] len unat_word_lt [of "m_value_length (items M p)"] by simp_all
  show "text_of (value_pieces GET M p) = value_reply key (item_view M p)"
    using assms serialize_text [OF f(1)] serialize_text [OF f(2)]
    by (simp add: value_pieces_def l value_reply_def item_view_def ascii_def SPACE_def)
  show "room_for (value_pieces GET M p) = 27 + length key + length (item_value M p)"
    using assms by (simp add: value_pieces_def l serialize_integer_def max_str_length_def CRLF_def)
qed

lemma get_run:
  assumes env: "env_memory env" and s: "bufs_ok s" and c: "cache_ok P calc_hash {} (rq_cache s)"
    and rd: "ready (env_fresh env) (rq_cache s) key" and key: "sendable_key key"
    and room: "m_write_pos (rq_send s) + 40 + length key + (case live (env_clk env 0) (rq_cache s) key of None \<Rightarrow> 0 | Some v \<Rightarrow> length (v_value v))
      \<le> m_max_size (rq_send s)"
  obtains c' b where "handle_retrieval_command env GET key s = Some (Inr SEND_REPLY_AND_READ, s\<lparr>rq_cache := c', rq_send := b\<rparr>)"
    and "cache_ok P calc_hash {} c'" and "buffer_ok b"
    and "written b = written (rq_send s) @ (case live (env_clk env 0) (rq_cache s) key of None \<Rightarrow> [] | Some v \<Rightarrow> value_reply key v) @ ascii ''END'' @ CRLF"
    and "contents c' = (if live (env_clk env 0) (rq_cache s) key = None then (contents (rq_cache s))(key := None) else contents (rq_cache s))"
proof -
  let ?c = "rq_cache s" and ?clk = "\<lambda>_ :: nat. env_clk env 0"
  obtain r c' where g: "do_get (env_fresh env) ?clk key (calc_hash key) ?c = Some (Inr r, c')" "cache_ok P calc_hash {} c'" "c_mem c' = c_mem ?c"
      "map_option (item_view (c_mem ?c)) r = live (env_clk env 0) ?c key" "\<forall>p. r = Some p \<longrightarrow> cached c' key = Some p"
      "contents c' = (if live (env_clk env 0) ?c key = None then (contents ?c)(key := None) else contents ?c)"
    using do_get_ok [OF c rd, of ?clk] by auto
  have call: "call (do_get (env_fresh env) ?clk key (calc_hash key)) s = Some (Inr r, s\<lparr>rq_cache := c'\<rparr>)"
    using g(1) by (rule call_simps)
  have endp: "pieces_ok [put_string ''END'', put_slice CRLF]" by simp
  have er: "room_for [put_string ''END'', put_slice CRLF] = 5" by (simp add: CRLF_def)
  have pk: "parse_key key = Inr (key, [])" by (rule parse_key_ok [OF key])
  obtain b1 where b1: "retrieve_one env GET 0 key s = Some (Inr (), s\<lparr>rq_cache := c', rq_send := b1\<rparr>)" "buffer_ok b1"
      "written b1 = written (rq_send s) @ (case live (env_clk env 0) ?c key of None \<Rightarrow> [] | Some v \<Rightarrow> value_reply key v)"
      "m_max_size b1 = m_max_size (rq_send s)" "m_write_pos b1 + 5 \<le> m_max_size (rq_send s)"
  proof (cases r)
    case None
    then have "live (env_clk env 0) ?c key = None" using g(4) by simp
    then show ?thesis using that [of "rq_send s"] call None s room by (simp add: retrieve_one_def and_then_simps give_def bufs_ok_def)
  next
    case (Some p)
    obtain A where rep: "cache_rep P calc_hash {} c' A" using g(2) by (auto simp: cache_ok_def)
    have ck: "cached c' key = Some p" using g(5) Some by blast
    have ik: "item_key (c_mem c') p = key" using cached_item(1) [OF rep ck] .
    have lv: "live (env_clk env 0) ?c key = Some (item_view (c_mem c') p)" using g(3,4) Some by simp
    note tx = value_pieces_text [OF ik]
    have ok1: "bufs_ok (s\<lparr>rq_cache := c'\<rparr>)" using s by (simp add: bufs_ok_def)
    have rm: "m_write_pos (rq_send s) + room_for (value_pieces GET (c_mem c') p) + 5 \<le> m_max_size (rq_send s)"
      using room lv tx(2) by (simp add: item_view_def)
    obtain b where b: "put env (value_pieces GET (c_mem c') p) (s\<lparr>rq_cache := c'\<rparr>) = Some (Inr (), s\<lparr>rq_cache := c', rq_send := b\<rparr>)" "buffer_ok b"
        "written b = written (rq_send s) @ value_reply key (item_view (c_mem c') p)" "m_max_size b = m_max_size (rq_send s)"
      using put_room [OF ok1 env value_pieces_ok, of GET "c_mem c'" p] rm tx(1) by auto
    have "retrieve_one env GET 0 key s = Some (Inr (), s\<lparr>rq_cache := c', rq_send := b\<rparr>)"
      using call b(1) Some by (simp add: retrieve_one_def and_then_simps)
    moreover have "m_write_pos b \<le> m_write_pos (rq_send s) + room_for (value_pieces GET (c_mem c') p)"
    proof -
      have "length (value_reply key (item_view (c_mem c') p)) \<le> room_for (value_pieces GET (c_mem c') p)"
        unfolding tx(1) [symmetric] by (rule text_within) simp
      then show ?thesis using buffer_okD(5) [OF b(2)] buffer_okD(5) [of "rq_send s"] s b(3) by (simp add: bufs_ok_def)
    qed
    ultimately show ?thesis using that [of b] b(2-4) lv rm by simp
  qed
  have loop: "retrieval_loop env GET 0 key s = Some (Inr (), s\<lparr>rq_cache := c', rq_send := b1\<rparr>)"
    using pk b1(1) by (simp add: retrieval_loop.simps)
  have ok2: "bufs_ok (s\<lparr>rq_cache := c', rq_send := b1\<rparr>)" using s b1(2) by (simp add: bufs_ok_def)
  obtain b where b: "put env [put_string ''END'', put_slice CRLF] (s\<lparr>rq_cache := c', rq_send := b1\<rparr>) = Some (Inr (), s\<lparr>rq_cache := c', rq_send := b\<rparr>)"
      "buffer_ok b" "written b = written b1 @ ascii ''END'' @ CRLF"
    using put_room [OF ok2 env endp] b1(4,5) er by auto
  have "handle_retrieval_command env GET key s = Some (Inr SEND_REPLY_AND_READ, s\<lparr>rq_cache := c', rq_send := b\<rparr>)"
    using loop b(1) by (simp add: handle_retrieval_command_def and_then_simps give_def)
  then show ?thesis using that [of b c'] g(2,6) b(2,3) b1(3) by simp
qed

lemma header_command:
  assumes "bufs_ok s" and "unread (rq_recv s) = ascii name @ SPACE # args @ CRLF @ rest" and "SPACE \<notin> set (ascii name)"
    and "13 \<notin> set (ascii name @ SPACE # args)"
  obtains b where "try_command env s = dispatch env (parse_command_name (ascii name)) args (s\<lparr>rq_recv := b\<rparr>)"
    and "buffer_ok b" and "unread b = rest" and "m_max_size b = m_max_size (rq_recv s)"
proof -
  have "unread (rq_recv s) = (ascii name @ SPACE # args) @ CRLF @ rest" using assms(2) by simp
  then obtain b where b: "read_header s = Some (Inr (ascii name @ SPACE # args), s\<lparr>rq_recv := b\<rparr>)" "buffer_ok b" "unread b = rest"
      "m_max_size b = m_max_size (rq_recv s)"
    using read_header_ok [OF assms(1) _ assms(4)] by blast
  have "try_command env s = dispatch env (parse_command_name (ascii name)) args (s\<lparr>rq_recv := b\<rparr>)"
    using b(1) split_command(1) [OF assms(3), of args] by (simp add: try_command_def and_then_simps)
  then show ?thesis using that b(2-4) by blast
qed

lemma get_command:
  assumes env: "env_memory env" and s: "bufs_ok s" and c: "cache_ok P calc_hash {} (rq_cache s)"
    and rd: "ready (env_fresh env) (rq_cache s) key" and key: "sendable_key key" and u: "unread (rq_recv s) = get_request key @ rest"
    and room: "m_write_pos (rq_send s) + 40 + length key + (case live (env_clk env 0) (rq_cache s) key of None \<Rightarrow> 0 | Some v \<Rightarrow> length (v_value v))
      \<le> m_max_size (rq_send s)"
  shows "\<exists>s'. handle_received_data_ascii env s = Some (SEND_REPLY_AND_READ, s') \<and> bufs_ok s' \<and> unread (rq_recv s') = rest
    \<and> cache_ok P calc_hash {} (rq_cache s')
    \<and> written (rq_send s') = written (rq_send s) @ (case live (env_clk env 0) (rq_cache s) key of None \<Rightarrow> [] | Some v \<Rightarrow> value_reply key v) @ ascii ''END'' @ CRLF
    \<and> contents (rq_cache s') = (if live (env_clk env 0) (rq_cache s) key = None then (contents (rq_cache s))(key := None) else contents (rq_cache s))"
proof -
  have u': "unread (rq_recv s) = ascii ''get'' @ SPACE # key @ CRLF @ rest"
    using u by (simp add: get_request_def ascii_def SPACE_def)
  have plain: "SPACE \<notin> set (ascii ''get'')" "13 \<notin> set (ascii ''get'' @ SPACE # key)"
    using key by (simp_all add: ascii_def SPACE_def sendable_key_def)
  obtain b where b: "try_command env s = dispatch env (parse_command_name (ascii ''get'')) key (s\<lparr>rq_recv := b\<rparr>)" "buffer_ok b" "unread b = rest"
    using header_command [OF s u' plain] by blast
  have "parse_command_name (ascii ''get'') = GET" by code_simp
  then have t: "try_command env s = handle_retrieval_command env GET key (s\<lparr>rq_recv := b\<rparr>)" using b(1) by (simp add: dispatch_def)
  let ?s1 = "s\<lparr>rq_recv := b\<rparr>"
  have s1: "bufs_ok ?s1" "cache_ok P calc_hash {} (rq_cache ?s1)" "ready (env_fresh env) (rq_cache ?s1) key"
    "m_write_pos (rq_send ?s1) + 40 + length key + (case live (env_clk env 0) (rq_cache ?s1) key of None \<Rightarrow> 0 | Some v \<Rightarrow> length (v_value v))
      \<le> m_max_size (rq_send ?s1)"
    using s b(2) c rd room by (simp_all add: bufs_ok_def)
  obtain c' b' where r: "handle_retrieval_command env GET key ?s1 = Some (Inr SEND_REPLY_AND_READ, ?s1\<lparr>rq_cache := c', rq_send := b'\<rparr>)"
      "cache_ok P calc_hash {} c'" "buffer_ok b'"
      "written b' = written (rq_send ?s1) @ (case live (env_clk env 0) (rq_cache ?s1) key of None \<Rightarrow> [] | Some v \<Rightarrow> value_reply key v) @ ascii ''END'' @ CRLF"
      "contents c' = (if live (env_clk env 0) (rq_cache ?s1) key = None then (contents (rq_cache ?s1))(key := None) else contents (rq_cache ?s1))"
    by (rule get_run [OF env s1(1-3) key s1(4)])
  have "handle_received_data_ascii env s = Some (SEND_REPLY_AND_READ, ?s1\<lparr>rq_cache := c', rq_send := b'\<rparr>)"
    using t r(1) by (simp add: handle_received_data_ascii_def)
  then show ?thesis using r(2-5) b(2,3) by (simp add: bufs_ok_def)
qed

section \<open>Storage commands\<close>

lemma and_then_assoc: "and_then m (\<lambda>a. and_then (f a) g) = and_then (and_then m f) g"
  by (auto simp: and_then_def fun_eq_iff split: option.splits sum.splits)

lemma storage_run:
  assumes "bufs_ok s" and "parse_storage_args env cmd args = Inr a" and "sa_datalen a = length val" and "unread (rq_recv s) = val @ CRLF @ rest"
  obtains b where "handle_storage_command env cmd args s
      = and_then (and_then (make_item env a val) (store_item env cmd a)) (\<lambda>r. reply_with_response env r (sa_noreply a)) (s\<lparr>rq_recv := b\<rparr>)"
    and "buffer_ok b" and "unread b = rest"
proof -
  obtain b where b: "read_value env (length val) s = Some (Inr val, s\<lparr>rq_recv := b\<rparr>)" "buffer_ok b" "unread b = rest"
    using read_value_ok [OF assms(1,4)] by blast
  have "handle_storage_command env cmd args s
      = and_then (and_then (make_item env a val) (store_item env cmd a)) (\<lambda>r. reply_with_response env r (sa_noreply a)) (s\<lparr>rq_recv := b\<rparr>)"
    using b(1) assms(2,3) by (simp add: handle_storage_command_def and_then_def [of "from_sum _"] from_sum_def and_then_simps and_then_assoc [symmetric])
  then show ?thesis using that b(2,3) by blast
qed

end
