(* ===== verification/Proto_Storage.thy ===== *)
theory Proto_Storage
  imports Proto_Commands
begin

text \<open>
  The storage commands, \<^verbatim>\<open>delete\<close> and \<^verbatim>\<open>touch\<close> of the text protocol from the bytes received to the bytes sent: one account of
  \<^verbatim>\<open>set\<close>, \<^verbatim>\<open>add\<close>, \<^verbatim>\<open>replace\<close> and \<^verbatim>\<open>cas\<close> by the response and the entry each leaves, given the live entry under the key.
\<close>

section \<open>Requests and outcomes\<close>

definition unexpired :: "u32 \<Rightarrow> entry_view option \<Rightarrow> entry_view option" where
  "unexpired now x = (case x of None \<Rightarrow> None | Some v \<Rightarrow> if v_expiration v \<le> now then None else Some v)"

text \<open>The response to a storage command and the entry it leaves under the key, given the live entry that was there.\<close>

fun stored_response :: "Command \<Rightarrow> u64 \<Rightarrow> entry_view option \<Rightarrow> Response" where
  "stored_response ADD n old = (if old = None then STORED else NOT_STORED)"
| "stored_response REPLACE n old = (if old = None then NOT_STORED else STORED)"
| "stored_response CAS n old = (case old of None \<Rightarrow> NOT_FOUND | Some v \<Rightarrow> if v_timestamp v = n then STORED else EXISTS)"
| "stored_response _ n old = STORED"

fun stored_entry :: "Command \<Rightarrow> u64 \<Rightarrow> entry_view \<Rightarrow> entry_view option \<Rightarrow> entry_view option" where
  "stored_entry ADD n new old = (if old = None then Some new else old)"
| "stored_entry REPLACE n new old = map_option (\<lambda>_. new) old"
| "stored_entry CAS n new old = map_option (\<lambda>v. if v_timestamp v = n then new else v) old"
| "stored_entry _ n new old = Some new"

definition new_entry :: "server_env \<Rightarrow> 'u cache \<Rightarrow> storage_args \<Rightarrow> u8 list \<Rightarrow> entry_view" where
  "new_entry env c a val = \<lparr>v_value = val, v_flags = of_nat (sa_flags a), v_expiration = expiration_for (env_clk env 0) (of_nat (sa_keep_alive a)),
     v_timestamp = m_newest_timestamp c + 1\<rparr>"

text \<open>The two steps together.\<close>

definition store_run :: "server_env \<Rightarrow> Command \<Rightarrow> storage_args \<Rightarrow> u8 list \<Rightarrow> (Response, 'u) action" where
  "store_run env cmd a val = and_then (make_item env a val) (store_item env cmd a)"

text \<open>The names of the storage commands.\<close>

fun storage_name :: "Command \<Rightarrow> string" where
  "storage_name ADD = ''add''"
| "storage_name REPLACE = ''replace''"
| "storage_name CAS = ''cas''"
| "storage_name _ = ''set''"

definition storage_args_text :: "Command \<Rightarrow> u8 list \<Rightarrow> nat \<Rightarrow> nat \<Rightarrow> nat \<Rightarrow> nat \<Rightarrow> u8 list" where
  "storage_args_text cmd key flags exptime n cas_unique =
     key @ SPACE # decimal flags @ SPACE # decimal exptime @ SPACE # decimal n @ (if cmd = CAS then SPACE # decimal cas_unique else [])"

definition storage_request :: "Command \<Rightarrow> u8 list \<Rightarrow> nat \<Rightarrow> nat \<Rightarrow> nat \<Rightarrow> u8 list \<Rightarrow> u8 list" where
  "storage_request cmd key flags exptime cas_unique val =
     ascii (storage_name cmd) @ SPACE # storage_args_text cmd key flags exptime (length val) cas_unique @ CRLF @ val @ CRLF"

definition request_args :: "Command \<Rightarrow> u8 list \<Rightarrow> nat \<Rightarrow> nat \<Rightarrow> nat \<Rightarrow> nat \<Rightarrow> storage_args" where
  "request_args cmd key flags exptime n cas_unique = \<lparr>sa_key = key, sa_flags = flags, sa_keep_alive = exptime, sa_datalen = n,
     sa_cas_unique = (if cmd = CAS then cas_unique else 0), sa_noreply = False\<rparr>"

definition delete_request :: "u8 list \<Rightarrow> u8 list" where
  "delete_request key = ascii ''delete '' @ key @ CRLF"

definition touch_request :: "u8 list \<Rightarrow> nat \<Rightarrow> u8 list" where
  "touch_request key exptime = ascii ''touch '' @ key @ SPACE # decimal exptime @ CRLF"

section \<open>Making and storing an item\<close>

lemma live_unexpired: "live now c k = unexpired now (contents c k)"
  by (simp add: live_def unexpired_def)

lemma item_made:
  assumes c: "cache_ok P calc_hash {} (rq_cache s)" and rd: "ready (env_fresh env) (rq_cache s) (sa_key a)"
    and key: "length (sa_key a) \<le> max_key_length" and size: "CalcSizeRequired (sa_key a) (length val) + 8 \<le> P"
  obtains (fault) c' where "make_item env a val s = Some (Inl (Thrown (System_error out_of_memory)), s\<lparr>rq_cache := c'\<rparr>)"
      and "\<not> m_evictions_enabled (rq_cache s)" and "cache_ok P calc_hash {} c'" and "contents c' = contents (rq_cache s)"
  | (made) p c' where "make_item env a val s = Some (Inr p, s\<lparr>rq_cache := c'\<rparr>)" and "cache_ok P calc_hash {p} c'"
      and "ready (env_fresh env) c' (sa_key a)" and "contents c' \<subseteq>\<^sub>m contents (rq_cache s)" and "item_key (c_mem c') p = sa_key a"
      and "item_hash (c_mem c') p = calc_hash (sa_key a)" and "item_view (c_mem c') p = new_entry env (rq_cache s) a val"
      and "no_room (env_fresh env) c' \<Longrightarrow> no_memory_for env (rq_cache s) Bad_alloc"
proof -
  let ?c = "rq_cache s" and ?k = "sa_key a"
  obtain A where rep: "cache_rep P calc_hash {} ?c A" using c by (auto simp: cache_ok_def)
  have L: "{} = {} \<or> \<not> m_evictions_enabled ?c" by simp
  from rep key size L show ?thesis
  proof (cases rule: create_filled [where now = "env_clk env 0" and flags = "of_nat (sa_flags a)" and ttl = "of_nat (sa_keep_alive a)"])
    case (full m)
    have "make_item env a val s = Some (Inl (Thrown (System_error out_of_memory)), s\<lparr>rq_cache := ?c\<lparr>m_allocator := m\<rparr>\<rparr>)"
      unfolding make_item_def by (rule call_simps) (simp add: full(1))
    moreover have "contents (?c\<lparr>m_allocator := m\<rparr>) = contents ?c" by (rule contents_upd(1)) simp_all
    ultimately show ?thesis using fault [of "?c\<lparr>m_allocator := m\<rparr>"] cache_okI [OF full(3)] full(2) by simp
  next
    case (made p c1 c' V A')
    have mk: "make_item env a val s = Some (Inr p, s\<lparr>rq_cache := c'\<rparr>)"
      unfolding make_item_def by (rule call_simps) (simp add: made(1,2))
    have rd': "ready (env_fresh env) c' ?k" using rd made(12) by (simp add: ready_def)
    have le: "contents c' \<subseteq>\<^sub>m contents ?c" unfolding made(6) by (simp add: map_le_def)
    have nm: "no_memory_for env ?c Bad_alloc" if "no_room (env_fresh env) c'"
    proof -
      have "cached ?c = Map.empty \<Longrightarrow> V = {}" using made(7) cache_repD(4) [OF rep] by (auto simp: lru_page_mem_def)
      then show ?thesis using made(8) that by (auto simp: no_room_def)
    qed
    have vw: "item_view (c_mem c') p = new_entry env ?c a val" using made(11) by (simp add: new_entry_def)
    show ?thesis by (rule that(2) [OF mk cache_okI [OF made(3)] rd' le made(9,10) vw nm])
  qed
qed

lemma call_store:
  assumes "f (rq_cache s) = Some (Inr x, c)"
  shows "and_then (call f) g s = g x (s\<lparr>rq_cache := c\<rparr>)"
  using call_simps(1) [of f s] assms by (simp add: and_then_simps)

lemma item_stored:
  assumes ok: "cache_ok P calc_hash {p} (rq_cache s)" and rd: "ready (env_fresh env) (rq_cache s) (sa_key a)"
    and p: "item_key (c_mem (rq_cache s)) p = sa_key a" "item_hash (c_mem (rq_cache s)) p = calc_hash (sa_key a)" "calc_hash (sa_key a) \<noteq> 0"
    and cmd: "cmd \<in> {SET, ADD, REPLACE, CAS}"
  obtains (fault) c' where "store_item env cmd a p s = Some (Inl (Thrown Bad_alloc), s\<lparr>rq_cache := c'\<rparr>)" and "cache_ok P calc_hash {} c'"
      and "contents c' = contents (rq_cache s)" and "no_room (env_fresh env) (rq_cache s)"
  | (stored) c' where "store_item env cmd a p s = Some (Inr (stored_response cmd (of_nat (sa_cas_unique a)) (live (env_clk env 1) (rq_cache s) (sa_key a))), s\<lparr>rq_cache := c'\<rparr>)"
      and "cache_ok P calc_hash {} c'" and "contents c' = (contents (rq_cache s))(sa_key a :=
        stored_entry cmd (of_nat (sa_cas_unique a)) (item_view (c_mem (rq_cache s)) p) (live (env_clk env 1) (rq_cache s) (sa_key a)))"
      and "cmd = SET \<Longrightarrow> settled (entry_key c') (m_dict c') (sa_key a)"
proof -
  let ?c = "rq_cache s" and ?k = "sa_key a" and ?clk = "\<lambda>n. env_clk env (n + 1)" and ?f = "env_fresh env"
  have L: "{p} - {p} = {}" by simp
  have keep: "contents ?c ?k = Some v" if "live (env_clk env 1) ?c ?k = Some v" for v
    using that by (auto simp: live_def split: option.splits if_splits)
  note laws = do_set_ok [OF ok rd singletonI p(1,2,3), of ?clk, unfolded L] do_add_ok [OF ok rd singletonI p(1,2,3), of ?clk, unfolded L]
    do_replace_ok [OF ok rd singletonI p(1,2), of ?clk, unfolded L] do_cas_ok [OF ok rd singletonI p(1,2), of ?clk "of_nat (sa_cas_unique a)", unfolded L]
  let ?n = "of_nat (sa_cas_unique a) :: u64" and ?lv = "live (env_clk env 1) ?c ?k"
  have bad: thesis if "store_item env cmd a p s = and_then (call f) g s" "f ?c = Some (Inl Bad_alloc, c')" "cache_ok P calc_hash {} c'"
      "contents c' = contents ?c" "no_room ?f ?c" for f and g :: "'b \<Rightarrow> (Response, 'a) action" and c'
    by (rule fault [of c']) (use that call_simps(2) [of f s, OF that(2)] in \<open>simp_all add: and_then_simps\<close>)
  have good: thesis if "store_item env cmd a p s = and_then (call f) g s" "f ?c = Some (Inr x, c')" "g x = give (stored_response cmd ?n ?lv)"
      "cache_ok P calc_hash {} c'" "contents c' = (contents ?c)(?k := stored_entry cmd ?n (item_view (c_mem ?c) p) ?lv)"
      "cmd = SET \<Longrightarrow> settled (entry_key c') (m_dict c') ?k" for f and g :: "'b \<Rightarrow> (Response, 'a) action" and x c'
    by (rule stored [of c']) (use that call_store [of f s, OF that(2), of g] in \<open>simp_all add: give_def\<close>)
  consider "cmd = SET" | "cmd = ADD" | "cmd = REPLACE" | "cmd = CAS" using cmd by blast
  then show ?thesis
  proof cases
    case 1
    then have st: "store_item env cmd a p s = and_then (call (do_set ?f ?clk p)) (\<lambda>_. give STORED) s" by (simp add: store_item_def)
    from laws(1) show ?thesis by (elim disjE exE conjE) (rule bad [OF st], assumption+, rule good [OF st], (assumption | simp add: 1)+)
  next
    case 2
    then have st: "store_item env cmd a p s = and_then (call (do_add ?f ?clk p)) (\<lambda>found. give (if found then STORED else NOT_STORED)) s"
      by (simp add: store_item_def)
    have "(if ?lv = None then (contents ?c)(?k \<mapsto> v) else contents ?c) = (contents ?c)(?k := stored_entry ADD ?n v ?lv)" for v
      using keep by (cases ?lv) (auto simp: fun_eq_iff)
    with laws(2) show ?thesis by (elim disjE exE conjE) (rule bad [OF st], assumption+, rule good [OF st], assumption, simp_all add: 2)
  next
    case 3
    then have st: "store_item env cmd a p s = and_then (call (do_replace ?f ?clk p)) (\<lambda>found. give (if found then STORED else NOT_STORED)) s"
      by (simp add: store_item_def)
    from laws(3) show ?thesis by (elim disjE exE conjE) (rule bad [OF st], assumption+, rule good [OF st], assumption, simp_all add: 3)
  next
    case 4
    then have st: "store_item env cmd a p s = and_then (call (do_cas ?f ?clk p ?n)) (\<lambda>(found, st). give (if found then (if st then STORED else EXISTS) else NOT_FOUND)) s"
      by (simp add: store_item_def)
    from laws(4) show ?thesis
      by (elim disjE exE conjE) (rule bad [OF st], assumption+, rule good [OF st], assumption, (cases ?lv; simp add: 4)+)
  qed
qed

lemma store_run_ok:
  assumes c: "cache_ok P calc_hash {} (rq_cache s)" and rd: "ready (env_fresh env) (rq_cache s) (sa_key a)"
    and key: "length (sa_key a) \<le> max_key_length" and hash: "calc_hash (sa_key a) \<noteq> 0"
    and size: "CalcSizeRequired (sa_key a) (length val) + 8 \<le> P" and cmd: "cmd \<in> {SET, ADD, REPLACE, CAS}"
  obtains (fault) e c' where "store_run env cmd a val s = Some (Inl (Thrown e), s\<lparr>rq_cache := c'\<rparr>)" and "no_memory_for env (rq_cache s) e"
      and "cache_ok P calc_hash {} c'" and "contents c' \<subseteq>\<^sub>m contents (rq_cache s)"
  | (stored) c' m where "store_run env cmd a val s = Some (Inr (stored_response cmd (of_nat (sa_cas_unique a)) (unexpired (env_clk env 1) (m (sa_key a)))), s\<lparr>rq_cache := c'\<rparr>)"
      and "cache_ok P calc_hash {} c'" and "m \<subseteq>\<^sub>m contents (rq_cache s)"
      and "contents c' = m(sa_key a := stored_entry cmd (of_nat (sa_cas_unique a)) (new_entry env (rq_cache s) a val) (unexpired (env_clk env 1) (m (sa_key a))))"
      and "cmd = SET \<Longrightarrow> settled (entry_key c') (m_dict c') (sa_key a)"
  using c rd key size
proof (cases rule: item_made)
  case (fault c')
  then show ?thesis using that(1) [of "System_error out_of_memory" c'] by (simp add: store_run_def and_then_simps)
next
  case (made p c1)
  let ?s = "s\<lparr>rq_cache := c1\<rparr>"
  have st: "store_run env cmd a val s = store_item env cmd a p ?s" using made(1) by (simp add: store_run_def and_then_simps)
  have ok: "cache_ok P calc_hash {p} (rq_cache ?s)" "ready (env_fresh env) (rq_cache ?s) (sa_key a)" "item_key (c_mem (rq_cache ?s)) p = sa_key a"
    "item_hash (c_mem (rq_cache ?s)) p = calc_hash (sa_key a)" using made(2,3,5,6) by simp_all
  from ok hash cmd show ?thesis
  proof (cases rule: item_stored)
    case (fault c')
    then show ?thesis using that(1) [of Bad_alloc c'] st made(4,8) by simp
  next
    case (stored c')
    then show ?thesis using that(2) [of "contents c1" c'] st made(4,7) by (simp add: live_unexpired)
  qed
qed

section \<open>Replies\<close>

lemma response_replied:
  assumes t: "try_command env s = reply_with_response env r False s1" and same: "rq_send s1 = rq_send s" and ok: "bufs_ok s1" "env_memory env"
    and room: "m_write_pos (rq_send s) + 16 \<le> m_max_size (rq_send s)"
  obtains b where "handle_received_data_ascii env s = Some (SEND_REPLY_AND_READ, s1\<lparr>rq_send := b\<rparr>)" and "buffer_ok b"
    and "written b = written (rq_send s) @ AsciiResponse r @ CRLF"
proof -
  have "pieces_ok [put_response r, put_slice CRLF]" "room_for [put_response r, put_slice CRLF] \<le> 16"
    by (simp, cases r, simp_all add: CRLF_def)
  then obtain b where b: "put env [put_response r, put_slice CRLF] s1 = Some (Inr (), s1\<lparr>rq_send := b\<rparr>)" "buffer_ok b"
      "written b = written (rq_send s) @ AsciiResponse r @ CRLF"
    using put_room [OF ok, of "[put_response r, put_slice CRLF]"] room same by auto
  have "handle_received_data_ascii env s = Some (SEND_REPLY_AND_READ, s1\<lparr>rq_send := b\<rparr>)"
    using t b(1) by (simp add: reply_with_response_def and_then_simps give_def handle_received_data_ascii_def)
  then show ?thesis using that b(2,3) by blast
qed

lemma no_memory_replied:
  assumes t: "try_command env s = Some (Inl (Thrown e), s1)" and same: "rq_send s1 = rq_send s" and e: "no_memory_for env c e"
    and ok: "bufs_ok s1" "env_memory env" and room: "m_write_pos (rq_send s) + 40 + length (env_bad_alloc env) \<le> m_max_size (rq_send s)"
  obtains b where "handle_received_data_ascii env s = Some (SEND_REPLY_AND_READ, s1\<lparr>rq_send := b\<rparr>)" and "buffer_ok b"
    and "written b = written (rq_send s) @ ascii ''SERVER_ERROR '' @ ascii (exception_what env e) @ CRLF"
proof -
  have f: "server_fault e" "room_for (server_error_line env e) \<le> 40 + length (env_bad_alloc env)"
    using e by (cases e; auto simp: server_error_line_def CRLF_def message_def)+
  then have room': "m_write_pos (rq_send s) + room_for (server_error_line env e) \<le> m_max_size (rq_send s)" using room by simp
  have "text_of (server_error_line env e) = ascii ''SERVER_ERROR '' @ ascii (exception_what env e) @ CRLF"
    by (simp add: server_error_line_def ascii_def SPACE_def)
  then show ?thesis using server_fault_replied [OF t same f(1) ok room'] that by metis
qed

section \<open>From request to reply\<close>

lemma parse_request_args:
  assumes "sendable_key key" and "flags < 2 ^ 16" and "exptime < 2 ^ 32" and "n < 2 ^ 32" and "n \<le> env_page_size env" and "u < 10 ^ 19"
  shows "parse_storage_args env cmd (storage_args_text cmd key flags exptime n u) = Inr (request_args cmd key flags exptime n u)"
proof -
  have "u < 2 ^ 64" using assms(6) by simp
  with assms show ?thesis
    by (simp add: storage_args_text_def request_args_def parse_storage_args_def sum_bind_def parse_key_ok parse_number_ok maybe_noreply_def)
qed

lemma storage_dispatch:
  assumes s: "bufs_ok s" and key: "sendable_key key" and u: "unread (rq_recv s) = storage_request cmd key flags exptime n val @ rest"
    and cmd: "cmd \<in> {SET, ADD, REPLACE, CAS}"
    and args: "flags < 2 ^ 16" "exptime < 2 ^ 32" "length val < 2 ^ 32" "length val \<le> env_page_size env" "n < 10 ^ 19"
  obtains b where "try_command env s = and_then (store_run env cmd (request_args cmd key flags exptime (length val) n) val)
      (\<lambda>r. reply_with_response env r False) (s\<lparr>rq_recv := b\<rparr>)" and "buffer_ok b" and "unread b = rest"
proof -
  let ?name = "storage_name cmd" and ?args = "storage_args_text cmd key flags exptime (length val) n"
  have u': "unread (rq_recv s) = ascii ?name @ SPACE # ?args @ CRLF @ val @ CRLF @ rest" using u by (simp add: storage_request_def)
  have name: "SPACE \<notin> set (ascii ?name)" "13 \<notin> set (ascii ?name)" using cmd by (auto simp: ascii_def SPACE_def)
  have plain: "13 \<notin> set (ascii ?name @ SPACE # ?args)"
    using name(2) key digits_plain by (auto simp: storage_args_text_def SPACE_def sendable_key_def)
  obtain b where b: "try_command env s = dispatch env (parse_command_name (ascii ?name)) ?args (s\<lparr>rq_recv := b\<rparr>)" "buffer_ok b" "unread b = val @ CRLF @ rest"
    using header_command [OF s u' name(1) plain] by blast
  have "parse_command_name (ascii ''set'') = SET" "parse_command_name (ascii ''add'') = ADD" "parse_command_name (ascii ''replace'') = REPLACE"
    "parse_command_name (ascii ''cas'') = CAS" by code_simp+
  then have t: "try_command env s = handle_storage_command env cmd ?args (s\<lparr>rq_recv := b\<rparr>)" using b(1) cmd by (auto simp: dispatch_def)
  note pa = parse_request_args [OF key args, of cmd]
  have s1: "bufs_ok (s\<lparr>rq_recv := b\<rparr>)" using s b(2) by (simp add: bufs_ok_def)
  have dl: "sa_datalen (request_args cmd key flags exptime (length val) n) = length val" by (simp add: request_args_def)
  have ub: "unread (rq_recv (s\<lparr>rq_recv := b\<rparr>)) = val @ CRLF @ rest" using b(3) by simp
  show ?thesis by (rule storage_run [OF s1 pa dl ub]) (use that t in \<open>simp add: store_run_def request_args_def\<close>)
qed

lemma storage_command:
  assumes env: "env_memory env" and s: "bufs_ok s" and c: "cache_ok P calc_hash {} (rq_cache s)"
    and rd: "ready (env_fresh env) (rq_cache s) key" and key: "sendable_key key" and hash: "calc_hash key \<noteq> 0"
    and size: "CalcSizeRequired key (length val) + 8 \<le> P" and page: "env_page_size env = P" "P < 2 ^ 32"
    and args: "flags < 2 ^ 16" "exptime < 2 ^ 32" "n < 10 ^ 19" and u: "unread (rq_recv s) = storage_request cmd key flags exptime n val @ rest"
    and cmd: "cmd \<in> {SET, ADD, REPLACE, CAS}"
    and room: "m_write_pos (rq_send s) + 40 + length (env_bad_alloc env) \<le> m_max_size (rq_send s)"
    and a: "a = request_args cmd key flags exptime (length val) n"
  obtains (stored) s' m where "handle_received_data_ascii env s = Some (SEND_REPLY_AND_READ, s')" and "bufs_ok s'" and "unread (rq_recv s') = rest"
      and "cache_ok P calc_hash {} (rq_cache s')" and "m \<subseteq>\<^sub>m contents (rq_cache s)"
      and "written (rq_send s') = written (rq_send s) @ AsciiResponse (stored_response cmd (of_nat n) (unexpired (env_clk env 1) (m key))) @ CRLF"
      and "contents (rq_cache s') = m(key := stored_entry cmd (of_nat n) (new_entry env (rq_cache s) a val) (unexpired (env_clk env 1) (m key)))"
      and "cmd = SET \<Longrightarrow> settled (entry_key (rq_cache s')) (m_dict (rq_cache s')) key"
  | (fault) s' e where "handle_received_data_ascii env s = Some (SEND_REPLY_AND_READ, s')" and "bufs_ok s'" and "unread (rq_recv s') = rest"
      and "cache_ok P calc_hash {} (rq_cache s')" and "contents (rq_cache s') \<subseteq>\<^sub>m contents (rq_cache s)" and "no_memory_for env (rq_cache s) e"
      and "written (rq_send s') = written (rq_send s) @ ascii ''SERVER_ERROR '' @ ascii (exception_what env e) @ CRLF"
proof -
  have n: "length val < 2 ^ 32" "length val \<le> env_page_size env" using size page by (simp_all add: CalcSizeRequired_def)
  obtain b where b: "try_command env s = and_then (store_run env cmd a val) (\<lambda>r. reply_with_response env r False) (s\<lparr>rq_recv := b\<rparr>)"
      "buffer_ok b" "unread b = rest"
    unfolding a by (rule storage_dispatch [OF s key u cmd args(1,2) n args(3)])
  let ?s = "s\<lparr>rq_recv := b\<rparr>"
  have ak: "sa_key a = key" by (simp add: a request_args_def)
  have n': "stored_response cmd (of_nat (sa_cas_unique a)) = stored_response cmd (of_nat n)"
    "stored_entry cmd (of_nat (sa_cas_unique a)) = stored_entry cmd (of_nat n)"
    using cmd by (auto simp: a request_args_def fun_eq_iff)
  have p: "cache_ok P calc_hash {} (rq_cache ?s)" "ready (env_fresh env) (rq_cache ?s) (sa_key a)" "length (sa_key a) \<le> max_key_length"
    "calc_hash (sa_key a) \<noteq> 0" "CalcSizeRequired (sa_key a) (length val) + 8 \<le> P"
    using c rd key hash size by (simp_all add: ak sendable_key_def)
  have ok: "bufs_ok (?s\<lparr>rq_cache := c'\<rparr>)" for c' using s b(2) by (simp add: bufs_ok_def)
  from p cmd show ?thesis
  proof (cases rule: store_run_ok)
    case (fault e c')
    then have t: "try_command env s = Some (Inl (Thrown e), ?s\<lparr>rq_cache := c'\<rparr>)" using b(1) by (simp add: and_then_simps)
    have e: "no_memory_for env (rq_cache s) e" using fault(2) by simp
    have same: "rq_send (?s\<lparr>rq_cache := c'\<rparr>) = rq_send s" by simp
    obtain x where x: "handle_received_data_ascii env s = Some (SEND_REPLY_AND_READ, ?s\<lparr>rq_cache := c', rq_send := x\<rparr>)" "buffer_ok x"
        "written x = written (rq_send s) @ ascii ''SERVER_ERROR '' @ ascii (exception_what env e) @ CRLF"
      by (rule no_memory_replied [OF t same e ok env room])
    show ?thesis by (rule that(2) [OF x(1) _ _ _ _ e]) (use x b fault in \<open>simp_all add: bufs_ok_def\<close>)
  next
    case (stored c' m)
    let ?r = "stored_response cmd (of_nat n) (unexpired (env_clk env 1) (m key))"
    have t: "try_command env s = reply_with_response env ?r False (?s\<lparr>rq_cache := c'\<rparr>)"
      using b(1) stored(1) by (simp add: and_then_simps ak n')
    have same: "rq_send (?s\<lparr>rq_cache := c'\<rparr>) = rq_send s" by simp
    have room': "m_write_pos (rq_send s) + 16 \<le> m_max_size (rq_send s)" using room by simp
    obtain x where x: "handle_received_data_ascii env s = Some (SEND_REPLY_AND_READ, ?s\<lparr>rq_cache := c', rq_send := x\<rparr>)" "buffer_ok x"
        "written x = written (rq_send s) @ AsciiResponse ?r @ CRLF"
      by (rule response_replied [OF t same ok env room'])
    show ?thesis by (rule that(1) [of _ m, OF x(1)]) (use x b stored in \<open>simp_all add: bufs_ok_def ak n'\<close>)
  qed
qed

lemma set_command:
  assumes env: "env_memory env" and s: "bufs_ok s" and c: "cache_ok P calc_hash {} (rq_cache s)"
    and rd: "ready (env_fresh env) (rq_cache s) key" and key: "sendable_key key" and hash: "calc_hash key \<noteq> 0"
    and size: "CalcSizeRequired key (length val) + 8 \<le> P" and page: "env_page_size env = P" "P < 2 ^ 32"
    and args: "flags < 2 ^ 16" "exptime < 2 ^ 32" and u: "unread (rq_recv s) = set_request key flags exptime val @ rest"
    and room: "m_write_pos (rq_send s) + 40 + length (env_bad_alloc env) \<le> m_max_size (rq_send s)"
  shows "\<exists>s'. handle_received_data_ascii env s = Some (SEND_REPLY_AND_READ, s') \<and> bufs_ok s' \<and> unread (rq_recv s') = rest
    \<and> cache_ok P calc_hash {} (rq_cache s')
    \<and> (written (rq_send s') = written (rq_send s) @ ascii ''STORED'' @ CRLF \<and> settled (entry_key (rq_cache s')) (m_dict (rq_cache s')) key
        \<and> contents (rq_cache s') key = Some \<lparr>v_value = val, v_flags = of_nat flags, v_expiration = expiration_for (env_clk env 0) (of_nat exptime),
            v_timestamp = m_newest_timestamp (rq_cache s) + 1\<rparr> \<and> (contents (rq_cache s'))(key := None) \<subseteq>\<^sub>m contents (rq_cache s)
      \<or> (\<exists>e. no_memory_for env (rq_cache s) e
          \<and> written (rq_send s') = written (rq_send s) @ ascii ''SERVER_ERROR '' @ ascii (exception_what env e) @ CRLF)
        \<and> contents (rq_cache s') \<subseteq>\<^sub>m contents (rq_cache s))"
proof -
  have u': "unread (rq_recv s) = storage_request SET key flags exptime 0 val @ rest"
    using u by (simp add: set_request_def storage_request_def storage_args_text_def) (simp add: ascii_def SPACE_def)
  have n: "(0 :: nat) < 10 ^ 19" "SET \<in> {SET, ADD, REPLACE, CAS}" by simp_all
  from env s c rd key hash size page args n(1) u' n(2) room refl show ?thesis
  proof (cases rule: storage_command)
    case (stored s' m)
    have "(contents (rq_cache s'))(key := None) \<subseteq>\<^sub>m contents (rq_cache s)" using stored(5,7) by (auto simp: map_le_def dom_def)
    then show ?thesis using stored by (intro exI [of _ s']) (simp add: new_entry_def request_args_def)
  next
    case (fault s' e)
    then show ?thesis by (intro exI [of _ s']) auto
  qed
qed

section \<open>delete and touch\<close>

lemma found_replied:
  assumes "f (rq_cache s) = Some (Inr x, c)"
  shows "and_then (call f) (\<lambda>found. reply_with_response env (if found then y else z) False) s
    = reply_with_response env (if x then y else z) False (s\<lparr>rq_cache := c\<rparr>)"
  by (simp only: call_store [of f s x c, OF assms])

lemma delete_command:
  assumes env: "env_memory env" and s: "bufs_ok s" and c: "cache_ok P calc_hash {} (rq_cache s)"
    and rd: "ready (env_fresh env) (rq_cache s) key" and key: "sendable_key key" and u: "unread (rq_recv s) = delete_request key @ rest"
    and room: "m_write_pos (rq_send s) + 16 \<le> m_max_size (rq_send s)"
  obtains s' where "handle_received_data_ascii env s = Some (SEND_REPLY_AND_READ, s')" and "bufs_ok s'" and "unread (rq_recv s') = rest"
    and "cache_ok P calc_hash {} (rq_cache s')" and "contents (rq_cache s') = (contents (rq_cache s))(key := None)"
    and "written (rq_send s') = written (rq_send s) @ AsciiResponse (if live (env_clk env 0) (rq_cache s) key = None then NOT_FOUND else DELETED) @ CRLF"
proof -
  have u': "unread (rq_recv s) = ascii ''delete'' @ SPACE # key @ CRLF @ rest"
    using u by (simp add: delete_request_def) (simp add: ascii_def SPACE_def)
  have plain: "SPACE \<notin> set (ascii ''delete'')" "13 \<notin> set (ascii ''delete'' @ SPACE # key)"
    using key by (simp_all add: ascii_def SPACE_def sendable_key_def)
  obtain b where b: "try_command env s = dispatch env (parse_command_name (ascii ''delete'')) key (s\<lparr>rq_recv := b\<rparr>)" "buffer_ok b" "unread b = rest"
    using header_command [OF s u' plain] by blast
  let ?s = "s\<lparr>rq_recv := b\<rparr>" and ?lv = "live (env_clk env 0) (rq_cache s) key"
  obtain c' where d: "do_delete (env_fresh env) (env_clk env) key (calc_hash key) (rq_cache s) = Some (Inr (?lv \<noteq> None), c')"
      "cache_ok P calc_hash {} c'" "contents c' = (contents (rq_cache s))(key := None)"
    using do_delete_ok [OF c rd, of "env_clk env"] by blast
  have cmd: "parse_command_name (ascii ''delete'') = DEL" by code_simp
  let ?r = "if ?lv \<noteq> None then DELETED else NOT_FOUND" and ?s1 = "?s\<lparr>rq_cache := c'\<rparr>"
  have "try_command env s = handle_delete_command env key ?s" using b(1) cmd by (simp add: dispatch_def)
  also have "\<dots> = and_then (call (do_delete (env_fresh env) (env_clk env) key (calc_hash key))) (\<lambda>found. reply_with_response env (if found then DELETED else NOT_FOUND) False) ?s"
    using key by (simp add: handle_delete_command_def parse_key_ok sum_bind_def maybe_noreply_def and_then_def [of "from_sum _"] from_sum_def)
  also have "\<dots> = reply_with_response env ?r False ?s1"
    using found_replied [of "do_delete (env_fresh env) (env_clk env) key (calc_hash key)" ?s "?lv \<noteq> None" c' env DELETED NOT_FOUND] d(1) by simp
  finally have t: "try_command env s = reply_with_response env ?r False ?s1" .
  have same: "rq_send ?s1 = rq_send s" and ok: "bufs_ok ?s1" using s b(2) by (simp_all add: bufs_ok_def)
  obtain x where x: "handle_received_data_ascii env s = Some (SEND_REPLY_AND_READ, ?s1\<lparr>rq_send := x\<rparr>)" "buffer_ok x"
      "written x = written (rq_send s) @ AsciiResponse ?r @ CRLF"
    by (rule response_replied [OF t same ok env room])
  show ?thesis by (rule that [OF x(1)]) (use x b d in \<open>simp_all add: bufs_ok_def\<close>)
qed

lemma touch_command:
  assumes env: "env_memory env" and s: "bufs_ok s" and c: "cache_ok P calc_hash {} (rq_cache s)"
    and rd: "ready (env_fresh env) (rq_cache s) key" and key: "sendable_key key" and n: "exptime < 2 ^ 32" and u: "unread (rq_recv s) = touch_request key exptime @ rest"
    and room: "m_write_pos (rq_send s) + 16 \<le> m_max_size (rq_send s)"
  obtains s' where "handle_received_data_ascii env s = Some (SEND_REPLY_AND_READ, s')" and "bufs_ok s'" and "unread (rq_recv s') = rest"
    and "cache_ok P calc_hash {} (rq_cache s')"
    and "contents (rq_cache s') = (contents (rq_cache s))(key :=
        map_option (v_expiration_update (\<lambda>_. expiration_for (env_clk env 1) (of_nat exptime))) (live (env_clk env 0) (rq_cache s) key))"
    and "written (rq_send s') = written (rq_send s) @ AsciiResponse (if live (env_clk env 0) (rq_cache s) key = None then NOT_FOUND else TOUCHED) @ CRLF"
proof -
  have u': "unread (rq_recv s) = ascii ''touch'' @ SPACE # (key @ SPACE # decimal exptime) @ CRLF @ rest"
    using u by (simp add: touch_request_def) (simp add: ascii_def SPACE_def)
  have plain: "SPACE \<notin> set (ascii ''touch'')" "13 \<notin> set (ascii ''touch'' @ SPACE # (key @ SPACE # decimal exptime))"
    using key digits_plain by (auto simp: ascii_def SPACE_def sendable_key_def)
  obtain b where b: "try_command env s = dispatch env (parse_command_name (ascii ''touch'')) (key @ SPACE # decimal exptime) (s\<lparr>rq_recv := b\<rparr>)" "buffer_ok b" "unread b = rest"
    using header_command [OF s u' plain] by blast
  let ?s = "s\<lparr>rq_recv := b\<rparr>" and ?lv = "live (env_clk env 0) (rq_cache s) key"
  obtain c' where d: "do_touch (env_fresh env) (env_clk env) key (calc_hash key) (of_nat exptime) (rq_cache s) = Some (Inr (?lv \<noteq> None), c')"
      "cache_ok P calc_hash {} c'" "contents c' = (contents (rq_cache s))(key := map_option (v_expiration_update (\<lambda>_. expiration_for (env_clk env 1) (of_nat exptime))) ?lv)"
    using do_touch_ok [OF c rd, of "env_clk env" "of_nat exptime"] by blast
  have cmd: "parse_command_name (ascii ''touch'') = TOUCH" by code_simp
  let ?r = "if ?lv \<noteq> None then TOUCHED else NOT_FOUND" and ?s1 = "?s\<lparr>rq_cache := c'\<rparr>"
  have n': "exptime < 10 ^ 19" using n by simp
  have "try_command env s = handle_touch_command env (key @ SPACE # decimal exptime) ?s" using b(1) cmd by (simp add: dispatch_def)
  also have "\<dots> = and_then (call (do_touch (env_fresh env) (env_clk env) key (calc_hash key) (of_nat exptime))) (\<lambda>found. reply_with_response env (if found then TOUCHED else NOT_FOUND) False) ?s"
    using key n n' by (simp add: handle_touch_command_def parse_key_ok parse_number_ok sum_bind_def maybe_noreply_def and_then_def [of "from_sum _"] from_sum_def)
  also have "\<dots> = reply_with_response env ?r False ?s1"
    using found_replied [of "do_touch (env_fresh env) (env_clk env) key (calc_hash key) (of_nat exptime)" ?s "?lv \<noteq> None" c' env TOUCHED NOT_FOUND] d(1) by simp
  finally have t: "try_command env s = reply_with_response env ?r False ?s1" .
  have same: "rq_send ?s1 = rq_send s" and ok: "bufs_ok ?s1" using s b(2) by (simp_all add: bufs_ok_def)
  obtain x where x: "handle_received_data_ascii env s = Some (SEND_REPLY_AND_READ, ?s1\<lparr>rq_send := x\<rparr>)" "buffer_ok x"
      "written x = written (rq_send s) @ AsciiResponse ?r @ CRLF"
    by (rule response_replied [OF t same ok env room])
  show ?thesis by (rule that [OF x(1)]) (use x b d in \<open>simp_all add: bufs_ok_def\<close>)
qed

end
