(* ===== verification/C_Api.thy ===== *)
theory C_Api
  imports Cache_Update Errors
begin

text \<open>
  \<^verbatim>\<open>cachelot/c_api.cpp\<close>: the C functions on a cache. A pointer argument is an option, \<open>None\<close> for
  \<^verbatim>\<open>NULL\<close>; an out-parameter is passed and returned. Every function catches what the cache throws and
  writes it to the error structure, if there is one. What \<^verbatim>\<open>std::bad_alloc::what\<close> says is up to the
  C++ library: the parameter \<open>what_bad_alloc\<close>.
\<close>

section \<open>Errors\<close>

record CachelotError =
  err_code :: int
  err_category :: "string option"
  err_desription :: string

definition unknown_error_code :: int where
  "unknown_error_code = error_value unknown_error"

definition unknown_error_category :: string where
  "unknown_error_category = ''Unknown''"

definition none_error :: "CachelotError option \<Rightarrow> CachelotError option" where
  "none_error out_err = map_option (\<lambda>_. \<lparr>err_code = 0, err_category = None, err_desription = ''''\<rparr>) out_err"

text \<open>\<^verbatim>\<open>strncpy\<close> into the array of 255 characters.\<close>

definition describe :: "string \<Rightarrow> string" where
  "describe s = take 255 s"

definition system_error_to_err_struct :: "error_code \<Rightarrow> CachelotError option \<Rightarrow> CachelotError option" where
  "system_error_to_err_struct code out_err = map_option (\<lambda>_. \<lparr>err_code = ec_value code, err_category = Some (ec_category code),
     err_desription = describe (message (ec_value code))\<rparr>) out_err"

definition std_exception_to_err_struct :: "string \<Rightarrow> CachelotError option \<Rightarrow> CachelotError option" where
  "std_exception_to_err_struct what out_err = map_option (\<lambda>_. \<lparr>err_code = unknown_error_code,
     err_category = Some unknown_error_category, err_desription = describe what\<rparr>) out_err"

text \<open>What the last clause, \<^verbatim>\<open>catch (...)\<close>, does. Every exception of the library is a standard one, so it is not reached.\<close>

definition unknown_exception_to_err_struct :: "CachelotError option \<Rightarrow> CachelotError option" where
  "unknown_exception_to_err_struct out_err = map_option (\<lambda>_. \<lparr>err_code = unknown_error_code,
     err_category = Some unknown_error_category, err_desription = describe ''unknown''\<rparr>) out_err"

text \<open>The chain of \<^verbatim>\<open>catch\<close> clauses that every function ends with.\<close>

fun catch_error :: "string \<Rightarrow> exn \<Rightarrow> CachelotError option \<Rightarrow> CachelotError option" where
  "catch_error what_bad_alloc (System_error e) out_err = system_error_to_err_struct (make_error_code e) out_err"
| "catch_error what_bad_alloc Bad_alloc out_err = std_exception_to_err_struct what_bad_alloc out_err"
| "catch_error what_bad_alloc (Invalid_argument what) out_err = std_exception_to_err_struct what out_err"
| "catch_error what_bad_alloc (Length_error what) out_err = std_exception_to_err_struct what out_err"

text \<open>A call on the cache in a \<^verbatim>\<open>try\<close> block: \<open>ret\<close> is what the rest of the block returns and makes of
  the error structure, \<open>otherwise\<close> the value returned after the handlers.\<close>

definition api_try ::
  "string \<Rightarrow> ('a \<Rightarrow> CachelotError option \<Rightarrow> 'b \<times> CachelotError option) \<Rightarrow> 'b \<Rightarrow> CachelotError option
    \<Rightarrow> ('a, 'u) outcome \<Rightarrow> ('b \<times> CachelotError option \<times> 'u cache) option" where
  "api_try what_bad_alloc ret otherwise out_error call = map_option (\<lambda>(r, c).
     case r of
       Inr a \<Rightarrow> (case ret a out_error of (b, err) \<Rightarrow> (b, err, c))
     | Inl e \<Rightarrow> (otherwise, catch_error what_bad_alloc e out_error, c)) call"

section \<open>The functions\<close>

record CachelotItemKey =
  ck_key :: "u8 list"
  ck_hash :: u32

record CachelotOptions =
  opt_memory_limit :: u64
  opt_mem_page_size :: u64
  opt_initial_dict_size :: u64
  opt_enable_evictions :: bool

definition cachelot_init ::
  "string \<Rightarrow> nat option \<Rightarrow> headers \<Rightarrow> item_mem \<Rightarrow> (mem_stat \<Rightarrow> u64) \<Rightarrow> (cache_stat \<Rightarrow> u64) \<Rightarrow> nat fresh_arrays \<Rightarrow> 'u
    \<Rightarrow> CachelotOptions \<Rightarrow> CachelotError option \<Rightarrow> ('u cache option \<times> CachelotError option) option" where
  "cachelot_init what_bad_alloc arena h mem mst cst fresh user opts out_error =
     map_option (\<lambda>r. case r of
         Inr c \<Rightarrow> (Some c, out_error)
       | Inl e \<Rightarrow> (None, catch_error what_bad_alloc e out_error))
       (Cache_Create arena h mem mst cst fresh user (opt_memory_limit opts) (opt_mem_page_size opts)
          (opt_initial_dict_size opts) (opt_enable_evictions opts))"

definition cachelot_destroy :: "'u cache option \<Rightarrow> 'u cache option option" where
  "cachelot_destroy c = (case c of None \<Rightarrow> Some None | Some c \<Rightarrow> map_option Some (cache_destroy c))"

definition cachelot_create_item_raw ::
  "string \<Rightarrow> u32 \<Rightarrow> CachelotItemKey \<Rightarrow> u8 list \<Rightarrow> CachelotError option \<Rightarrow> 'u cache
    \<Rightarrow> (nat option \<times> CachelotError option \<times> 'u cache) option" where
  "cachelot_create_item_raw what_bad_alloc now k value out_error c =
     api_try what_bad_alloc (\<lambda>item err. (Some item, err)) None out_error
       (map_option (\<lambda>(r, c1). (r, case r of
           Inr new_item \<Rightarrow> c1\<lparr>c_mem := assign_value new_item value (c_mem c1)\<rparr>
         | Inl _ \<Rightarrow> c1))
         (create_item now (ck_key k) (ck_hash k) (length value) 0 infinite_TTL c))"

definition cachelot_destroy_item :: "nat option \<Rightarrow> 'u cache \<Rightarrow> 'u cache option" where
  "cachelot_destroy_item i c = (case i of None \<Rightarrow> Some c | Some item \<Rightarrow> destroy_item item c)"

definition cachelot_item_get_ttl_seconds :: "u32 \<Rightarrow> item_mem \<Rightarrow> nat \<Rightarrow> u32" where
  "cachelot_item_get_ttl_seconds now M i = item_ttl now M i"

definition cachelot_item_set_ttl_seconds :: "u32 \<Rightarrow> nat \<Rightarrow> u32 \<Rightarrow> 'u cache \<Rightarrow> 'u cache" where
  "cachelot_item_set_ttl_seconds now i keepalive_sec c = c\<lparr>c_mem := set_ttl now i keepalive_sec (c_mem c)\<rparr>"

definition cachelot_item_get_key :: "item_mem \<Rightarrow> nat \<Rightarrow> nat" where
  "cachelot_item_get_key M i = i + KeyOffset"

definition cachelot_item_get_keylen :: "item_mem \<Rightarrow> nat \<Rightarrow> nat" where
  "cachelot_item_get_keylen M i = length (item_key M i)"

definition cachelot_item_get_value :: "item_mem \<Rightarrow> nat \<Rightarrow> nat" where
  "cachelot_item_get_value M i = i + ValueOffset (items M i)"

definition cachelot_item_get_valuelen :: "item_mem \<Rightarrow> nat \<Rightarrow> nat" where
  "cachelot_item_get_valuelen M i = length (item_value M i)"

definition cachelot_set ::
  "string \<Rightarrow> nat fresh_arrays \<Rightarrow> (nat \<Rightarrow> u32) \<Rightarrow> nat \<Rightarrow> CachelotError option \<Rightarrow> 'u cache \<Rightarrow> (bool \<times> CachelotError option \<times> 'u cache) option" where
  "cachelot_set what_bad_alloc fresh clk i out_error c =
     api_try what_bad_alloc (\<lambda>_ err. (True, none_error err)) False out_error (do_set fresh clk i c)"

definition cachelot_get_unsafe ::
  "string \<Rightarrow> nat fresh_arrays \<Rightarrow> (nat \<Rightarrow> u32) \<Rightarrow> CachelotItemKey \<Rightarrow> CachelotError option \<Rightarrow> 'u cache
    \<Rightarrow> (nat option \<times> CachelotError option \<times> 'u cache) option" where
  "cachelot_get_unsafe what_bad_alloc fresh clk k out_error c =
     api_try what_bad_alloc (\<lambda>item err. (item, none_error err)) None out_error (do_get fresh clk (ck_key k) (ck_hash k) c)"

definition cachelot_add ::
  "string \<Rightarrow> nat fresh_arrays \<Rightarrow> (nat \<Rightarrow> u32) \<Rightarrow> nat \<Rightarrow> CachelotError option \<Rightarrow> 'u cache \<Rightarrow> (bool \<times> CachelotError option \<times> 'u cache) option" where
  "cachelot_add what_bad_alloc fresh clk i out_error c =
     api_try what_bad_alloc (\<lambda>ret err. (ret, none_error err)) False out_error (do_add fresh clk i c)"

definition cachelot_replace ::
  "string \<Rightarrow> nat fresh_arrays \<Rightarrow> (nat \<Rightarrow> u32) \<Rightarrow> nat \<Rightarrow> CachelotError option \<Rightarrow> 'u cache \<Rightarrow> (bool \<times> CachelotError option \<times> 'u cache) option" where
  "cachelot_replace what_bad_alloc fresh clk i out_error c =
     api_try what_bad_alloc (\<lambda>ret err. (ret, none_error err)) False out_error (do_replace fresh clk i c)"

definition cachelot_append ::
  "string \<Rightarrow> nat fresh_arrays \<Rightarrow> (nat \<Rightarrow> u32) \<Rightarrow> nat \<Rightarrow> CachelotError option \<Rightarrow> 'u cache \<Rightarrow> (bool \<times> CachelotError option \<times> 'u cache) option" where
  "cachelot_append what_bad_alloc fresh clk i out_error c =
     api_try what_bad_alloc (\<lambda>ret err. (ret, none_error err)) False out_error (do_append fresh clk i c)"

definition cachelot_prepend ::
  "string \<Rightarrow> nat fresh_arrays \<Rightarrow> (nat \<Rightarrow> u32) \<Rightarrow> nat \<Rightarrow> CachelotError option \<Rightarrow> 'u cache \<Rightarrow> (bool \<times> CachelotError option \<times> 'u cache) option" where
  "cachelot_prepend what_bad_alloc fresh clk i out_error c =
     api_try what_bad_alloc (\<lambda>ret err. (ret, none_error err)) False out_error (do_prepend fresh clk i c)"

definition cachelot_delete ::
  "string \<Rightarrow> nat fresh_arrays \<Rightarrow> (nat \<Rightarrow> u32) \<Rightarrow> CachelotItemKey \<Rightarrow> CachelotError option \<Rightarrow> 'u cache
    \<Rightarrow> (bool \<times> CachelotError option \<times> 'u cache) option" where
  "cachelot_delete what_bad_alloc fresh clk k out_error c =
     api_try what_bad_alloc (\<lambda>ret err. (ret, none_error err)) False out_error (do_delete fresh clk (ck_key k) (ck_hash k) c)"

definition cachelot_touch ::
  "string \<Rightarrow> nat fresh_arrays \<Rightarrow> (nat \<Rightarrow> u32) \<Rightarrow> CachelotItemKey \<Rightarrow> u32 \<Rightarrow> CachelotError option \<Rightarrow> 'u cache
    \<Rightarrow> (bool \<times> CachelotError option \<times> 'u cache) option" where
  "cachelot_touch what_bad_alloc fresh clk k keepalive_sec out_error c =
     api_try what_bad_alloc (\<lambda>ret err. (ret, none_error err)) False out_error (do_touch fresh clk (ck_key k) (ck_hash k) keepalive_sec c)"

text \<open>The out-parameter \<^verbatim>\<open>result\<close> is written when the call returns, also when the key is not found.\<close>

definition cachelot_incr ::
  "string \<Rightarrow> nat fresh_arrays \<Rightarrow> (nat \<Rightarrow> u32) \<Rightarrow> CachelotItemKey \<Rightarrow> u64 \<Rightarrow> u64 option \<Rightarrow> CachelotError option \<Rightarrow> 'u cache
    \<Rightarrow> ((bool \<times> u64 option) \<times> CachelotError option \<times> 'u cache) option" where
  "cachelot_incr what_bad_alloc fresh clk k delta result out_error c =
     api_try what_bad_alloc (\<lambda>(found, newval) err. ((found, map_option (\<lambda>_. newval) result), err)) (False, result) out_error
       (do_incr fresh clk (ck_key k) (ck_hash k) delta c)"

definition cachelot_decr ::
  "string \<Rightarrow> nat fresh_arrays \<Rightarrow> (nat \<Rightarrow> u32) \<Rightarrow> CachelotItemKey \<Rightarrow> u64 \<Rightarrow> u64 option \<Rightarrow> CachelotError option \<Rightarrow> 'u cache
    \<Rightarrow> ((bool \<times> u64 option) \<times> CachelotError option \<times> 'u cache) option" where
  "cachelot_decr what_bad_alloc fresh clk k delta result out_error c =
     api_try what_bad_alloc (\<lambda>(found, newval) err. ((found, map_option (\<lambda>_. newval) result), err)) (False, result) out_error
       (do_decr fresh clk (ck_key k) (ck_hash k) delta c)"

definition cachelot_flush_all ::
  "string \<Rightarrow> (nat \<Rightarrow> u32) \<Rightarrow> CachelotError option \<Rightarrow> 'u cache \<Rightarrow> (CachelotError option \<times> 'u cache) option" where
  "cachelot_flush_all what_bad_alloc clk out_error c =
     map_option snd (api_try what_bad_alloc (\<lambda>_ err. ((), err)) () out_error (do_flush_all clk c))"

definition cachelot_on_eviction_callback :: "(item_mem \<Rightarrow> nat \<Rightarrow> 'u \<Rightarrow> 'u) option \<Rightarrow> 'u cache \<Rightarrow> 'u cache" where
  "cachelot_on_eviction_callback cb c = c\<lparr>on_eviction := cb\<rparr>"

definition cachelot_hash :: "u8 list \<Rightarrow> u32" where
  "cachelot_hash key = fnv1a_32 key"

end
