(* ===== verification/Cache_Contract.thy ===== *)
theory Cache_Contract
  imports Main
begin

text \<open>
  The contract of a cache with its users, as the locale \<open>honest_cache\<close>: it may forget what it was given,
  by expiration, by eviction or by an error, but it never answers with anything else than what was last
  stored under the key. The users are sequences of commands; \<open>ready\<close> is what a command takes for
  granted of the state and of the environment, and a run ends at the first command that is not ready.
\<close>

datatype ('k, 'v) cache_op = Op_get 'k | Op_put 'k 'v | Op_del 'k

datatype 'v answer = Got "'v option" | Done bool

fun op_key :: "('k, 'v) cache_op \<Rightarrow> 'k" where
  "op_key (Op_get k) = k"
| "op_key (Op_put k v) = k"
| "op_key (Op_del k) = k"

fun op_accepted :: "('k \<Rightarrow> 'v \<Rightarrow> bool) \<Rightarrow> ('k, 'v) cache_op \<Rightarrow> bool" where
  "op_accepted accepted (Op_put k v) \<longleftrightarrow> accepted k v"
| "op_accepted accepted op \<longleftrightarrow> True"

fun cache_step ::
  "('e \<Rightarrow> 's \<Rightarrow> 'k \<Rightarrow> ('v option \<times> 's) option) \<Rightarrow> ('e \<Rightarrow> 's \<Rightarrow> 'k \<Rightarrow> 'v \<Rightarrow> (bool \<times> 's) option)
    \<Rightarrow> ('e \<Rightarrow> 's \<Rightarrow> 'k \<Rightarrow> (bool \<times> 's) option) \<Rightarrow> 'e \<Rightarrow> ('k, 'v) cache_op \<Rightarrow> 's \<Rightarrow> ('v answer \<times> 's) option" where
  "cache_step get put del e (Op_get k) s = map_option (\<lambda>(r, s'). (Got r, s')) (get e s k)"
| "cache_step get put del e (Op_put k v) s = map_option (\<lambda>(r, s'). (Done r, s')) (put e s k v)"
| "cache_step get put del e (Op_del k) s = map_option (\<lambda>(r, s'). (Done r, s')) (del e s k)"

fun cache_run ::
  "('e \<Rightarrow> 's \<Rightarrow> 'k \<Rightarrow> ('v option \<times> 's) option) \<Rightarrow> ('e \<Rightarrow> 's \<Rightarrow> 'k \<Rightarrow> 'v \<Rightarrow> (bool \<times> 's) option)
    \<Rightarrow> ('e \<Rightarrow> 's \<Rightarrow> 'k \<Rightarrow> (bool \<times> 's) option) \<Rightarrow> ('e \<Rightarrow> 's \<Rightarrow> 'k \<Rightarrow> bool) \<Rightarrow> ('e \<times> ('k, 'v) cache_op) list \<Rightarrow> 's
    \<Rightarrow> ((('k, 'v) cache_op \<times> 'v answer) list \<times> 's) option" where
  "cache_run get put del ready [] s = Some ([], s)"
| "cache_run get put del ready ((e, op) # ops) s =
     (if ready e s (op_key op)
      then Option.bind (cache_step get put del e op s) (\<lambda>(a, s1).
             map_option (\<lambda>(tr, s2). ((op, a) # tr, s2)) (cache_run get put del ready ops s1))
      else Some ([], s))"

text \<open>The answers of a run against a memory \<open>g\<close> of what was stored last: a value that is answered is the
  one stored last, a key that was not found stays absent until it is stored again, and only what was
  stored can be deleted.\<close>

fun truthful :: "('k \<Rightarrow> 'v option) \<Rightarrow> (('k, 'v) cache_op \<times> 'v answer) list \<Rightarrow> bool" where
  "truthful g [] \<longleftrightarrow> True"
| "truthful g ((Op_get k, Got r) # tr) \<longleftrightarrow> (r = None \<or> r = g k) \<and> truthful (if r = None then g(k := None) else g) tr"
| "truthful g ((Op_put k v, Done b) # tr) \<longleftrightarrow> truthful (if b then g(k \<mapsto> v) else g) tr"
| "truthful g ((Op_del k, Done b) # tr) \<longleftrightarrow> (b \<longrightarrow> g k \<noteq> None) \<and> truthful (g(k := None)) tr"
| "truthful g _ \<longleftrightarrow> False"

text \<open>What an answer may be when \<open>m\<close> is stored, and what is stored afterwards.\<close>

fun answer_law :: "('k \<Rightarrow> 'v option) \<Rightarrow> ('k, 'v) cache_op \<Rightarrow> 'v answer \<Rightarrow> ('k \<Rightarrow> 'v option) \<Rightarrow> bool" where
  "answer_law m (Op_get k) (Got r) m' \<longleftrightarrow> (r = None \<or> r = m k) \<and> m' \<subseteq>\<^sub>m (if r = None then m(k := None) else m)"
| "answer_law m (Op_put k v) (Done b) m' \<longleftrightarrow> m' \<subseteq>\<^sub>m (if b then m(k \<mapsto> v) else m)"
| "answer_law m (Op_del k) (Done b) m' \<longleftrightarrow> (b \<longrightarrow> m k \<noteq> None) \<and> m' \<subseteq>\<^sub>m m(k := None)"
| "answer_law m _ _ m' \<longleftrightarrow> False"

text \<open>A lawful answer can stand at the head of a truthful run, against any memory of at least what is stored.\<close>

lemma answer_law_truthful:
  assumes "answer_law m op a m'" and "m \<subseteq>\<^sub>m g"
  obtains g' where "m' \<subseteq>\<^sub>m g'" and "\<forall>tr. truthful g' tr \<longrightarrow> truthful g ((op, a) # tr)"
proof -
  have upd: "m(k := x) \<subseteq>\<^sub>m g(k := x)" for k x using assms(2) by (rule map_le_upd)
  have same: "m k = None \<or> m k = g k" for k using assms(2) by (cases "m k") (auto simp: map_le_def dom_def)
  consider (get) k r where "op = Op_get k" "a = Got r" "r = None \<or> r = m k" "m' \<subseteq>\<^sub>m (if r = None then m(k := None) else m)"
    | (put) k v b where "op = Op_put k v" "a = Done b" "m' \<subseteq>\<^sub>m (if b then m(k \<mapsto> v) else m)"
    | (del) k b where "op = Op_del k" "a = Done b" "b \<longrightarrow> m k \<noteq> None" "m' \<subseteq>\<^sub>m m(k := None)"
    using assms(1) by (cases op; cases a) simp_all
  then show ?thesis
  proof cases
    case get
    let ?g = "if r = None then g(k := None) else g"
    have "m' \<subseteq>\<^sub>m ?g" using map_le_trans [OF get(4), of ?g] upd assms(2) by simp
    moreover have "r = None \<or> r = g k" using get(3) same [of k] by auto
    ultimately show ?thesis using that [of ?g] get(1,2) by simp
  next
    case put
    let ?g = "if b then g(k \<mapsto> v) else g"
    have "m' \<subseteq>\<^sub>m ?g" using map_le_trans [OF put(3), of ?g] upd assms(2) by simp
    then show ?thesis using that [of ?g] put(1,2) by simp
  next
    case del
    have "m' \<subseteq>\<^sub>m g(k := None)" using map_le_trans [OF del(4) upd] .
    moreover have "b \<longrightarrow> g k \<noteq> None" using del(3) same [of k] by auto
    ultimately show ?thesis using that [of "g(k := None)"] del(1,2) by simp
  qed
qed

locale honest_cache =
  fixes ok :: "'s \<Rightarrow> bool" and stored :: "'s \<Rightarrow> 'k \<Rightarrow> 'v option" and ready :: "'e \<Rightarrow> 's \<Rightarrow> 'k \<Rightarrow> bool"
    and accepted :: "'k \<Rightarrow> 'v \<Rightarrow> bool"
    and get :: "'e \<Rightarrow> 's \<Rightarrow> 'k \<Rightarrow> ('v option \<times> 's) option" and put :: "'e \<Rightarrow> 's \<Rightarrow> 'k \<Rightarrow> 'v \<Rightarrow> (bool \<times> 's) option"
    and del :: "'e \<Rightarrow> 's \<Rightarrow> 'k \<Rightarrow> (bool \<times> 's) option"
  assumes get_law: "ok s \<Longrightarrow> ready e s k \<Longrightarrow> \<exists>r s'. get e s k = Some (r, s') \<and> ok s' \<and> (r = None \<or> r = stored s k)
      \<and> stored s' \<subseteq>\<^sub>m (if r = None then (stored s)(k := None) else stored s)"
    and put_law: "ok s \<Longrightarrow> ready e s k \<Longrightarrow> accepted k v \<Longrightarrow> \<exists>b s'. put e s k v = Some (b, s') \<and> ok s'
      \<and> stored s' \<subseteq>\<^sub>m (if b then (stored s)(k \<mapsto> v) else stored s)"
    and del_law: "ok s \<Longrightarrow> ready e s k \<Longrightarrow> \<exists>b s'. del e s k = Some (b, s') \<and> ok s' \<and> (b \<longrightarrow> stored s k \<noteq> None)
      \<and> stored s' \<subseteq>\<^sub>m (stored s)(k := None)"
begin

lemma step_lawful:
  assumes "ok s" and "ready e s (op_key op)" and "op_accepted accepted op"
  shows "\<exists>a s'. cache_step get put del e op s = Some (a, s') \<and> ok s' \<and> answer_law (stored s) op a (stored s')"
proof (cases op)
  case (Op_get k)
  then show ?thesis using get_law [OF assms(1), of e k] assms(2) by auto
next
  case (Op_put k v)
  then show ?thesis using put_law [OF assms(1), of e k v] assms(2,3) by auto
next
  case (Op_del k)
  then obtain b s' where "del e s k = Some (b, s')" "ok s'" "b \<longrightarrow> stored s k \<noteq> None" "stored s' \<subseteq>\<^sub>m (stored s)(k := None)"
    using del_law [OF assms(1), of e k] assms(2) by auto
  then show ?thesis using Op_del by (intro exI [of _ "Done b"] exI [of _ s']) simp
qed

lemma run_truthful:
  assumes "ok s" and "stored s \<subseteq>\<^sub>m g" and "\<forall>(e, op) \<in> set ops. op_accepted accepted op"
  shows "\<exists>tr s'. cache_run get put del ready ops s = Some (tr, s') \<and> ok s' \<and> truthful g tr"
  using assms
proof (induction ops arbitrary: s g)
  case (Cons x ops)
  obtain e op where x: "x = (e, op)" by (cases x)
  show ?case
  proof (cases "ready e s (op_key op)")
    case True
    obtain a s1 where st: "cache_step get put del e op s = Some (a, s1)" "ok s1" "answer_law (stored s) op a (stored s1)"
      using step_lawful [OF Cons.prems(1) True] Cons.prems(3) x by auto
    obtain g1 where g1: "stored s1 \<subseteq>\<^sub>m g1" "\<forall>tr. truthful g1 tr \<longrightarrow> truthful g ((op, a) # tr)"
      by (rule answer_law_truthful [OF st(3) Cons.prems(2)])
    obtain tr s' where "cache_run get put del ready ops s1 = Some (tr, s')" "ok s'" "truthful g1 tr"
      using Cons.IH [OF st(2) g1(1)] Cons.prems(3) by auto
    then show ?thesis using st(1) g1(2) True x by (intro exI [of _ "(op, a) # tr"] exI [of _ s']) simp
  next
    case False
    then show ?thesis using Cons.prems(1) x by simp
  qed
qed simp

end

end
