(* ===== verification/Cache_Api.thy ===== *)
theory Cache_Api
  imports C_Api Cache_Contract
begin

text \<open>
  The cache that the C functions offer: its creation, and the interpretation of the contract
  \<open>honest_cache\<close> on the functions of \<^verbatim>\<open>c_api.cpp\<close>.
\<close>

section \<open>A user of the C functions\<close>

text \<open>A system with memory for every table of less than \<open>2 ^ 31\<close> slots.\<close>

definition small_fresh :: "nat fresh_arrays" where
  "small_fresh n = (if unat n < 2 ^ 31 then zero_fresh n else None)"

text \<open>A user of the C functions who stores byte strings: the item is created and stored, read back by its
  bytes, deleted; \<open>fresh\<close> and \<open>clk\<close> are the environment of a command.\<close>

type_synonym api_env = "nat fresh_arrays \<times> (nat \<Rightarrow> u32)"

definition api_key :: "u8 list \<Rightarrow> CachelotItemKey" where
  "api_key k = \<lparr>ck_key = k, ck_hash = cachelot_hash k\<rparr>"

definition api_get :: "string \<Rightarrow> api_env \<Rightarrow> 'u cache \<Rightarrow> u8 list \<Rightarrow> (u8 list option \<times> 'u cache) option" where
  "api_get what = (\<lambda>(fresh, clk) c k. map_option (\<lambda>(item, _, c'). (map_option (\<lambda>i. byte_range (c_mem c')
      (cachelot_item_get_value (c_mem c') i) (cachelot_item_get_valuelen (c_mem c') i)) item, c'))
    (cachelot_get_unsafe what fresh clk (api_key k) None c))"

definition api_put :: "string \<Rightarrow> api_env \<Rightarrow> 'u cache \<Rightarrow> u8 list \<Rightarrow> u8 list \<Rightarrow> (bool \<times> 'u cache) option" where
  "api_put what = (\<lambda>(fresh, clk) c k v. Option.bind (cachelot_create_item_raw what (clk 0) (api_key k) v None c) (\<lambda>(item, _, c1).
     case item of None \<Rightarrow> Some (False, c1)
     | Some i \<Rightarrow> map_option (\<lambda>(b, _, c2). (b, c2)) (cachelot_set what fresh (\<lambda>n. clk (n + 1)) i None c1)))"

definition api_del :: "string \<Rightarrow> api_env \<Rightarrow> 'u cache \<Rightarrow> u8 list \<Rightarrow> (bool \<times> 'u cache) option" where
  "api_del what = (\<lambda>(fresh, clk) c k. map_option (\<lambda>(b, _, c'). (b, c')) (cachelot_delete what fresh clk (api_key k) None c))"

definition api_ready :: "api_env \<Rightarrow> 'u cache \<Rightarrow> u8 list \<Rightarrow> bool" where
  "api_ready = (\<lambda>(fresh, clk) c k. ready fresh c k)"

text \<open>A key whose hash is not the mark of a free slot, and a size that is refused or fits a page with its header.\<close>

definition api_accepted :: "nat \<Rightarrow> u8 list \<Rightarrow> u8 list \<Rightarrow> bool" where
  "api_accepted P k v \<longleftrightarrow> cachelot_hash k \<noteq> 0 \<and> (CalcSizeRequired k (length v) + 8 \<le> P \<or> P < CalcSizeRequired k (length v))"

definition api_stored :: "'u cache \<Rightarrow> u8 list \<Rightarrow> u8 list option" where
  "api_stored c k = map_option v_value (contents c k)"

section \<open>Creation\<close>

lemma pow2_of_unat: "unat (w :: 'a::len word) = 2 ^ k \<Longrightarrow> k < LENGTH('a) \<Longrightarrow> w = pow2 k"
  by (rule unat_eqI) (simp add: unat_pow2)

text \<open>The checks of \<^verbatim>\<open>Create\<close> that a good choice of arguments passes.\<close>

lemma create_checks:
  fixes page limit dsz :: u64
  assumes "unat page = 2 ^ k" and "8 \<le> k" and "k \<le> 31" and "unat limit = 2 ^ j" and "k + 2 \<le> j" and "j \<le> 32"
    and "unat dsz = 2 ^ i" and "i \<le> 30"
  shows "ispow2 limit" and "\<not> limit < page * 4" and "ispow2 page" and "page \<noteq> 0" and "\<not> 0xffffffff < page"
    and "\<not> page < 256" and "limit mod page = 0" and "ispow2 dsz" and "\<not> 0xffffffff < dsz"
    and "unat (ucast page :: u32) = 2 ^ k" and "unat (ucast dsz :: u32) = 2 ^ i" and "dsz \<noteq> 0"
proof -
  have lt: "(2 :: nat) ^ k \<le> 2 ^ 31" "(2 :: nat) ^ i \<le> 2 ^ 30" "(2 :: nat) ^ 8 \<le> 2 ^ k" "(2 :: nat) ^ (k + 2) \<le> 2 ^ j"
    using assms(2,3,5,8) by (intro power_increasing; simp)+
  have pow: "unat (w :: u64) = 2 ^ n \<Longrightarrow> n \<le> 32 \<Longrightarrow> ispow2 w" for w n
    unfolding ispow2_iff using pow2_of_unat [of w n] by (intro disjI2 exI [of _ n]) simp
  show "ispow2 limit" using pow [OF assms(4,6)] .
  show "ispow2 page" "ispow2 dsz" using pow [OF assms(1)] pow [OF assms(7)] assms(3,8) by simp_all
  have p4: "unat (page * 4) = 2 ^ (k + 2)"
    using lt(1) assms(1) by (simp add: unat_word_ariths)
  show "\<not> limit < page * 4" using p4 assms(4) lt(4) by (simp add: word_less_nat_alt)
  show "page \<noteq> 0" "dsz \<noteq> 0" using assms(1,7) by auto
  show "\<not> 0xffffffff < page" "\<not> page < 256" "\<not> 0xffffffff < dsz" using lt assms(1,7) by (simp_all add: word_less_nat_alt)
  have "(2 :: nat) ^ j mod 2 ^ k = 0" using assms(5) by (simp add: le_imp_power_dvd)
  then show "limit mod page = 0" using assms(1,4) by (simp add: word_unat_eq_iff unat_mod_distrib)
  show "unat (ucast page :: u32) = 2 ^ k" "unat (ucast dsz :: u32) = 2 ^ i"
    using lt(1,2) assms(1,7) by (simp_all add: unsigned_ucast_eq take_bit_eq_mod)
qed

lemma fresh_dict:
  assumes "fresh_limited fresh" and "unat (n :: u32) = 2 ^ i" and "i \<le> 30" and "fresh n \<noteq> None"
  obtains d where "dict_new fresh n = Inr d" and "dict_inv key_of hf d" and "dict_map key_of d = Map.empty"
    and "unat (m_hashpower d) = i" and "m_secondary_tbl d = None" and "dict_capacity d = n"
proof -
  have n: "n = pow2 i" "n \<noteq> 0" "unat n \<le> 2 ^ 31"
  proof -
    show "n = pow2 i" using assms(2,3) by (intro pow2_of_unat) simp_all
    show "n \<noteq> 0" using assms(2) by auto
    have "(2 :: nat) ^ i \<le> 2 ^ 31" using assms(3) by (intro power_increasing) simp_all
    then show "unat n \<le> 2 ^ 31" using assms(2) by simp
  qed
  have "i < LENGTH(32)" using assms(3) by simp
  then have r: "roundup_pow2 n = n" using n(1) unfolding roundup_pow2_def ispow2_iff by metis
  obtain hs es where a: "fresh n = Some (hs, es)" using assms(4) by auto
  then obtain d where d: "dict_new fresh n = Inr d" "m_secondary_tbl d = None" "m_hashpower d = of_nat (log2u n)"
    by (simp add: dict_new_def r)
  have fo: "fresh_ok fresh" using assms(1) by (simp add: fresh_limited_def)
  have hp: "unat (m_hashpower d) = i"
    using d(3) log2u_pow2 [of i, where 'a = 32] assms(3) by (simp add: n(1) unat_of_nat)
  have "dict_inv key_of hf d \<and> dict_map key_of d = Map.empty \<and> dict_mset d = {#} \<and> unat n \<le> unat (dict_capacity d)
      \<and> \<not> is_expanding d \<and> dict_capacity d = roundup_pow2 n"
    using n(2,3) fo d(1) by (rule dict_new_correct(2))
  then show ?thesis using that d hp r by simp
qed

lemma cache_created:
  fixes page limit dsz :: u64
  assumes k: "unat page = 2 ^ k" "8 \<le> k" "k \<le> 31" and j: "unat limit = 2 ^ j" "k + 2 \<le> j" "j \<le> 32"
    and i: "unat dsz = 2 ^ i" "i \<le> 30" and a: "2 ^ k dvd a" "a + 2 ^ j \<le> 2 ^ 62" and st: "mst mem_used_memory = 0"
    and fresh: "fresh_limited fresh" "fresh (pow2 i) \<noteq> None"
  obtains c where "Cache_Create (Some a) h mem mst cst fresh user limit page dsz ev = Some (Inr c)"
    and "cache_ok (2 ^ k) hf {} c" and "cached c = Map.empty" and "m_secondary_tbl (m_dict c) = None"
    and "m_evictions_enabled c = ev" and "m_newest_timestamp c = 0" and "c_stats c = cst" and "c_mem c = mem"
    and "unat (m_hashpower (m_dict c)) = i"
proof -
  note chk = create_checks [OF k j i]
  have lim: "(2 :: nat) ^ j = 2 ^ (j - k) * 2 ^ k" "0 < (2 :: nat) ^ (j - k)" "(2 :: nat) ^ j \<le> 2 ^ 32"
    using j(2) power_increasing [OF j(3), of "2 :: nat"] by (simp_all flip: power_add)
  obtain m where m: "memalloc_new (Some a) h mst (unat limit) (2 ^ k) = Some (Inr m)" "mem_held a (unat limit) m {}" "page_size m = 2 ^ k"
    using memalloc_new_inv [where st = mst, OF refl k(2,3) a(1) lim a(2) st] j(1) by auto
  have di: "unat (ucast dsz :: u32) = 2 ^ i" by (rule chk)
  then have "ucast dsz = (pow2 i :: u32)" using i(2) by (intro pow2_of_unat) simp_all
  then have fr: "fresh (ucast dsz) \<noteq> None" using fresh(2) by simp
  obtain d where d: "dict_new fresh (ucast dsz) = Inr d" "dict_inv (item_key mem) hf d" "dict_map (item_key mem) d = Map.empty"
      "unat (m_hashpower d) = i" "m_secondary_tbl d = None"
    by (rule fresh_dict [OF fresh(1) di i(2) fr])
  let ?c = "\<lparr>m_allocator = m, m_dict = d, m_evictions_enabled = ev, m_oldest_timestamp = - 1, m_newest_timestamp = 0,
    on_eviction = None, c_mem = mem, c_stats = cst, c_hash_is_expanding = False, c_user = user\<rparr>"
  have "Cache_Create (Some a) h mem mst cst fresh user limit page dsz ev = Some (Inr ?c)"
    using chk m(1) d(1) by (simp add: Cache_Create_def Cache_new_def)
  moreover have ca: "cached ?c = Map.empty" using d(3) by (simp add: cached_def entry_key_eq)
  moreover have "cache_rep (2 ^ k) hf {} ?c {}"
    using m(2,3) d(2,4) i(2) ca by (simp add: cache_rep_def mem_held_def entry_key_eq items_ok_def)
  ultimately show ?thesis using that [of ?c] cache_okI d(4,5) by fastforce
qed

section \<open>The C functions keep the contract\<close>

lemma item_value_bytes:
  "byte_range M (cachelot_item_get_value M i) (cachelot_item_get_valuelen M i) = item_value M i"
  by (simp add: cachelot_item_get_value_def cachelot_item_get_valuelen_def item_value_def)

lemma live_stored: "live now c k = Some v \<Longrightarrow> contents c k = Some v"
  by (auto simp: live_def split: option.splits if_splits)

lemma api_stored_upd:
  "contents c' = contents c \<Longrightarrow> api_stored c' = api_stored c"
  "contents c' = (contents c)(k := None) \<Longrightarrow> api_stored c' = (api_stored c)(k := None)"
  "contents c' = (contents c)(k \<mapsto> v) \<Longrightarrow> api_stored c' = (api_stored c)(k \<mapsto> v_value v)"
  by (auto simp: api_stored_def fun_eq_iff)

lemma api_get_ok:
  assumes "cache_ok P cachelot_hash {} c" and "ready fresh c k"
  shows "\<exists>r c'. api_get what (fresh, clk) c k = Some (r, c') \<and> cache_ok P cachelot_hash {} c'
    \<and> r = map_option v_value (live (clk 0) c k)
    \<and> api_stored c' = (if r = None then (api_stored c)(k := None) else api_stored c)"
proof -
  obtain r c' where g: "do_get fresh clk k (cachelot_hash k) c = Some (Inr r, c')" "cache_ok P cachelot_hash {} c'" "c_mem c' = c_mem c"
      "map_option (item_view (c_mem c)) r = live (clk 0) c k"
      "contents c' = (if live (clk 0) c k = None then (contents c)(k := None) else contents c)"
    using do_get_ok [OF assms, of clk] by blast
  have "map_option (item_value (c_mem c)) r = map_option v_value (live (clk 0) c k)"
    unfolding g(4) [symmetric] by (simp add: option.map_comp comp_def item_view_def)
  then show ?thesis
    using g api_stored_upd(1,2) [of c' c]
    by (auto simp: api_get_def cachelot_get_unsafe_def api_try_def api_key_def item_value_bytes)
qed

lemma create_item_raw_ok:
  assumes ok: "cache_ok P cachelot_hash {} c" and acc: "api_accepted P k v"
  obtains (refused) c' where "cachelot_create_item_raw what now (api_key k) v None c = Some (None, None, c')"
      and "cache_ok P cachelot_hash {} c'" and "contents c' = contents c"
  | (made) p c' where "cachelot_create_item_raw what now (api_key k) v None c = Some (Some p, None, c')"
      and "cache_ok P cachelot_hash {p} c'" and "contents c' \<subseteq>\<^sub>m contents c" and "item_key (c_mem c') p = k"
      and "item_hash (c_mem c') p = cachelot_hash k" and "item_value (c_mem c') p = v"
      and "expiration_time (c_mem c') p = - 1"
      and "\<forall>k. settled (entry_key c) (m_dict c) k \<longrightarrow> settled (entry_key c') (m_dict c') k"
proof -
  obtain A where rep: "cache_rep P cachelot_hash {} c A" using ok by (auto simp: cache_ok_def)
  show ?thesis
  proof (cases "length k \<le> max_key_length \<and> CalcSizeRequired k (length v) + 8 \<le> P")
    case False
    then have "length k > max_key_length \<or> CalcSizeRequired k (length v) > page_size (m_allocator c)"
      using acc cache_repD(7) [OF rep] by (auto simp: api_accepted_def)
    then have "create_item now k (cachelot_hash k) (length v) 0 infinite_TTL c
        = Some (Inl (System_error (if length k > max_key_length then key_too_long else item_too_big)), c)"
      by (auto simp: create_item_def Let_def)
    then show ?thesis using refused [of c] ok
      by (simp add: cachelot_create_item_raw_def api_key_def api_try_def system_error_to_err_struct_def)
  next
    case True
    then have key: "length k \<le> max_key_length" and size: "CalcSizeRequired k (length v) + 8 \<le> P" by simp_all
    have "{} = {} \<or> \<not> m_evictions_enabled c" by simp
    from rep key size this show ?thesis
    proof (cases rule: create_filled [where now = now and flags = 0 and ttl = infinite_TTL])
      case (full m)
      have "contents (c\<lparr>m_allocator := m\<rparr>) = contents c" by (simp add: contents_def fun_eq_iff)
      then show ?thesis using refused [of "c\<lparr>m_allocator := m\<rparr>"] full(1) cache_okI [OF full(3)]
        by (simp add: cachelot_create_item_raw_def api_key_def api_try_def system_error_to_err_struct_def)
    next
      case (made p c1 c' V A')
      have "item_value (c_mem c') p = v" "expiration_time (c_mem c') p = - 1"
        using made(11) by (simp_all add: item_view_def expiration_for_def)
      moreover have "cachelot_create_item_raw what now (api_key k) v None c = Some (Some p, None, c')"
        using made(1,2) by (simp add: cachelot_create_item_raw_def api_key_def api_try_def)
      moreover have "contents c' \<subseteq>\<^sub>m contents c" unfolding made(6) by (simp add: map_le_def)
      ultimately show ?thesis using that(2) [of p c'] cache_okI [OF made(3)] made(9,10,12) by simp
    qed
  qed
qed

lemma api_put_ok:
  assumes ok: "cache_ok P cachelot_hash {} c" and rd: "ready fresh c k" and acc: "api_accepted P k v"
  shows "\<exists>b c'. api_put what (fresh, clk) c k v = Some (b, c') \<and> cache_ok P cachelot_hash {} c'
    \<and> api_stored c' \<subseteq>\<^sub>m (if b then (api_stored c)(k \<mapsto> v) else api_stored c)
    \<and> (b \<longrightarrow> settled (entry_key c') (m_dict c') k \<and> (\<exists>e. contents c' k = Some e \<and> v_value e = v \<and> v_expiration e = - 1))"
  using ok acc
proof (cases rule: create_item_raw_ok [where what = what and now = "clk 0"])
  case (refused c')
  then show ?thesis using api_stored_upd(1) [of c' c] by (auto simp: api_put_def)
next
  case (made p c1)
  have le: "api_stored c1 \<subseteq>\<^sub>m api_stored c" using made(3) by (auto simp: map_le_def api_stored_def dom_def)
  have rd1: "ready fresh c1 k" using rd made(8) by (simp add: ready_def)
  have hash: "cachelot_hash k \<noteq> 0" using acc by (simp add: api_accepted_def)
  let ?clk = "\<lambda>n. clk (n + 1)"
  consider (bad) c' where "do_set fresh ?clk p c1 = Some (Inl Bad_alloc, c')" "cache_ok P cachelot_hash ({p} - {p}) c'" "contents c' = contents c1"
    | (good) c' where "do_set fresh ?clk p c1 = Some (Inr (), c')" "cache_ok P cachelot_hash ({p} - {p}) c'"
        "contents c' = (contents c1)(k \<mapsto> item_view (c_mem c1) p)" "settled (entry_key c') (m_dict c') k"
    using do_set_ok [OF made(2) rd1 singletonI made(4,5) hash, of ?clk] by blast
  then show ?thesis
  proof cases
    case bad
    then have "api_put what (fresh, clk) c k v = Some (False, c')"
      using made(1) by (simp add: api_put_def cachelot_set_def api_try_def)
    then show ?thesis using bad(2) le api_stored_upd(1) [OF bad(3)] by auto
  next
    case good
    have vw: "v_value (item_view (c_mem c1) p) = v" "v_expiration (item_view (c_mem c1) p) = - 1"
      using made(6,7) by (simp_all add: item_view_def)
    have "api_put what (fresh, clk) c k v = Some (True, c')"
      using made(1) good(1) by (simp add: api_put_def cachelot_set_def api_try_def)
    moreover have "api_stored c' \<subseteq>\<^sub>m (api_stored c)(k \<mapsto> v)"
      unfolding api_stored_upd(3) [OF good(3)] vw using le by (rule map_le_upd)
    ultimately show ?thesis using good(2-4) vw by auto
  qed
qed

lemma api_del_ok:
  assumes "cache_ok P cachelot_hash {} c" and "ready fresh c k"
  shows "\<exists>b c'. api_del what (fresh, clk) c k = Some (b, c') \<and> cache_ok P cachelot_hash {} c' \<and> (b \<longrightarrow> api_stored c k \<noteq> None)
    \<and> api_stored c' = (api_stored c)(k := None)"
proof -
  obtain c' where d: "do_delete fresh clk k (cachelot_hash k) c = Some (Inr (live (clk 0) c k \<noteq> None), c')" "cache_ok P cachelot_hash {} c'"
      "contents c' = (contents c)(k := None)"
    using do_delete_ok [OF assms, of clk] by blast
  have "live (clk 0) c k \<noteq> None \<longrightarrow> api_stored c k \<noteq> None" using live_stored [of "clk 0" c k] by (auto simp: api_stored_def)
  then show ?thesis using d api_stored_upd(2) [OF d(3)] by (auto simp: api_del_def cachelot_delete_def api_try_def api_key_def)
qed

interpretation api: honest_cache "cache_ok P cachelot_hash {}" api_stored api_ready "api_accepted P"
    "api_get what" "api_put what" "api_del what"
  for P what
proof unfold_locales
  fix c :: "'b cache" and e :: api_env and k v
  obtain fresh clk where e: "e = (fresh, clk)" by (cases e)
  assume ok: "cache_ok P cachelot_hash {} c" and rd: "api_ready e c k"
  then have rd': "ready fresh c k" by (simp add: api_ready_def e)
  obtain r c' where g: "api_get what (fresh, clk) c k = Some (r, c')" "cache_ok P cachelot_hash {} c'" "r = map_option v_value (live (clk 0) c k)"
      "api_stored c' = (if r = None then (api_stored c)(k := None) else api_stored c)"
    using api_get_ok [OF ok rd', of what clk] by blast
  have "r = None \<or> r = api_stored c k" using g(3) live_stored [of "clk 0" c k] by (cases "live (clk 0) c k") (auto simp: api_stored_def)
  then show "\<exists>r s'. api_get what e c k = Some (r, s') \<and> cache_ok P cachelot_hash {} s' \<and> (r = None \<or> r = api_stored c k)
      \<and> api_stored s' \<subseteq>\<^sub>m (if r = None then (api_stored c)(k := None) else api_stored c)"
    using g(1,2,4) by (simp add: e)
  show "\<exists>b s'. api_del what e c k = Some (b, s') \<and> cache_ok P cachelot_hash {} s' \<and> (b \<longrightarrow> api_stored c k \<noteq> None)
      \<and> api_stored s' \<subseteq>\<^sub>m (api_stored c)(k := None)"
    unfolding e using api_del_ok [OF ok rd', of what clk] by auto
  assume "api_accepted P k v"
  then show "\<exists>b s'. api_put what e c k v = Some (b, s') \<and> cache_ok P cachelot_hash {} s'
      \<and> api_stored s' \<subseteq>\<^sub>m (if b then (api_stored c)(k \<mapsto> v) else api_stored c)"
    unfolding e using api_put_ok [OF ok rd', of v what clk] by blast
qed

end
