(* ===== verification/Cache_Props.thy ===== *)
theory Cache_Props
  imports Cache_Api
begin

text \<open>
  The properties of the cache and of its C functions, each with a small cache on which it is applied: four
  pages of 256 bytes, a table of four slots, and an item with the key 1 and the value \<^verbatim>\<open>12\<close>.
\<close>

definition blank :: item_mem where
  "blank = \<lparr>items = (\<lambda>_.
       \<lparr>m_timestamp = 0, m_hash = 0, m_value_length = 0, m_expiration_time = 0, m_opaque_flags = 0, m_key_length = 0\<rparr>),
     bytes = (\<lambda>_. 0)\<rparr>"

definition small_options :: "bool \<Rightarrow> CachelotOptions" where
  "small_options ev = \<lparr>opt_memory_limit = 1024, opt_mem_page_size = 256, opt_initial_dict_size = 4, opt_enable_evictions = ev\<rparr>"

section \<open>A small cache\<close>

lemma small_fresh_ok: "fresh_limited small_fresh" "small_fresh (pow2 2) \<noteq> None"
proof -
  show "fresh_limited small_fresh" by (auto simp: fresh_limited_def fresh_ok_def small_fresh_def zero_fresh_def split: if_splits)
  show "small_fresh (pow2 2) \<noteq> None" using unat_pow2 [of 2, where 'a = 32] by (simp add: small_fresh_def zero_fresh_def)
qed

lemma room_left:
  assumes "unat (m_hashpower (m_dict c)) = 2"
  shows "\<not> no_room small_fresh c"
  using unat_pow2 [of 3, where 'a = 32] assms by (simp add: no_room_def small_fresh_def zero_fresh_def)

lemma small_cache:
  obtains c where "Cache_Create (Some 4096) (\<lambda>_. block_new 0 0) blank (\<lambda>_. 0) (\<lambda>_. 0) small_fresh () 1024 256 4 ev = Some (Inr c)"
    and "cache_ok 256 hf {} c" and "contents c = Map.empty" and "cached c = Map.empty" and "m_evictions_enabled c = ev"
    and "\<And>k. ready small_fresh c k" and "unat (m_hashpower (m_dict c)) = 2"
proof -
  obtain c where c: "Cache_Create (Some 4096) (\<lambda>_. block_new 0 0) blank (\<lambda>_. 0) (\<lambda>_. 0) small_fresh () 1024 256 4 ev = Some (Inr c)"
      "cache_ok (2 ^ 8) hf {} c" "cached c = Map.empty" "m_secondary_tbl (m_dict c) = None" "m_evictions_enabled c = ev"
      "unat (m_hashpower (m_dict c)) = 2"
    by (rule cache_created [of 256 8 1024 10 4 2 4096 "\<lambda>_. 0" small_fresh]) (use small_fresh_ok in simp_all)
  show ?thesis by (rule that [OF c(1)]) (use c small_fresh_ok in \<open>simp_all add: contents_def fun_eq_iff ready_def settled_def\<close>)
qed

lemma small_item:
  obtains c c0 c1 :: "unit cache" and p where "cache_ok 256 cachelot_hash {p} c" and "contents c = Map.empty" and "item_key (c_mem c) p = [1]"
    and "item_hash (c_mem c) p = cachelot_hash [1]" and "item_value (c_mem c) p = [49, 50]" and "\<forall>k. ready small_fresh c k"
    and "\<not> no_room small_fresh c"
    and "cache_ok 256 cachelot_hash {} c0" and "\<forall>k. ready small_fresh c0 k" and "create_item 0 [1] (cachelot_hash [1]) 2 0 infinite_TTL c0 = Some (Inr p, c1)"
    and "c = c1\<lparr>c_mem := assign_value p [49, 50] (c_mem c1)\<rparr>"
proof -
  obtain c0 :: "unit cache" where c0: "cache_ok 256 cachelot_hash {} c0" "contents c0 = Map.empty" "cached c0 = Map.empty"
      "m_evictions_enabled c0" "\<And>k. ready small_fresh c0 k" "unat (m_hashpower (m_dict c0)) = 2"
    using small_cache [of True cachelot_hash] by blast
  obtain A where rep: "cache_rep 256 cachelot_hash {} c0 A" using c0(1) by (auto simp: cache_ok_def)
  have A: "A = {}" using cache_repD(4) [OF rep] c0(3) by simp
  have "length [1 :: u8] \<le> max_key_length" "CalcSizeRequired [1] (length [49 :: u8, 50]) + 8 \<le> 256" "{} = {} \<or> \<not> m_evictions_enabled c0"
    by (simp_all add: max_key_length_def CalcSizeRequired_def sizeof_Item_def)
  from rep this show ?thesis
  proof (cases rule: create_filled [where now = 0 and flags = 0 and ttl = infinite_TTL])
    case (full m)
    then show ?thesis using c0(4) by simp
  next
    case (made p c1 c' V A')
    have "V = {}" using made(7) A by (auto simp: lru_page_mem_def)
    then have "\<not> no_room small_fresh c'" using made(8) c0(6) by (intro room_left) simp
    moreover have "contents c' = Map.empty" using made(6) c0(2) by (simp add: restrict_map_def)
    moreover have "ready small_fresh c' k" for k using made(12) c0(5) by (simp add: ready_def)
    moreover have "item_value (c_mem c') p = [49, 50]" using made(11) by (simp add: item_view_def)
    moreover have "create_item 0 [1] (cachelot_hash [1]) 2 0 infinite_TTL c0 = Some (Inr p, c1)"
      using made(1) by (simp add: numeral_2_eq_2)
    ultimately show ?thesis using that [of p c' c0 c1] cache_okI [OF made(3)] made(2,9,10) c0(1,5) by simp
  qed
qed

lemma key_hash: "cachelot_hash [1] \<noteq> 0"
  by code_simp

lemma set_stores:
  assumes "cache_ok P hf L c" and "ready fresh c key" and "p \<in> L" "item_key (c_mem c) p = key"
    and "item_hash (c_mem c) p = hf key" "hf key \<noteq> 0" and "\<not> no_room fresh c"
  obtains c' where "do_set fresh clk p c = Some (Inr (), c')" and "cache_ok P hf (L - {p}) c'"
    and "contents c' = (contents c)(key \<mapsto> item_view (c_mem c) p)"
  using do_set_ok [OF assms(1-6), of clk] assms(7) that by blast

lemma small_put:
  obtains c c' :: "unit cache" where "cache_ok 256 cachelot_hash {} c" and "ready small_fresh c [1]"
    and "api_put what (small_fresh, \<lambda>_. 0) c [1] [49, 50] = Some (True, c')"
proof (rule small_item)
  fix c c0 c1 :: "unit cache" and p
  assume c: "cache_ok 256 cachelot_hash {p} c" "\<forall>k. ready small_fresh c k" "item_key (c_mem c) p = [1]" "item_hash (c_mem c) p = cachelot_hash [1]"
      "\<not> no_room small_fresh c" and c0: "cache_ok 256 cachelot_hash {} c0" "\<forall>k. ready small_fresh c0 k"
      "create_item 0 [1] (cachelot_hash [1]) 2 0 infinite_TTL c0 = Some (Inr p, c1)" "c = c1\<lparr>c_mem := assign_value p [49, 50] (c_mem c1)\<rparr>"
  obtain c' where "do_set small_fresh (\<lambda>_. 0) p c = Some (Inr (), c')"
    by (rule set_stores [OF c(1) spec [OF c(2)] singletonI c(3,4) key_hash c(5)])
  then have "api_put what (small_fresh, \<lambda>_. 0) c0 [1] [49, 50] = Some (True, c')"
    using c0(3,4) unfolding numeral_2_eq_2 by (simp add: api_put_def cachelot_create_item_raw_def api_key_def api_try_def cachelot_set_def)
  then show thesis using that c0(1,2) by blast
qed

section \<open>Properties\<close>



text \<open>C9: What was set is got: after a set through the C functions that reported success, a get of the key
  returns the value, whatever else was evicted for it, at any time but the last value of the clock.\<close>

theorem set_then_get:
  assumes "cache_ok P cachelot_hash {} c" and "ready fresh c k" and "api_accepted P k v"
    and "api_put what (fresh, clk) c k v = Some (True, c1)" and "fresh_limited fresh'" and "clk' 0 \<noteq> - 1"
  shows "\<exists>c2. api_get what (fresh', clk') c1 k = Some (Some v, c2) \<and> cache_ok P cachelot_hash {} c2"
proof -
  obtain e where e: "cache_ok P cachelot_hash {} c1" "settled (entry_key c1) (m_dict c1) k" "contents c1 k = Some e" "v_value e = v" "v_expiration e = - 1"
    using api_put_ok [OF assms(1-3), of what clk] assms(4) by auto
  have "\<not> (- 1 :: u32) \<le> clk' 0" using assms(6) word_order.extremum_unique [of "clk' 0"] by auto
  then have "live (clk' 0) c1 k = Some e" using e(3,5) by (simp add: live_def)
  then show ?thesis using api_get_ok [OF e(1), of fresh' k what clk'] assms(5) e(2,4) by (auto simp: ready_def)
qed

theorem set_then_get_witness:
  "\<exists>(c :: unit cache) c1 c2. api_put ''bad_alloc'' (small_fresh, \<lambda>_. 0) c [1] [49, 50] = Some (True, c1)
    \<and> api_get ''bad_alloc'' (small_fresh, \<lambda>_. 7) c1 [1] = Some (Some [49, 50], c2) \<and> cache_ok 256 cachelot_hash {} c2"
proof -
  obtain c c1 :: "unit cache" where c: "cache_ok 256 cachelot_hash {} c" "ready small_fresh c [1]"
      "api_put ''bad_alloc'' (small_fresh, \<lambda>_. 0) c [1] [49, 50] = Some (True, c1)"
    by (rule small_put)
  have "api_accepted 256 [1] [49, 50]" using key_hash by (simp add: api_accepted_def CalcSizeRequired_def sizeof_Item_def)
  then show ?thesis using set_then_get [OF c(1,2) _ c(3) small_fresh_ok(1), of "\<lambda>_. 7"] c(3) by auto
qed

text \<open>C10: An item is created either in free memory or, with evictions, in the place of all the items of the least
  recently used page: these and no others leave the cache, and the user's callback is told each of them
  once; without evictions and without memory the error is \<^verbatim>\<open>out_of_memory\<close> and the contents stay. The new item
  is loose: not yet in the contents.\<close>

theorem create_item_evicts_page:
  assumes "cache_rep P hf {} c A" and "length key \<le> max_key_length" and "CalcSizeRequired key n + 8 \<le> P"
  shows "\<not> m_evictions_enabled c \<and> (\<exists>c'. create_item now key (hf key) n flags ttl c = Some (Inl (System_error out_of_memory), c')
      \<and> cache_ok P hf {} c' \<and> contents c' = contents c)
    \<or> (\<exists>p c' V ptrs. create_item now key (hf key) n flags ttl c = Some (Inr p, c') \<and> cache_ok P hf {p} c'
      \<and> (V = {} \<or> m_evictions_enabled c \<and> V = lru_page_mem (m_allocator c) A)
      \<and> contents c' = contents c |` (- keys_in c V) \<and> distinct ptrs \<and> set ptrs = fst ` V \<and> c_user c' = told c ptrs (c_user c))"
proof -
  have L: "{} = {} \<or> \<not> m_evictions_enabled c" by simp
  from assms L show ?thesis
  proof (cases rule: create_item_ok [where now = now and flags = flags and ttl = ttl])
    case (full m)
    moreover have "contents (c\<lparr>m_allocator := m\<rparr>) = contents c" by (rule contents_upd(1)) simp_all
    ultimately show ?thesis using cache_okI [OF full(3)] by blast
  next
    case (made p s c' m d V ptrs A')
    then have "c_user c' = told c ptrs (c_user c)" by simp
    then show ?thesis using made(1,8,9,10,11) cache_okI [OF made(3)] by blast
  qed
qed

theorem create_item_evicts_page_witness:
  "\<exists>(c :: unit cache) A. cache_rep 256 cachelot_hash {} c A \<and>
    (\<not> m_evictions_enabled c \<and> (\<exists>c'. create_item 0 [1] (cachelot_hash [1]) 2 0 0 c = Some (Inl (System_error out_of_memory), c')
      \<and> cache_ok 256 cachelot_hash {} c' \<and> contents c' = contents c)
    \<or> (\<exists>p c' V ptrs. create_item 0 [1] (cachelot_hash [1]) 2 0 0 c = Some (Inr p, c') \<and> cache_ok 256 cachelot_hash {p} c'
      \<and> (V = {} \<or> m_evictions_enabled c \<and> V = lru_page_mem (m_allocator c) A)
      \<and> contents c' = contents c |` (- keys_in c V) \<and> distinct ptrs \<and> set ptrs = fst ` V \<and> c_user c' = told c ptrs (c_user c)))"
proof -
  obtain c :: "unit cache" and A where c: "cache_rep 256 cachelot_hash {} c A"
    using small_cache [of True cachelot_hash] unfolding cache_ok_def by blast
  have "length [1 :: u8] \<le> max_key_length" "CalcSizeRequired [1] 2 + 8 \<le> 256"
    by (simp_all add: max_key_length_def CalcSizeRequired_def sizeof_Item_def)
  note T = create_item_evicts_page [OF c this, of 0 0 0]
  show ?thesis by (rule exI [of _ c], rule exI [of _ A], rule conjI [OF c T])
qed

text \<open>C19: \<^verbatim>\<open>cas\<close> swaps if and only if the item under the key, not yet expired, carries the given timestamp; it
  reports whether the key was found and whether it stored, keeps a differing item, drops an expired one,
  and takes the item it was given out of the user's hands in every case, the failure to grow included.\<close>

theorem cas_swaps_if_unchanged:
  assumes "cache_ok P hf L c" and "ready fresh c key" and "p \<in> L" and "item_key (c_mem c) p = key"
    and "item_hash (c_mem c) p = hf key"
  shows "(\<exists>c'. do_cas fresh clk p n c = Some (Inl Bad_alloc, c') \<and> cache_ok P hf (L - {p}) c' \<and> contents c' = contents c
      \<and> contents c key = None \<and> no_room fresh c)
    \<or> (\<exists>c'. do_cas fresh clk p n c = Some (Inr (live (clk 0) c key \<noteq> None, map_option v_timestamp (live (clk 0) c key) = Some n), c')
      \<and> cache_ok P hf (L - {p}) c'
      \<and> contents c' = (contents c)(key := (case live (clk 0) c key of None \<Rightarrow> None
          | Some v \<Rightarrow> Some (if v_timestamp v = n then item_view (c_mem c) p else v))))"
  using assms by (rule do_cas_ok)

theorem cas_swaps_if_unchanged_witness:
  "\<exists>(c :: unit cache) p c'. do_cas small_fresh (\<lambda>_. 0) p 5 c = Some (Inr (False, False), c') \<and> cache_ok 256 cachelot_hash {} c'
    \<and> contents c' = Map.empty"
proof (rule small_item)
  fix c c0 c1 :: "unit cache" and p
  assume c: "cache_ok 256 cachelot_hash {p} c" "contents c = Map.empty" "item_key (c_mem c) p = [1]"
    "item_hash (c_mem c) p = cachelot_hash [1]" "\<forall>k. ready small_fresh c k" "\<not> no_room small_fresh c"
  have "live 0 c [1] = None" using c(2) by (simp add: live_def)
  then show ?thesis
    using cas_swaps_if_unchanged [OF c(1) spec [OF c(5)] singletonI c(3,4), of "\<lambda>_. 0" 5] c(2,6) by auto
qed






lemma put_live:
  assumes "cache_ok P cachelot_hash {} c" and "ready fresh c k" and "api_accepted P k v" and "api_put what (fresh, clk) c k v = Some (True, c')"
    and "now \<noteq> - 1"
  obtains e where "cache_ok P cachelot_hash {} c'" and "live now c' k = Some e" and "v_value e = v" and "v_expiration e = - 1"
proof -
  obtain e where e: "cache_ok P cachelot_hash {} c'" "contents c' k = Some e" "v_value e = v" "v_expiration e = - 1"
    using api_put_ok [OF assms(1-3), of what clk] assms(4) by auto
  have "\<not> (- 1 :: u32) \<le> now" using assms(5) word_order.extremum_unique [of now] by auto
  then have "live now c' k = Some e" using e(2,4) by (simp add: live_def)
  then show ?thesis using that e(1,3,4) by blast
qed


text \<open>C38: The destructor of a cache whose items were all handed over gives back every block: no memory is in use
  afterwards and no key is left.\<close>

theorem destroy_frees_all:
  assumes "cache_ok P hf {} c"
  shows "\<exists>c'. cache_destroy c = Some c' \<and> mem_inv (m_allocator c') {} \<and> m_stats (m_allocator c') mem_used_memory = 0
    \<and> cached c' = Map.empty"
proof -
  obtain A where "cache_rep P hf {} c A" using assms by (auto simp: cache_ok_def)
  then obtain c' where c': "cache_destroy c = Some c'" "mem_inv (m_allocator c') {}" "cached c' = Map.empty"
    using cache_destroy_ok by blast
  have "m_stats (m_allocator c') mem_used_memory = 0" using mem_inv_stat [OF c'(2)] by (simp add: unat_eq_zero)
  then show ?thesis using c' by blast
qed

theorem destroy_frees_all_witness:
  "\<exists>(c :: unit cache) c' e. contents c [1] = Some e \<and> cache_destroy c = Some c' \<and> mem_inv (m_allocator c') {}
    \<and> m_stats (m_allocator c') mem_used_memory = 0 \<and> cached c' = Map.empty"
proof -
  obtain c0 c :: "unit cache" where c: "cache_ok 256 cachelot_hash {} c0" "ready small_fresh c0 [1]"
      "api_put ''bad_alloc'' (small_fresh, \<lambda>_. 0) c0 [1] [49, 50] = Some (True, c)"
    by (rule small_put)
  have "api_accepted 256 [1] [49, 50]" using key_hash by (simp add: api_accepted_def CalcSizeRequired_def sizeof_Item_def)
  then obtain e where e: "cache_ok 256 cachelot_hash {} c" "live 7 c [1] = Some e"
    using put_live [OF c(1,2) _ c(3), of 7] by auto
  show ?thesis using destroy_frees_all [OF e(1)] live_stored [OF e(2)] by blast
qed

text \<open>A \<^verbatim>\<open>std::bad_alloc\<close> or any other standard exception reaches the C user as the code 0, the very code that
  \<^verbatim>\<open>none_error\<close> writes for a call without error; among the errors of the cache only \<^verbatim>\<open>unknown_error\<close> does.\<close>

theorem standard_exception_has_code_zero:
  "err_code (the (catch_error what e (Some err))) = err_code (the (none_error (Some err)))
    \<longleftrightarrow> \<not> (\<exists>ec. e = System_error ec \<and> ec \<noteq> unknown_error)"
proof (cases e)
  case (System_error ec)
  then show ?thesis
    by (cases ec) (simp_all add: system_error_to_err_struct_def none_error_def make_error_code_def)
qed (simp_all add: std_exception_to_err_struct_def none_error_def unknown_error_code_def)

end
