(* ===== verification/Proto_Props.thy ===== *)
theory Proto_Props imports Proto_Storage Cache_Props begin

text \<open>
  The properties of the text protocol, each with a small server on which it is applied: buffers of at
  most 1000 bytes, the small cache of \<open>Cache_Props\<close>, and a system with memory.
\<close>

definition small_env :: "u32 \<Rightarrow> server_env" where
  "small_env now = \<lparr>env_realloc = (\<lambda>n. Some (replicate n 0)), env_fresh = small_fresh, env_clk = (\<lambda>_. now), env_page_size = 256,
     env_version = ''1'', env_bad_alloc = ''std::bad_alloc''\<rparr>"

definition buffer_with :: "u8 list \<Rightarrow> io_buffer" where
  "buffer_with bs = \<lparr>m_max_size = 1000, m_data = Some bs, m_capacity_of = length bs, m_read_pos = 0, m_write_pos = length bs\<rparr>"

definition request_with :: "u8 list \<Rightarrow> 'u cache \<Rightarrow> 'u request" where
  "request_with bs c = \<lparr>rq_recv = buffer_with bs, rq_send = buffer_with [], rq_cache = c\<rparr>"

text \<open>The bytes received are not yet a whole command: no end of the line, or a storage command that waits for
  more of its data.\<close>

definition incomplete :: "server_env \<Rightarrow> u8 list \<Rightarrow> bool" where
  "incomplete env u \<longleftrightarrow> find_bytes CRLF u = None
     \<or> (\<exists>h rest name args a. u = h @ CRLF @ rest \<and> 13 \<notin> set h \<and> split_bytes [SPACE] h = (name, args)
        \<and> parse_command_name name \<in> {ADD, APPEND, CAS, PREPEND, REPLACE, SET}
        \<and> parse_storage_args env (parse_command_name name) args = Inr a \<and> length rest < sa_datalen a + length CRLF)"

section \<open>A small server\<close>

lemma small_env_memory: "env_memory (small_env now)"
  by (simp add: small_env_def env_memory_def realloc_ok_def)

lemma buffer_with_ok: "length bs \<le> 1000 \<Longrightarrow> buffer_ok (buffer_with bs)" "written (buffer_with bs) = bs" "unread (buffer_with bs) = bs"
  by (simp_all add: buffer_ok_def buffer_with_def written_def unread_def buf_data_def)

lemma request_with_ok: "length bs \<le> 1000 \<Longrightarrow> bufs_ok (request_with bs c)"
  by (simp add: bufs_ok_def request_with_def buffer_with_ok)

lemma request_with_simps [simp]:
  "unread (rq_recv (request_with bs c)) = bs" "written (rq_send (request_with bs c)) = []" "rq_cache (request_with bs c) = c"
  "m_write_pos (rq_send (request_with bs c)) = 0" "m_max_size (rq_send (request_with bs c)) = 1000"
  by (simp_all add: request_with_def buffer_with_ok) (simp_all add: buffer_with_def)

section \<open>Properties\<close>

text \<open>C24: The name of a command is recognised exactly: the comparison by length, first character and remaining
  characters gives what a table of the sixteen names gives.\<close>

theorem command_names_by_table:
  "parse_command_name c = (case map_of command_table c of None \<Rightarrow> UNDEFINED | Some k \<Rightarrow> k)"
  by (rule parse_command_name_table)



lemma no_line_waits:
  assumes "bufs_ok s" and "find_bytes CRLF (unread (rq_recv s)) = None"
  shows "handle_received_data_ascii env s = Some (READ_MORE, s)"
proof -
  have ok: "buffer_ok (rq_recv s)" using assms(1) by (simp add: bufs_ok_def)
  have "read_header s = Some (Inl (Thrown (System_error incomplete_request)), s)"
    using try_read_until_ok [OF ok, of CRLF] assms(2) by (simp add: read_header_def CRLF_def)
  then have "try_command env s = Some (Inl (Thrown (System_error incomplete_request)), s)"
    by (simp add: try_command_def and_then_simps)
  then show ?thesis
    by (simp add: handle_received_data_ascii_def on_exception_def on_system_error_def Let_def read_savepoint_def rollback_read_transaction_def
        rollback_write_transaction_def write_savepoint_def)
qed

lemma no_data_waits:
  assumes s: "bufs_ok s" and env: "env_memory env" and u: "unread (rq_recv s) = h @ CRLF @ rest" "13 \<notin> set h"
    and h: "split_bytes [SPACE] h = (name, args)" and cmd: "parse_command_name name \<in> {ADD, APPEND, CAS, PREPEND, REPLACE, SET}"
    and a: "parse_storage_args env (parse_command_name name) args = Inr a" and short: "length rest < sa_datalen a + length CRLF"
    and room: "m_write_pos (rq_recv s) + sa_datalen a + length CRLF \<le> m_max_size (rq_recv s)"
  obtains b where "handle_received_data_ascii env s = Some (READ_MORE, s\<lparr>rq_recv := b\<rparr>)" and "buffer_ok b"
    and "unread b = unread (rq_recv s)" and "length h + sa_datalen a + 2 * length CRLF \<le> non_read b + available b"
proof -
  obtain b where b: "read_header s = Some (Inr h, s\<lparr>rq_recv := b\<rparr>)" "buffer_ok b" "unread b = rest" "m_max_size b = m_max_size (rq_recv s)"
    using read_header_ok [OF s u] by blast
  let ?s1 = "s\<lparr>rq_recv := b\<rparr>"
  have ok: "buffer_ok (rq_recv s)" using s by (simp add: bufs_ok_def)
  have g: "grows s ?s1" using keepsD [OF keeps_read_header s b(1)] .
  have w: "written b = written (rq_recv s)" "m_write_pos b = m_write_pos (rq_recv s)"
    using g buffer_okD(5) [OF b(2)] buffer_okD(5) [OF ok] by (simp_all add: grows_def)
  have nr: "non_read b = length rest" using buffer_okD(6) [OF b(2)] b(3) by simp
  have s1: "bufs_ok ?s1" using s b(2) by (simp add: bufs_ok_def)
  obtain b2 where b2: "read_value env (sa_datalen a) ?s1 = Some (Inl (Thrown (System_error incomplete_request)), s\<lparr>rq_recv := b2\<rparr>)" "buffer_ok b2"
      "written b2 = written b" "m_read_pos b2 = m_read_pos b" "sa_datalen a + length CRLF \<le> non_read b2 + available b2"
  proof -
    have p: "non_read (rq_recv ?s1) < sa_datalen a + length CRLF"
      "m_write_pos (rq_recv ?s1) + (sa_datalen a + length CRLF - non_read (rq_recv ?s1)) \<le> m_max_size (rq_recv ?s1)"
      using short room nr w(2) b(4) by simp_all
    from read_value_short [OF s1 env p] that show ?thesis by auto
  qed
  have "handle_storage_command env (parse_command_name name) args ?s1 = Some (Inl (Thrown (System_error incomplete_request)), s\<lparr>rq_recv := b2\<rparr>)"
    using a b2(1) by (simp add: handle_storage_command_def and_then_def [of "from_sum _"] from_sum_def and_then_simps)
  then have "try_command env s = Some (Inl (Thrown (System_error incomplete_request)), s\<lparr>rq_recv := b2\<rparr>)"
    using b(1) h cmd by (auto simp: try_command_def and_then_simps dispatch_def)
  then have hd: "handle_received_data_ascii env s = Some (READ_MORE, s\<lparr>rq_recv := b2\<lparr>m_read_pos := m_read_pos (rq_recv s)\<rparr>\<rparr>)"
    by (simp add: handle_received_data_ascii_def on_exception_def on_system_error_def Let_def read_savepoint_def rollback_read_transaction_def
        rollback_write_transaction_def write_savepoint_def)
  let ?b = "b2\<lparr>m_read_pos := m_read_pos (rq_recv s)\<rparr>"
  have w2: "m_write_pos b2 = m_write_pos (rq_recv s)" using buffer_okD(5) [OF b2(2)] buffer_okD(5) [OF ok] b2(3) w(1) by simp
  have okb: "buffer_ok ?b" using b2(2) buffer_okD(1) [OF ok] w2 by (auto simp: buffer_ok_def)
  have un: "unread ?b = unread (rq_recv s)" using b2(3) w(1) by (simp add: unread_def written_def buf_data_def)
  have "non_read ?b = length h + length CRLF + length rest" using buffer_okD(6) [OF okb] un u(1) by simp
  moreover have "non_read b2 = length rest" using nr b2(4) w2 w(2) by (simp add: non_read_def)
  ultimately have "length h + sa_datalen a + 2 * length CRLF \<le> non_read ?b + available ?b" using b2(5) by (simp add: available_def)
  then show ?thesis using that [OF hd okb un] by simp
qed

lemma parse_storage_datalen: "parse_storage_args env cmd args = Inr a \<Longrightarrow> sa_datalen a \<le> env_page_size env"
  by (auto simp: parse_storage_args_def sum_bind_def split: sum.splits prod.splits if_splits)

lemma incomplete_waits:
  assumes "env_memory env" and "bufs_ok s" and "incomplete env (unread (rq_recv s))"
    and "m_write_pos (rq_recv s) + env_page_size env + length CRLF \<le> m_max_size (rq_recv s)"
  shows "\<exists>b. handle_received_data_ascii env s = Some (READ_MORE, s\<lparr>rq_recv := b\<rparr>) \<and> buffer_ok b \<and> unread b = unread (rq_recv s)"
  using assms(3) unfolding incomplete_def
proof (elim disjE exE conjE)
  assume "find_bytes CRLF (unread (rq_recv s)) = None"
  from no_line_waits [OF assms(2) this] show ?thesis using assms(2) by (intro exI [of _ "rq_recv s"]) (simp add: bufs_ok_def)
next
  fix h rest name args a
  assume p: "unread (rq_recv s) = h @ CRLF @ rest" "13 \<notin> set h" "split_bytes [SPACE] h = (name, args)"
    "parse_command_name name \<in> {ADD, APPEND, CAS, PREPEND, REPLACE, SET}"
    "parse_storage_args env (parse_command_name name) args = Inr a" "length rest < sa_datalen a + length CRLF"
  have "m_write_pos (rq_recv s) + sa_datalen a + length CRLF \<le> m_max_size (rq_recv s)"
    using parse_storage_datalen [OF p(5)] assms(4) by simp
  from no_data_waits [OF assms(2,1) p this] show ?thesis by blast
qed

text \<open>C17: A command that has not arrived whole leaves no trace: it stays unread in the receive buffer, nothing is sent and
  the cache is not touched, so that it is handled as a whole when the rest has come.\<close>

theorem incomplete_request_waits:
  assumes "env_memory env" and "bufs_ok s" and "incomplete env (unread (rq_recv s))"
    and "m_write_pos (rq_recv s) + env_page_size env + length CRLF \<le> m_max_size (rq_recv s)"
  shows "\<exists>b. handle_received_data_ascii env s = Some (READ_MORE, s\<lparr>rq_recv := b\<rparr>) \<and> buffer_ok b \<and> unread b = unread (rq_recv s)"
  by (rule incomplete_waits [OF assms])

lemma digit_texts: "decimal 0 = [48]" "decimal 5 = [53]" "decimal (Suc (Suc (Suc (Suc (Suc 0))))) = [53]"
  by (simp_all add: decimal.simps digit_def)

theorem incomplete_request_waits_witness:
  "\<exists>(c :: unit cache) b. handle_received_data_ascii (small_env 0) (request_with (ascii ''set k 0 0 5'' @ CRLF @ ascii ''ab'') c)
      = Some (READ_MORE, (request_with (ascii ''set k 0 0 5'' @ CRLF @ ascii ''ab'') c)\<lparr>rq_recv := b\<rparr>)
    \<and> buffer_ok b \<and> unread b = ascii ''set k 0 0 5'' @ CRLF @ ascii ''ab''"
proof -
  fix c :: "unit cache"
  let ?u = "ascii ''set k 0 0 5'' @ CRLF @ ascii ''ab''" and ?env = "small_env 0"
  let ?args = "ascii ''k'' @ SPACE # decimal 0 @ SPACE # decimal 0 @ SPACE # decimal 5"
  have sp: "split_bytes [SPACE] (ascii ''set k 0 0 5'') = (ascii ''set'', ?args)"
    using split_command(1) [of "''set''" ?args] by (simp add: digit_texts) (simp add: ascii_def SPACE_def)
  have pa: "parse_storage_args ?env SET ?args = Inr \<lparr>sa_key = ascii ''k'', sa_flags = 0, sa_keep_alive = 0, sa_datalen = 5, sa_cas_unique = 0, sa_noreply = False\<rparr>"
    by (rule parse_set_args) (simp_all add: sendable_key_def ascii_def SPACE_def small_env_def max_key_length_def)
  have cmd: "parse_command_name (ascii ''set'') = SET" by code_simp
  have inc: "incomplete ?env ?u" unfolding incomplete_def
  proof (rule disjI2, intro exI conjI)
    show "?u = ascii ''set k 0 0 5'' @ CRLF @ ascii ''ab''" by simp
    show "13 \<notin> set (ascii ''set k 0 0 5'')" by (simp add: ascii_def)
    show "split_bytes [SPACE] (ascii ''set k 0 0 5'') = (ascii ''set'', ?args)" by (rule sp)
    show "parse_command_name (ascii ''set'') \<in> {ADD, APPEND, CAS, PREPEND, REPLACE, SET}" by (simp add: cmd)
    show "parse_storage_args ?env (parse_command_name (ascii ''set'')) ?args
      = Inr \<lparr>sa_key = ascii ''k'', sa_flags = 0, sa_keep_alive = 0, sa_datalen = 5, sa_cas_unique = 0, sa_noreply = False\<rparr>" using pa cmd by simp
  qed simp
  have ok: "bufs_ok (request_with ?u c)" by (rule request_with_ok) (simp add: CRLF_def)
  have room: "m_write_pos (rq_recv (request_with ?u c)) + env_page_size ?env + length CRLF \<le> m_max_size (rq_recv (request_with ?u c))"
    by (simp add: request_with_def buffer_with_def small_env_def CRLF_def)
  show ?thesis using incomplete_request_waits [OF small_env_memory ok _ room] inc by auto
qed

text \<open>C7: The server keeps what it reports as stored: after a set request that was answered with \<^verbatim>\<open>STORED\<close>, a get request
  for the key on any connection is answered with exactly the bytes of the value, its length and its flags.\<close>

theorem server_set_get:
  assumes "env_memory env" and "bufs_ok s" and "cache_ok P calc_hash {} (rq_cache s)" and "ready (env_fresh env) (rq_cache s) key"
    and "sendable_key key" and "calc_hash key \<noteq> 0" and "CalcSizeRequired key (length val) + 8 \<le> P" and "env_page_size env = P" and "P < 2 ^ 32"
    and "flags < 2 ^ 16" and "unread (rq_recv s) = set_request key flags 0 val @ rest"
    and "m_write_pos (rq_send s) + 40 + length (env_bad_alloc env) \<le> m_max_size (rq_send s)"
    and set: "handle_received_data_ascii env s = Some (reply, s1)" "written (rq_send s1) = written (rq_send s) @ ascii ''STORED'' @ CRLF"
    and "env_memory env'" and "bufs_ok s2" and "rq_cache s2 = rq_cache s1" and "fresh_limited (env_fresh env')" and "env_clk env' 0 \<noteq> - 1"
    and "unread (rq_recv s2) = get_request key @ rest'" and "m_write_pos (rq_send s2) + 40 + length key + length val \<le> m_max_size (rq_send s2)"
  shows "\<exists>s3. handle_received_data_ascii env' s2 = Some (SEND_REPLY_AND_READ, s3) \<and> unread (rq_recv s3) = rest'
    \<and> written (rq_send s3) = written (rq_send s2) @ ascii ''VALUE '' @ key @ SPACE # decimal flags @ SPACE # decimal (length val) @ CRLF
        @ val @ CRLF @ ascii ''END'' @ CRLF"
proof -
  let ?v = "\<lparr>v_value = val, v_flags = of_nat flags, v_expiration = expiration_for (env_clk env 0) 0, v_timestamp = m_newest_timestamp (rq_cache s) + 1\<rparr>"
  have ne: "ascii ''STORED'' @ CRLF \<noteq> ascii ''SERVER_ERROR '' @ x" for x by (simp add: ascii_def CRLF_def)
  have set': "cache_ok P calc_hash {} (rq_cache s1)" "settled (entry_key (rq_cache s1)) (m_dict (rq_cache s1)) key" "contents (rq_cache s1) key = Some ?v"
    using set_command [OF assms(1-10) _ assms(11,12)] set ne by auto
  have "v_expiration ?v = - 1" by (simp add: expiration_for_def infinite_TTL_def)
  moreover have "\<not> (- 1 :: u32) \<le> env_clk env' 0" using assms(19) word_order.extremum_unique [of "env_clk env' 0"] by auto
  ultimately have lv: "live (env_clk env' 0) (rq_cache s2) key = Some ?v" using set'(3) assms(17) by (simp add: live_def)
  have c2: "cache_ok P calc_hash {} (rq_cache s2)" "ready (env_fresh env') (rq_cache s2) key" using set'(1,2) assms(17,18) by (simp_all add: ready_def)
  have "unat (of_nat flags :: u16) = flags" using assms(10) by (simp add: unat_of_nat)
  then have vr: "value_reply key ?v = ascii ''VALUE '' @ key @ SPACE # decimal flags @ SPACE # decimal (length val) @ CRLF @ val @ CRLF"
    by (simp add: value_reply_def)
  show ?thesis using get_command [OF assms(15,16) c2 assms(5,20)] assms(21) lv vr by auto
qed

lemma k_hash: "calc_hash (ascii ''k'') \<noteq> 0"
  by code_simp

lemma k_sendable: "sendable_key (ascii ''k'')"
  by (simp add: sendable_key_def ascii_def SPACE_def max_key_length_def)

theorem server_set_get_witness:
  "\<exists>(s :: unit request) s1 s3. handle_received_data_ascii (small_env 0) s = Some (SEND_REPLY_AND_READ, s1)
    \<and> handle_received_data_ascii (small_env 9) (request_with (get_request (ascii ''k'')) (rq_cache s1)) = Some (SEND_REPLY_AND_READ, s3)
    \<and> written (rq_send s3) = ascii ''VALUE k 0 5'' @ CRLF @ ascii ''hello'' @ CRLF @ ascii ''END'' @ CRLF"
proof -
  let ?k = "ascii ''k''" and ?v = "ascii ''hello''" and ?env = "small_env 0" and ?env' = "small_env 9"
  obtain c :: "unit cache" where c: "cache_ok 256 calc_hash {} c" "cached c = Map.empty" "m_evictions_enabled c = True" "ready small_fresh c ?k"
      "unat (m_hashpower (m_dict c)) = 2"
    using small_cache [of True calc_hash] by blast
  define s where "s = request_with (set_request ?k 0 0 ?v) c"
  have len: "length (set_request ?k 0 0 ?v) \<le> 1000" by (simp add: set_request_def digit_texts CRLF_def)
  have h: "bufs_ok s" "cache_ok 256 calc_hash {} (rq_cache s)" "ready (env_fresh ?env) (rq_cache s) ?k" "CalcSizeRequired ?k (length ?v) + 8 \<le> 256"
    "env_page_size ?env = 256" "(256 :: nat) < 2 ^ 32" "(0 :: nat) < 2 ^ 16" "(0 :: nat) < 2 ^ 32" "unread (rq_recv s) = set_request ?k 0 0 ?v @ []"
    "m_write_pos (rq_send s) + 40 + length (env_bad_alloc ?env) \<le> m_max_size (rq_send s)"
    using c(1,4) request_with_ok [OF len] by (simp_all add: s_def small_env_def CalcSizeRequired_def sizeof_Item_def)
  have "\<not> no_memory_for ?env (rq_cache s) e" for e
    using c(2,3) room_left [OF c(5)] by (cases e) (simp_all add: s_def small_env_def)
  then obtain s1 where s1: "handle_received_data_ascii ?env s = Some (SEND_REPLY_AND_READ, s1)" "written (rq_send s1) = written (rq_send s) @ ascii ''STORED'' @ CRLF"
    using set_command [OF small_env_memory h(1-3) k_sendable k_hash h(4-10)] by blast
  define s2 where "s2 = request_with (get_request ?k) (rq_cache s1)"
  have len2: "length (get_request ?k) \<le> 1000" by (simp add: get_request_def CRLF_def)
  have g: "bufs_ok s2" "rq_cache s2 = rq_cache s1" "fresh_limited (env_fresh ?env')" "env_clk ?env' 0 \<noteq> - 1" "unread (rq_recv s2) = get_request ?k @ []"
    "m_write_pos (rq_send s2) + 40 + length ?k + length ?v \<le> m_max_size (rq_send s2)"
    using request_with_ok [OF len2] small_fresh_ok(1) by (simp_all add: s2_def small_env_def)
  obtain s3 where s3: "handle_received_data_ascii ?env' s2 = Some (SEND_REPLY_AND_READ, s3)"
      "written (rq_send s3) = written (rq_send s2) @ ascii ''VALUE '' @ ?k @ SPACE # decimal 0 @ SPACE # decimal (length ?v) @ CRLF @ ?v @ CRLF @ ascii ''END'' @ CRLF"
    using server_set_get [OF small_env_memory h(1-3) k_sendable k_hash h(4-7,9,10) s1 small_env_memory g] by blast
  moreover have "ascii ''VALUE '' @ ?k @ SPACE # decimal 0 @ SPACE # decimal (length ?v) @ CRLF @ x = ascii ''VALUE k 0 5'' @ CRLF @ x" for x
    by (simp add: digit_texts) (simp add: ascii_def SPACE_def)
  ultimately show ?thesis using s1(1) by (intro exI [of _ s] exI [of _ s1] exI [of _ s3]) (simp add: s2_def)
qed





end
