(* ===== verification/Conversation.thy ===== *)
theory Conversation imports Proto_Props begin

text \<open>
  From the bytes of a connection or a datagram to the protocols: \<^verbatim>\<open>memcached.cpp\<close>, the stub of the binary protocol in
  \<^verbatim>\<open>proto_binary.cpp\<close>, and the functions \<^verbatim>\<open>handle_data\<close> of \<^verbatim>\<open>memcached/conversation.h\<close> with the frame header of datagrams.
\<close>

unbundle bit_operations_syntax

section \<open>The choice of the protocol\<close>

definition MAGIC :: u8 where
  "MAGIC = 0x80"

definition handle_received_data_binary :: "server_env \<Rightarrow> (ConversationReply, 'u) action" where
  "handle_received_data_binary env = raise (Thrown (System_error not_implemented))"

definition handle_received_data :: "server_env \<Rightarrow> (ConversationReply, 'u) action" where
  "handle_received_data env s =
     (if 0 < non_read (rq_recv s)
      then case buf_bytes (rq_recv s) (slice_of_length (m_read_pos (rq_recv s)) 1) of
          None \<Rightarrow> None
        | Some bs \<Rightarrow>
            if hd bs = MAGIC then handle_received_data_binary env s
            else map_option (\<lambda>(reply, s'). (Inr reply, s')) (handle_received_data_ascii env s)
      else Some (Inr READ_MORE, s))"

section \<open>Stream conversations\<close>

definition stream_handle_data :: "server_env \<Rightarrow> 'u request \<Rightarrow> (ConversationReply \<times> 'u request) option" where
  "stream_handle_data env s = map_option (\<lambda>(r, s'). case r of
      Inr reply \<Rightarrow> (reply, s')
    | Inl _ \<Rightarrow> (CLOSE_IMMEDIATELY, s')) (handle_received_data env s)"

section \<open>Datagrams\<close>

definition udp_frame_header_size :: nat where
  "udp_frame_header_size = 8"

text \<open>\<^verbatim>\<open>ntohs\<close> of the two bytes at a position, and the two bytes as the machine reads them.\<close>

definition ntohs_at :: "u8 list \<Rightarrow> nat \<Rightarrow> u16" where
  "ntohs_at raw i = push_bit 8 (ucast (raw ! i)) OR ucast (raw ! (i + 1))"

definition uint16_at :: "u8 list \<Rightarrow> nat \<Rightarrow> u16" where
  "uint16_at raw i = push_bit 8 (ucast (raw ! (i + 1))) OR ucast (raw ! i)"

definition handle_udp_frame_header :: "server_env \<Rightarrow> (unit, 'u) action" where
  "handle_udp_frame_header env s =
     (if non_read (rq_recv s) < udp_frame_header_size then raise (Protocol udp_header_size) s
      else let (raw_slice, recv) = confirm_read udp_frame_header_size (rq_recv s) in
        case buf_bytes (rq_recv s) raw_slice of
          None \<Rightarrow> None
        | Some raw \<Rightarrow>
            let s' = s\<lparr>rq_recv := recv\<rparr>; sequence_no = ntohs_at raw 2; packets_in_msg = ntohs_at raw 4; reserved = uint16_at raw 6 in
            if sequence_no \<noteq> 0 \<or> 1 < packets_in_msg then raise (Thrown (System_error not_implemented)) s'
            else if reserved \<noteq> 0 then raise (Protocol udp_proto_reserverd) s'
            else put env [put_slice raw] s')"

definition udp_handle_data :: "server_env \<Rightarrow> 'u request \<Rightarrow> (ConversationReply \<times> 'u request) option" where
  "udp_handle_data env s =
     (let w_savepoint = write_savepoint (rq_send s) in
      map_option (\<lambda>(r, s'). case r of
          Inr reply \<Rightarrow> (reply, s')
        | Inl _ \<Rightarrow> (READ_MORE, s'\<lparr>rq_send := rollback_write_transaction w_savepoint (rq_send s')\<rparr>))
        (and_then (handle_udp_frame_header env) (\<lambda>_. handle_received_data env) s))"

text \<open>The header of a request that is served: the first packet of a message of at most one, the last two bytes zero.\<close>

definition single_frame :: "u8 list \<Rightarrow> bool" where
  "single_frame raw \<longleftrightarrow> length raw = 8 \<and> raw ! 2 = 0 \<and> raw ! 3 = 0 \<and> raw ! 4 = 0 \<and> raw ! 5 \<le> 1 \<and> raw ! 6 = 0 \<and> raw ! 7 = 0"

section \<open>Facts about the protocols\<close>

lemma unat_less_256: "unat (a :: u8) < 256"
  using unsigned_less [of a] by simp

lemma unat_two_bytes: "unat (push_bit 8 (ucast a) OR ucast b :: u16) = 256 * unat (a :: u8) + unat (b :: u8)"
proof -
  have "push_bit 8 (ucast a) AND ucast b = (0 :: u16)"
    by (rule bit_word_eqI) (auto simp: bit_simps dest: bit_imp_le_length)
  then have "push_bit 8 (ucast a) OR ucast b = (push_bit 8 (ucast a) + ucast b :: u16)" by (simp add: disjunctive_add_eq_or)
  also have "\<dots> = of_nat (256 * unat a + unat b)" by (simp add: push_bit_eq_mult)
  finally have e: "push_bit 8 (ucast a) OR ucast b = (of_nat (256 * unat a + unat b) :: u16)" .
  have "256 * unat a + unat b < 2 ^ 16" using unat_less_256 [of a] unat_less_256 [of b] by simp
  then show ?thesis by (simp only: e) (simp add: unat_of_nat del: of_nat_add of_nat_mult)
qed

lemma two_bytes:
  "push_bit 8 (ucast a) OR ucast b = (0 :: u16) \<longleftrightarrow> a = (0 :: u8) \<and> b = (0 :: u8)"
  "1 < (push_bit 8 (ucast a) OR ucast b :: u16) \<longleftrightarrow> \<not> (a = 0 \<and> b \<le> 1)"
proof -
  have z: "x = 0 \<longleftrightarrow> unat x = 0" for x :: "'w :: len word" by (simp add: unat_eq_0)
  show "push_bit 8 (ucast a) OR ucast b = (0 :: u16) \<longleftrightarrow> a = (0 :: u8) \<and> b = (0 :: u8)"
    unfolding z unat_two_bytes by simp
  show "1 < (push_bit 8 (ucast a) OR ucast b :: u16) \<longleftrightarrow> \<not> (a = 0 \<and> b \<le> 1)"
    using z [of a] unfolding word_less_nat_alt word_le_nat_alt unat_two_bytes by (cases "unat a") auto
qed

lemma received_replied:
  assumes env: "env_memory env" and s: "bufs_ok s" and h: "handle_received_data env s = Some (r, s')"
  shows "case r of Inr reply \<Rightarrow> well_replied s reply s' | Inl _ \<Rightarrow> s' = s"
proof -
  have w: "well_replied s READ_MORE s" using s by (simp add: well_replied_def)
  show ?thesis using h handled_ok [OF env s] w
    by (auto simp: handle_received_data_def handle_received_data_binary_def raise_def split: if_splits option.splits)
qed

lemma no_line_received:
  assumes ok: "bufs_ok s" and "find_bytes CRLF (unread (rq_recv s)) = None" and "unread (rq_recv s) = [] \<or> hd (unread (rq_recv s)) \<noteq> MAGIC"
  shows "handle_received_data env s = Some (Inr READ_MORE, s)"
proof (cases "unread (rq_recv s) = []")
  case True
  have "buffer_ok (rq_recv s)" using ok by (simp add: bufs_ok_def)
  then show ?thesis using buffer_okD(6) [of "rq_recv s"] True by (simp add: handle_received_data_def)
next
  case False
  have b: "buffer_ok (rq_recv s)" using ok by (simp add: bufs_ok_def)
  then have n: "0 < non_read (rq_recv s)" using buffer_okD(6) [OF b] False by (metis length_greater_0_conv)
  then have "buf_bytes (rq_recv s) (slice_of_length (m_read_pos (rq_recv s)) 1) = Some (take 1 (unread (rq_recv s)))"
    using buf_bytes_written [OF b, of "slice_of_length (m_read_pos (rq_recv s)) 1"] by (simp add: slice_of_length_def unread_def non_read_def)
  moreover have "hd (take 1 (unread (rq_recv s))) \<noteq> MAGIC" using False assms(3) by (cases "unread (rq_recv s)") simp_all
  ultimately show ?thesis using n no_line_waits [OF assms(1,2), of env] by (simp add: handle_received_data_def)
qed

lemma frame_header:
  assumes env: "env_memory env" and s: "bufs_ok s" and room: "m_write_pos (rq_send s) + 8 \<le> m_max_size (rq_send s)"
  obtains (short) e where "handle_udp_frame_header env s = Some (Inl e, s)" and "length (unread (rq_recv s)) < 8"
  | (refused) e b where "handle_udp_frame_header env s = Some (Inl e, s\<lparr>rq_recv := b\<rparr>)" and "buffer_ok b"
      and "\<not> single_frame (take 8 (unread (rq_recv s)))"
  | (framed) b b' where "handle_udp_frame_header env s = Some (Inr (), s\<lparr>rq_recv := b, rq_send := b'\<rparr>)" and "buffer_ok b" and "buffer_ok b'"
      and "single_frame (take 8 (unread (rq_recv s)))" and "unread b = drop 8 (unread (rq_recv s))"
      and "written b' = written (rq_send s) @ take 8 (unread (rq_recv s))" and "m_read_pos b' = m_read_pos (rq_send s)"
proof (cases "non_read (rq_recv s) < 8")
  case True
  have ok: "buffer_ok (rq_recv s)" using s by (simp add: bufs_ok_def)
  show ?thesis using short True buffer_okD(6) [OF ok] by (simp add: handle_udp_frame_header_def udp_frame_header_size_def raise_def)
next
  case False
  have ok: "buffer_ok (rq_recv s)" using s by (simp add: bufs_ok_def)
  define raw where "raw = take 8 (unread (rq_recv s))"
  obtain sl b where c: "confirm_read 8 (rq_recv s) = (sl, b)" by (meson surj_pair)
  have n: "8 \<le> non_read (rq_recv s)" using False by simp
  note cr = confirm_read_ok [OF ok n c]
  have len: "length raw = 8" using n buffer_okD(6) [OF ok] by (simp add: raw_def)
  have u: "unread b = drop 8 (unread (rq_recv s))"
    using cr(2) append_take_drop_id [of 8 "unread (rq_recv s)"] by (metis same_append_eq)
  let ?s = "s\<lparr>rq_recv := b\<rparr>"
  have okS: "bufs_ok ?s" using s cr(1) by (simp add: bufs_ok_def)
  have sf: "single_frame raw \<longleftrightarrow> \<not> (ntohs_at raw 2 \<noteq> 0 \<or> 1 < ntohs_at raw 4) \<and> uint16_at raw 6 = 0"
    using len by (auto simp: single_frame_def ntohs_at_def uint16_at_def two_bytes)
  have h: "handle_udp_frame_header env s =
      (if ntohs_at raw 2 \<noteq> 0 \<or> 1 < ntohs_at raw 4 then raise (Thrown (System_error not_implemented)) ?s
       else if uint16_at raw 6 \<noteq> 0 then raise (Protocol udp_proto_reserverd) ?s else put env [put_slice raw] ?s)"
    using False cr(5) by (simp add: handle_udp_frame_header_def udp_frame_header_size_def c raw_def Let_def)
  show ?thesis
  proof (cases "single_frame raw")
    case True
    obtain b' where b': "put env [put_slice raw] ?s = Some (Inr (), ?s\<lparr>rq_send := b'\<rparr>)" "written b' = written (rq_send s) @ raw"
        "buffer_ok b'" "m_read_pos b' = m_read_pos (rq_send s)"
      using put_room [OF okS env, of "[put_slice raw]"] room len by auto
    then show ?thesis using framed [where b = b and b' = b'] h True sf cr(1) u by (simp add: raw_def)
  next
    case False
    then show ?thesis using refused [of _ b] h sf cr(1) by (auto simp: raise_def raw_def split: if_splits)
  qed
qed

lemma udp_replied:
  assumes "env_memory env" and "bufs_ok s" and "m_write_pos (rq_send s) + 8 \<le> m_max_size (rq_send s)"
    and "udp_handle_data env s = Some (reply, s')"
  shows "bufs_ok s' \<and> (\<exists>t. written (rq_send s') = written (rq_send s) @ t
     \<and> (if single_frame (take 8 (unread (rq_recv s)))
        then t = [] \<and> reply = READ_MORE \<or> (\<exists>u. t = take 8 (unread (rq_recv s)) @ u \<and> (reply = SEND_REPLY_AND_READ \<longrightarrow> (\<exists>v. u = v @ CRLF)))
        else t = [] \<and> reply = READ_MORE))"
proof -
  have ok: "buffer_ok (rq_send s)" "buffer_ok (rq_recv s)" using assms(2) by (simp_all add: bufs_ok_def)
  have same: "rollback_write_transaction (write_savepoint (rq_send s)) (rq_send s) = rq_send s"
    by (simp add: rollback_write_transaction_def write_savepoint_def)
  from assms(1-3) show ?thesis
  proof (cases rule: frame_header)
    case (short e)
    then have "\<not> single_frame (take 8 (unread (rq_recv s)))" by (simp add: single_frame_def)
    then show ?thesis using short assms(2,4) by (auto simp: udp_handle_data_def and_then_def Let_def same)
  next
    case (refused e b)
    then show ?thesis using assms(4) ok by (auto simp: udp_handle_data_def and_then_def Let_def same bufs_ok_def)
  next
    case (framed b b')
    let ?s = "s\<lparr>rq_recv := b, rq_send := b'\<rparr>"
    have okS: "bufs_ok ?s" using framed(2,3) by (simp add: bufs_ok_def)
    obtain r s1 where h: "handle_received_data env ?s = Some (r, s1)" "udp_handle_data env s = Some (case r of Inr reply \<Rightarrow> (reply, s1)
        | Inl _ \<Rightarrow> (READ_MORE, s1\<lparr>rq_send := rollback_write_transaction (write_savepoint (rq_send s)) (rq_send s1)\<rparr>))"
      using assms(4) framed(1) by (auto simp: udp_handle_data_def and_then_def Let_def)
    note rr = received_replied [OF assms(1) okS h(1)]
    show ?thesis
    proof (cases r)
      case (Inl e)
      then have "s1 = ?s" using rr by simp
      then show ?thesis using Inl h(2) assms(4) framed(2,4) rollback_appended [OF ok(1) framed(3,6,7)] by (auto simp: bufs_ok_def)
    next
      case (Inr r')
      then have "well_replied ?s reply s'" using rr h(2) assms(4) by simp
      then show ?thesis using framed(4,6) by (auto simp: well_replied_def)
    qed
  qed
qed

lemma udp_buffers_ok:
  assumes "env_memory env" and "bufs_ok s" and "m_write_pos (rq_send s) + 8 \<le> m_max_size (rq_send s)" and "udp_handle_data env s = Some (reply, s')"
  shows "bufs_ok s'"
  using udp_replied [OF assms] by simp

section \<open>Properties\<close>



text \<open>The header is also left in the send buffer when nothing is to be sent, in front of the reply to the next datagram.\<close>

theorem frame_header_left_behind:
  assumes "env_memory env" and "bufs_ok s" and "m_write_pos (rq_send s) + 8 \<le> m_max_size (rq_send s)"
    and "unread (rq_recv s) = raw @ u" and "single_frame raw" and "find_bytes CRLF u = None" and "u = [] \<or> hd u \<noteq> MAGIC"
  shows "\<exists>s'. udp_handle_data env s = Some (READ_MORE, s') \<and> written (rq_send s') = written (rq_send s) @ raw"
  using assms(1-3)
proof (cases rule: frame_header)
  case (framed b b')
  have raw: "take 8 (unread (rq_recv s)) = raw" "drop 8 (unread (rq_recv s)) = u" using assms(4,5) by (simp_all add: single_frame_def)
  let ?s = "s\<lparr>rq_recv := b, rq_send := b'\<rparr>"
  have ok: "bufs_ok ?s" using framed(2,3) by (simp add: bufs_ok_def)
  have "handle_received_data env ?s = Some (Inr READ_MORE, ?s)" using no_line_received [OF ok] framed(5) raw(2) assms(6,7) by simp
  then show ?thesis using framed(1,6) raw(1) by (auto simp: udp_handle_data_def and_then_def Let_def)
qed (use assms(4,5) in \<open>simp_all add: single_frame_def\<close>)

end
