(* ===== verification/Connection.thy ===== *)
theory Connection imports Conversation begin

text \<open>
  The connection of \<^verbatim>\<open>socket_stream.h\<close> as a state machine. The asynchronous operations of the socket are its
  events: bytes arrive, bytes of a pending write are taken from the send buffer, a write completes. A function that is
  \<^verbatim>\<open>noexcept\<close> and lets an exception out ends the process, which is \<open>None\<close>.
\<close>

section \<open>Connections\<close>

text \<open>A pending \<^verbatim>\<open>async_write\<close>: where in the send buffer the bytes to transmit next are, how many are left and how many
  there were.\<close>

record write_op =
  wr_pos :: nat
  wr_left :: nat
  wr_total :: nat

text \<open>The buffers of the connection with the cache, and of the socket: whether a read is pending, the pending writes and
  what was transmitted.\<close>

record 'u connection =
  cn_request :: "'u request"
  m_killed :: bool
  cn_reading :: bool
  cn_writes :: "write_op list"
  cn_wire :: "u8 list"

datatype io_error = No_error | Message_size | Operation_aborted | Other_error

definition stream_connection_new :: "server_env \<Rightarrow> nat \<Rightarrow> nat \<Rightarrow> 'u cache \<Rightarrow> 'u connection result" where
  "stream_connection_new env rcvbuf_max sndbuf_max the_cache =
     (case io_buffer_new (env_realloc env) default_min_buffer_size rcvbuf_max of
        Inl e \<Rightarrow> Inl e
      | Inr recv \<Rightarrow> (case io_buffer_new (env_realloc env) default_min_buffer_size sndbuf_max of
            Inl e \<Rightarrow> Inl e
          | Inr snd_buf \<Rightarrow> Inr \<lparr>cn_request = \<lparr>rq_recv = recv, rq_send = snd_buf, rq_cache = the_cache\<rparr>, m_killed = False,
              cn_reading = False, cn_writes = [], cn_wire = []\<rparr>))"

definition async_receive_some :: "server_env \<Rightarrow> 'u connection \<Rightarrow> 'u connection option" where
  "async_receive_some env c = (case begin_write (env_realloc env) (default_min_buffer_size div 4) (rq_recv (cn_request c)) of
      (Inl _, _) \<Rightarrow> None
    | (Inr _, b) \<Rightarrow> Some (c\<lparr>cn_request := (cn_request c)\<lparr>rq_recv := b\<rparr>, cn_reading := True\<rparr>))"

definition async_send_all :: "'u connection \<Rightarrow> 'u connection" where
  "async_send_all c =
     (if m_killed c then c
      else let b = rq_send (cn_request c) in
        c\<lparr>cn_writes := cn_writes c @ [\<lparr>wr_pos = m_read_pos b, wr_left = non_read b, wr_total = non_read b\<rparr>]\<rparr>)"

text \<open>The virtual function of the class that says how a conversation reacts on data.\<close>

type_synonym 'u conversation_handler = "server_env \<Rightarrow> 'u request \<Rightarrow> (ConversationReply \<times> 'u request) option"

text \<open>The socket has filled \<open>bs\<close> in at the write position of the receive buffer.\<close>

definition confirm_received :: "u8 list \<Rightarrow> 'u request \<Rightarrow> 'u request option" where
  "confirm_received bs s = map_option (\<lambda>b. s\<lparr>rq_recv := confirm_write (length bs) b\<rparr>) (buf_store (m_write_pos (rq_recv s)) bs (rq_recv s))"

definition on_received :: "'u conversation_handler \<Rightarrow> server_env \<Rightarrow> io_error \<Rightarrow> u8 list \<Rightarrow> 'u connection \<Rightarrow> 'u connection option" where
  "on_received handle_data env error bs c0 =
     (let c = c0\<lparr>cn_reading := False\<rparr> in
      case error of
        No_error \<Rightarrow> Option.bind (confirm_received bs (cn_request c)) (\<lambda>s.
          Option.bind (handle_data env s) (\<lambda>(reply, s').
          Option.bind (compact (rq_recv s')) (\<lambda>b.
            let c' = c\<lparr>cn_request := s'\<lparr>rq_recv := b\<rparr>\<rparr> in
            case reply of
              SEND_REPLY_AND_READ \<Rightarrow> async_receive_some env (async_send_all c')
            | READ_MORE \<Rightarrow> async_receive_some env c'
            | CLOSE_IMMEDIATELY \<Rightarrow> Some c')))
      | Message_size \<Rightarrow> Option.bind (confirm_received bs (cn_request c)) (\<lambda>s. async_receive_some env (c\<lparr>cn_request := s\<rparr>))
      | _ \<Rightarrow> Some c)"

definition on_sent :: "io_error \<Rightarrow> nat \<Rightarrow> 'u connection \<Rightarrow> 'u connection option" where
  "on_sent error bytes_sent c =
     (if error = No_error
      then map_option (\<lambda>b. c\<lparr>cn_request := (cn_request c)\<lparr>rq_send := b\<rparr>\<rparr>) (compact (snd (confirm_read bytes_sent (rq_send (cn_request c)))))
      else Some c)"

section \<open>The datagram server\<close>

text \<open>\<^verbatim>\<open>socket_datagram.h\<close>: the buffers with the cache, the sizes of the pending sends, and whether the server waits for a datagram.\<close>

record 'u datagram_server =
  dg_request :: "'u request"
  dg_receiving :: bool
  dg_sends :: "nat list"

definition datagram_async_receive :: "server_env \<Rightarrow> 'u datagram_server \<Rightarrow> 'u datagram_server option" where
  "datagram_async_receive env d = (case begin_write (env_realloc env) (default_min_buffer_size div 4) (rq_recv (dg_request d)) of
      (Inl _, _) \<Rightarrow> None
    | (Inr _, b) \<Rightarrow> Some (d\<lparr>dg_request := (dg_request d)\<lparr>rq_recv := b\<rparr>, dg_receiving := True\<rparr>))"

definition datagram_async_send_all :: "'u datagram_server \<Rightarrow> 'u datagram_server" where
  "datagram_async_send_all d = d\<lparr>dg_sends := dg_sends d @ [non_read (rq_send (dg_request d))]\<rparr>"

definition datagram_read_all :: "'u datagram_server \<Rightarrow> 'u datagram_server" where
  "datagram_read_all d = d\<lparr>dg_request := (dg_request d)\<lparr>rq_recv := snd (read_all (rq_recv (dg_request d)))\<rparr>\<rparr>"

definition on_datagram :: "server_env \<Rightarrow> io_error \<Rightarrow> u8 list \<Rightarrow> 'u datagram_server \<Rightarrow> 'u datagram_server option" where
  "on_datagram env error bs d0 =
     (let d = d0\<lparr>dg_receiving := False\<rparr> in
      Option.bind (confirm_received bs (dg_request d)) (\<lambda>s.
        case error of
          No_error \<Rightarrow> Option.bind (udp_handle_data env s) (\<lambda>(reply, s').
            let d' = d\<lparr>dg_request := s'\<rparr>; d'' = if reply = SEND_REPLY_AND_READ then datagram_async_send_all d' else d' in
            Option.bind (compact (rq_recv (dg_request d''))) (\<lambda>b.
              datagram_async_receive env (datagram_read_all (d''\<lparr>dg_request := (dg_request d'')\<lparr>rq_recv := b\<rparr>\<rparr>))))
        | Operation_aborted \<Rightarrow> Some (d\<lparr>dg_request := s\<rparr>)
        | _ \<Rightarrow> datagram_async_receive env (datagram_read_all (d\<lparr>dg_request := s\<rparr>))))"

definition on_datagram_sent :: "nat \<Rightarrow> 'u datagram_server \<Rightarrow> 'u datagram_server option" where
  "on_datagram_sent need_to_send d =
     map_option (\<lambda>b. d\<lparr>dg_request := (dg_request d)\<lparr>rq_send := b\<rparr>\<rparr>) (compact (snd (confirm_read need_to_send (rq_send (dg_request d)))))"

section \<open>Events\<close>

text \<open>The cache is shared: between two events of a connection another connection may have changed it.\<close>

datatype conn_event = Received "u8 list" | Receive_partial "u8 list" | Receive_failed | Transmitted nat nat | Sent nat | Send_failed nat | Elsewhere

definition take_bytes :: "nat \<Rightarrow> write_op \<Rightarrow> write_op" where
  "take_bytes k w = w\<lparr>wr_pos := wr_pos w + k, wr_left := wr_left w - k\<rparr>"

inductive conn_step :: "'u conversation_handler \<Rightarrow> server_env \<Rightarrow> 'u connection \<Rightarrow> conn_event \<Rightarrow> 'u connection \<Rightarrow> bool" for handle_data env where
  received: "cn_reading c \<Longrightarrow> bs \<noteq> [] \<Longrightarrow> length bs \<le> available (rq_recv (cn_request c)) \<Longrightarrow> on_received handle_data env No_error bs c = Some c'
    \<Longrightarrow> conn_step handle_data env c (Received bs) c'"
| receive_partial: "cn_reading c \<Longrightarrow> length bs \<le> available (rq_recv (cn_request c)) \<Longrightarrow> on_received handle_data env Message_size bs c = Some c'
    \<Longrightarrow> conn_step handle_data env c (Receive_partial bs) c'"
| receive_failed: "cn_reading c \<Longrightarrow> on_received handle_data env Other_error [] c = Some c' \<Longrightarrow> conn_step handle_data env c Receive_failed c'"
| transmitted: "i < length (cn_writes c) \<Longrightarrow> w = cn_writes c ! i \<Longrightarrow> k \<le> wr_left w
    \<Longrightarrow> buf_bytes (rq_send (cn_request c)) (slice_of_length (wr_pos w) k) = Some bs
    \<Longrightarrow> conn_step handle_data env c (Transmitted i k) (c\<lparr>cn_writes := (cn_writes c)[i := take_bytes k w], cn_wire := cn_wire c @ bs\<rparr>)"
| sent: "i < length (cn_writes c) \<Longrightarrow> w = cn_writes c ! i \<Longrightarrow> wr_left w = 0
    \<Longrightarrow> on_sent No_error (wr_total w) (c\<lparr>cn_writes := take i (cn_writes c) @ drop (Suc i) (cn_writes c)\<rparr>) = Some c'
    \<Longrightarrow> conn_step handle_data env c (Sent i) c'"
| send_failed: "i < length (cn_writes c)
    \<Longrightarrow> on_sent Other_error 0 (c\<lparr>cn_writes := take i (cn_writes c) @ drop (Suc i) (cn_writes c)\<rparr>) = Some c'
    \<Longrightarrow> conn_step handle_data env c (Send_failed i) c'"
| elsewhere: "conn_step handle_data env c Elsewhere (c\<lparr>cn_request := (cn_request c)\<lparr>rq_cache := ca\<rparr>\<rparr>)"

inductive_cases conn_stepE: "conn_step handle_data env c e c'"

text \<open>A client that waits for a reply before it sends the next request: bytes arrive only when no write is pending. The
  list holds what each event adds to the bytes to be sent. The environment, with its clock, is another one at each event.\<close>

inductive turns :: "'u conversation_handler \<Rightarrow> 'u connection \<Rightarrow> u8 list list \<Rightarrow> 'u connection \<Rightarrow> bool" for handle_data c where
  idle: "turns handle_data c [] c"
| request: "turns handle_data c ts c1 \<Longrightarrow> env_memory env \<Longrightarrow> cn_writes c1 = [] \<Longrightarrow> e \<in> {Received bs, Receive_partial bs}
    \<Longrightarrow> conn_step handle_data env c1 e c2 \<Longrightarrow> unread (rq_send (cn_request c2)) = unread (rq_send (cn_request c1)) @ t
    \<Longrightarrow> turns handle_data c (ts @ [t]) c2"
| other: "turns handle_data c ts c1 \<Longrightarrow> env_memory env \<Longrightarrow> e \<in> {Receive_failed, Transmitted i k, Sent i, Elsewhere}
    \<Longrightarrow> conn_step handle_data env c1 e c2 \<Longrightarrow> turns handle_data c ts c2"

section \<open>Invariant\<close>

definition transmitted_of :: "'u connection \<Rightarrow> nat" where
  "transmitted_of c = (case cn_writes c of [] \<Rightarrow> 0 | w # _ \<Rightarrow> wr_total w - wr_left w)"

definition unsent :: "'u connection \<Rightarrow> u8 list" where
  "unsent c = drop (transmitted_of c) (unread (rq_send (cn_request c)))"

definition conn_ok :: "'u connection \<Rightarrow> bool" where
  "conn_ok c \<longleftrightarrow> bufs_ok (cn_request c) \<and> \<not> m_killed c \<and> (case cn_writes c of
      [] \<Rightarrow> cn_reading c \<longrightarrow> unread (rq_send (cn_request c)) = []
    | w # ws \<Rightarrow> ws = [] \<and> wr_total w = non_read (rq_send (cn_request c)) \<and> wr_left w \<le> wr_total w
        \<and> wr_pos w + wr_left w = m_write_pos (rq_send (cn_request c)))"

section \<open>Each event keeps the invariant\<close>

lemma stream_replied:
  assumes "env_memory env" and "bufs_ok s" and "stream_handle_data env s = Some (reply, s')"
  shows "well_replied s reply s'"
proof -
  obtain r s1 where h: "handle_received_data env s = Some (r, s1)"
    using assms(3) by (auto simp: stream_handle_data_def)
  have "well_replied s CLOSE_IMMEDIATELY s" using assms(2) by (simp add: well_replied_def)
  then show ?thesis using received_replied [OF assms(1,2) h] h assms(3) by (auto simp: stream_handle_data_def split: sum.splits)
qed

lemma confirm_received_ok:
  assumes env: "env_memory env" and s: "bufs_ok s" and len: "length bs \<le> available (rq_recv s)"
  obtains b where "confirm_received bs s = Some (s\<lparr>rq_recv := b\<rparr>)" and "buffer_ok b" and "unread b = unread (rq_recv s) @ bs"
    and "m_max_size b = m_max_size (rq_recv s)" and "m_write_pos b = m_write_pos (rq_recv s) + length bs"
proof -
  let ?b = "rq_recv s"
  have ok: "buffer_ok ?b" and ra: "realloc_ok (env_realloc env)" using s env by (simp_all add: bufs_ok_def env_memory_def)
  have w: "buf_write (env_realloc env) (length bs) bs ?b
      = map_option (\<lambda>b'. (Inr (), confirm_write (length bs) b')) (buf_store (m_write_pos ?b) bs ?b)"
    using len by (simp add: buf_write_def begin_write_def ensure_capacity_def)
  from ok ra order_refl show ?thesis
  proof (cases rule: buf_write_ok [where src = bs])
    case (wrote b)
    then obtain b0 where "buf_store (m_write_pos ?b) bs ?b = Some b0" "b = confirm_write (length bs) b0" using w by auto
    moreover have "m_write_pos b = m_write_pos ?b + length bs" using buffer_okD(5) [OF wrote(2)] buffer_okD(5) [OF ok] wrote(3) by simp
    ultimately show ?thesis using that [of b] unread_written [OF ok wrote(3,4)] wrote(2,5) by (simp add: confirm_received_def)
  qed (use w in auto)
qed

lemma async_receive_some_ok:
  assumes "env_memory env" and "bufs_ok (cn_request c)" and "async_receive_some env c = Some c'"
  obtains b where "c' = c\<lparr>cn_request := (cn_request c)\<lparr>rq_recv := b\<rparr>, cn_reading := True\<rparr>" and "buffer_ok b"
proof -
  have ok: "buffer_ok (rq_recv (cn_request c))" and ra: "realloc_ok (env_realloc env)" using assms by (simp_all add: bufs_ok_def env_memory_def)
  from ok ra show ?thesis
  proof (cases rule: ensure_capacity_ok [where n = "default_min_buffer_size div 4"])
    case (enough b)
    then show ?thesis using that [of b] assms(3) by (simp add: async_receive_some_def begin_write_def)
  qed (use assms(3) in \<open>simp_all add: async_receive_some_def begin_write_def\<close>)
qed

lemma transmitted_ok:
  assumes c: "conn_ok c" and i: "i < length (cn_writes c)" "k \<le> wr_left (cn_writes c ! i)"
    and bs: "buf_bytes (rq_send (cn_request c)) (slice_of_length (wr_pos (cn_writes c ! i)) k) = Some bs"
    and c': "c' = c\<lparr>cn_writes := (cn_writes c)[i := take_bytes k (cn_writes c ! i)], cn_wire := cn_wire c @ bs\<rparr>"
  shows "conn_ok c'" and "unsent c = bs @ unsent c'"
proof -
  let ?b = "rq_send (cn_request c)"
  obtain w where w: "cn_writes c = [w]" using c i(1) by (auto simp: conn_ok_def split: list.splits)
  then have i0: "i = 0" using i(1) by simp
  have k: "k \<le> wr_left w" "wr_total w = non_read ?b" "wr_left w \<le> wr_total w" "wr_pos w + wr_left w = m_write_pos ?b" and ok: "buffer_ok ?b"
    using c i(2) w i0 by (auto simp: conn_ok_def bufs_ok_def)
  have pos: "wr_pos w = m_read_pos ?b + (wr_total w - wr_left w)" using k(2-4) buffer_okD(1) [OF ok] by (simp add: non_read_def)
  show "conn_ok c'" using c k w i0 by (simp add: conn_ok_def c' take_bytes_def)
  have "bs = take k (drop (wr_pos w) (written ?b))"
    using bs buf_bytes_written [OF ok, of "slice_of_length (wr_pos w) k"] k w i0 by (simp add: slice_of_length_def)
  then have "bs = take k (unsent c)" using pos w by (simp add: unsent_def transmitted_of_def unread_def add.commute)
  moreover have "unsent c' = drop k (unsent c)"
    using k(1,3) w i0 by (simp add: unsent_def transmitted_of_def c' take_bytes_def add.commute)
  ultimately show "unsent c = bs @ unsent c'" by simp
qed

lemma sent_ok:
  assumes c: "conn_ok c" and i: "i < length (cn_writes c)" "wr_left (cn_writes c ! i) = 0"
    and r: "on_sent No_error (wr_total (cn_writes c ! i)) (c\<lparr>cn_writes := take i (cn_writes c) @ drop (Suc i) (cn_writes c)\<rparr>) = Some c'"
  shows "conn_ok c'" and "unsent c' = unsent c" and "cn_wire c' = cn_wire c"
proof -
  let ?b = "rq_send (cn_request c)"
  obtain w where w: "cn_writes c = [w]" using c i(1) by (auto simp: conn_ok_def split: list.splits)
  then have i0: "i = 0" using i(1) by simp
  have ok: "buffer_ok ?b" and tot: "wr_total w = non_read ?b" using c w by (simp_all add: conn_ok_def bufs_ok_def)
  obtain sl b where cr: "confirm_read (wr_total w) ?b = (sl, b)" by (meson surj_pair)
  have b: "buffer_ok b" "unread b = []"
    using confirm_read_ok [OF ok _ cr] tot buffer_okD(6) [OF ok] by simp_all
  obtain b' where b': "compact b = Some b'" "buffer_ok b'" "unread b' = unread b" using compact_ok [OF b(1)] by blast
  have c': "c' = c\<lparr>cn_writes := [], cn_request := (cn_request c)\<lparr>rq_send := b'\<rparr>\<rparr>"
    using r w i0 cr b'(1) by (simp add: on_sent_def)
  show "conn_ok c'" using c b' b(2) by (simp add: conn_ok_def bufs_ok_def c')
  show "unsent c' = unsent c" using i(2) w i0 b' b(2) tot buffer_okD(6) [OF ok] by (simp add: unsent_def transmitted_of_def c')
  show "cn_wire c' = cn_wire c" by (simp add: c')
qed

text \<open>What a handler did to the cache and to the send buffer is what the connection is left with.\<close>

lemma received_outcome:
  assumes "on_received handle_data env No_error bs c = Some c'" and "confirm_received bs (cn_request c) = Some s" and "handle_data env s = Some (reply, s')"
  shows "rq_cache (cn_request c') = rq_cache s'" and "rq_send (cn_request c') = rq_send s'"
proof -
  have keep: "rq_send (cn_request c2) = rq_send (cn_request c1) \<and> rq_cache (cn_request c2) = rq_cache (cn_request c1)"
    if "async_receive_some env c1 = Some c2" for c1 c2 :: "'a connection"
    using that by (auto simp: async_receive_some_def split: prod.splits sum.splits)
  obtain x where "compact (rq_recv s') = Some x" using assms by (auto simp: on_received_def bind_eq_Some_conv)
  then show "rq_cache (cn_request c') = rq_cache s'" "rq_send (cn_request c') = rq_send s'"
    using assms by (cases reply; auto simp: on_received_def async_send_all_def Let_def dest!: keep split: if_splits)+
qed

section \<open>What a connection asks of a conversation\<close>

text \<open>The contract of \<^verbatim>\<open>handle_data\<close>: the buffers stay well-formed, a reply is appended to the send buffer as whole lines, and nothing is
  written when there is none.\<close>

locale conversation =
  fixes handle_data :: "'u conversation_handler"
  assumes replied: "env_memory env \<Longrightarrow> bufs_ok s \<Longrightarrow> handle_data env s = Some (reply, s') \<Longrightarrow> well_replied s reply s'"
begin

lemma received_ok:
  assumes env: "env_memory env" and c: "conn_ok c" and idle: "cn_writes c = []" "cn_reading c"
    and len: "length bs \<le> available (rq_recv (cn_request c))" and r: "on_received handle_data env e bs c = Some c'"
  shows "conn_ok c'" and "cn_wire c' = cn_wire c" and "transmitted_of c' = 0"
proof -
  have s: "bufs_ok (cn_request c)" and live: "\<not> m_killed c" and no: "unread (rq_send (cn_request c)) = []"
    using c idle by (simp_all add: conn_ok_def)
  obtain b where b: "confirm_received bs (cn_request c) = Some ((cn_request c)\<lparr>rq_recv := b\<rparr>)" "buffer_ok b"
    using confirm_received_ok [OF env s len] by blast
  let ?s = "(cn_request c)\<lparr>rq_recv := b\<rparr>"
  have s1: "bufs_ok ?s" using s b(2) by (simp add: bufs_ok_def)
  have "conn_ok c' \<and> cn_wire c' = cn_wire c \<and> transmitted_of c' = 0"
  proof (cases "e = Other_error \<or> e = Operation_aborted")
    case True
    then show ?thesis using r c idle by (auto simp: on_received_def conn_ok_def transmitted_of_def)
  next
    case False
    then consider "e = Message_size" | "e = No_error" by (cases e) simp_all
    then show ?thesis
    proof cases
      case 1
      note Message_size = 1
      from Message_size have a: "async_receive_some env (c\<lparr>cn_reading := False, cn_request := ?s\<rparr>) = Some c'" using r b(1) by (simp add: on_received_def)
      have q: "bufs_ok (cn_request (c\<lparr>cn_reading := False, cn_request := ?s\<rparr>))" using s1 by simp
      show ?thesis by (rule async_receive_some_ok [OF env q a]) (use s1 live no idle in \<open>simp add: conn_ok_def bufs_ok_def transmitted_of_def\<close>)
    next
      case 2
      note No_error = 2
      obtain reply s2 where h: "handle_data env ?s = Some (reply, s2)"
        using r b(1) No_error by (auto simp: on_received_def bind_eq_Some_conv)
      have w: "well_replied ?s reply s2" by (rule replied [OF env s1 h])
      have s2: "bufs_ok s2" "buffer_ok (rq_recv s2)" using w by (simp_all add: well_replied_def bufs_ok_def)
      obtain b2 where b2: "compact (rq_recv s2) = Some b2" "buffer_ok b2" using compact_ok [OF s2(2)] by blast
      let ?c = "c\<lparr>cn_reading := False, cn_request := s2\<lparr>rq_recv := b2\<rparr>\<rparr>"
      have s3: "bufs_ok (s2\<lparr>rq_recv := b2\<rparr>)" using s2(1) b2(2) by (simp add: bufs_ok_def)
      have quiet: "reply = READ_MORE \<Longrightarrow> unread (rq_send s2) = []"
        using w no by (auto simp: well_replied_def unread_def)
      have le: "m_read_pos (rq_send s2) \<le> m_write_pos (rq_send s2)" using s2(1) by (simp add: bufs_ok_def buffer_ok_def)
      show ?thesis
      proof (cases reply)
        case CLOSE_IMMEDIATELY
        then have "c' = ?c" using r b(1) b2(1) h No_error by (simp add: on_received_def)
        then show ?thesis using s3 live idle by (simp add: conn_ok_def transmitted_of_def)
      next
        case READ_MORE
        then have a: "async_receive_some env ?c = Some c'" using r b(1) b2(1) h No_error by (simp add: on_received_def)
        have q: "bufs_ok (cn_request ?c)" using s3 by simp
        show ?thesis by (rule async_receive_some_ok [OF env q a])
          (use s3 live quiet [OF READ_MORE] idle in \<open>simp add: conn_ok_def bufs_ok_def transmitted_of_def\<close>)
      next
        case SEND_REPLY_AND_READ
        then have a: "async_receive_some env (async_send_all ?c) = Some c'" using r b(1) b2(1) h No_error by (simp add: on_received_def)
        have q: "bufs_ok (cn_request (async_send_all ?c))" using s3 by (simp add: async_send_all_def Let_def)
        show ?thesis by (rule async_receive_some_ok [OF env q a])
          (use s3 live idle le in \<open>simp add: conn_ok_def bufs_ok_def transmitted_of_def async_send_all_def Let_def non_read_def\<close>)
      qed
    qed
  qed
  then show "conn_ok c'" "cn_wire c' = cn_wire c" "transmitted_of c' = 0" by simp_all
qed

lemma received_appends:
  assumes env: "env_memory env" and s: "bufs_ok (cn_request c)" and len: "length bs \<le> available (rq_recv (cn_request c))"
    and r: "on_received handle_data env e bs c = Some c'"
  obtains t where "unread (rq_send (cn_request c')) = unread (rq_send (cn_request c)) @ t"
proof -
  obtain b where b: "confirm_received bs (cn_request c) = Some ((cn_request c)\<lparr>rq_recv := b\<rparr>)" "buffer_ok b"
    using confirm_received_ok [OF env s len] by blast
  let ?s = "(cn_request c)\<lparr>rq_recv := b\<rparr>"
  have s1: "bufs_ok ?s" "buffer_ok (rq_send (cn_request c))" using s b(2) by (simp_all add: bufs_ok_def)
  have keep: "rq_send (cn_request c2) = rq_send (cn_request c1)" if "async_receive_some env c1 = Some c2" for c1 c2 :: "'u connection"
    using that by (auto simp: async_receive_some_def split: prod.splits sum.splits)
  have "rq_send (cn_request c') = rq_send (cn_request c) \<or> (\<exists>reply s'. handle_data env ?s = Some (reply, s') \<and> rq_send (cn_request c') = rq_send s')"
  proof (cases e)
    case No_error
    then obtain reply s' where h: "handle_data env ?s = Some (reply, s')"
      using r b(1) by (auto simp: on_received_def bind_eq_Some_conv)
    then show ?thesis using received_outcome(2) [OF r [unfolded No_error] b(1) h] by blast
  qed (use r b(1) in \<open>auto simp: on_received_def dest!: keep\<close>)
  then show ?thesis
  proof (elim disjE exE conjE)
    fix reply s' assume h: "handle_data env ?s = Some (reply, s')" and e: "rq_send (cn_request c') = rq_send s'"
    obtain t where "written (rq_send s') = written (rq_send ?s) @ t" "m_read_pos (rq_send s') = m_read_pos (rq_send ?s)"
      using replied [OF env s1(1) h] by (auto simp: well_replied_def)
    then have "unread (rq_send s') = unread (rq_send (cn_request c)) @ t" using unread_written [OF s1(2), of "rq_send s'" t] by simp
    then show ?thesis using that e by simp
  qed (use that in simp)
qed

lemma turns_ok:
  assumes c: "conn_ok c" and run: "turns handle_data c ts c'"
  shows "conn_ok c' \<and> cn_wire c' @ unsent c' = cn_wire c @ unsent c @ concat ts"
  using run
proof (induction rule: turns.induct)
  case idle
  then show ?case using c by simp
next
  case (request ts c1 env e bs c2 t)
  from request.hyps(4,5) obtain err where r: "cn_reading c1" "length bs \<le> available (rq_recv (cn_request c1))" "on_received handle_data env err bs c1 = Some c2"
    by (auto elim: conn_stepE)
  have ok1: "conn_ok c1" using request.IH by simp
  note ok = received_ok [OF request.hyps(2) ok1 request.hyps(3) r]
  have "unsent c2 = unsent c1 @ t" using ok(3) request.hyps(3,6) by (simp add: unsent_def transmitted_of_def)
  then show ?case using ok(1,2) request.IH by simp
next
  case (other ts c1 env e i k c2)
  have ok1: "conn_ok c1" using other.IH by simp
  have "conn_ok c2 \<and> cn_wire c2 @ unsent c2 = cn_wire c1 @ unsent c1"
    using other.hyps(4)
  proof (cases rule: conn_step.cases)
    case (transmitted j w n bs)
    note ok = transmitted_ok [OF ok1 transmitted(3) transmitted(5) [unfolded transmitted(4)] transmitted(6) [unfolded transmitted(4)]
      transmitted(2) [unfolded transmitted(4)]]
    then show ?thesis using transmitted(2) by simp
  next
    case (sent j w)
    show ?thesis using sent_ok [OF ok1 sent(2) sent(4) [unfolded sent(3)] sent(5) [unfolded sent(3)]] by simp
  next
    case receive_failed
    then show ?thesis using ok1 by (auto simp: on_received_def conn_ok_def unsent_def transmitted_of_def split: list.splits)
  next
    case (elsewhere ca)
    then show ?thesis using ok1 by (simp add: conn_ok_def bufs_ok_def unsent_def transmitted_of_def split: list.splits)
  qed (use other.hyps(3) in auto)
  then show ?case using other.IH by simp
qed

end

interpretation stream_conversation: conversation stream_handle_data
  by unfold_locales (rule stream_replied)

lemma new_connection_ok:
  assumes env: "env_memory env" "env_memory env'"
    and c: "stream_connection_new env rcvbuf_max sndbuf_max the_cache = Inr c0" "async_receive_some env' c0 = Some c"
  shows "conn_ok c" and "cn_wire c = []" and "unsent c = []"
proof -
  have ra: "realloc_ok (env_realloc env)" using env(1) by (simp add: env_memory_def)
  obtain rb sb where b: "io_buffer_new (env_realloc env) default_min_buffer_size rcvbuf_max = Inr rb" "io_buffer_new (env_realloc env) default_min_buffer_size sndbuf_max = Inr sb"
      "c0 = \<lparr>cn_request = \<lparr>rq_recv = rb, rq_send = sb, rq_cache = the_cache\<rparr>, m_killed = False, cn_reading = False, cn_writes = [], cn_wire = []\<rparr>"
    using c(1) by (auto simp: stream_connection_new_def split: sum.splits)
  note rb = buffer_new_ok [OF ra b(1)] and sb = buffer_new_ok [OF ra b(2)]
  have q: "bufs_ok (cn_request c0)" using rb(1) sb(1) b(3) by (simp add: bufs_ok_def)
  obtain x where x: "c = c0\<lparr>cn_request := (cn_request c0)\<lparr>rq_recv := x\<rparr>, cn_reading := True\<rparr>" "buffer_ok x"
    by (rule async_receive_some_ok [OF env(2) q c(2)])
  show "conn_ok c" using x sb(1-3) b(3) by (simp add: conn_ok_def bufs_ok_def unread_def)
  show "cn_wire c = []" "unsent c = []" using x sb(2,3) b(3) by (simp_all add: unsent_def unread_def)
qed

section \<open>Each datagram is handled alone\<close>

lemma begin_write_ok:
  assumes "buffer_ok b" and "env_memory env" and "begin_write (env_realloc env) n b = (Inr p, b')"
  shows "buffer_ok b'" and "written b' = written b" and "m_read_pos b' = m_read_pos b"
proof -
  have ra: "realloc_ok (env_realloc env)" using assms(2) by (simp add: env_memory_def)
  from assms(1) ra have "buffer_ok b' \<and> written b' = written b \<and> m_read_pos b' = m_read_pos b"
    by (cases rule: ensure_capacity_ok [where n = n]) (use assms(3) in \<open>simp_all add: begin_write_def\<close>)
  then show "buffer_ok b'" "written b' = written b" "m_read_pos b' = m_read_pos b" by simp_all
qed

lemma datagram_receive_ok:
  assumes env: "env_memory env" and d: "bufs_ok (dg_request d)" and r: "datagram_async_receive env (datagram_read_all d) = Some d'"
  shows "bufs_ok (dg_request d')" and "unread (rq_recv (dg_request d')) = []" and "rq_send (dg_request d') = rq_send (dg_request d)"
    and "dg_sends d' = dg_sends d"
proof -
  let ?b = "rq_recv (dg_request d)"
  have ok: "buffer_ok ?b" using d by (simp add: bufs_ok_def)
  obtain sl x where x: "read_all ?b = (sl, x)" by (meson surj_pair)
  note cr = confirm_read_ok [OF ok order_refl x [unfolded read_all_def]]
  have e: "unread x = []" using cr(2) buffer_okD(6) [OF ok] by simp
  obtain p y where y: "begin_write (env_realloc env) (default_min_buffer_size div 4) x = (Inr p, y)"
      "d' = (datagram_read_all d)\<lparr>dg_request := (dg_request (datagram_read_all d))\<lparr>rq_recv := y\<rparr>, dg_receiving := True\<rparr>"
    using r x by (auto simp: datagram_async_receive_def datagram_read_all_def split: prod.splits sum.splits)
  note bw = begin_write_ok [OF cr(1) env y(1)]
  show "bufs_ok (dg_request d')" using d bw(1) y(2) by (simp add: bufs_ok_def datagram_read_all_def)
  show "unread (rq_recv (dg_request d')) = []" using e bw(2,3) y(2) by (simp add: unread_def)
  show "rq_send (dg_request d') = rq_send (dg_request d)" "dg_sends d' = dg_sends d" using y(2) by (simp_all add: datagram_read_all_def)
qed

text \<open>A datagram leaves nothing unread for the next one, and a reply is scheduled as a whole.\<close>

lemma datagram_handled:
  assumes env: "env_memory env" and d: "bufs_ok (dg_request d)" and len: "length bs \<le> available (rq_recv (dg_request d))"
    and room: "m_write_pos (rq_send (dg_request d)) + 8 \<le> m_max_size (rq_send (dg_request d))"
    and r: "on_datagram env No_error bs d = Some d'"
  obtains reply where "bufs_ok (dg_request d')" and "unread (rq_recv (dg_request d')) = []"
    and "dg_sends d' = dg_sends d @ (if reply = SEND_REPLY_AND_READ then [non_read (rq_send (dg_request d'))] else [])"
proof -
  obtain b where b: "confirm_received bs (dg_request d) = Some ((dg_request d)\<lparr>rq_recv := b\<rparr>)" "buffer_ok b"
    using confirm_received_ok [OF env d len] by blast
  let ?s = "(dg_request d)\<lparr>rq_recv := b\<rparr>"
  have s: "bufs_ok ?s" using d b(2) by (simp add: bufs_ok_def)
  obtain reply s' where h: "udp_handle_data env ?s = Some (reply, s')"
    using r b(1) by (auto simp: on_datagram_def bind_eq_Some_conv)
  have s': "bufs_ok s'" using udp_buffers_ok [OF env s _ h] room by simp
  obtain b' where b': "compact (rq_recv s') = Some b'" "buffer_ok b'" using compact_ok [of "rq_recv s'"] s' by (auto simp: bufs_ok_def)
  define d1 where "d1 = (let d2 = d\<lparr>dg_receiving := False, dg_request := s'\<rparr> in if reply = SEND_REPLY_AND_READ then datagram_async_send_all d2 else d2)"
  have d1: "dg_request d1 = s'" "dg_sends d1 = dg_sends d @ (if reply = SEND_REPLY_AND_READ then [non_read (rq_send s')] else [])"
    by (simp_all add: d1_def datagram_async_send_all_def Let_def)
  let ?d = "d1\<lparr>dg_request := (dg_request d1)\<lparr>rq_recv := b'\<rparr>\<rparr>"
  have a: "datagram_async_receive env (datagram_read_all ?d) = Some d'"
    using r b(1) h b'(1) d1(1) by (simp add: on_datagram_def Let_def d1_def [unfolded Let_def, symmetric])
  have q: "bufs_ok (dg_request ?d)" using s' b'(2) d1(1) by (simp add: bufs_ok_def)
  show ?thesis using that [of reply] datagram_receive_ok [OF env q a] d1 by simp
qed

section \<open>Properties\<close>

text \<open>A client that waits for each reply gets the replies to its requests, whole and in order: what was transmitted followed by
  what waits to be sent is the sequence of the replies, however the writes are divided and whatever other connections do to the cache;
  when the server waits for the next request, everything has been transmitted.\<close>

theorem replies_in_order:
  assumes "env_memory env" and "stream_connection_new env rcvbuf_max sndbuf_max the_cache = Inr c0" and "async_receive_some env c0 = Some c"
    and "turns stream_handle_data c ts c'"
  shows "bufs_ok (cn_request c') \<and> cn_wire c' @ unsent c' = concat ts \<and> (cn_reading c' \<and> cn_writes c' = [] \<longrightarrow> cn_wire c' = concat ts)"
proof -
  note new = new_connection_ok [OF assms(1) assms(1-3)]
  have t: "conn_ok c'" "cn_wire c' @ unsent c' = concat ts" using stream_conversation.turns_ok [OF new(1) assms(4)] new(2,3) by simp_all
  then have "cn_reading c' \<and> cn_writes c' = [] \<longrightarrow> unsent c' = []" by (auto simp: conn_ok_def unsent_def)
  then show ?thesis using t by (auto simp: conn_ok_def)
qed

theorem replies_in_order_witness:
  "\<exists>(ca :: unit cache) c0 c c'. stream_connection_new (small_env 0) 1000 1000 ca = Inr c0 \<and> async_receive_some (small_env 0) c0 = Some c
    \<and> conn_step stream_handle_data (small_env 0) c (Received (ascii ''bogus'' @ CRLF)) c' \<and> cn_wire c' @ unsent c' = ascii ''ERROR'' @ CRLF"
proof -
  fix ca :: "unit cache"
  let ?env = "small_env 0" and ?bs = "ascii ''bogus'' @ CRLF"
  have "case stream_connection_new ?env 1000 1000 ca of Inl e \<Rightarrow> False | Inr c0 \<Rightarrow> (case async_receive_some ?env c0 of None \<Rightarrow> False | Some c \<Rightarrow>
      cn_reading c \<and> cn_writes c = [] \<and> unread (rq_send (cn_request c)) = [] \<and> length ?bs \<le> available (rq_recv (cn_request c))
      \<and> (case on_received stream_handle_data ?env No_error ?bs c of None \<Rightarrow> False | Some c' \<Rightarrow> unread (rq_send (cn_request c')) = ascii ''ERROR'' @ CRLF))"
    by code_simp
  then obtain c0 c c' where c: "stream_connection_new ?env 1000 1000 ca = Inr c0" "async_receive_some ?env c0 = Some c"
      "cn_reading c" "cn_writes c = []" "unread (rq_send (cn_request c)) = []" "length ?bs \<le> available (rq_recv (cn_request c))"
      "on_received stream_handle_data ?env No_error ?bs c = Some c'" "unread (rq_send (cn_request c')) = ascii ''ERROR'' @ CRLF"
    by (auto split: sum.splits option.splits)
  have st: "conn_step stream_handle_data ?env c (Received ?bs) c'" by (rule received [OF c(3) _ c(6,7)]) (simp add: CRLF_def)
  have "turns stream_handle_data c ([] @ [ascii ''ERROR'' @ CRLF]) c'"
    by (rule request [OF idle small_env_memory c(4) _ st]) (use c(5,8) in simp_all)
  from replies_in_order [OF small_env_memory c(1,2) this] show ?thesis using c(1,2) st by auto
qed

text \<open>C39: A client can end the server: when the receive buffer is full up to its last 125 bytes and holds no end of a line, the next
  read asks for room beyond the maximal size of the buffer, and the exception leaves a function that is \<^verbatim>\<open>noexcept\<close>.\<close>

theorem full_buffer_ends_server:
  assumes "env_memory env" and "bufs_ok (cn_request c)" and "length bs \<le> available (rq_recv (cn_request c))"
    and "u = unread (rq_recv (cn_request c)) @ bs" and "find_bytes CRLF u = None" and "u \<noteq> []" and "hd u \<noteq> MAGIC"
    and "m_max_size (rq_recv (cn_request c)) < length u + 125"
  shows "on_received stream_handle_data env No_error bs c = None"
proof -
  obtain b where b: "confirm_received bs (cn_request c) = Some ((cn_request c)\<lparr>rq_recv := b\<rparr>)" "buffer_ok b" "unread b = u"
      "m_max_size b = m_max_size (rq_recv (cn_request c))"
    using confirm_received_ok [OF assms(1-3)] assms(4) by blast
  let ?s = "(cn_request c)\<lparr>rq_recv := b\<rparr>"
  have ok: "bufs_ok ?s" using assms(2) b(2) by (simp add: bufs_ok_def)
  have h: "stream_handle_data env ?s = Some (READ_MORE, ?s)"
    using no_line_received [OF ok] b(3) assms(5-7) by (simp add: stream_handle_data_def)
  obtain b' where b': "compact b = Some b'" "buffer_ok b'" "unread b' = u" "m_read_pos b' = 0" "m_max_size b' = m_max_size b"
    using compact_ok [OF b(2)] b(3) by metis
  have "m_write_pos b' = length u" using buffer_okD(6) [OF b'(2)] b'(3,4) by (simp add: non_read_def)
  then have long: "m_max_size b' < m_write_pos b' + 125" using assms(8) b(4) b'(5) by simp
  have ra: "realloc_ok (env_realloc env)" using assms(1) by (simp add: env_memory_def)
  from b'(2) ra have "\<exists>e x. begin_write (env_realloc env) 125 b' = (Inl e, x)"
    by (cases rule: ensure_capacity_ok [where n = 125]) (use long in \<open>simp_all add: begin_write_def\<close>)
  then have "async_receive_some env (c\<lparr>cn_reading := False, cn_request := ?s\<lparr>rq_recv := b'\<rparr>\<rparr>) = None"
    by (auto simp: async_receive_some_def default_min_buffer_size_def)
  then show ?thesis using b(1) h b'(1) by (simp add: on_received_def)
qed

theorem full_buffer_ends_server_witness:
  "\<exists>c :: unit connection. bufs_ok (cn_request c) \<and> 20 \<le> available (rq_recv (cn_request c)) \<and> on_received stream_handle_data (small_env 0) No_error (replicate 20 97) c = None"
proof -
  fix ca :: "unit cache"
  define b where "b = \<lparr>m_max_size = 200, m_data = Some (replicate 200 97), m_capacity_of = 200, m_read_pos = 0, m_write_pos = 75\<rparr>"
  define c where "c = \<lparr>cn_request = \<lparr>rq_recv = b, rq_send = buffer_with [], rq_cache = ca\<rparr>, m_killed = False, cn_reading = True, cn_writes = [], cn_wire = []\<rparr>"
  have ok: "bufs_ok (cn_request c)" by (simp add: bufs_ok_def c_def b_def buffer_ok_def buffer_with_def)
  have u: "unread (rq_recv (cn_request c)) @ replicate 20 97 = replicate 95 97"
    by (simp add: c_def b_def unread_def written_def buf_data_def flip: replicate_add)
  have f: "find_bytes CRLF (replicate 95 97) = None" by (rule find_crlf_none) simp
  have "on_received stream_handle_data (small_env 0) No_error (replicate 20 97) c = None"
    using full_buffer_ends_server [OF small_env_memory [of 0] ok _ u [symmetric] f, of] by (simp add: c_def b_def available_def MAGIC_def)
  then show ?thesis using ok by (intro exI [of _ c]) (simp add: c_def b_def available_def)
qed

text \<open>A client that sends a request before it has the reply to the one before can get the reply twice: the second write begins where the
  first one, still pending, has begun.\<close>

theorem pipelined_reply_sent_twice:
  assumes "env_memory env" and "conn_ok c" and "cn_writes c = [w]" and "wr_left w = wr_total w" and "length bs \<le> available (rq_recv (cn_request c))"
    and "stream_handle_data env s = Some (SEND_REPLY_AND_READ, s')" and "confirm_received bs (cn_request c) = Some s"
    and "on_received stream_handle_data env No_error bs c = Some c'" and "written (rq_send s') = written (rq_send s) @ t"
  shows "\<exists>c1 c2. conn_step stream_handle_data env c' (Transmitted 0 (wr_left w)) c1 \<and> conn_step stream_handle_data env c1 (Transmitted 1 (wr_left w + length t)) c2
    \<and> cn_wire c2 = cn_wire c @ unread (rq_send (cn_request c)) @ unread (rq_send (cn_request c)) @ t"
proof -
  let ?b = "rq_send (cn_request c)" and ?b' = "rq_send s'"
  have q: "bufs_ok (cn_request c)" and wr: "wr_total w = non_read ?b" "wr_pos w + wr_left w = m_write_pos ?b"
    using assms(2,3) by (simp_all add: conn_ok_def)
  obtain r where s: "s = (cn_request c)\<lparr>rq_recv := r\<rparr>" "buffer_ok r" using confirm_received_ok [OF assms(1) q assms(5)] assms(7) by auto
  have sok: "bufs_ok s" "buffer_ok ?b" using s q by (simp_all add: bufs_ok_def)
  have s': "bufs_ok s'" "m_read_pos ?b' = m_read_pos ?b" using stream_replied [OF assms(1) sok(1) assms(6)] s(1) by (simp_all add: well_replied_def)
  have ok': "buffer_ok ?b'" using s'(1) by (simp add: bufs_ok_def)
  obtain r' where r': "compact (rq_recv s') = Some r'" "buffer_ok r'" using compact_ok [of "rq_recv s'"] s'(1) by (auto simp: bufs_ok_def)
  let ?c = "async_send_all (c\<lparr>cn_reading := False, cn_request := s'\<lparr>rq_recv := r'\<rparr>\<rparr>)"
  have a: "async_receive_some env ?c = Some c'" using assms(6-8) r'(1) by (simp add: on_received_def)
  have "bufs_ok (cn_request ?c)" using s'(1) r'(2) by (simp add: async_send_all_def Let_def bufs_ok_def)
  then obtain x where x: "c' = ?c\<lparr>cn_request := (cn_request ?c)\<lparr>rq_recv := x\<rparr>, cn_reading := True\<rparr>" by (rule async_receive_some_ok [OF assms(1) _ a])
  have k: "\<not> m_killed c" using assms(2) by (simp add: conn_ok_def)
  have u: "unread ?b' = unread ?b @ t" using unread_written [OF sok(2), of ?b' t] assms(9) s s'(2) by simp
  have len: "non_read ?b' = wr_left w + length t" "wr_left w = length (unread ?b)"
    using u buffer_okD(6) [OF sok(2)] buffer_okD(6) [OF ok'] wr(1) assms(4) by simp_all
  have pos: "wr_pos w = m_read_pos ?b'" using wr assms(4) buffer_okD(1) [OF sok(2)] s'(2) by (simp add: non_read_def)
  define w2 where "w2 = \<lparr>wr_pos = m_read_pos ?b', wr_left = wr_left w + length t, wr_total = wr_left w + length t\<rparr>"
  have c': "cn_writes c' = [w, w2]" "rq_send (cn_request c') = ?b'" "cn_wire c' = cn_wire c"
    using x k assms(3) len(1) by (simp_all add: async_send_all_def Let_def w2_def)
  have rd: "buf_bytes ?b' (slice_of_length (m_read_pos ?b') n) = Some (take n (unread ?b'))" if "n \<le> non_read ?b'" for n
    using buf_bytes_written [OF ok', of "slice_of_length (m_read_pos ?b') n"] that buffer_okD(1) [OF ok'] by (simp add: slice_of_length_def unread_def non_read_def)
  let ?c1 = "c'\<lparr>cn_writes := (cn_writes c')[0 := take_bytes (wr_left w) w], cn_wire := cn_wire c' @ unread ?b\<rparr>"
  have st1: "conn_step stream_handle_data env c' (Transmitted 0 (wr_left w)) ?c1"
    by (rule transmitted) (use c' rd [of "wr_left w"] pos u len in simp_all)
  let ?c2 = "?c1\<lparr>cn_writes := (cn_writes ?c1)[1 := take_bytes (wr_left w + length t) w2], cn_wire := cn_wire ?c1 @ unread ?b @ t\<rparr>"
  have st2: "conn_step stream_handle_data env ?c1 (Transmitted 1 (wr_left w + length t)) ?c2"
    by (rule transmitted) (use c' rd [of "wr_left w + length t"] u len in \<open>simp_all add: w2_def\<close>)
  show ?thesis using st1 st2 c'(3) by (intro exI [of _ ?c1] exI [of _ ?c2]) simp
qed

end
