(* ===== verification/Settings.thy ===== *)
theory Settings imports Cache_Props begin

text \<open>
  \<^verbatim>\<open>settings.h\<close> and the command line of \<^verbatim>\<open>main.cpp\<close>: the default settings, the sizes with their units, the checks, and
  the creation of the cache with what they let through. The options as \<^verbatim>\<open>boost::program_options\<close> finds them are an argument, each
  given at most once, and so is \<^verbatim>\<open>boost::lexical_cast\<close>, which is \<open>None\<close> where it throws.
\<close>

section \<open>Settings\<close>

definition Kilobyte :: u64 where
  "Kilobyte = 1024"

definition Megabyte :: u64 where
  "Megabyte = Kilobyte * 1024"

definition Gigabyte :: u64 where
  "Gigabyte = Megabyte * 1024"

record cache_settings =
  st_memory_limit :: u64
  st_page_size :: u64
  st_initial_hash_table_size :: u64
  st_has_CAS :: bool
  st_has_evictions :: bool

record net_settings =
  st_number_of_threads :: u64
  st_has_TCP :: bool
  st_listen_interface :: string
  st_TCP_port :: u16
  st_has_UDP :: bool
  st_UDP_port :: u16
  st_has_unix_socket :: bool
  st_unix_socket :: string
  st_unix_socket_access :: u32
  st_initial_rcv_buffer_size :: u64
  st_initial_snd_buffer_size :: u64
  st_max_rcv_buffer_size :: u64
  st_max_snd_buffer_size :: u64

record settings =
  st_cache :: cache_settings
  st_net :: net_settings

definition default_settings :: settings where
  "default_settings = \<lparr>
     st_cache = \<lparr>st_memory_limit = 64 * Megabyte, st_page_size = 1 * Megabyte, st_initial_hash_table_size = 65536,
       st_has_CAS = True, st_has_evictions = True\<rparr>,
     st_net = \<lparr>st_number_of_threads = 4, st_has_TCP = True, st_listen_interface = ''localhost'', st_TCP_port = 11211,
       st_has_UDP = True, st_UDP_port = 11211, st_has_unix_socket = False, st_unix_socket = '''', st_unix_socket_access = 448,
       st_initial_rcv_buffer_size = 2048, st_initial_snd_buffer_size = 2048,
       st_max_rcv_buffer_size = 32 * 1024 * 1024, st_max_snd_buffer_size = 32 * 1024 * 1024\<rparr>\<rparr>"

section \<open>The command line\<close>

datatype config_error = Invalid_configuration string | Invalid_option_value string

type_synonym lexical_cast = "string \<Rightarrow> u64 option"

text \<open>The last character of an empty text is out of its range: \<open>None\<close>.\<close>

definition validate :: "lexical_cast \<Rightarrow> string \<Rightarrow> (config_error + u64) option" where
  "validate lexical_cast s0 =
     (if s0 = '''' then None
      else Some (let (units, s) =
          (if last s0 = CHR ''K'' then (Kilobyte, butlast s0)
           else if last s0 = CHR ''M'' then (Megabyte, butlast s0)
           else if last s0 = CHR ''G'' then (Gigabyte, butlast s0)
           else (Megabyte, s0)) in
        case lexical_cast s of
          None \<Rightarrow> Inl (Invalid_option_value s)
        | Some n \<Rightarrow>
            let memory_amount = n * units in
            if memory_amount = 0 then Inl (Invalid_configuration ''zero memory amount'')
            else if \<not> ispow2 memory_amount then Inl (Invalid_configuration ''memory amount must be power of 2'')
            else Inr memory_amount))"

text \<open>The options given, sizes as their text.\<close>

record varmap =
  vm_help :: bool
  vm_version :: bool
  vm_tcp_port :: "u16 option"
  vm_udp_port :: "u16 option"
  vm_socket :: "string option"
  vm_oum_error :: bool
  vm_no_cas :: bool
  vm_memory :: "string option"
  vm_page :: "string option"
  vm_hashtable :: "u64 option"

definition validate_option :: "lexical_cast \<Rightarrow> string option \<Rightarrow> (config_error + u64 option) option" where
  "validate_option lexical_cast opt = (case opt of
      None \<Rightarrow> Some (Inr None)
    | Some s \<Rightarrow> map_option (map_sum id Some) (validate lexical_cast s))"

definition net_options :: "varmap \<Rightarrow> net_settings \<Rightarrow> net_settings" where
  "net_options varmap net =
     (let net = net\<lparr>st_TCP_port := case_option (st_TCP_port net) id (vm_tcp_port varmap)\<rparr>;
          net = net\<lparr>st_has_TCP := st_TCP_port net \<noteq> 0\<rparr>;
          net = net\<lparr>st_UDP_port := case_option (st_UDP_port net) id (vm_udp_port varmap)\<rparr>;
          net = net\<lparr>st_has_UDP := st_UDP_port net \<noteq> 0\<rparr>;
          net = net\<lparr>st_unix_socket := case_option (st_unix_socket net) id (vm_socket varmap)\<rparr>
      in net\<lparr>st_has_unix_socket := st_unix_socket net \<noteq> ''''\<rparr>)"

definition cache_options :: "varmap \<Rightarrow> u64 option \<Rightarrow> u64 option \<Rightarrow> cache_settings \<Rightarrow> config_error + cache_settings" where
  "cache_options varmap memory page st =
     (let st = st\<lparr>st_has_evictions := \<not> vm_oum_error varmap, st_has_CAS := \<not> vm_no_cas varmap\<rparr>;
          st = st\<lparr>st_memory_limit := case_option (st_memory_limit st) id memory\<rparr>;
          st = st\<lparr>st_page_size := case_option (st_page_size st) id page\<rparr>
      in if st_memory_limit st < st_page_size st * 4 then Inl (Invalid_configuration ''There must be at least 4 pages'')
      else if 2 * Gigabyte < st_page_size st then Inl (Invalid_configuration ''Maximal page size is 2Gb'')
      else let st = st\<lparr>st_initial_hash_table_size := case_option (st_initial_hash_table_size st) id (vm_hashtable varmap)\<rparr>
        in if \<not> ispow2 (st_initial_hash_table_size st)
           then Inl (Invalid_configuration (''the argument for option '' @ [CHR 0x27] @ ''--hashtable'' @ [CHR 0x27] @ '' must be power of 2''))
           else Inr st)"

text \<open>The sizes are validated while the options are stored, before anything else is looked at. When both are bad, the error of the
  memory stands for the one that comes first on the command line; \<^verbatim>\<open>main\<close> ends in the same way.\<close>

definition EXIT_SUCCESS :: int where
  "EXIT_SUCCESS = 0"

definition EXIT_FAILURE :: int where
  "EXIT_FAILURE = 1"

definition parse_cmdline :: "lexical_cast \<Rightarrow> varmap \<Rightarrow> settings \<Rightarrow> (config_error + (int \<times> settings)) option" where
  "parse_cmdline lexical_cast varmap st =
     Option.bind (validate_option lexical_cast (vm_memory varmap)) (\<lambda>memory.
     Option.bind (validate_option lexical_cast (vm_page varmap)) (\<lambda>page.
       Some (case (memory, page) of
           (Inl e, _) \<Rightarrow> Inl e
         | (Inr _, Inl e) \<Rightarrow> Inl e
         | (Inr memory, Inr page) \<Rightarrow>
             if vm_help varmap then Inr (EXIT_FAILURE, st)
             else if vm_version varmap then Inr (EXIT_FAILURE, st)
             else (case cache_options varmap memory page (st_cache st) of
                 Inl e \<Rightarrow> Inl e
               | Inr ca \<Rightarrow> Inr (EXIT_SUCCESS, st\<lparr>st_cache := ca, st_net := net_options varmap (st_net st)\<rparr>)))))"

section \<open>The start of the server\<close>

text \<open>\<^verbatim>\<open>main\<close> up to the creation of the cache: the process ends with an exit code, or it goes on with settings and cache.\<close>

datatype 'u started = Exit int | Serving settings "'u cache"

definition main_start ::
  "lexical_cast \<Rightarrow> varmap \<Rightarrow> nat option \<Rightarrow> headers \<Rightarrow> item_mem \<Rightarrow> (mem_stat \<Rightarrow> u64) \<Rightarrow> (cache_stat \<Rightarrow> u64) \<Rightarrow> nat fresh_arrays \<Rightarrow> 'u \<Rightarrow> 'u started option" where
  "main_start lexical_cast varmap arena h mem mst cst fresh user =
     Option.bind (parse_cmdline lexical_cast varmap default_settings) (\<lambda>r. case r of
         Inl _ \<Rightarrow> Some (Exit EXIT_FAILURE)
       | Inr (code, st) \<Rightarrow>
           if code \<noteq> 0 then Some (Exit EXIT_FAILURE)
           else map_option (\<lambda>r. case r of Inl _ \<Rightarrow> Exit EXIT_FAILURE | Inr the_cache \<Rightarrow> Serving st the_cache)
             (Cache_Create arena h mem mst cst fresh user (st_memory_limit (st_cache st)) (st_page_size (st_cache st))
               (st_initial_hash_table_size (st_cache st)) (st_has_evictions (st_cache st))))"

text \<open>A command line with the one option \<^verbatim>\<open>-U 0\<close>, and the settings it gives.\<close>

definition plain_options :: varmap where
  "plain_options = \<lparr>vm_help = False, vm_version = False, vm_tcp_port = None, vm_udp_port = Some 0, vm_socket = None,
      vm_oum_error = False, vm_no_cas = False, vm_memory = None, vm_page = None, vm_hashtable = None\<rparr>"

definition plain_settings :: settings where
  "plain_settings = default_settings\<lparr>st_net := net_options plain_options (st_net default_settings)\<rparr>"

section \<open>What the checks let through\<close>

text \<open>A size that is accepted: a power of two of at least a kilobyte.\<close>

definition size_ok :: "u64 \<Rightarrow> bool" where
  "size_ok n \<longleftrightarrow> (\<exists>k. 10 \<le> k \<and> k < 64 \<and> unat n = 2 ^ k)"

lemma unit_dvd: "1024 dvd unat (n * units)" if "units \<in> {Kilobyte, Megabyte, Gigabyte}" for n units :: u64
proof -
  have "1024 dvd unat units" using that by (auto simp: Kilobyte_def Megabyte_def Gigabyte_def)
  then have "1024 dvd unat n * unat units" by simp
  moreover have "(1024 :: nat) dvd 2 ^ 64" by simp
  ultimately show ?thesis unfolding unat_word_ariths by (intro dvd_mod) simp_all
qed

lemma power_size_ok:
  assumes "ispow2 n" and "n \<noteq> 0" and "1024 dvd unat n"
  shows "size_ok n"
proof -
  obtain k where k: "k < 64" "n = pow2 k" using assms(1,2) by (auto simp: ispow2_iff)
  then have u: "unat n = 2 ^ k" by (simp add: unat_pow2)
  have "(2 :: nat) ^ 10 dvd 2 ^ k" using assms(3) u by simp
  then have "10 \<le> k" by (rule power_dvd_imp_le) simp
  then show ?thesis using k(1) u by (auto simp: size_ok_def)
qed

lemma validate_ok: "validate lexical_cast s = Some (Inr n) \<Longrightarrow> size_ok n"
  by (rule power_size_ok) (auto simp: validate_def Let_def intro: unit_dvd split: if_splits option.splits)

lemma default_sizes_ok: "size_ok (st_memory_limit (st_cache default_settings))" "size_ok (st_page_size (st_cache default_settings))"
  by (rule power_size_ok; simp add: default_settings_def ispow2_def Megabyte_def Kilobyte_def)+

lemma cache_options_ok:
  assumes "cache_options varmap memory page st = Inr st'"
  shows "st_memory_limit st' = case_option (st_memory_limit st) id memory" and "st_page_size st' = case_option (st_page_size st) id page"
    and "\<not> st_memory_limit st' < st_page_size st' * 4" and "\<not> 2 * Gigabyte < st_page_size st'" and "ispow2 (st_initial_hash_table_size st')"
  using assms by (cases memory; cases page; cases "vm_hashtable varmap"; auto simp: cache_options_def Let_def split: if_splits)+

lemma accepted_options:
  assumes p: "parse_cmdline lexical_cast varmap default_settings = Some (Inr (EXIT_SUCCESS, st))"
  obtains m pg where "validate_option lexical_cast (vm_memory varmap) = Some (Inr m)" and "validate_option lexical_cast (vm_page varmap) = Some (Inr pg)"
    and "cache_options varmap m pg (st_cache default_settings) = Inr (st_cache st)" and "st_net st = net_options varmap (st_net default_settings)"
proof -
  obtain y z where yz: "validate_option lexical_cast (vm_memory varmap) = Some y" "validate_option lexical_cast (vm_page varmap) = Some z"
    using p by (auto simp: parse_cmdline_def bind_eq_Some_conv)
  then obtain m pg where "y = Inr m" "z = Inr pg" using p by (cases y; cases z) (auto simp: parse_cmdline_def)
  then show ?thesis using that yz p
    by (cases "cache_options varmap m pg (st_cache default_settings)")
      (auto simp: parse_cmdline_def EXIT_SUCCESS_def EXIT_FAILURE_def split: if_splits)
qed

lemma accepted_sizes:
  assumes p: "parse_cmdline lexical_cast varmap default_settings = Some (Inr (EXIT_SUCCESS, st))"
  obtains j k where "unat (st_memory_limit (st_cache st)) = 2 ^ j" and "unat (st_page_size (st_cache st)) = 2 ^ k"
    and "10 \<le> k" and "k \<le> 31" and "k + 2 \<le> j" and "j < 64" and "ispow2 (st_initial_hash_table_size (st_cache st))"
proof -
  let ?lim = "st_memory_limit (st_cache st)" and ?page = "st_page_size (st_cache st)"
  obtain m pg where m: "validate_option lexical_cast (vm_memory varmap) = Some (Inr m)" "validate_option lexical_cast (vm_page varmap) = Some (Inr pg)"
      "cache_options varmap m pg (st_cache default_settings) = Inr (st_cache st)"
    by (rule accepted_options [OF p])
  have opt: "size_ok (case_option d id x)" if v: "validate_option lexical_cast y = Some (Inr x)" and d: "size_ok d" for d x y
  proof (cases y)
    case (Some v)
    then obtain r where r: "validate lexical_cast v = Some r" "map_sum id Some r = Inr x" using v by (auto simp: validate_option_def)
    then obtain n where "r = Inr n" "x = Some n" by (cases r) simp_all
    then show ?thesis using validate_ok r(1) by simp
  qed (use v d in \<open>auto simp: validate_option_def\<close>)
  have sizes: "size_ok ?lim" "size_ok ?page" "\<not> ?lim < ?page * 4" "\<not> 2 * Gigabyte < ?page" "ispow2 (st_initial_hash_table_size (st_cache st))"
    using cache_options_ok [OF m(3)] opt [OF m(1) default_sizes_ok(1)] opt [OF m(2) default_sizes_ok(2)] by simp_all
  obtain j k where jk: "10 \<le> k" "unat ?page = 2 ^ k" "j < 64" "unat ?lim = 2 ^ j" using sizes(1,2) by (auto simp: size_ok_def)
  have p31: "(2 :: nat) ^ k \<le> 2 ^ 31" using sizes(4) jk(2) by (simp add: word_less_nat_alt Gigabyte_def Megabyte_def Kilobyte_def)
  then have k31: "k \<le> 31" by (rule power_le_imp_le_exp [rotated]) simp
  from p31 have "unat (?page * 4) = 2 ^ (k + 2)" using jk(2) by (simp add: unat_word_ariths)
  then have "(2 :: nat) ^ (k + 2) \<le> 2 ^ j" using sizes(3) jk(4) by (simp add: word_less_nat_alt)
  then have "k + 2 \<le> j" by (rule power_le_imp_le_exp [rotated]) simp
  then show ?thesis using that jk k31 sizes(5) by blast
qed

lemma server_started:
  assumes "parse_cmdline lexical_cast varmap default_settings = Some (Inr (EXIT_SUCCESS, st))"
    and "st_memory_limit (st_cache st) \<le> 2 ^ 32" and "st_initial_hash_table_size (st_cache st) \<noteq> 0" and "st_initial_hash_table_size (st_cache st) \<le> 2 ^ 30"
    and "unat (st_page_size (st_cache st)) dvd arena" and "arena + unat (st_memory_limit (st_cache st)) \<le> 2 ^ 62" and "mst mem_used_memory = 0"
    and "fresh_limited fresh" and "fresh (ucast (st_initial_hash_table_size (st_cache st))) \<noteq> None"
  obtains c where "main_start lexical_cast varmap (Some arena) h mem mst cst fresh user = Some (Serving st c)"
    and "cache_ok (unat (st_page_size (st_cache st))) hf {} c" and "cached c = Map.empty" and "m_secondary_tbl (m_dict c) = None"
    and "1024 \<le> st_page_size (st_cache st)" and "4 * unat (st_page_size (st_cache st)) \<le> unat (st_memory_limit (st_cache st))"
    and "st_page_size (st_cache st) \<le> 2 ^ 31"
proof -
  let ?lim = "st_memory_limit (st_cache st)" and ?page = "st_page_size (st_cache st)" and ?dsz = "st_initial_hash_table_size (st_cache st)"
  obtain j k where jk: "unat ?lim = 2 ^ j" "unat ?page = 2 ^ k" "10 \<le> k" "k \<le> 31" "k + 2 \<le> j" "ispow2 ?dsz" using accepted_sizes [OF assms(1)] by blast
  obtain i where i: "i < 64" "?dsz = pow2 i" using jk(6) assms(3) by (auto simp: ispow2_iff)
  have ui: "unat ?dsz = 2 ^ i" using i by (simp add: unat_pow2)
  have le2: "(2 :: nat) ^ i \<le> 2 ^ 30" "(2 :: nat) ^ j \<le> 2 ^ 32" using assms(2,4) ui jk(1) by (simp_all add: word_le_nat_alt)
  have le: "i \<le> 30" "j \<le> 32" by (rule power_le_imp_le_exp [OF _ le2(1)], simp) (rule power_le_imp_le_exp [OF _ le2(2)], simp)
  have k8: "8 \<le> k" using jk(3) by simp
  have f: "fresh (pow2 i) \<noteq> None"
  proof -
    have "unat (ucast ?dsz :: u32) = unat (pow2 i :: u32)"
      using create_checks(11) [OF jk(2) k8 jk(4) jk(1) jk(5) le(2) ui le(1)] le(1) by (simp add: unat_pow2)
    then have "(ucast ?dsz :: u32) = pow2 i" by (simp add: word_unat_eq_iff)
    then show ?thesis using assms(9) by simp
  qed
  obtain c where c: "Cache_Create (Some arena) h mem mst cst fresh user ?lim ?page ?dsz (st_has_evictions (st_cache st)) = Some (Inr c)"
      "cache_ok (2 ^ k) hf {} c" "cached c = Map.empty" "m_secondary_tbl (m_dict c) = None"
    by (rule cache_created [of ?page k ?lim j ?dsz i arena mst fresh])
      (use jk k8 le ui assms(5-8) f in simp_all)
  have "main_start lexical_cast varmap (Some arena) h mem mst cst fresh user = Some (Serving st c)"
    using assms(1) c(1) by (simp add: main_start_def EXIT_SUCCESS_def)
  moreover have "1024 \<le> ?page" using jk(2,3) power_increasing [OF jk(3), of "2 :: nat"] by (simp add: word_le_nat_alt)
  moreover have "4 * unat ?page \<le> unat ?lim" using jk(1,2) power_increasing [OF jk(5), of "2 :: nat"] by simp
  moreover have "?page \<le> 2 ^ 31" using jk(2) power_increasing [OF jk(4), of "2 :: nat"] by (simp add: word_le_nat_alt)
  ultimately show ?thesis using that [of c] c(2-4) jk(2) by simp
qed

text \<open>The command line does not change the sizes of the buffers.\<close>

lemma buffer_sizes:
  assumes "parse_cmdline lexical_cast varmap default_settings = Some (Inr (EXIT_SUCCESS, st))"
  shows "unat (st_max_rcv_buffer_size (st_net st)) = 2 ^ 25" and "unat (st_max_snd_buffer_size (st_net st)) = 2 ^ 25"
proof -
  have "st_net st = net_options varmap (st_net default_settings)"
    by (rule accepted_options [OF assms])
  then show "unat (st_max_rcv_buffer_size (st_net st)) = 2 ^ 25" "unat (st_max_snd_buffer_size (st_net st)) = 2 ^ 25"
    by (simp_all add: net_options_def default_settings_def Let_def)
qed

lemma plain_start:
  shows "parse_cmdline lexical_cast plain_options default_settings = Some (Inr (EXIT_SUCCESS, plain_settings))"
    and "st_memory_limit (st_cache plain_settings) = 2 ^ 26" and "st_page_size (st_cache plain_settings) = 2 ^ 20"
    and "st_initial_hash_table_size (st_cache plain_settings) = 65536"
    and "small_fresh (ucast (st_initial_hash_table_size (st_cache plain_settings))) \<noteq> None"
  by (simp_all add: plain_settings_def plain_options_def parse_cmdline_def validate_option_def cache_options_def default_settings_def Let_def
      Gigabyte_def Megabyte_def Kilobyte_def ispow2_def small_fresh_def zero_fresh_def)

section \<open>Properties\<close>

text \<open>C23: With every command line that is accepted, up to 4 GiB of memory and a table of a size between 1 and \<open>2 ^ 30\<close>, the server starts with a
  well-formed empty cache: the checks of the command line imply every check made when the cache is created. Pages have 1 KiB to 2 GiB and
  there are at least four.\<close>

theorem accepted_settings_start:
  assumes "parse_cmdline lexical_cast varmap default_settings = Some (Inr (EXIT_SUCCESS, st))"
    and "st_memory_limit (st_cache st) \<le> 2 ^ 32" and "st_initial_hash_table_size (st_cache st) \<noteq> 0" and "st_initial_hash_table_size (st_cache st) \<le> 2 ^ 30"
    and "unat (st_page_size (st_cache st)) dvd arena" and "arena + unat (st_memory_limit (st_cache st)) \<le> 2 ^ 62" and "mst mem_used_memory = 0"
    and "fresh_limited fresh" and "fresh (ucast (st_initial_hash_table_size (st_cache st))) \<noteq> None"
  shows "\<exists>c. main_start lexical_cast varmap (Some arena) h mem mst cst fresh user = Some (Serving st c)
    \<and> cache_ok (unat (st_page_size (st_cache st))) hf {} c \<and> cached c = Map.empty
    \<and> 1024 \<le> st_page_size (st_cache st) \<and> 4 * unat (st_page_size (st_cache st)) \<le> unat (st_memory_limit (st_cache st))"
  by (rule server_started [where mst = mst and fresh = fresh and h = h and mem = mem and cst = cst and user = user and hf = hf, OF assms]) auto

theorem accepted_settings_start_witness:
  "\<exists>(c :: unit cache). main_start (\<lambda>_. None) plain_options (Some (2 ^ 20)) (\<lambda>_. block_new 0 0) blank (\<lambda>_. 0) (\<lambda>_. 0) small_fresh () = Some (Serving plain_settings c)
    \<and> cache_ok (2 ^ 20) fnv1a_32 {} c \<and> st_has_TCP (st_net plain_settings) \<and> \<not> st_has_UDP (st_net plain_settings)"
proof -
  note p = plain_start(1) [of "\<lambda>_. None"] and size = plain_start(2-4)
  obtain c :: "unit cache" where "main_start (\<lambda>_. None) plain_options (Some (2 ^ 20)) (\<lambda>_. block_new 0 0) blank (\<lambda>_. 0) (\<lambda>_. 0) small_fresh () = Some (Serving plain_settings c)"
      "cache_ok (unat (st_page_size (st_cache plain_settings))) fnv1a_32 {} c"
    using accepted_settings_start [OF p _ _ _ _ _ _ small_fresh_ok(1) plain_start(5), of "2 ^ 20" "\<lambda>_. 0" "\<lambda>_. block_new 0 0" blank "\<lambda>_. 0" "()" fnv1a_32]
    by (auto simp: size)
  moreover have "unat (st_page_size (st_cache plain_settings)) = 2 ^ 20" by (simp add: size)
  moreover have "st_has_TCP (st_net plain_settings)" "\<not> st_has_UDP (st_net plain_settings)"
    by (simp_all add: plain_settings_def plain_options_def net_options_def default_settings_def)
  ultimately show ?thesis by auto
qed

text \<open>A size that does not fit 64 bits wraps around, and what is left is accepted when it is a power of two.\<close>

theorem memory_amount_wraps:
  "lexical_cast ''18014398509481985'' = Some 18014398509481985 \<Longrightarrow> validate lexical_cast ''18014398509481985K'' = Some (Inr 1024)"
  by (simp add: validate_def Kilobyte_def ispow2_def)

end
