(* ===== verification/Print_Stats.thy ===== *)
theory Print_Stats imports Proto_Ascii begin

text \<open>
  \<^verbatim>\<open>PrintStats\<close> of \<^verbatim>\<open>stats.cpp\<close>: the text it writes to the standard output, a line per counter with the descriptions of \<^verbatim>\<open>stats.h\<close>.
\<close>

section \<open>Lines\<close>

text \<open>\<^verbatim>\<open>std::setw\<close> with \<^verbatim>\<open>std::left\<close>: the text is filled up at its right, a longer one is not cut.\<close>

definition set_width :: "nat \<Rightarrow> u8 \<Rightarrow> u8 list \<Rightarrow> u8 list" where
  "set_width w fill text = text @ replicate (w - length text) fill"

definition print_stat :: "string \<Rightarrow> string \<Rightarrow> u8 list \<Rightarrow> string \<Rightarrow> u8 list" where
  "print_stat stat_group stat_name stat_value stat_description =
     ascii stat_group @ ascii '':'' @ set_width 40 46 (ascii stat_name) @ SPACE # set_width 14 SPACE stat_value @ ascii stat_description @ [10]"

text \<open>A description that begins with the name of a command in quotes.\<close>

definition of_command :: "string \<Rightarrow> string \<Rightarrow> string" where
  "of_command name what = CHR 0x27 # name @ CHR 0x27 # CHR '' '' # what"

definition cache_stat_descriptions :: "string list" where
  "cache_stat_descriptions =
     [of_command ''get'' ''commands'', of_command ''get'' ''cache hits'', of_command ''get'' ''cache misses'',
      of_command ''set'' ''commands'', of_command ''set'' ''inserts '', of_command ''set'' ''updates'',
      of_command ''add'' ''commands'', of_command ''add'' ''inserts'', of_command ''add'' ''rejects'',
      of_command ''replace'' ''commands'', of_command ''replace'' ''updates'', of_command ''replace'' ''cache misses'',
      of_command ''cas'' ''commands'', of_command ''cas'' ''cache misses'', of_command ''cas'' ''updates'',
      of_command ''cas'' ''reject'', of_command ''delete'' ''commands'', of_command ''delete'' ''cache hits'',
      of_command ''delete'' ''cache misses'', of_command ''touch'' ''commands'', of_command ''touch'' ''cache hits'',
      of_command ''touch'' ''cache misses'', of_command ''incr'' ''commands'', of_command ''incr'' ''cache hits'',
      of_command ''incr'' ''cache misses'', of_command ''decr'' ''commands'', of_command ''decr'' ''cache hits'',
      of_command ''decr'' ''cache misses'', of_command ''append'' ''commands'', of_command ''append'' ''updates'',
      of_command ''append'' ''cache misses'', of_command ''prepend'' ''commands'', of_command ''prepend'' ''updates'',
      of_command ''prepend'' ''cache misses'', of_command ''flush_all'' ''commands'', ''capacity of the hash table'',
      ''number of items in the cache'']"

definition mem_stat_descriptions :: "string list" where
  "mem_stat_descriptions =
     [''Number of alloc calls'', ''Number of free calls'', ''Number realloc_inplace calls'', ''Number of allocation failures'',
      ''Number of realloc failures'', ''Amount of used memory including cachelot metadata'', ''Amount of requested memory'',
      ''Amount of allocated memory'', ''Amount of requested but not allocated due to an error memory'',
      ''Amount of requested memory via realloc calls'', ''Amount of serverd memory via realloc calls'',
      ''Amount of requested but not allocated memory via relloc calls'',
      ''Number of times when memory allocated from the corresponding cell of free blocks table'',
      ''Number of times when memory allocated from the bigger cell of free blocks table'',
      ''Maximum amount of memory to use for the storage'', ''Size of allocator page (max allocation size)'',
      ''Number of evicted items'']"

definition PrintStats :: "'u cache \<Rightarrow> u8 list" where
  "PrintStats c =
     concat (map2 (\<lambda>(name, st) descr. print_stat ''cache'' name (decimal (unat (c_stats c st))) descr) cache_stat_names cache_stat_descriptions)
     @ print_stat ''cache'' ''hash_is_expanding'' (decimal (of_bool (c_hash_is_expanding c))) ''hash table is expanding'' @ [10]
     @ concat (map2 (\<lambda>(name, st) descr. print_stat ''mem'' name (decimal (unat (m_stats (m_allocator c) st))) descr) mem_stat_names mem_stat_descriptions)
     @ [10]"

section \<open>Every counter is printed, and can be read back\<close>

lemma stat_tables:
  "length cache_stat_descriptions = length cache_stat_names" "length mem_stat_descriptions = length mem_stat_names"
  "list_all (\<lambda>(name, _). length name \<le> 40) cache_stat_names" "list_all (\<lambda>(name, _). length name \<le> 40) mem_stat_names"
  by code_simp+

text \<open>The value stands at a fixed column and ends at the first space, as long as it is shorter than its field.\<close>

lemma print_stat_value:
  assumes "length name \<le> 40" and "length value < 14" and "SPACE \<notin> set value"
  shows "takeWhile (\<lambda>b. b \<noteq> SPACE) (drop (length grp + 42) (print_stat grp name value descr)) = value"
proof -
  obtain n where n: "14 - length value = Suc n" using assms(2) by (cases "14 - length value") simp_all
  have d: "drop (length grp + 42) (print_stat grp name value descr) = value @ SPACE # replicate n SPACE @ ascii descr @ [10]"
    using assms(1) n by (simp add: print_stat_def set_width_def ascii_def)
  have "\<forall>b \<in> set value. b \<noteq> SPACE" using assms(3) by auto
  then show ?thesis unfolding d by (simp add: takeWhile_append2)
qed

lemma concat_at: "i < length xs \<Longrightarrow> concat xs = concat (take i xs) @ xs ! i @ concat (drop (Suc i) xs)"
  using arg_cong [OF id_take_nth_drop, of i xs concat] by simp

lemma printed_stat:
  assumes "(name, st) \<in> set cache_stat_names"
  shows "\<exists>pre descr post. PrintStats c = pre @ print_stat ''cache'' name (decimal (unat (c_stats c st))) descr @ post"
proof -
  obtain i where i: "i < length cache_stat_names" "cache_stat_names ! i = (name, st)" using assms by (auto simp: in_set_conv_nth)
  let ?ls = "map2 (\<lambda>(name, st) descr. print_stat ''cache'' name (decimal (unat (c_stats c st))) descr) cache_stat_names cache_stat_descriptions"
  have "i < length ?ls" "?ls ! i = print_stat ''cache'' name (decimal (unat (c_stats c st))) (cache_stat_descriptions ! i)"
    using i stat_tables(1) by simp_all
  then have "concat ?ls = concat (take i ?ls) @ print_stat ''cache'' name (decimal (unat (c_stats c st))) (cache_stat_descriptions ! i) @ concat (drop (Suc i) ?ls)"
    using concat_at [of i ?ls] by simp
  then show ?thesis unfolding PrintStats_def by (intro exI [of _ "concat (take i ?ls)"] exI [of _ "cache_stat_descriptions ! i"] exI) (simp only: append.assoc)
qed

end
