(* ===== verification/Server.thy ===== *)
theory Server imports Connection Settings Print_Stats begin

text \<open>
  The server as a whole: \<^verbatim>\<open>stream_server\<close> of \<^verbatim>\<open>socket_stream.h\<close>, which accepts connections, \<^verbatim>\<open>StreamServer\<close> of
  \<^verbatim>\<open>memcached/conversation.h\<close>, which creates the conversations, and the handler of the signals in \<^verbatim>\<open>main.cpp\<close>. The connections
  share one cache; the event loop runs one completion handler at a time.
\<close>

section \<open>The state\<close>

text \<open>A listening socket: the conversation given to its pending \<^verbatim>\<open>async_accept\<close>, if one is pending, and whether \<^verbatim>\<open>async_accept\<close> is
  posted to be tried again.\<close>

record 'u acceptor =
  ac_next :: "'u connection option"
  ac_posted :: bool

text \<open>The cache; the listening sockets, TCP and local; the connections, in the order in which they were accepted; the datagram server;
  whether the loop was stopped; whether a signal is waited for; and the standard output. The cache inside the records of a connection and
  of the datagram server is not used: the shared one is put there when one of their handlers runs.\<close>

record 'u server =
  sv_cache :: "'u cache"
  sv_acceptors :: "'u acceptor list"
  sv_connections :: "'u connection list"
  sv_udp :: "'u datagram_server option"
  sv_stopped :: bool
  sv_waiting :: bool
  sv_output :: "u8 list"

definition set_acceptor :: "nat \<Rightarrow> ('u acceptor \<Rightarrow> 'u acceptor) \<Rightarrow> 'u server \<Rightarrow> 'u server" where
  "set_acceptor j f sv = sv\<lparr>sv_acceptors := (sv_acceptors sv)[j := f (sv_acceptors sv ! j)]\<rparr>"

definition with_cache :: "'u cache \<Rightarrow> 'u connection \<Rightarrow> 'u connection" where
  "with_cache ca c = c\<lparr>cn_request := (cn_request c)\<lparr>rq_cache := ca\<rparr>\<rparr>"

definition view :: "'u server \<Rightarrow> nat \<Rightarrow> 'u connection" where
  "view sv i = with_cache (sv_cache sv) (sv_connections sv ! i)"

section \<open>Accepting connections\<close>

text \<open>The argument \<open>memory\<close> says whether there is memory for the object.\<close>

definition new_conversation :: "bool \<Rightarrow> server_env \<Rightarrow> net_settings \<Rightarrow> 'u cache \<Rightarrow> 'u connection result" where
  "new_conversation memory env net the_cache =
     (if memory then stream_connection_new env (unat (st_max_rcv_buffer_size net)) (unat (st_max_snd_buffer_size net)) the_cache else Inl Bad_alloc)"

definition async_accept :: "bool \<Rightarrow> server_env \<Rightarrow> net_settings \<Rightarrow> nat \<Rightarrow> 'u server \<Rightarrow> 'u server result" where
  "async_accept memory env net j sv = (case new_conversation memory env net (sv_cache sv) of
      Inr c \<Rightarrow> Inr (set_acceptor j (ac_next_update (\<lambda>_. Some c)) sv)
    | Inl Bad_alloc \<Rightarrow> Inr (set_acceptor j (ac_posted_update (\<lambda>_. True)) sv)
    | Inl e \<Rightarrow> Inl e)"

text \<open>\<^verbatim>\<open>start\<close> of a new \<^verbatim>\<open>stream_server\<close>, on a socket that can be bound.\<close>

definition stream_server_start :: "bool \<Rightarrow> server_env \<Rightarrow> net_settings \<Rightarrow> 'u server \<Rightarrow> 'u server result" where
  "stream_server_start memory env net sv =
     async_accept memory env net (length (sv_acceptors sv)) (sv\<lparr>sv_acceptors := sv_acceptors sv @ [\<lparr>ac_next = None, ac_posted = False\<rparr>]\<rparr>)"

text \<open>The member \<^verbatim>\<open>start\<close> of a connection, by which a conversation becomes one of the connections of the server.\<close>

definition connection_start :: "server_env \<Rightarrow> 'u connection \<Rightarrow> 'u server \<Rightarrow> 'u server option" where
  "connection_start env c sv = map_option (\<lambda>c'. sv\<lparr>sv_connections := sv_connections sv @ [c']\<rparr>) (async_receive_some env c)"

definition on_accepted :: "bool \<Rightarrow> server_env \<Rightarrow> net_settings \<Rightarrow> io_error \<Rightarrow> nat \<Rightarrow> 'u connection \<Rightarrow> 'u server \<Rightarrow> 'u server result option" where
  "on_accepted memory env net error j c sv0 =
     (let sv = set_acceptor j (ac_next_update (\<lambda>_. None)) sv0 in
      map_option (\<lambda>sv'. if \<not> sv_stopped sv' then async_accept memory env net j sv' else Inr sv')
        (if error = No_error then connection_start env c sv else Some sv))"

text \<open>The posted function.\<close>

definition on_posted :: "bool \<Rightarrow> server_env \<Rightarrow> net_settings \<Rightarrow> nat \<Rightarrow> 'u server \<Rightarrow> 'u server result" where
  "on_posted memory env net j sv = async_accept memory env net j (set_acceptor j (ac_posted_update (\<lambda>_. False)) sv)"

section \<open>Datagrams\<close>

definition datagram_server_new :: "server_env \<Rightarrow> 'u cache \<Rightarrow> 'u datagram_server result" where
  "datagram_server_new env the_cache =
     (case io_buffer_new (env_realloc env) default_min_buffer_size default_max_buffer_size of
        Inl e \<Rightarrow> Inl e
      | Inr recv \<Rightarrow> (case io_buffer_new (env_realloc env) default_min_buffer_size default_max_buffer_size of
            Inl e \<Rightarrow> Inl e
          | Inr snd_buf \<Rightarrow> Inr \<lparr>dg_request = \<lparr>rq_recv = recv, rq_send = snd_buf, rq_cache = the_cache\<rparr>, dg_receiving = False, dg_sends = []\<rparr>))"

definition datagram_server_start :: "server_env \<Rightarrow> 'u server \<Rightarrow> 'u server result option" where
  "datagram_server_start env sv = (case datagram_server_new env (sv_cache sv) of
      Inl e \<Rightarrow> Some (Inl e)
    | Inr d \<Rightarrow> map_option (\<lambda>d'. Inr (sv\<lparr>sv_udp := Some d'\<rparr>)) (datagram_async_receive env d))"

section \<open>Signals\<close>

datatype signal = SIGTERM | SIGINT | SIGQUIT | SIGUSR1

definition on_signal :: "bool \<Rightarrow> signal \<Rightarrow> 'u server \<Rightarrow> 'u server" where
  "on_signal error signal_number sv0 =
     (let sv = sv0\<lparr>sv_waiting := False\<rparr> in
      if error then sv
      else case signal_number of
          SIGUSR1 \<Rightarrow> sv\<lparr>sv_output := sv_output sv @ PrintStats (sv_cache sv)\<rparr>
        | _ \<Rightarrow> sv\<lparr>sv_stopped := True\<rparr>)"

section \<open>The servers of the program\<close>

definition next_server :: "'u server result option \<Rightarrow> ('u server \<Rightarrow> 'u server result option) \<Rightarrow> 'u server result option" where
  "next_server r f = (case r of None \<Rightarrow> None | Some (Inl e) \<Rightarrow> Some (Inl e) | Some (Inr sv) \<Rightarrow> f sv)"

text \<open>\<^verbatim>\<open>main\<close> from the creation of the servers up to the loop: \<open>memory\<close> says for the TCP and the local server whether there is memory
  for the first conversation.\<close>

definition main_servers :: "bool \<Rightarrow> bool \<Rightarrow> server_env \<Rightarrow> net_settings \<Rightarrow> 'u cache \<Rightarrow> 'u server result option" where
  "main_servers memory memory' env net the_cache =
     (let sv = \<lparr>sv_cache = the_cache, sv_acceptors = [], sv_connections = [], sv_udp = None, sv_stopped = False, sv_waiting = False, sv_output = []\<rparr> in
      next_server (Some (if st_has_TCP net then stream_server_start memory env net sv else Inr sv)) (\<lambda>sv.
      next_server (Some (if st_has_unix_socket net then stream_server_start memory' env net sv else Inr sv)) (\<lambda>sv.
      next_server (if st_has_UDP net then datagram_server_start env sv else Some (Inr sv)) (\<lambda>sv.
      Some (Inr (sv\<lparr>sv_waiting := True\<rparr>))))))"

section \<open>The event loop\<close>

datatype server_event = On_connection nat conn_event | Accept nat io_error | Posted nat | Datagram io_error "u8 list" | Datagram_sent nat | Signal bool signal

inductive server_step :: "'u conversation_handler \<Rightarrow> net_settings \<Rightarrow> server_env \<Rightarrow> 'u server \<Rightarrow> server_event \<Rightarrow> 'u server \<Rightarrow> bool" for handle_data net env where
  on_connection: "\<not> sv_stopped sv \<Longrightarrow> i < length (sv_connections sv) \<Longrightarrow> e \<noteq> Elsewhere \<Longrightarrow> conn_step handle_data env (view sv i) e c
    \<Longrightarrow> server_step handle_data net env sv (On_connection i e) (sv\<lparr>sv_cache := rq_cache (cn_request c), sv_connections := (sv_connections sv)[i := c]\<rparr>)"
| accepted: "\<not> sv_stopped sv \<Longrightarrow> j < length (sv_acceptors sv) \<Longrightarrow> ac_next (sv_acceptors sv ! j) = Some c
    \<Longrightarrow> on_accepted memory env net error j c sv = Some (Inr sv') \<Longrightarrow> server_step handle_data net env sv (Accept j error) sv'"
| posted: "\<not> sv_stopped sv \<Longrightarrow> j < length (sv_acceptors sv) \<Longrightarrow> ac_posted (sv_acceptors sv ! j)
    \<Longrightarrow> on_posted memory env net j sv = Inr sv' \<Longrightarrow> server_step handle_data net env sv (Posted j) sv'"
| datagram: "\<not> sv_stopped sv \<Longrightarrow> sv_udp sv = Some d \<Longrightarrow> dg_receiving d \<Longrightarrow> length bs \<le> available (rq_recv (dg_request d))
    \<Longrightarrow> on_datagram env error bs (d\<lparr>dg_request := (dg_request d)\<lparr>rq_cache := sv_cache sv\<rparr>\<rparr>) = Some d'
    \<Longrightarrow> server_step handle_data net env sv (Datagram error bs) (sv\<lparr>sv_cache := rq_cache (dg_request d'), sv_udp := Some d'\<rparr>)"
| datagram_sent: "\<not> sv_stopped sv \<Longrightarrow> sv_udp sv = Some d \<Longrightarrow> i < length (dg_sends d)
    \<Longrightarrow> on_datagram_sent (dg_sends d ! i) (d\<lparr>dg_sends := take i (dg_sends d) @ drop (Suc i) (dg_sends d)\<rparr>) = Some d'
    \<Longrightarrow> server_step handle_data net env sv (Datagram_sent i) (sv\<lparr>sv_udp := Some d'\<rparr>)"
| signalled: "\<not> sv_stopped sv \<Longrightarrow> sv_waiting sv \<Longrightarrow> server_step handle_data net env sv (Signal error n) (on_signal error n sv)"

inductive_cases server_stepE: "server_step handle_data net env sv e sv'"

text \<open>What the handling of a request adds to the bytes to be sent on a connection.\<close>

definition added :: "nat \<Rightarrow> 'u server \<Rightarrow> 'u server \<Rightarrow> u8 list" where
  "added i sv sv' = drop (length (unread (rq_send (cn_request (sv_connections sv ! i))))) (unread (rq_send (cn_request (sv_connections sv' ! i))))"

text \<open>A run of the loop with clients that wait for a reply before they send the next request. The history holds for each
  connection what its own requests added.\<close>

inductive served :: "'u conversation_handler \<Rightarrow> net_settings \<Rightarrow> 'u server \<Rightarrow> (nat \<Rightarrow> u8 list list) \<Rightarrow> 'u server \<Rightarrow> bool" for handle_data net sv0 where
  begun: "served handle_data net sv0 (\<lambda>_. []) sv0"
| client: "served handle_data net sv0 ts sv \<Longrightarrow> env_memory env \<Longrightarrow> server_step handle_data net env sv (On_connection i e) sv'
    \<Longrightarrow> e \<in> {Received bs, Receive_partial bs} \<Longrightarrow> cn_writes (sv_connections sv ! i) = []
    \<Longrightarrow> served handle_data net sv0 (ts(i := ts i @ [added i sv sv'])) sv'"
| inner: "served handle_data net sv0 ts sv \<Longrightarrow> env_memory env \<Longrightarrow> server_step handle_data net env sv (On_connection i e) sv'
    \<Longrightarrow> e \<in> {Receive_failed, Transmitted j k, Sent j} \<Longrightarrow> served handle_data net sv0 ts sv'"
| outer: "served handle_data net sv0 ts sv \<Longrightarrow> env_memory env \<Longrightarrow> server_step handle_data net env sv e sv' \<Longrightarrow> \<forall>i c. e \<noteq> On_connection i c
    \<Longrightarrow> served handle_data net sv0 ts sv'"

text \<open>A conversation that was created, and one that was started.\<close>

definition made :: "net_settings \<Rightarrow> 'u connection \<Rightarrow> bool" where
  "made net c \<longleftrightarrow> (\<exists>env the_cache. env_memory env
     \<and> stream_connection_new env (unat (st_max_rcv_buffer_size net)) (unat (st_max_snd_buffer_size net)) the_cache = Inr c)"

definition born :: "net_settings \<Rightarrow> 'u connection \<Rightarrow> bool" where
  "born net c \<longleftrightarrow> (\<exists>env c0. made net c0 \<and> env_memory env \<and> async_receive_some env c0 = Some c)"

definition next_ok :: "net_settings \<Rightarrow> 'u server \<Rightarrow> bool" where
  "next_ok net sv \<longleftrightarrow> (\<forall>a \<in> set (sv_acceptors sv). \<forall>c. ac_next a = Some c \<longrightarrow> made net c)"

text \<open>Buffers of at most 1000 bytes.\<close>

definition small_net :: net_settings where
  "small_net = (st_net default_settings)\<lparr>st_max_rcv_buffer_size := 1000, st_max_snd_buffer_size := 1000, st_has_UDP := False\<rparr>"

text \<open>On a running server every listening socket has a pending or a posted accept.\<close>

definition listening :: "'u acceptor \<Rightarrow> bool" where
  "listening a \<longleftrightarrow> ac_next a \<noteq> None \<or> ac_posted a"

definition armed :: "'u server \<Rightarrow> bool" where
  "armed sv \<longleftrightarrow> sv_stopped sv \<or> (\<forall>a \<in> set (sv_acceptors sv). listening a)"

section \<open>A connection does not see the others\<close>

lemma view_sim [simp]:
  "cn_writes (view sv i) = cn_writes (sv_connections sv ! i)" "cn_wire (view sv i) = cn_wire (sv_connections sv ! i)"
  "cn_reading (view sv i) = cn_reading (sv_connections sv ! i)" "unsent (view sv i) = unsent (sv_connections sv ! i)"
  "rq_send (cn_request (view sv i)) = rq_send (cn_request (sv_connections sv ! i))"
  by (simp_all add: view_def with_cache_def unsent_def transmitted_of_def)

lemma view_elsewhere:
  assumes "sv_connections sv' ! i = sv_connections sv ! i"
  shows "conn_step handle_data env (view sv i) Elsewhere (view sv' i)"
proof -
  have "view sv' i = (view sv i)\<lparr>cn_request := (cn_request (view sv i))\<lparr>rq_cache := sv_cache sv'\<rparr>\<rparr>"
    using assms by (simp add: view_def with_cache_def)
  then show ?thesis by (simp only: elsewhere)
qed

text \<open>An event at a connection is a step of its view, and for every other connection it happens elsewhere.\<close>

lemma connection_stepped:
  assumes "server_step handle_data net env sv (On_connection i e) sv'"
  shows "conn_step handle_data env (view sv i) e (view sv' i)" and "length (sv_connections sv') = length (sv_connections sv)"
    and "j \<noteq> i \<Longrightarrow> sv_connections sv' ! j = sv_connections sv ! j" and "i < length (sv_connections sv)"
proof -
  obtain c where c: "i < length (sv_connections sv)" "conn_step handle_data env (view sv i) e c"
      "sv' = sv\<lparr>sv_cache := rq_cache (cn_request c), sv_connections := (sv_connections sv)[i := c]\<rparr>"
    using assms by (auto elim: server_stepE)
  have "view sv' i = c" using c(1,3) by (simp add: view_def with_cache_def)
  then show "conn_step handle_data env (view sv i) e (view sv' i)" using c(2) by simp
  show "length (sv_connections sv') = length (sv_connections sv)" "j \<noteq> i \<Longrightarrow> sv_connections sv' ! j = sv_connections sv ! j" "i < length (sv_connections sv)"
    using c by simp_all
qed

lemma born_ok:
  assumes "born net c"
  shows "conn_ok c" and "cn_wire c = []" and "unsent c = []"
proof -
  obtain env env' the_cache c0 where b: "env_memory env" "env_memory env'" "async_receive_some env' c0 = Some c"
      "stream_connection_new env (unat (st_max_rcv_buffer_size net)) (unat (st_max_snd_buffer_size net)) the_cache = Inr c0"
    using assms by (auto simp: born_def made_def)
  show "conn_ok c" "cn_wire c = []" "unsent c = []" by (fact new_connection_ok [OF b(1,2,4,3)])+
qed

lemma set_acceptor_simps [simp]:
  "sv_connections (set_acceptor j f sv) = sv_connections sv" "sv_cache (set_acceptor j f sv) = sv_cache sv"
  "sv_stopped (set_acceptor j f sv) = sv_stopped sv" "sv_waiting (set_acceptor j f sv) = sv_waiting sv"
  "length (sv_acceptors (set_acceptor j f sv)) = length (sv_acceptors sv)"
  "j < length (sv_acceptors sv) \<Longrightarrow> sv_acceptors (set_acceptor j f sv) ! j = f (sv_acceptors sv ! j)"
  by (simp_all add: set_acceptor_def)

text \<open>To show something of all listening sockets, the one that changed suffices.\<close>

lemma set_acceptor_all:
  assumes "\<forall>a \<in> set (sv_acceptors sv). Q a" and "Q (f (sv_acceptors sv ! j))"
  shows "\<forall>a \<in> set (sv_acceptors (set_acceptor j f sv)). Q a"
proof
  fix a assume "a \<in> set (sv_acceptors (set_acceptor j f sv))"
  then have "a = f (sv_acceptors sv ! j) \<or> a \<in> set (sv_acceptors sv)"
    using set_update_subset_insert [of "sv_acceptors sv" j "f (sv_acceptors sv ! j)"] by (auto simp: set_acceptor_def)
  then show "Q a" using assms by blast
qed

lemma next_okD: "next_ok net sv \<Longrightarrow> j < length (sv_acceptors sv) \<Longrightarrow> ac_next (sv_acceptors sv ! j) = Some c \<Longrightarrow> made net c"
  unfolding next_ok_def by (meson nth_mem)

lemma next_ok_set:
  assumes "next_ok net sv" and "\<And>c. ac_next (f (sv_acceptors sv ! j)) = Some c \<Longrightarrow> made net c"
  shows "next_ok net (set_acceptor j f sv)"
  unfolding next_ok_def by (rule set_acceptor_all) (use assms in \<open>simp_all add: next_ok_def\<close>)

lemma async_accept_cases:
  assumes "async_accept memory env net j sv = Inr sv'"
  obtains (pending) c where "new_conversation memory env net (sv_cache sv) = Inr c" and "sv' = set_acceptor j (ac_next_update (\<lambda>_. Some c)) sv"
  | (posted) "sv' = set_acceptor j (ac_posted_update (\<lambda>_. True)) sv"
  using assms by (auto simp: async_accept_def split: sum.splits exn.splits)

lemma new_conversation_made: "env_memory env \<Longrightarrow> new_conversation memory env net ca = Inr c \<Longrightarrow> made net c"
  by (auto simp: new_conversation_def made_def split: if_splits)

lemma async_accept_ok:
  assumes "env_memory env" and a: "async_accept memory env net j sv = Inr sv'" and n: "next_ok net sv" and j: "j < length (sv_acceptors sv)"
  shows "next_ok net sv'" and "sv_connections sv' = sv_connections sv"
proof -
  from a have "next_ok net sv' \<and> sv_connections sv' = sv_connections sv"
  proof (cases rule: async_accept_cases)
    case (pending c)
    then show ?thesis using next_ok_set [OF n, of "ac_next_update (\<lambda>_. Some c)" j] new_conversation_made [OF assms(1) pending(1)] by simp
  next
    case posted
    then show ?thesis using next_ok_set [OF n, of "ac_posted_update (\<lambda>_. True)" j] next_okD [OF n j] by simp
  qed
  then show "next_ok net sv'" "sv_connections sv' = sv_connections sv" by simp_all
qed

text \<open>Each event other than one at a connection keeps the connections, or adds one that was just created.\<close>

lemma outer_step:
  assumes "server_step handle_data net env sv e sv'" and "\<forall>i c. e \<noteq> On_connection i c" and "env_memory env" and n: "next_ok net sv"
  shows "next_ok net sv'" and "sv_connections sv' = sv_connections sv \<or> (\<exists>c. born net c \<and> sv_connections sv' = sv_connections sv @ [c])"
proof -
  have "next_ok net sv' \<and> (sv_connections sv' = sv_connections sv \<or> (\<exists>c. born net c \<and> sv_connections sv' = sv_connections sv @ [c]))"
    using assms(1)
  proof (cases rule: server_step.cases)
    case (accepted j c memory error)
    let ?sv = "set_acceptor j (ac_next_update (\<lambda>_. None)) sv"
    obtain sv1 where sv1: "(if error = No_error then connection_start env c ?sv else Some ?sv) = Some sv1"
        "(if \<not> sv_stopped sv1 then async_accept memory env net j sv1 else Inr sv1) = Inr sv'"
      using accepted by (auto simp: on_accepted_def Let_def)
    have "next_ok net ?sv" by (rule next_ok_set [OF n]) simp
    then have 1: "next_ok net sv1" "j < length (sv_acceptors sv1)"
        "sv_connections sv1 = sv_connections sv \<or> (\<exists>c. born net c \<and> sv_connections sv1 = sv_connections sv @ [c])"
      using sv1(1) assms(3) next_okD [OF n accepted(3,4)] accepted(3) by (auto simp: connection_start_def born_def next_ok_def split: if_splits)
    show ?thesis using sv1(2) async_accept_ok [OF assms(3) _ 1(1,2), of memory sv'] 1 by (auto split: if_splits)
  next
    case (posted j memory)
    let ?sv = "set_acceptor j (ac_posted_update (\<lambda>_. False)) sv"
    have "next_ok net ?sv" by (rule next_ok_set [OF n]) (use next_okD [OF n posted(3)] in simp)
    then show ?thesis using async_accept_ok [OF assms(3), of memory net j ?sv sv'] posted by (simp add: on_posted_def)
  next
    case (signalled error n)
    then show ?thesis using assms(4) by (auto simp: on_signal_def next_ok_def Let_def split: signal.splits)
  qed (use assms(2,4) in \<open>auto simp: next_ok_def\<close>)
  then show "next_ok net sv'" "sv_connections sv' = sv_connections sv \<or> (\<exists>c. born net c \<and> sv_connections sv' = sv_connections sv @ [c])" by blast+
qed

lemma update_all:
  assumes "\<forall>a \<in> set (xs[j := a']). Q a" and "Q x"
  shows "\<forall>a \<in> set (xs[j := x]). Q a"
proof -
  have "set ((xs[j := a'])[j := x]) \<subseteq> insert x (set (xs[j := a']))" by (rule set_update_subset_insert)
  then have "set (xs[j := x]) \<subseteq> insert x (set (xs[j := a']))" by simp
  then show ?thesis using assms by blast
qed

lemma async_accept_armed:
  assumes "async_accept memory env net j sv = Inr sv'" and "sv_stopped sv \<or> (\<forall>a \<in> set ((sv_acceptors sv)[j := a']). listening a)"
  shows "armed sv'"
proof -
  obtain f where f: "sv' = set_acceptor j f sv" "\<And>a. listening (f a)"
    using assms(1) by (cases rule: async_accept_cases) (auto simp: listening_def)
  have "\<forall>a \<in> set ((sv_acceptors sv)[j := f (sv_acceptors sv ! j)]). listening a" if "\<forall>a \<in> set ((sv_acceptors sv)[j := a']). listening a"
    using that f(2) by (rule update_all)
  then show ?thesis using assms(2) f(1) by (auto simp: armed_def set_acceptor_def)
qed

text \<open>What holds when the loop begins.\<close>

lemma stream_server_start_ok:
  assumes "env_memory env" and "stream_server_start memory env net sv = Inr sv'" and "next_ok net sv" and "armed sv"
  shows "next_ok net sv'" and "sv_connections sv' = sv_connections sv" and "armed sv'"
proof -
  let ?sv = "sv\<lparr>sv_acceptors := sv_acceptors sv @ [\<lparr>ac_next = None, ac_posted = False\<rparr>]\<rparr>"
  have a: "async_accept memory env net (length (sv_acceptors sv)) ?sv = Inr sv'" using assms(2) by (simp add: stream_server_start_def)
  have n: "next_ok net ?sv" "length (sv_acceptors sv) < length (sv_acceptors ?sv)" using assms(3) by (simp_all add: next_ok_def)
  show "next_ok net sv'" "sv_connections sv' = sv_connections sv" using async_accept_ok [OF assms(1) a n] by simp_all
  show "armed sv'" by (rule async_accept_armed [OF a, of "\<lparr>ac_next = None, ac_posted = True\<rparr>"]) (use assms(4) in \<open>auto simp: armed_def listening_def\<close>)
qed

lemma main_servers_ok:
  assumes "env_memory env" and "main_servers memory memory' env net the_cache = Some (Inr sv)"
  shows "next_ok net sv" and "sv_connections sv = []" and "armed sv"
proof -
  let ?sv = "\<lparr>sv_cache = the_cache, sv_acceptors = [], sv_connections = [], sv_udp = None, sv_stopped = False, sv_waiting = False, sv_output = []\<rparr>"
  obtain sv1 sv2 sv3 where sv: "(if st_has_TCP net then stream_server_start memory env net ?sv else Inr ?sv) = Inr sv1"
      "(if st_has_unix_socket net then stream_server_start memory' env net sv1 else Inr sv1) = Inr sv2"
      "(if st_has_UDP net then datagram_server_start env sv2 else Some (Inr sv2)) = Some (Inr sv3)" "sv = sv3\<lparr>sv_waiting := True\<rparr>"
    using assms(2) by (auto simp: main_servers_def next_server_def Let_def split: option.splits sum.splits)
  have 0: "next_ok net ?sv" "armed ?sv" by (simp_all add: next_ok_def armed_def)
  have 1: "next_ok net sv1" "sv_connections sv1 = []" "armed sv1"
    using sv(1) 0 stream_server_start_ok [OF assms(1) _ 0] by (auto split: if_splits)
  have 2: "next_ok net sv2" "sv_connections sv2 = []" "armed sv2"
    using sv(2) 1 stream_server_start_ok [OF assms(1) _ 1(1,3)] by (auto split: if_splits)
  have 3: "sv_acceptors sv3 = sv_acceptors sv2" "sv_connections sv3 = sv_connections sv2" "sv_stopped sv3 = sv_stopped sv2"
    using sv(3) by (auto simp: datagram_server_start_def split: if_splits sum.splits)
  show "next_ok net sv" "sv_connections sv = []" "armed sv" using 2 3 sv(4) by (simp_all add: next_ok_def armed_def)
qed

lemma view_turns:
  assumes "turns handle_data c ts (view sv i)" and "env_memory env" and "sv_connections sv' ! i = sv_connections sv ! i"
  shows "turns handle_data c ts (view sv' i)"
  using other [OF assms(1,2) _ view_elsewhere [OF assms(3)]] by blast

context conversation
begin

text \<open>Seen from one connection, a run of the server is a run of that connection, in which the other connections
  happen elsewhere.\<close>

lemma served_views:
  assumes "served handle_data net sv0 ts sv" and "env_memory env0" and "main_servers memory memory' env0 net the_cache = Some (Inr sv0)"
  shows "next_ok net sv \<and> (\<forall>i < length (sv_connections sv). \<exists>c. born net c \<and> turns handle_data c (ts i) (view sv i)) \<and> (\<forall>i \<ge> length (sv_connections sv). ts i = [])"
  using assms(1)
proof (induction rule: served.induct)
  case begun
  show ?case using main_servers_ok(1,2) [OF assms(2,3)] by simp
next
  case (client ts sv env i e sv' bs)
  note st = connection_stepped [OF client.hyps(3)]
  obtain c where c: "born net c" "turns handle_data c (ts i) (view sv i)" using client.IH st(4) by blast
  have ok: "bufs_ok (cn_request (view sv i))" using turns_ok [OF born_ok(1) [OF c(1)] c(2)] by (simp add: conn_ok_def)
  obtain err where r: "length bs \<le> available (rq_recv (cn_request (view sv i)))" "on_received handle_data env err bs (view sv i) = Some (view sv' i)"
    using st(1) client.hyps(4) by (auto elim: conn_stepE)
  obtain t where t: "unread (rq_send (cn_request (view sv' i))) = unread (rq_send (cn_request (view sv i))) @ t"
    by (rule received_appends [OF client.hyps(2) ok r])
  then have a: "added i sv sv' = t" by (simp add: added_def)
  have "turns handle_data c (ts i @ [t]) (view sv' i)" using request [OF c(2) client.hyps(2) _ client.hyps(4) st(1) t] client.hyps(5) by simp
  moreover have "sv_acceptors sv' = sv_acceptors sv" using client.hyps(3) by (auto elim: server_stepE)
  moreover have "\<exists>c. born net c \<and> turns handle_data c (ts l) (view sv' l)" if "l < length (sv_connections sv)" "l \<noteq> i" for l
    using client.IH that st(3) [OF that(2)] view_turns [OF _ client.hyps(2)] by blast
  ultimately show ?case using client.IH st(2,4) c(1) a by (auto simp: next_ok_def)
next
  case (inner ts sv env i e sv' j k)
  note st = connection_stepped [OF inner.hyps(3)]
  obtain c where c: "born net c" "turns handle_data c (ts i) (view sv i)" using inner.IH st(4) by blast
  have "turns handle_data c (ts i) (view sv' i)" using other [OF c(2) inner.hyps(2) _ st(1)] inner.hyps(4) by blast
  moreover have "sv_acceptors sv' = sv_acceptors sv" using inner.hyps(3) by (auto elim: server_stepE)
  moreover have "\<exists>c. born net c \<and> turns handle_data c (ts l) (view sv' l)" if "l < length (sv_connections sv)" "l \<noteq> i" for l
    using inner.IH that st(3) [OF that(2)] view_turns [OF _ inner.hyps(2)] by blast
  ultimately show ?case using inner.IH st(2) c(1) by (auto simp: next_ok_def)
next
  case (outer ts sv env e sv')
  have n: "next_ok net sv" using outer.IH by blast
  note st = outer_step [OF outer.hyps(3,4,2) n]
  have old: "\<exists>c. born net c \<and> turns handle_data c (ts l) (view sv' l)" if "l < length (sv_connections sv)" for l
  proof -
    have "sv_connections sv' ! l = sv_connections sv ! l" using st(2) that by (auto simp: nth_append)
    then show ?thesis using outer.IH that view_turns [OF _ outer.hyps(2)] by blast
  qed
  from st(2) show ?case
  proof (elim disjE exE conjE)
    fix c assume c: "born net c" "sv_connections sv' = sv_connections sv @ [c]"
    let ?l = "length (sv_connections sv)"
    have "view sv' ?l = c\<lparr>cn_request := (cn_request c)\<lparr>rq_cache := sv_cache sv'\<rparr>\<rparr>" using c(2) by (simp add: view_def with_cache_def)
    then have e: "conn_step handle_data env c Elsewhere (view sv' ?l)" by (simp only: elsewhere)
    have "turns handle_data c [] (view sv' ?l)" by (rule other [OF idle outer.hyps(2) _ e]) simp
    moreover have "ts ?l = []" "\<forall>l \<ge> length (sv_connections sv'). ts l = []" using outer.IH c(2) by simp_all
    ultimately show ?case using st(1) old c by (simp add: less_Suc_eq) (metis)
  qed (use st(1) old outer.IH in auto)
qed

end

section \<open>The server goes on accepting\<close>

text \<open>With room for the first buffer, only a lack of memory can be in the way of a new conversation.\<close>

lemma buffer_new_cases:
  assumes "realloc_ok ra" and "n \<le> m" and "0 < n"
  obtains b where "io_buffer_new ra n m = Inr b" and "n \<le> available b" | "io_buffer_new ra n m = Inl Bad_alloc"
proof -
  let ?b = "\<lparr>m_max_size = m, m_data = None, m_capacity_of = 0, m_read_pos = 0, m_write_pos = 0\<rparr>"
  have "buffer_ok ?b" by (simp add: buffer_ok_def)
  from this assms(1) show ?thesis
    by (cases rule: ensure_capacity_ok [where n = n]) (use that assms(2,3) in \<open>simp_all add: io_buffer_new_def Let_def\<close>)
qed

lemma async_accept_runs:
  assumes "realloc_ok (env_realloc env)" and "default_min_buffer_size \<le> unat (st_max_rcv_buffer_size net)"
    and "default_min_buffer_size \<le> unat (st_max_snd_buffer_size net)"
  obtains f where "async_accept memory env net j sv = Inr (set_acceptor j f sv)" and "\<forall>a. listening (f a)"
proof -
  have n: "0 < default_min_buffer_size" by (simp add: default_min_buffer_size_def)
  have "new_conversation memory env net (sv_cache sv) = Inl Bad_alloc \<or> (\<exists>c. new_conversation memory env net (sv_cache sv) = Inr c)"
    by (rule buffer_new_cases [OF assms(1,2) n]; rule buffer_new_cases [OF assms(1,3) n])
      (auto simp: new_conversation_def stream_connection_new_def)
  then show ?thesis using that by (auto simp: async_accept_def listening_def)
qed

lemma start_runs:
  assumes "realloc_ok (env_realloc env)" and "stream_connection_new env r s ca = Inr c" and "default_min_buffer_size \<le> r"
  shows "\<exists>c'. async_receive_some env' c = Some c'"
proof -
  obtain b where b: "io_buffer_new (env_realloc env) default_min_buffer_size r = Inr b" "rq_recv (cn_request c) = b"
    using assms(2) by (auto simp: stream_connection_new_def split: sum.splits)
  have "default_min_buffer_size \<le> available b"
    by (rule buffer_new_cases [OF assms(1,3)]) (use b(1) in \<open>simp_all add: default_min_buffer_size_def\<close>)
  then show ?thesis using b(2) by (simp add: async_receive_some_def begin_write_def ensure_capacity_def default_min_buffer_size_def)
qed

lemma step_armed:
  assumes "server_step handle_data net env sv e sv'" and "armed sv"
  shows "armed sv'"
  using assms(1)
proof (cases rule: server_step.cases)
  case (accepted j c memory error)
  let ?sv = "set_acceptor j (ac_next_update (\<lambda>_. None)) sv"
  obtain sv1 where sv1: "(if error = No_error then connection_start env c ?sv else Some ?sv) = Some sv1"
      "(if \<not> sv_stopped sv1 then async_accept memory env net j sv1 else Inr sv1) = Inr sv'"
    using accepted by (auto simp: on_accepted_def Let_def)
  have eq: "sv_acceptors sv1 = sv_acceptors ?sv" "sv_stopped sv1 = sv_stopped sv" using sv1(1) by (auto simp: connection_start_def split: if_splits)
  have "(sv_acceptors sv1)[j := sv_acceptors sv ! j] = sv_acceptors sv" using eq(1) by (simp add: set_acceptor_def)
  then show ?thesis using sv1(2) eq(2) async_accept_armed [of memory env net j sv1 sv' "sv_acceptors sv ! j"] assms(2) accepted(2) by (simp add: armed_def)
next
  case (posted j memory)
  then show ?thesis using async_accept_armed [of memory env net j _ sv' "sv_acceptors sv ! j"] assms(2)
    by (simp add: on_posted_def armed_def set_acceptor_def)
qed (use assms(2) in \<open>auto simp: armed_def on_signal_def Let_def split: signal.splits\<close>)

lemma served_armed: "served handle_data net sv0 ts sv \<Longrightarrow> armed sv0 \<Longrightarrow> armed sv"
  by (induction rule: served.induct) (auto intro: step_armed)

lemma right_eq: "case_sum (\<lambda>_. None) Some x = Some y \<longleftrightarrow> x = Inr y"
  by (cases x) simp_all

section \<open>Properties\<close>





text \<open>After \<^verbatim>\<open>SIGUSR1\<close> has printed the statistics no signal is waited for: from then on \<^verbatim>\<open>SIGTERM\<close>, \<^verbatim>\<open>SIGINT\<close> and \<^verbatim>\<open>SIGQUIT\<close> do not stop
  the server.\<close>

theorem statistics_signal_is_the_last:
  assumes "server_step handle_data net env sv (Signal False SIGUSR1) sv1" and "served handle_data net sv1 ts sv2"
  shows "\<not> sv_stopped sv2 \<and> \<not> sv_waiting sv2"
proof -
  have 1: "\<not> sv_stopped sv1" "\<not> sv_waiting sv1" using assms(1) by (auto simp: on_signal_def Let_def elim: server_stepE)
  have step: "sv_stopped sv' = sv_stopped sv \<and> sv_waiting sv' = sv_waiting sv"
    if st: "server_step handle_data net env sv e sv'" and w: "\<not> sv_waiting sv" for env e and sv sv' :: "'a server"
    using st
  proof (cases rule: server_step.cases)
    case (accepted j c memory error)
    then show ?thesis by (auto simp: on_accepted_def connection_start_def Let_def split: if_splits elim!: async_accept_cases)
  next
    case (posted j memory)
    then show ?thesis by (auto simp: on_posted_def elim!: async_accept_cases)
  qed (use w in simp_all)
  from assms(2) 1 show ?thesis by (induction rule: served.induct) (auto dest: step)
qed

end
