(* ===== verification/Proto_Session.thy ===== *)
theory Proto_Session imports Conversation Settings begin

text \<open>
  A client of the server: it sends \<^verbatim>\<open>get\<close>, \<^verbatim>\<open>set\<close> and \<^verbatim>\<open>delete\<close> requests as bytes and reads the answers out of the bytes that come
  back. The contract \<open>honest_cache\<close> is interpreted on what it sees, the second time after the C functions.
\<close>

section \<open>A client\<close>

text \<open>A connection whose buffers may grow to \<open>M\<close> bytes and on which the bytes of one request have arrived.\<close>

definition session_buffer :: "nat \<Rightarrow> u8 list \<Rightarrow> io_buffer" where
  "session_buffer M bs = \<lparr>m_max_size = M, m_data = Some bs, m_capacity_of = length bs, m_read_pos = 0, m_write_pos = length bs\<rparr>"

definition session_request :: "nat \<Rightarrow> u8 list \<Rightarrow> 'u cache \<Rightarrow> 'u request" where
  "session_request M bs c = \<lparr>rq_recv = session_buffer M bs, rq_send = session_buffer M [], rq_cache = c\<rparr>"

definition exchange :: "nat \<Rightarrow> server_env \<Rightarrow> u8 list \<Rightarrow> 'u cache \<Rightarrow> (u8 list \<times> 'u cache) option" where
  "exchange M env bs c = (case stream_handle_data env (session_request M bs c) of
      Some (SEND_REPLY_AND_READ, s) \<Rightarrow> Some (written (rq_send s), rq_cache s)
    | _ \<Rightarrow> None)"

text \<open>The data in the answer to a \<^verbatim>\<open>get\<close> lies between the first line and the line \<^verbatim>\<open>END\<close>.\<close>

definition answered_value :: "u8 list \<Rightarrow> u8 list option" where
  "answered_value reply =
     (if take 6 reply = ascii ''VALUE '' then map_option (\<lambda>i. take (length reply - (i + 9)) (drop (i + 2) reply)) (find_bytes CRLF reply) else None)"

text \<open>The request for an operation, and its answer as the client reads it.\<close>

type_synonym byte_op = "(u8 list, u8 list) cache_op"

fun op_bytes :: "byte_op \<Rightarrow> u8 list" where
  "op_bytes (Op_get k) = get_request k"
| "op_bytes (Op_put k v) = set_request k 0 0 v"
| "op_bytes (Op_del k) = delete_request k"

fun op_answer :: "byte_op \<Rightarrow> u8 list \<Rightarrow> u8 list answer" where
  "op_answer (Op_get k) reply = Got (answered_value reply)"
| "op_answer (Op_put k v) reply = Done (reply = ascii ''STORED'' @ CRLF)"
| "op_answer (Op_del k) reply = Done (reply = ascii ''DELETED'' @ CRLF)"

definition client_get :: "nat \<Rightarrow> server_env \<Rightarrow> 'u cache \<Rightarrow> u8 list \<Rightarrow> (u8 list option \<times> 'u cache) option" where
  "client_get M env c k = map_option (\<lambda>(reply, c'). (answered_value reply, c')) (exchange M env (get_request k) c)"

definition client_put :: "nat \<Rightarrow> server_env \<Rightarrow> 'u cache \<Rightarrow> u8 list \<Rightarrow> u8 list \<Rightarrow> (bool \<times> 'u cache) option" where
  "client_put M env c k v = map_option (\<lambda>(reply, c'). (reply = ascii ''STORED'' @ CRLF, c')) (exchange M env (set_request k 0 0 v) c)"

definition client_del :: "nat \<Rightarrow> server_env \<Rightarrow> 'u cache \<Rightarrow> u8 list \<Rightarrow> (bool \<times> 'u cache) option" where
  "client_del M env c k = map_option (\<lambda>(reply, c'). (reply = ascii ''DELETED'' @ CRLF, c')) (exchange M env (delete_request k) c)"

text \<open>What a request takes for granted: a system with memory for buffers, a key that can be sent and that is not waiting in an
  expansion, and room for the reply. A value is accepted when its item fits a page and the hash of the key is not 0.\<close>

definition env_ready :: "nat \<Rightarrow> server_env \<Rightarrow> 'u cache \<Rightarrow> u8 list \<Rightarrow> bool" where
  "env_ready P env c k \<longleftrightarrow> env_memory env \<and> env_page_size env = P \<and> P < 2 ^ 32 \<and> sendable_key k \<and> ready (env_fresh env) c k"

definition reply_room :: "nat \<Rightarrow> server_env \<Rightarrow> io_buffer \<Rightarrow> bool" where
  "reply_room P env b \<longleftrightarrow> m_write_pos b + P + 1000 + length (env_bad_alloc env) \<le> m_max_size b"

definition session_ready :: "nat \<Rightarrow> nat \<Rightarrow> server_env \<Rightarrow> 'u cache \<Rightarrow> u8 list \<Rightarrow> bool" where
  "session_ready P M env c k \<longleftrightarrow> env_ready P env c k \<and> P + 1000 + length (env_bad_alloc env) \<le> M"

definition session_accepted :: "nat \<Rightarrow> u8 list \<Rightarrow> u8 list \<Rightarrow> bool" where
  "session_accepted P k v \<longleftrightarrow> calc_hash k \<noteq> 0 \<and> CalcSizeRequired k (length v) + 8 \<le> P"

section \<open>Exchanges\<close>

lemma session_simps [simp]:
  "unread (rq_recv (session_request M bs c)) = bs" "written (rq_send (session_request M bs c)) = []" "rq_cache (session_request M bs c) = c"
  "m_write_pos (rq_send (session_request M bs c)) = 0" "m_max_size (rq_send (session_request M bs c)) = M"
  by (simp_all add: session_request_def session_buffer_def unread_def written_def buf_data_def)

lemma session_ok: "length bs \<le> M \<Longrightarrow> bufs_ok (session_request M bs c)"
  by (simp add: bufs_ok_def session_request_def session_buffer_def buffer_ok_def)

text \<open>A request that begins with a letter is handled by the text protocol.\<close>

lemma letter_is_text:
  assumes "bufs_ok s" and "unread (rq_recv s) = b # bs" and "b \<noteq> MAGIC"
  shows "stream_handle_data env s = handle_received_data_ascii env s"
proof -
  have ok: "buffer_ok (rq_recv s)" using assms(1) by (simp add: bufs_ok_def)
  have n: "0 < non_read (rq_recv s)" using buffer_okD(6) [OF ok] assms(2) by (metis length_greater_0_conv list.distinct(1))
  then have "buf_bytes (rq_recv s) (slice_of_length (m_read_pos (rq_recv s)) 1) = Some (take 1 (unread (rq_recv s)))"
    using buf_bytes_written [OF ok, of "slice_of_length (m_read_pos (rq_recv s)) 1"] by (simp add: slice_of_length_def non_read_def unread_def)
  then show ?thesis using n assms(2,3)
    by (cases "handle_received_data_ascii env s") (auto simp: stream_handle_data_def handle_received_data_def)
qed

lemma op_letter: obtains b bs where "op_bytes op = b # bs" and "b \<noteq> MAGIC"
  by (cases op) (auto simp: get_request_def set_request_def delete_request_def ascii_def MAGIC_def)

lemma value_answered:
  assumes "sendable_key k"
  shows "answered_value (value_reply k v @ ascii ''END'' @ CRLF) = Some (v_value v)"
proof -
  define h where "h = ascii ''VALUE '' @ k @ SPACE # decimal (unat (v_flags v)) @ SPACE # decimal (length (v_value v))"
  have h: "13 \<notin> set h" using assms digits_plain by (auto simp: h_def ascii_def SPACE_def sendable_key_def)
  have e: "value_reply k v @ ascii ''END'' @ CRLF = h @ CRLF @ v_value v @ CRLF @ ascii ''END'' @ CRLF" by (simp add: value_reply_def h_def)
  have "take 6 (value_reply k v @ ascii ''END'' @ CRLF) = ascii ''VALUE ''" by (simp add: value_reply_def ascii_def)
  moreover have "length CRLF = 2" by (simp add: CRLF_def)
  ultimately show ?thesis by (simp add: answered_value_def e find_crlf [OF h])
qed

lemma end_answered: "answered_value (ascii ''END'' @ CRLF) = None"
  by (simp add: answered_value_def ascii_def CRLF_def)


section \<open>Room for the values\<close>

text \<open>A block lies in one page, so a cached value fits every buffer that may grow to the size of a page and some more.\<close>

lemma held_in_page:
  assumes "mem_inv m A" and "(p, s) \<in> A"
  shows "s + 8 \<le> page_size m"
proof -
  obtain pre xs ys post where r: "mem_rep m (pre @ (xs @ (s, True) # ys) # post)" by (rule mem_inv_held [OF assms])
  then have "total (xs @ (s, True) # ys) = page_size m" using mem_okD(3) by (fastforce simp: mem_rep_def)
  then show ?thesis by (simp add: total_append)
qed

lemma cached_value_bound:
  assumes "cache_ok P hf {} c" and "contents c k = Some v"
  shows "length (v_value v) + length k + 8 \<le> P"
proof -
  obtain A where rep: "cache_rep P hf {} c A" using assms(1) by (auto simp: cache_ok_def)
  obtain p where p: "cached c k = Some p" "v = item_view (c_mem c) p" using assms(2) by (auto simp: contents_def)
  obtain s where s: "(p, s) \<in> A" using cached_item(5) [OF rep p(1)] by blast
  have "item_fits (c_mem c) p s" using cache_repD(6) [OF rep] s by (auto simp: items_ok_def)
  moreover have "s + 8 \<le> P" using held_in_page [OF cache_repD(1) [OF rep] s] cache_repD(7) [OF rep] by simp
  moreover have "length (v_value v) = unat (m_value_length (items (c_mem c) p))" "length k = unat (m_key_length (items (c_mem c) p))"
    using cached_item(1) [OF rep p(1)] p(2) by (auto simp: item_view_def item_value_def item_key_def)
  ultimately show ?thesis by (simp add: item_fits_def sizeof_Item_def)
qed


section \<open>A request on any connection\<close>

lemma env_readyD:
  assumes "env_ready P env c k"
  shows "env_memory env" and "env_page_size env = P" and "P < 2 ^ 32" and "sendable_key k" and "ready (env_fresh env) c k" and "length k \<le> 250"
  using assms by (simp_all add: env_ready_def sendable_key_def max_key_length_def)

lemma get_handled:
  assumes s: "bufs_ok s" and c: "cache_ok P calc_hash {} (rq_cache s)" and rd: "env_ready P env (rq_cache s) k" and room: "reply_room P env (rq_send s)"
    and u: "unread (rq_recv s) = get_request k"
  shows "\<exists>s' reply. handle_received_data_ascii env s = Some (SEND_REPLY_AND_READ, s') \<and> unread (rq_recv s') = [] \<and> cache_ok P calc_hash {} (rq_cache s')
    \<and> written (rq_send s') = written (rq_send s) @ reply \<and> answer_law (api_stored (rq_cache s)) (Op_get k) (Got (answered_value reply)) (api_stored (rq_cache s'))"
proof -
  note r = env_readyD [OF rd]
  let ?lv = "live (env_clk env 0) (rq_cache s) k"
  have len: "m_write_pos (rq_send s) + 40 + length k + (case ?lv of None \<Rightarrow> 0 | Some v \<Rightarrow> length (v_value v)) \<le> m_max_size (rq_send s)"
    using room r(6) cached_value_bound [OF c] live_stored [of "env_clk env 0" "rq_cache s" k] unfolding reply_room_def by (cases ?lv) fastforce+
  have u': "unread (rq_recv s) = get_request k @ []" using u by simp
  define reply where "reply = (case ?lv of None \<Rightarrow> [] | Some v \<Rightarrow> value_reply k v) @ ascii ''END'' @ CRLF"
  obtain s' where s': "handle_received_data_ascii env s = Some (SEND_REPLY_AND_READ, s')" "unread (rq_recv s') = []" "cache_ok P calc_hash {} (rq_cache s')"
      "written (rq_send s') = written (rq_send s) @ reply"
      "contents (rq_cache s') = (if ?lv = None then (contents (rq_cache s))(k := None) else contents (rq_cache s))"
    unfolding reply_def using get_command [OF r(1) s c r(5,4) u' len] by blast
  have a: "answered_value reply = map_option v_value ?lv"
    using value_answered [OF r(4)] end_answered by (cases ?lv) (simp_all add: reply_def)
  have "?lv = None \<or> map_option v_value ?lv = api_stored (rq_cache s) k"
    using live_stored [of "env_clk env 0" "rq_cache s" k] by (cases ?lv) (auto simp: api_stored_def)
  moreover have "api_stored (rq_cache s') = (if ?lv = None then (api_stored (rq_cache s))(k := None) else api_stored (rq_cache s))"
    using s'(5) api_stored_upd(1,2) [of "rq_cache s'" "rq_cache s"] by auto
  ultimately have "answer_law (api_stored (rq_cache s)) (Op_get k) (Got (answered_value reply)) (api_stored (rq_cache s'))" by (simp add: a)
  then show ?thesis using s'(1-4) by blast
qed

lemma put_handled:
  assumes s: "bufs_ok s" and c: "cache_ok P calc_hash {} (rq_cache s)" and rd: "env_ready P env (rq_cache s) k" and room: "reply_room P env (rq_send s)"
    and acc: "session_accepted P k v" and u: "unread (rq_recv s) = set_request k 0 0 v"
  shows "\<exists>s' reply. handle_received_data_ascii env s = Some (SEND_REPLY_AND_READ, s') \<and> unread (rq_recv s') = [] \<and> cache_ok P calc_hash {} (rq_cache s')
    \<and> written (rq_send s') = written (rq_send s) @ reply
    \<and> answer_law (api_stored (rq_cache s)) (Op_put k v) (Done (reply = ascii ''STORED'' @ CRLF)) (api_stored (rq_cache s'))"
proof -
  note r = env_readyD [OF rd]
  have a: "calc_hash k \<noteq> 0" "CalcSizeRequired k (length v) + 8 \<le> P" using acc by (simp_all add: session_accepted_def)
  have u': "unread (rq_recv s) = set_request k 0 0 v @ []" and len: "m_write_pos (rq_send s) + 40 + length (env_bad_alloc env) \<le> m_max_size (rq_send s)"
    using u room by (simp_all add: reply_room_def)
  obtain s' where s': "handle_received_data_ascii env s = Some (SEND_REPLY_AND_READ, s')" "unread (rq_recv s') = []" "cache_ok P calc_hash {} (rq_cache s')"
      "written (rq_send s') = written (rq_send s) @ ascii ''STORED'' @ CRLF \<and> map_option v_value (contents (rq_cache s') k) = Some v
          \<and> (contents (rq_cache s'))(k := None) \<subseteq>\<^sub>m contents (rq_cache s)
        \<or> (\<exists>x. written (rq_send s') = written (rq_send s) @ ascii ''SERVER_ERROR '' @ x) \<and> contents (rq_cache s') \<subseteq>\<^sub>m contents (rq_cache s)"
    using set_command [OF r(1) s c r(5,4) a r(2,3) _ _ u' len] by auto
  from s'(4) show ?thesis
  proof (elim disjE conjE exE)
    assume w: "written (rq_send s') = written (rq_send s) @ ascii ''STORED'' @ CRLF" and k: "map_option v_value (contents (rq_cache s') k) = Some v"
      and o: "(contents (rq_cache s'))(k := None) \<subseteq>\<^sub>m contents (rq_cache s)"
    have "api_stored (rq_cache s') \<subseteq>\<^sub>m (api_stored (rq_cache s))(k \<mapsto> v)" using k o by (auto simp: map_le_def api_stored_def dom_def)
    then show ?thesis using s'(1-3) w by auto
  next
    fix x assume w: "written (rq_send s') = written (rq_send s) @ ascii ''SERVER_ERROR '' @ x" and o: "contents (rq_cache s') \<subseteq>\<^sub>m contents (rq_cache s)"
    have "ascii ''SERVER_ERROR '' @ x \<noteq> ascii ''STORED'' @ CRLF" by (simp add: ascii_def)
    moreover have "api_stored (rq_cache s') \<subseteq>\<^sub>m api_stored (rq_cache s)" using o by (auto simp: map_le_def api_stored_def dom_def)
    ultimately show ?thesis using s'(1-3) w by auto
  qed
qed

lemma del_handled:
  assumes s: "bufs_ok s" and c: "cache_ok P calc_hash {} (rq_cache s)" and rd: "env_ready P env (rq_cache s) k" and room: "reply_room P env (rq_send s)"
    and u: "unread (rq_recv s) = delete_request k"
  shows "\<exists>s' reply. handle_received_data_ascii env s = Some (SEND_REPLY_AND_READ, s') \<and> unread (rq_recv s') = [] \<and> cache_ok P calc_hash {} (rq_cache s')
    \<and> written (rq_send s') = written (rq_send s) @ reply
    \<and> answer_law (api_stored (rq_cache s)) (Op_del k) (Done (reply = ascii ''DELETED'' @ CRLF)) (api_stored (rq_cache s'))"
proof -
  note r = env_readyD [OF rd]
  let ?lv = "live (env_clk env 0) (rq_cache s) k"
  have u': "unread (rq_recv s) = delete_request k @ []" and len: "m_write_pos (rq_send s) + 16 \<le> m_max_size (rq_send s)"
    using u room by (simp_all add: reply_room_def)
  obtain s' where s': "handle_received_data_ascii env s = Some (SEND_REPLY_AND_READ, s')" "unread (rq_recv s') = []" "cache_ok P calc_hash {} (rq_cache s')"
      "contents (rq_cache s') = (contents (rq_cache s))(k := None)"
      "written (rq_send s') = written (rq_send s) @ AsciiResponse (if ?lv = None then NOT_FOUND else DELETED) @ CRLF"
    by (rule delete_command [OF r(1) s c r(5,4) u' len])
  have "AsciiResponse NOT_FOUND @ CRLF \<noteq> ascii ''DELETED'' @ CRLF" "AsciiResponse DELETED = ascii ''DELETED''" by code_simp+
  then have d: "AsciiResponse (if ?lv = None then NOT_FOUND else DELETED) @ CRLF = ascii ''DELETED'' @ CRLF \<longleftrightarrow> ?lv \<noteq> None" by simp
  have "?lv \<noteq> None \<longrightarrow> api_stored (rq_cache s) k \<noteq> None" using live_stored [of "env_clk env 0" "rq_cache s" k] by (auto simp: api_stored_def)
  then have "answer_law (api_stored (rq_cache s)) (Op_del k) (Done (AsciiResponse (if ?lv = None then NOT_FOUND else DELETED) @ CRLF = ascii ''DELETED'' @ CRLF)) (api_stored (rq_cache s'))"
    unfolding d using api_stored_upd(2) [OF s'(4)] by simp
  then show ?thesis using s'(1-3,5) by blast
qed

lemma op_handled:
  assumes s: "bufs_ok s" and c: "cache_ok P calc_hash {} (rq_cache s)" and rd: "env_ready P env (rq_cache s) (op_key op)"
    and acc: "op_accepted (session_accepted P) op" and room: "reply_room P env (rq_send s)" and u: "unread (rq_recv s) = op_bytes op"
  obtains s' reply where "stream_handle_data env s = Some (SEND_REPLY_AND_READ, s')" and "unread (rq_recv s') = []" and "cache_ok P calc_hash {} (rq_cache s')"
    and "written (rq_send s') = written (rq_send s) @ reply" and "answer_law (api_stored (rq_cache s)) op (op_answer op reply) (api_stored (rq_cache s'))"
proof -
  obtain b bs where b: "op_bytes op = b # bs" "b \<noteq> MAGIC" by (rule op_letter)
  have t: "stream_handle_data env s = handle_received_data_ascii env s" using letter_is_text [OF s _ b(2)] b(1) u by simp
  have "\<exists>s' reply. handle_received_data_ascii env s = Some (SEND_REPLY_AND_READ, s') \<and> unread (rq_recv s') = [] \<and> cache_ok P calc_hash {} (rq_cache s')
      \<and> written (rq_send s') = written (rq_send s) @ reply \<and> answer_law (api_stored (rq_cache s)) op (op_answer op reply) (api_stored (rq_cache s'))"
    by (cases op) (use get_handled [OF s c _ room] put_handled [OF s c _ room] del_handled [OF s c _ room] rd acc u in simp_all)
  then show ?thesis using that t by auto
qed

section \<open>What the client sees\<close>

lemma op_length: "length (op_bytes op) \<le> M" if "session_ready P M env c (op_key op)" and "op_accepted (session_accepted P) op"
proof -
  note r = env_readyD [of P env c "op_key op"]
  have k: "length (op_key op) \<le> 250" "P < 2 ^ 32" "P + 1000 \<le> M" using that(1) r by (simp_all add: session_ready_def)
  show ?thesis
  proof (cases op)
    case (Op_put k v)
    have a: "CalcSizeRequired k (length v) + 8 \<le> P" using that(2) Op_put by (simp add: session_accepted_def)
    then have "length v < 10 ^ 19" using k(2) by (simp add: CalcSizeRequired_def)
    then have "length (decimal (length v)) \<le> 19" by (rule length_decimal) simp
    moreover have "length (decimal 0) \<le> 1" by (rule length_decimal) simp_all
    ultimately show ?thesis using k a Op_put by (simp add: set_request_def ascii_def CRLF_def CalcSizeRequired_def)
  qed (use k in \<open>simp_all add: get_request_def delete_request_def ascii_def CRLF_def\<close>)
qed

lemma exchange_ok:
  assumes c: "cache_ok P calc_hash {} c" and rd: "session_ready P M env c (op_key op)" and acc: "op_accepted (session_accepted P) op"
  obtains reply c' where "exchange M env (op_bytes op) c = Some (reply, c')" and "cache_ok P calc_hash {} c'"
    and "answer_law (api_stored c) op (op_answer op reply) (api_stored c')"
proof -
  let ?s = "session_request M (op_bytes op) c"
  have h: "bufs_ok ?s" "cache_ok P calc_hash {} (rq_cache ?s)" "env_ready P env (rq_cache ?s) (op_key op)" "reply_room P env (rq_send ?s)" "unread (rq_recv ?s) = op_bytes op"
    using session_ok [OF op_length [OF rd acc]] c rd by (simp_all add: session_ready_def reply_room_def)
  obtain s' reply where "stream_handle_data env ?s = Some (SEND_REPLY_AND_READ, s')" "cache_ok P calc_hash {} (rq_cache s')"
      "written (rq_send s') = written (rq_send ?s) @ reply" "answer_law (api_stored (rq_cache ?s)) op (op_answer op reply) (api_stored (rq_cache s'))"
    by (rule op_handled [OF h(1-3) acc h(4,5)])
  then show ?thesis using that [of reply "rq_cache s'"] by (simp add: exchange_def)
qed

interpretation session: honest_cache "cache_ok P calc_hash {}" api_stored "session_ready P M" "session_accepted P"
    "client_get M" "client_put M" "client_del M"
  for P M
proof unfold_locales
  fix c :: "'b cache" and env :: server_env and k v
  assume ok: "cache_ok P calc_hash {} c" and rd: "session_ready P M env c k"
  note ex = exchange_ok [where op = "Op_get k", OF ok] exchange_ok [where op = "Op_del k", OF ok] exchange_ok [where op = "Op_put k v", OF ok]
  show "\<exists>r s'. client_get M env c k = Some (r, s') \<and> cache_ok P calc_hash {} s' \<and> (r = None \<or> r = api_stored c k)
      \<and> api_stored s' \<subseteq>\<^sub>m (if r = None then (api_stored c)(k := None) else api_stored c)"
  proof (rule ex(1))
    fix reply c' assume "exchange M env (op_bytes (Op_get k)) c = Some (reply, c')" "cache_ok P calc_hash {} c'"
      "answer_law (api_stored c) (Op_get k) (op_answer (Op_get k) reply) (api_stored c')"
    then show ?thesis by (intro exI [of _ "answered_value reply"] exI [of _ c']) (simp add: client_get_def)
  qed (use rd in simp_all)
  show "\<exists>b s'. client_del M env c k = Some (b, s') \<and> cache_ok P calc_hash {} s' \<and> (b \<longrightarrow> api_stored c k \<noteq> None)
      \<and> api_stored s' \<subseteq>\<^sub>m (api_stored c)(k := None)"
  proof (rule ex(2))
    fix reply c' assume "exchange M env (op_bytes (Op_del k)) c = Some (reply, c')" "cache_ok P calc_hash {} c'"
      "answer_law (api_stored c) (Op_del k) (op_answer (Op_del k) reply) (api_stored c')"
    then show ?thesis by (intro exI [of _ "reply = ascii ''DELETED'' @ CRLF"] exI [of _ c']) (simp add: client_del_def)
  qed (use rd in simp_all)
  assume acc: "session_accepted P k v"
  show "\<exists>b s'. client_put M env c k v = Some (b, s') \<and> cache_ok P calc_hash {} s'
      \<and> api_stored s' \<subseteq>\<^sub>m (if b then (api_stored c)(k \<mapsto> v) else api_stored c)"
  proof (rule ex(3))
    fix reply c' assume "exchange M env (op_bytes (Op_put k v)) c = Some (reply, c')" "cache_ok P calc_hash {} c'"
      "answer_law (api_stored c) (Op_put k v) (op_answer (Op_put k v) reply) (api_stored c')"
    then show ?thesis by (intro exI [of _ "reply = ascii ''STORED'' @ CRLF"] exI [of _ c']) (simp add: client_put_def)
  qed (use rd acc in simp_all)
qed

section \<open>Properties\<close>



end
