(* ===== verification/Server_Clients.thy ===== *)
theory Server_Clients imports Server Proto_Session begin

text \<open>
  Many clients of one server. Each sends \<^verbatim>\<open>get\<close>, \<^verbatim>\<open>set\<close> and \<^verbatim>\<open>delete\<close> requests on its own connection, in pieces as they arrive, and waits
  for the replies; the requests of all clients, in the order in which the server handles them, are one history of the shared cache.
\<close>

section \<open>Conversations\<close>

text \<open>A run with the history of the operations that were answered, on whatever connection, each with the answer read out of the bytes
  added for it. Bytes that do not yet make a whole request are part of no operation.\<close>

inductive talk :: "net_settings \<Rightarrow> nat \<Rightarrow> 'u server \<Rightarrow> (byte_op \<times> u8 list answer) list \<Rightarrow> 'u server \<Rightarrow> bool" for net P where
  silent: "talk net P sv [] sv"
| answered: "server_step stream_handle_data net env sv (On_connection i (Received bs)) sv1 \<Longrightarrow> cn_writes (sv_connections sv ! i) = []
    \<Longrightarrow> env_ready P env (sv_cache sv) (op_key op) \<Longrightarrow> op_accepted (session_accepted P) op \<Longrightarrow> reply_room P env (rq_send (cn_request (sv_connections sv ! i)))
    \<Longrightarrow> unread (rq_recv (cn_request (sv_connections sv ! i))) @ bs = op_bytes op \<Longrightarrow> talk net P sv1 tr sv2
    \<Longrightarrow> talk net P sv ((op, op_answer op (added i sv sv1)) # tr) sv2"
| piece: "server_step stream_handle_data net env sv (On_connection i (Received bs)) sv1 \<Longrightarrow> cn_writes (sv_connections sv ! i) = [] \<Longrightarrow> env_memory env
    \<Longrightarrow> unread (rq_recv (cn_request (sv_connections sv ! i))) @ bs = b # u \<Longrightarrow> b \<noteq> MAGIC \<Longrightarrow> incomplete env (b # u)
    \<Longrightarrow> m_write_pos (rq_recv (cn_request (sv_connections sv ! i))) + length bs + env_page_size env + 2 \<le> m_max_size (rq_recv (cn_request (sv_connections sv ! i)))
    \<Longrightarrow> talk net P sv1 tr sv2 \<Longrightarrow> talk net P sv tr sv2"
| progress: "server_step stream_handle_data net env sv (On_connection i e) sv1 \<Longrightarrow> e \<in> {Receive_failed, Transmitted j k, Sent j} \<Longrightarrow> env_memory env
    \<Longrightarrow> talk net P sv1 tr sv2 \<Longrightarrow> talk net P sv tr sv2"
| aside: "server_step stream_handle_data net env sv e sv1 \<Longrightarrow> e \<in> {Accept j error, Posted j, Datagram_sent j, Signal b n} \<Longrightarrow> env_memory env
    \<Longrightarrow> talk net P sv1 tr sv2 \<Longrightarrow> talk net P sv tr sv2"

section \<open>The state between two events\<close>

definition server_ok :: "net_settings \<Rightarrow> 'u server \<Rightarrow> bool" where
  "server_ok net sv \<longleftrightarrow> next_ok net sv \<and> (\<forall>i < length (sv_connections sv). conn_ok (view sv i))"

lemma with_cache_ok: "conn_ok (with_cache ca c) = conn_ok c"
  by (cases "cn_writes c") (simp_all add: with_cache_def conn_ok_def bufs_ok_def)

lemma view_ok: "conn_ok (view sv i) = conn_ok (sv_connections sv ! i)"
  by (simp add: view_def with_cache_ok)

text \<open>One step of a connection keeps its invariant, when the client waits.\<close>

lemma polite_step:
  assumes "conn_ok c" and "env_memory env" and "conn_step stream_handle_data env c e c'"
    and "(\<exists>bs. e = Received bs) \<and> cn_writes c = [] \<or> (\<exists>j k. e \<in> {Receive_failed, Transmitted j k, Sent j})"
  shows "conn_ok c'"
  using assms(4)
proof (elim disjE conjE exE)
  fix bs assume e: "e = Received bs" and w: "cn_writes c = []"
  have r: "cn_reading c" "length bs \<le> available (rq_recv (cn_request c))" "on_received stream_handle_data env No_error bs c = Some c'"
    using assms(3) e by (auto elim: conn_stepE)
  show ?thesis by (rule stream_conversation.received_ok(1) [OF assms(2,1) w r])
next
  fix j k assume "e \<in> {Receive_failed, Transmitted j k, Sent j}"
  then have "turns stream_handle_data c [] c'" using other [OF idle assms(2) _ assms(3), of j k] by auto
  then show ?thesis using stream_conversation.turns_ok [OF assms(1)] by blast
qed

lemma connection_keeps_ok:
  assumes "server_ok net sv" and "server_step stream_handle_data net env sv (On_connection i e) sv'" and "env_memory env"
    and "(\<exists>bs. e = Received bs) \<and> cn_writes (sv_connections sv ! i) = [] \<or> (\<exists>j k. e \<in> {Receive_failed, Transmitted j k, Sent j})"
  shows "server_ok net sv'"
proof -
  note st = connection_stepped [OF assms(2)]
  have "conn_ok (view sv' i)" by (rule polite_step [OF _ assms(3) st(1)]) (use assms(1,4) st(4) in \<open>simp_all add: server_ok_def\<close>)
  moreover have "sv_acceptors sv' = sv_acceptors sv" using assms(2) by (auto elim: server_stepE)
  ultimately show ?thesis using assms(1) st(2,3) by (auto simp: server_ok_def next_ok_def view_ok) metis
qed

lemma aside_keeps_ok:
  assumes "server_ok net sv" and "server_step stream_handle_data net env sv e sv'" and "env_memory env" and "e \<in> {Accept j error, Posted j, Datagram_sent j, Signal b n}"
  shows "server_ok net sv'" and "sv_cache sv' = sv_cache sv"
proof -
  have n: "next_ok net sv" and e: "\<forall>i c. e \<noteq> On_connection i c" using assms(1,4) by (auto simp: server_ok_def)
  note st = outer_step [OF assms(2) e assms(3) n]
  have old: "conn_ok (sv_connections sv ! l)" if "l < length (sv_connections sv)" for l
    using assms(1) that by (simp add: server_ok_def view_ok)
  have "\<forall>c \<in> set (sv_connections sv). conn_ok c" using old by (metis in_set_conv_nth)
  then have "\<forall>c \<in> set (sv_connections sv'). conn_ok c" using st(2) born_ok(1) [of net] by auto
  then show "server_ok net sv'" using st(1) by (simp add: server_ok_def view_ok)
  show "sv_cache sv' = sv_cache sv"
    using assms(2,4) by (auto simp: on_accepted_def connection_start_def on_posted_def on_signal_def Let_def
        split: if_splits signal.splits elim!: server_stepE async_accept_cases)
qed

section \<open>One history\<close>

text \<open>The bytes of a request have arrived on a connection; what the handler of the connection then sees.\<close>

lemma view_received:
  assumes ok: "server_ok net sv" and st: "server_step stream_handle_data net env sv (On_connection i (Received bs)) sv'" and env: "env_memory env"
  obtains r s where "confirm_received bs (cn_request (view sv i)) = Some s" and "s = (cn_request (view sv i))\<lparr>rq_recv := r\<rparr>" and "bufs_ok s"
    and "unread r = unread (rq_recv (cn_request (sv_connections sv ! i))) @ bs" and "rq_cache s = sv_cache sv"
    and "rq_send s = rq_send (cn_request (sv_connections sv ! i))"
    and "m_max_size r = m_max_size (rq_recv (cn_request (sv_connections sv ! i)))"
    and "m_write_pos r = m_write_pos (rq_recv (cn_request (sv_connections sv ! i))) + length bs"
    and "on_received stream_handle_data env No_error bs (view sv i) = Some (view sv' i)"
proof -
  note stp = connection_stepped [OF st]
  have b: "bufs_ok (cn_request (view sv i))" using ok stp(4) by (simp add: server_ok_def conn_ok_def)
  have r: "length bs \<le> available (rq_recv (cn_request (view sv i)))" "on_received stream_handle_data env No_error bs (view sv i) = Some (view sv' i)"
    using stp(1) by (auto elim: conn_stepE)
  have eq: "rq_recv (cn_request (view sv i)) = rq_recv (cn_request (sv_connections sv ! i))" "rq_cache (cn_request (view sv i)) = sv_cache sv"
    by (simp_all add: view_def with_cache_def)
  obtain x where "confirm_received bs (cn_request (view sv i)) = Some ((cn_request (view sv i))\<lparr>rq_recv := x\<rparr>)" "buffer_ok x"
      "unread x = unread (rq_recv (cn_request (view sv i))) @ bs" "m_max_size x = m_max_size (rq_recv (cn_request (view sv i)))"
      "m_write_pos x = m_write_pos (rq_recv (cn_request (view sv i))) + length bs"
    by (rule confirm_received_ok [OF env b r(1)])
  then show ?thesis using that [of "(cn_request (view sv i))\<lparr>rq_recv := x\<rparr>" x] b r(2) eq by (simp add: bufs_ok_def)
qed

lemma answered_step:
  assumes ok: "server_ok net sv" and c: "cache_ok P calc_hash {} (sv_cache sv)" and st: "server_step stream_handle_data net env sv (On_connection i (Received bs)) sv'"
    and rd: "env_ready P env (sv_cache sv) (op_key op)" and acc: "op_accepted (session_accepted P) op"
    and room: "reply_room P env (rq_send (cn_request (sv_connections sv ! i)))" and u: "unread (rq_recv (cn_request (sv_connections sv ! i))) @ bs = op_bytes op"
  shows "cache_ok P calc_hash {} (sv_cache sv')" and "answer_law (api_stored (sv_cache sv)) op (op_answer op (added i sv sv')) (api_stored (sv_cache sv'))"
proof -
  note env = env_readyD(1) [OF rd]
  obtain r s where s: "confirm_received bs (cn_request (view sv i)) = Some s" "s = (cn_request (view sv i))\<lparr>rq_recv := r\<rparr>" "bufs_ok s"
      "unread r = unread (rq_recv (cn_request (sv_connections sv ! i))) @ bs" "rq_cache s = sv_cache sv"
      "rq_send s = rq_send (cn_request (sv_connections sv ! i))" "on_received stream_handle_data env No_error bs (view sv i) = Some (view sv' i)"
    by (rule view_received [OF ok st env])
  have h: "cache_ok P calc_hash {} (rq_cache s)" "env_ready P env (rq_cache s) (op_key op)" "reply_room P env (rq_send s)" "unread (rq_recv s) = op_bytes op"
    using c rd room s(2,4-6) u by simp_all
  obtain s' reply where s': "stream_handle_data env s = Some (SEND_REPLY_AND_READ, s')" "cache_ok P calc_hash {} (rq_cache s')"
      "written (rq_send s') = written (rq_send s) @ reply" "answer_law (api_stored (rq_cache s)) op (op_answer op reply) (api_stored (rq_cache s'))"
    by (rule op_handled [OF s(3) h(1,2) acc h(3,4)])
  note out = received_outcome [OF s(7,1) s'(1)]
  have ca: "sv_cache sv' = rq_cache s'" using out(1) by (simp add: view_def with_cache_def)
  have "m_read_pos (rq_send s') = m_read_pos (rq_send s)" using stream_replied [OF env s(3) s'(1)] by (simp add: well_replied_def)
  moreover have "buffer_ok (rq_send s)" using s(3) by (simp add: bufs_ok_def)
  ultimately have "unread (rq_send s') = unread (rq_send s) @ reply" using unread_written [of "rq_send s" "rq_send s'" reply] s'(3) by simp
  then have "added i sv sv' = reply" using out(2) s(6) by (simp add: added_def)
  then show "cache_ok P calc_hash {} (sv_cache sv')" "answer_law (api_stored (sv_cache sv)) op (op_answer op (added i sv sv')) (api_stored (sv_cache sv'))"
    using s'(2,4) ca s(5) by simp_all
qed

lemma piece_step:
  assumes ok: "server_ok net sv" and st: "server_step stream_handle_data net env sv (On_connection i (Received bs)) sv'" and env: "env_memory env"
    and u: "unread (rq_recv (cn_request (sv_connections sv ! i))) @ bs = b # u" "b \<noteq> MAGIC" "incomplete env (b # u)"
    and room: "m_write_pos (rq_recv (cn_request (sv_connections sv ! i))) + length bs + env_page_size env + 2 \<le> m_max_size (rq_recv (cn_request (sv_connections sv ! i)))"
  shows "sv_cache sv' = sv_cache sv"
proof -
  obtain r s where s: "confirm_received bs (cn_request (view sv i)) = Some s" "s = (cn_request (view sv i))\<lparr>rq_recv := r\<rparr>" "bufs_ok s"
      "unread r = unread (rq_recv (cn_request (sv_connections sv ! i))) @ bs" "rq_cache s = sv_cache sv"
      "m_max_size r = m_max_size (rq_recv (cn_request (sv_connections sv ! i)))"
      "m_write_pos r = m_write_pos (rq_recv (cn_request (sv_connections sv ! i))) + length bs"
      "on_received stream_handle_data env No_error bs (view sv i) = Some (view sv' i)"
    by (rule view_received [OF ok st env])
  have h: "unread (rq_recv s) = b # u" "m_write_pos (rq_recv s) + env_page_size env + length CRLF \<le> m_max_size (rq_recv s)"
    using s(2,4,6,7) u(1) room by (simp_all add: CRLF_def)
  then have "\<exists>x. handle_received_data_ascii env s = Some (READ_MORE, s\<lparr>rq_recv := x\<rparr>)" using incomplete_waits [OF env s(3)] u(3) by auto
  then obtain x where "stream_handle_data env s = Some (READ_MORE, s\<lparr>rq_recv := x\<rparr>)" using letter_is_text [OF s(3) h(1) u(2), of env] by auto
  from received_outcome(1) [OF s(8,1) this] show ?thesis using s(5) by (simp add: view_def with_cache_def)
qed

lemma progress_keeps_cache:
  "conn_step handle_data env c e c' \<Longrightarrow> e \<in> {Receive_failed, Transmitted j k, Sent j} \<Longrightarrow> rq_cache (cn_request c') = rq_cache (cn_request c)"
  by (auto simp: on_received_def on_sent_def elim!: conn_stepE)

lemma progress_step:
  assumes "server_step stream_handle_data net env sv (On_connection i e) sv'" and "e \<in> {Receive_failed, Transmitted j k, Sent j}"
  shows "sv_cache sv' = sv_cache sv"
  using progress_keeps_cache [OF connection_stepped(1) [OF assms(1)] assms(2)] by (simp add: view_def with_cache_def)

lemma talk_truthful:
  assumes "talk net P sv tr sv'" and "server_ok net sv" and "cache_ok P calc_hash {} (sv_cache sv)" and "api_stored (sv_cache sv) \<subseteq>\<^sub>m g"
  shows "truthful g tr"
  using assms
proof (induction arbitrary: g rule: talk.induct)
  case (answered env sv i bs sv1 op tr sv2)
  note a = answered_step [OF answered.prems(1,2) answered.hyps(1,3-6)]
  obtain g1 where g1: "api_stored (sv_cache sv1) \<subseteq>\<^sub>m g1" "\<forall>tr. truthful g1 tr \<longrightarrow> truthful g ((op, op_answer op (added i sv sv1)) # tr)"
    by (rule answer_law_truthful [OF a(2) answered.prems(3)])
  have "server_ok net sv1" by (rule connection_keeps_ok [OF answered.prems(1) answered.hyps(1) env_readyD(1) [OF answered.hyps(3)]]) (use answered.hyps(2) in simp)
  then show ?case using answered.IH [OF _ a(1) g1(1)] g1(2) by blast
next
  case (piece env sv i bs sv1 b u tr sv2)
  have "server_ok net sv1" by (rule connection_keeps_ok [OF piece.prems(1) piece.hyps(1,3)]) (use piece.hyps(2) in simp)
  then show ?case using piece.IH piece.prems piece_step [OF piece.prems(1) piece.hyps(1,3-7)] by simp
next
  case (progress env sv i e sv1 j k tr sv2)
  have "server_ok net sv1" by (rule connection_keeps_ok [OF progress.prems(1) progress.hyps(1,3)]) (use progress.hyps(2) in blast)
  then show ?case using progress.IH progress.prems progress_step [OF progress.hyps(1,2)] by simp
next
  case (aside env sv e sv1 j error b n tr sv2)
  note a = aside_keeps_ok [OF aside.prems(1) aside.hyps(1,3,2)]
  then show ?case using aside.IH aside.prems by simp
qed simp

lemma main_servers_cache:
  assumes "main_servers memory memory' env net the_cache = Some (Inr sv)"
  shows "sv_cache sv = the_cache"
  using assms
  by (auto simp: main_servers_def next_server_def stream_server_start_def datagram_server_start_def Let_def
      split: option.splits sum.splits if_splits elim!: async_accept_cases)

text \<open>A whole request that arrives is handled and the next read begins.\<close>

lemma request_runs:
  assumes ok: "server_ok net sv" and c: "cache_ok P calc_hash {} (sv_cache sv)" and run: "\<not> sv_stopped sv" "i < length (sv_connections sv)" "cn_reading (sv_connections sv ! i)"
    and rd: "env_ready P env (sv_cache sv) (op_key op)" and acc: "op_accepted (session_accepted P) op"
    and room: "reply_room P env (rq_send (cn_request (sv_connections sv ! i)))" "default_min_buffer_size \<le> m_max_size (rq_recv (cn_request (sv_connections sv ! i)))"
    and bs: "bs \<noteq> []" "length bs \<le> available (rq_recv (cn_request (sv_connections sv ! i)))" "unread (rq_recv (cn_request (sv_connections sv ! i))) @ bs = op_bytes op"
  shows "\<exists>sv'. server_step stream_handle_data net env sv (On_connection i (Received bs)) sv'"
proof -
  note env = env_readyD(1) [OF rd]
  let ?q = "cn_request (view sv i)"
  have eq: "rq_recv ?q = rq_recv (cn_request (sv_connections sv ! i))" "rq_cache ?q = sv_cache sv" by (simp_all add: view_def with_cache_def)
  have q: "bufs_ok ?q" "length bs \<le> available (rq_recv ?q)" using ok run(2) bs(2) eq by (simp_all add: server_ok_def conn_ok_def)
  obtain x where x: "confirm_received bs ?q = Some (?q\<lparr>rq_recv := x\<rparr>)" "buffer_ok x" "unread x = unread (rq_recv ?q) @ bs" "m_max_size x = m_max_size (rq_recv ?q)"
    by (rule confirm_received_ok [OF env q])
  let ?s = "?q\<lparr>rq_recv := x\<rparr>"
  have h: "bufs_ok ?s" "cache_ok P calc_hash {} (rq_cache ?s)" "env_ready P env (rq_cache ?s) (op_key op)" "reply_room P env (rq_send ?s)" "unread (rq_recv ?s) = op_bytes op"
    using q(1) x(2,3) c rd room bs(3) eq by (simp_all add: bufs_ok_def)
  obtain s' where s': "stream_handle_data env ?s = Some (SEND_REPLY_AND_READ, s')" "unread (rq_recv s') = []" by (rule op_handled [OF h(1-3) acc h(4,5)])
  have w: "bufs_ok s'" "m_max_size (rq_recv s') = m_max_size x" using stream_replied [OF env h(1) s'(1)] by (simp_all add: well_replied_def)
  obtain b where b: "compact (rq_recv s') = Some b" "buffer_ok b" "unread b = unread (rq_recv s')" "m_read_pos b = 0" "m_max_size b = m_max_size (rq_recv s')"
    using compact_ok [of "rq_recv s'"] w(1) unfolding bufs_ok_def by metis
  have n: "m_write_pos b = 0" using buffer_okD(6) [OF b(2)] b(3,4) s'(2) by (simp add: non_read_def)
  have "\<exists>c'. async_receive_some env (async_send_all ((view sv i)\<lparr>cn_reading := False, cn_request := s'\<lparr>rq_recv := b\<rparr>\<rparr>)) = Some c'"
  proof -
    have ra: "realloc_ok (env_realloc env)" "\<And>n. env_realloc env n \<noteq> None" using env by (simp_all add: env_memory_def)
    have m: "125 \<le> m_max_size b" using room(2) b(5) w(2) x(4) eq by (simp add: default_min_buffer_size_def)
    from b(2) ra(1) have "\<exists>b'. ensure_capacity (env_realloc env) 125 b = (Inr (), b')"
      by (cases rule: ensure_capacity_ok [where n = 125]) (use m n ra(2) in simp_all)
    then show ?thesis by (auto simp: async_receive_some_def begin_write_def async_send_all_def Let_def default_min_buffer_size_def)
  qed
  then obtain c' where "on_received stream_handle_data env No_error bs (view sv i) = Some c'" using x(1) s'(1) b(1) by (auto simp: on_received_def)
  then have "conn_step stream_handle_data env (view sv i) (Received bs) c'" using q(2) bs(1) run(3) by (intro received) simp_all
  from on_connection [OF run(1,2) _ this] show ?thesis by blast
qed

lemma small_realloc: "env_realloc ((small_env now)\<lparr>env_page_size := P\<rparr>) = (\<lambda>n. Some (replicate n 0))"
  by (simp add: small_env_def)

section \<open>Properties\<close>



end
