(* ===== verification/Memalloc_Check.thy ===== *)
theory Memalloc_Check imports Allocator begin

text \<open>
  The self-check of the allocator, \<^verbatim>\<open>__debug_sanity_check\<close> of \<^verbatim>\<open>memalloc-inl.h\<close>, which debug builds run on the block of every pointer
  that is touched, freed or reallocated: as a predicate, and that it holds whenever it is run.
\<close>

section \<open>The check\<close>

text \<open>The conjunction of the assertions, without those on the markers that only debug builds keep in the header.\<close>

definition debug_sanity_check :: "memalloc \<Rightarrow> nat \<Rightarrow> bool \<Rightarrow> bool" where
  "debug_sanity_check m blk check_neighbours =
     (let h = m_blocks m; (page_begin, page_end) = page_boundaries_from_addr (m_pages m) blk in
      page_begin \<le> blk \<and> blk + size_with_header h blk \<le> page_end
      \<and> (\<not> check_neighbours
         \<or> (page_begin < blk \<longrightarrow> (let left = left_adjacent h blk in right_adjacent h left = blk \<and> page_begin \<le> left))
           \<and> (blk + size_with_header h blk < page_end \<longrightarrow> (let right = right_adjacent h blk in
                left_adjacent h right = blk \<and> right + size_with_header h right \<le> page_end))))"

section \<open>It holds for every block\<close>

text \<open>A block with its neighbours in the same page.\<close>

lemma rep_neighbours:
  assumes "rep h a l (xs @ (s, u) # ys)" and "b = a + total xs"
  shows "h b = \<lparr>b_size = s, b_used = u, b_left = last_off l xs\<rparr>"
    and "xs = xs' @ [(t, v)] \<Longrightarrow> h (b - (t + 8)) = \<lparr>b_size = t, b_used = v, b_left = last_off l xs'\<rparr> \<and> last_off l xs = t + 8"
    and "ys = (t, v) # ys' \<Longrightarrow> h (b + s + 8) = \<lparr>b_size = t, b_used = v, b_left = s + 8\<rparr>"
  using assms by (auto simp: add.assoc)

lemma block_passes:
  assumes ok: "mem_ok {} m (pre @ (xs @ (s, u) # ys) # post)" and blk: "blk = m_arena m + length pre * page_size m + total xs"
  shows "debug_sanity_check m blk True"
proof -
  note f = block_facts [OF ok blk]
  let ?h = "m_blocks m" and ?pb = "m_arena m + length pre * page_size m"
  have "rep ?h (m_arena m) 0 ((concat pre @ xs) @ (s, u) # (ys @ concat post))" using mem_okD(5) [OF ok] by simp
  note n = rep_neighbours [OF this f(8) [symmetric]]
  have swh: "size_with_header ?h blk = s + 8" using n(1) by (simp add: size_with_header_def header_size_def)
  have left: "right_adjacent ?h (left_adjacent ?h blk) = blk \<and> ?pb \<le> left_adjacent ?h blk" if "?pb < blk"
  proof -
    have "xs \<noteq> []" using that blk by auto
    then obtain xs' t v where xs: "xs = xs' @ [(t, v)]" by (metis prod.exhaust rev_exhaust)
    have b: "b_left (?h blk) = t + 8" "?h (blk - (t + 8)) = \<lparr>b_size = t, b_used = v, b_left = last_off 0 (concat pre @ xs')\<rparr>"
      using n(1) n(2) [of "concat pre @ xs'" t v] xs by simp_all
    then have "left_adjacent ?h blk = ?pb + total xs'" using blk xs by (simp add: left_adjacent_def)
    moreover have "?pb + total xs' = blk - (t + 8)" using blk xs by simp
    ultimately show ?thesis using b(2) blk xs by (simp add: right_adjacent_def size_with_header_def header_size_def)
  qed
  have right: "left_adjacent ?h (right_adjacent ?h blk) = blk
      \<and> right_adjacent ?h blk + size_with_header ?h (right_adjacent ?h blk) \<le> ?pb + page_size m" if "blk + (s + 8) < ?pb + page_size m"
  proof -
    have "ys \<noteq> []" using that f(5) by auto
    then obtain t v ys' where ys: "ys = (t, v) # ys'" by (metis neq_Nil_conv prod.exhaust)
    have "?h (blk + s + 8) = \<lparr>b_size = t, b_used = v, b_left = s + 8\<rparr>" using n(3) [of t v "ys' @ concat post"] ys by simp
    then show ?thesis using f(5) ys swh by (simp add: left_adjacent_def right_adjacent_def size_with_header_def header_size_def add.assoc)
  qed
  show ?thesis using left right f(4,5) blk swh by (simp add: debug_sanity_check_def)
qed

lemma held_passes:
  assumes "mem_inv m A" and "(p, s) \<in> A"
  shows "debug_sanity_check m (from_user_ptr p) True"
proof -
  obtain pre xs ys post blk where r: "mem_rep m (pre @ (xs @ (s, True) # ys) # post)" "p = blk + 8" "blk = m_arena m + length pre * page_size m + total xs"
    by (rule mem_inv_held [OF assms])
  then have "mem_ok {} m (pre @ (xs @ (s, True) # ys) # post)" by (simp add: mem_rep_def)
  then show ?thesis using block_passes [OF _ r(3)] r(2) by (simp add: from_user_ptr_def header_size_def)
qed

section \<open>Properties\<close>



end
