(* ===== verification/Random_Strings.thy ===== *)
theory Random_Strings imports Prelude begin

text \<open>
  \<^verbatim>\<open>random.h\<close>, the random numbers and strings of the tests and benchmarks. The draw of \<^verbatim>\<open>std::uniform_int_distribution\<close> from the
  shared engine is an argument: a function of the least and the greatest value and of the state of the engine.
\<close>

section \<open>Random strings\<close>

type_synonym 'g draw = "nat \<Rightarrow> nat \<Rightarrow> 'g \<Rightarrow> nat \<times> 'g"

text \<open>The array of characters that the literal gives, with the final zero.\<close>

definition charset :: string where
  "charset = ''0123456789'' @ ''ABCDEFGHIJKLMNOPQRSTUVWXYZ'' @ ''abcdefghijklmnopqrstuvwxyz'' @ ''!?@#$%^&*()[]<>/|'' @ [CHR 0x5c] @ ''_+=-'' @ [CHR 0x00]"

definition randchar :: "'g draw \<Rightarrow> 'g \<Rightarrow> char \<times> 'g" where
  "randchar draw g = (case draw 0 (length charset - 1) g of (i, g') \<Rightarrow> (charset ! i, g'))"

primrec generate_n :: "nat \<Rightarrow> ('g \<Rightarrow> char \<times> 'g) \<Rightarrow> 'g \<Rightarrow> string \<times> 'g" where
  "generate_n 0 f g = ([], g)"
| "generate_n (Suc n) f g = (case f g of (x, g1) \<Rightarrow> (case generate_n n f g1 of (xs, g2) \<Rightarrow> (x # xs, g2)))"

definition random_string :: "'g draw \<Rightarrow> nat \<Rightarrow> nat \<Rightarrow> 'g \<Rightarrow> string \<times> 'g" where
  "random_string draw minlen maxlen g = (case draw minlen maxlen g of (len, g1) \<Rightarrow> generate_n len (randchar draw) g1)"

section \<open>What comes out\<close>

text \<open>What the library documents: the value is in the closed interval.\<close>

definition uniform :: "'g draw \<Rightarrow> bool" where
  "uniform draw \<longleftrightarrow> (\<forall>a b g. a \<le> b \<longrightarrow> a \<le> fst (draw a b g) \<and> fst (draw a b g) \<le> b)"

lemma uniform_bounds: "uniform draw \<Longrightarrow> a \<le> b \<Longrightarrow> draw a b g = (i, g') \<Longrightarrow> a \<le> i \<and> i \<le> b"
  unfolding uniform_def by (metis fst_conv)

lemma charset_length: "length charset = 85"
  by (simp add: charset_def)

lemma randchar_in: "uniform draw \<Longrightarrow> fst (randchar draw g) \<in> set charset"
  using uniform_bounds [of draw 0 84 g] by (auto simp: randchar_def charset_length split: prod.splits)

lemma generate_n_ok:
  assumes "\<And>g. fst (f g) \<in> A"
  shows "length (fst (generate_n n f g)) = n" and "set (fst (generate_n n f g)) \<subseteq> A"
proof (induction n arbitrary: g)
  case (Suc n)
  {
    case 1
    show ?case using Suc.IH(1) by (auto split: prod.splits) (metis fst_conv)
  next
    case 2
    show ?case using Suc.IH(2) assms by (auto split: prod.splits) (metis fst_conv, metis fst_conv subsetD)
  }
qed simp_all

lemma random_string_ok:
  assumes "uniform draw" and "minlen \<le> maxlen"
  shows "minlen \<le> length (fst (random_string draw minlen maxlen g))" and "length (fst (random_string draw minlen maxlen g)) \<le> maxlen"
    and "set (fst (random_string draw minlen maxlen g)) \<subseteq> set charset"
proof -
  obtain n g1 where d: "draw minlen maxlen g = (n, g1)" by fastforce
  note g = generate_n_ok [of "randchar draw" "set charset" n g1, OF randchar_in [OF assms(1)]]
  show "minlen \<le> length (fst (random_string draw minlen maxlen g))" "length (fst (random_string draw minlen maxlen g)) \<le> maxlen"
    "set (fst (random_string draw minlen maxlen g)) \<subseteq> set charset"
    using uniform_bounds [OF assms d] g d by (simp_all add: random_string_def)
qed

text \<open>The greatest index is that of the final zero: a character that is not one of the alphabet can be drawn.\<close>

theorem random_string_holds_zero:
  assumes "\<And>a b. draw a b g = (b, g)" and "0 < n"
  shows "CHR 0x00 \<in> set (fst (random_string draw n n g))"
proof -
  have "randchar draw g = (CHR 0x00, g)" using assms(1) by (simp add: randchar_def charset_length) (simp add: charset_def)
  then have "generate_n n (randchar draw) g = (replicate n (CHR 0x00), g)" by (induction n) simp_all
  then show ?thesis using assms by (simp add: random_string_def)
qed

end
