(* ===== verification/Spec2Isabelle.thy ===== *)
theory Spec2Isabelle
  imports Server_Clients Memalloc_Check Random_Strings
begin

text \<open>
  A verification library of cachelot, an LRU cache that speaks the protocol of memcached.

  \<^bold>\<open>Parts.\<close> \<^verbatim>\<open>src/src/cachelot\<close> is the cache library. A \<^verbatim>\<open>Cache\<close> keeps its items in the pages of a block
  allocator and finds them through a dictionary, which is one Robin Hood hash table, or two while it expands. Storing an item
  asks the allocator for a block; when no memory is left the allocator empties the least recently used page and tells the
  cache of each block, which unlinks the item. The C API wraps the cache. \<^verbatim>\<open>src/src/server\<close> is the server: a connection
  reads bytes into a buffer, the text protocol takes a command out of it, calls the cache and writes the reply to the send
  buffer, and the connection sends it. Listening sockets, connections and the datagram server share one cache and one event loop.

  \<^bold>\<open>Shared.\<close>
  \<^item> \<open>Prelude\<close>: fixed-size integers, errors as a sum type, the collections of simplification rules, facts on words and lists.
  \<^item> \<open>Bits\<close>: \<^verbatim>\<open>bits.h\<close>. Powers of two, bit scans and alignment are characterised on natural numbers.
  \<^item> \<open>Stats\<close>: the counters of \<^verbatim>\<open>stats.h\<close> with their saturating updates; \<open>Print_Stats\<close>: the text that
    \<^verbatim>\<open>PrintStats\<close> of \<^verbatim>\<open>stats.cpp\<close> writes. \<open>Random_Strings\<close>: \<^verbatim>\<open>random.h\<close>. \<open>Errors\<close>: \<^verbatim>\<open>error.h\<close>.
  \<^item> \<open>Slice\<close>: \<^verbatim>\<open>slice.h\<close> on addresses, each operation related to byte lists, which stand for slices in the server.
  \<^item> \<open>String_Conv\<close>: \<^verbatim>\<open>string_conv.h\<close>. Writing with tables of two and three digits equals the decimal digits; reading gives
    the value or the right error; the round trip.

  \<^bold>\<open>Tables.\<close>
  \<^item> \<open>Map_Spec\<close>: the contract of a table, the locales \<open>kv_store\<close> and \<open>kv_map\<close>.
  \<^item> \<open>Hash_Table\<close>, \<open>Hash_Map\<close>: \<^verbatim>\<open>hash_table.h\<close>. The Robin Hood invariant, every loop with its end, the interpretation of
    \<open>kv_map\<close>, histories of calls against a finite map.
  \<^item> \<open>Dict\<close>, \<open>Dict_Map\<close>: \<^verbatim>\<open>dict.h\<close>. Incremental rehashing keeps the contents and ends; the interpretation of \<open>kv_store\<close>.

  \<^bold>\<open>Memory.\<close>
  \<^item> \<open>Intrusive_List\<close>: \<^verbatim>\<open>intrusive_list.h\<close> as a heap of links, refined to lists (locale \<open>item_list\<close>).
  \<^item> \<open>Pages\<close>, \<open>Free_Blocks\<close>, \<open>Memalloc\<close>: the classes of \<^verbatim>\<open>memalloc-inl.h\<close>. \<open>Memalloc_Layout\<close>, \<open>Memalloc_Ops\<close>, \<open>Memalloc_Evict\<close>,
    \<open>Memalloc_Correct\<close>: the arena is a sequence of chunks per page, and splitting, merging, eviction and reallocation act on it.
  \<^item> \<open>Alloc_Spec\<close>, \<open>Allocator\<close>: the contract \<open>block_allocator\<close> (blocks in use are apart and inside the arena) and its
    interpretation; histories of allocations. \<open>Memalloc_Check\<close>: the self-check of debug builds, which never fails.

  \<^bold>\<open>Cache.\<close>
  \<^item> \<open>Item\<close>: \<^verbatim>\<open>item.h\<close>, the expiration clock and the hash function \<^verbatim>\<open>hash_fnv1a.h\<close>. An item is a structure in a memory followed by
    its key and value.
  \<^item> \<open>Cache\<close>: class \<^verbatim>\<open>Cache\<close> of \<^verbatim>\<open>cache.h\<close>, every command with its error paths. \<open>Cache_Dict\<close>, \<open>Cache_Inv\<close>, \<open>Cache_Steps\<close>,
    \<open>Cache_Commands\<close>, \<open>Cache_Update\<close>: the invariant \<open>cache_ok\<close> (blocks in use are exactly the items of the dictionary and the items
    created and not yet stored) and what each command does to the contents.
  \<^item> \<open>C_Api\<close>, \<open>Cache_Contract\<close>, \<open>Cache_Api\<close>: \<^verbatim>\<open>c_api.cpp\<close>, the contract \<open>honest_cache\<close> (a cache may forget, but never answers with
    anything but what was stored last) and its interpretation on the C functions. \<open>Cache_Props\<close>: the properties.

  \<^bold>\<open>Server.\<close>
  \<^item> \<open>IO_Buffer\<close>: \<^verbatim>\<open>io_buffer.h\<close>, refined to a queue of bytes.
  \<^item> \<open>Memcached\<close>, \<open>Proto_Ascii\<close>: commands, responses and errors, and \<^verbatim>\<open>proto_ascii.cpp\<close> as actions on the two buffers and the cache.
    \<open>Proto_Buffers\<close>: what every handler keeps of the buffers. \<open>Proto_Parse\<close>: requests as a client writes them are read back.
    \<open>Proto_Commands\<close>: \<^verbatim>\<open>get\<close> from bytes to bytes; \<open>Proto_Storage\<close>: one account of \<^verbatim>\<open>set\<close>, \<^verbatim>\<open>add\<close>, \<^verbatim>\<open>replace\<close> and \<^verbatim>\<open>cas\<close> by the response and the
    entry each leaves, \<^verbatim>\<open>delete\<close> and \<^verbatim>\<open>touch\<close>. \<open>Proto_Props\<close>: the properties.
  \<^item> \<open>Conversation\<close>: \<^verbatim>\<open>memcached.cpp\<close>, \<^verbatim>\<open>proto_binary.cpp\<close>, \<^verbatim>\<open>conversation.h\<close> with the frame header of datagrams.
  \<^item> \<open>Connection\<close>: \<^verbatim>\<open>socket_stream.h\<close> and \<^verbatim>\<open>socket_datagram.h\<close>, a step relation over the completions of the asynchronous operations;
    the contract \<open>conversation\<close> of \<^verbatim>\<open>handle_data\<close> and its interpretation on the memcached conversation.
  \<^item> \<open>Settings\<close>: \<^verbatim>\<open>settings.h\<close> and the command line of \<^verbatim>\<open>main.cpp\<close>, up to the creation of the cache.
  \<^item> \<open>Proto_Session\<close>: a client that sends requests as bytes and reads the answers; the second interpretation of \<open>honest_cache\<close>, on what
    the client sees of a server started from an accepted command line.
  \<^item> \<open>Server\<close>: accepting connections (\<^verbatim>\<open>socket_stream.h\<close>), the servers and the signal handler of \<^verbatim>\<open>main.cpp\<close>, and the event loop as a step
    relation over all connections. Seen from one connection a run of the server is a run of \<open>Connection\<close> in which the others happen
    elsewhere, so each client gets exactly its own replies; the listening sockets go on accepting.
  \<^item> \<open>Server_Clients\<close>: all clients together. Their requests, in the order in which the server handles them, are one history of the
    shared cache, and the answers read out of the bytes on all connections are truthful.

  \<^bold>\<open>Conventions.\<close> Exceptions are values of a sum type, with the state they leave behind. \<open>None\<close> is behaviour the language does not
  define, a loop that does not end, or the end of the process; each property says where it cannot happen. Loops are \<open>fun\<close> or
  \<open>function\<close> with a measure, and \<open>partial_function (option)\<close> where the end depends on an invariant; no fuel is used. Addresses are
  natural numbers; 32- and 64-bit quantities that can overflow are words.

  \<^bold>\<open>Arguments.\<close> What the system gives is an argument: the memory returned for arrays and buffers, the arena, the clock, the texts of
  standard exceptions, the parsed options and \<^verbatim>\<open>lexical_cast\<close> of boost, what a random distribution draws, the order in which the socket completes its operations.

  \<^bold>\<open>Limits of the properties.\<close> The properties of the cache suppose that the hash of the key is not 0, that the key is not in the
  secondary table of an expansion (\<open>settled\<close>), an arena of at most 4 GiB and a block of at most a page less its header: outside these
  the code is shown or reported to fail. The order of replies supposes a client that waits for each reply.

  \<^bold>\<open>Not modelled.\<close> Sockets and addresses, and how asio chooses the next event (any order is possible in the model); reading the command
  line (boost); memory for the server objects of \<^verbatim>\<open>main\<close>; \<^verbatim>\<open>is_tail\<close> of the intrusive list, which does not compile; the length helpers
  with floating point logarithms; the other debug assertions; \<^verbatim>\<open>servers.h\<close>, which no file includes.
\<close>

end
